(* ===== verification/Prelude.thy ===== *)
theory Prelude
  imports Main "HOL-Library.Word"
begin

text \<open>
  Shared vocabulary of the development: the types that stand for machine values of the
  C++ sources, the collections the component theories put their rewrite rules into, and the
  facts on lists and options that more than one component needs.
\<close>

section \<open>Types and collections\<close>

text \<open>
  An address identifies an object of the C++ heap. Every pointer of the sources is an
  address (or an optional address where the null pointer is a legal value).
\<close>

type_synonym addr = nat

type_synonym bytes = "char list"

named_theorems rlist_laws \<open>how the operations of rlist.h change the represented sequences\<close>

named_theorems frame_laws \<open>what an operation leaves unchanged\<close>

section \<open>Machine integers\<close>

text \<open>Conversion of a non-negative value to the C++ type \<open>uint32_t\<close>: truncation modulo \<open>2^32\<close>.\<close>

definition to_u32 :: "nat \<Rightarrow> nat" where
  "to_u32 n = n mod 2 ^ 32"

lemma to_u32_small [simp]: "n < 2 ^ 32 \<Longrightarrow> to_u32 n = n"
  by (simp add: to_u32_def)

lemma to_u32_le: "to_u32 n \<le> n"
  by (simp add: to_u32_def)

section \<open>Lists\<close>

lemma in_butlast_or_last: "xs \<noteq> [] \<Longrightarrow> x \<in> set xs \<Longrightarrow> x \<in> set (butlast xs) \<or> x = last xs"
  by (induction xs) (auto split: if_splits)

lemma distinct_last_notin_butlast: "distinct xs \<Longrightarrow> xs \<noteq> [] \<Longrightarrow> last xs \<notin> set (butlast xs)"
  by (metis append_butlast_last_id distinct_append distinct.simps(2) disjoint_iff list.set_intros(1))

lemma disjoint_ends:
  assumes "set xs \<inter> set ys = {}" and "xs \<noteq> []"
  shows "hd xs \<notin> set ys" and "last xs \<notin> set ys"
  using assms by (meson disjoint_iff hd_in_set last_in_set)+

section \<open>Results\<close>

lemma map_sum_eq_Inr: "map_sum f g x = Inr y \<longleftrightarrow> (\<exists>z. x = Inr z \<and> y = g z)"
  by (cases x) auto

end
