(* ===== verification/Rlist.thy ===== *)
theory Rlist
  imports Prelude
begin

text \<open>
  The intrusive doubly linked list of \<open>utils/rlist.h\<close>, on an explicit heap. A node is a
  pair of pointers; a heap maps each address to its node; every function of the header is a
  heap transformer that performs the assignments of the source in the order of the source.
  The predicate \<open>rlist_rep h hd xs\<close> says that the nodes at the addresses \<open>xs\<close> form, in that
  order, the cyclic list whose head is at \<open>hd\<close>. Every operation is shown to act on
  represented sequences as the list operation it stands for.
\<close>

section \<open>Nodes, heaps and the operations\<close>

record rlist =
  rprev :: addr
  rnext :: addr

type_synonym rheap = "addr \<Rightarrow> rlist"

definition set_rprev :: "addr \<Rightarrow> addr \<Rightarrow> rheap \<Rightarrow> rheap" where
  "set_rprev a v h = h(a := (h a)\<lparr>rprev := v\<rparr>)"

definition set_rnext :: "addr \<Rightarrow> addr \<Rightarrow> rheap \<Rightarrow> rheap" where
  "set_rnext a v h = h(a := (h a)\<lparr>rnext := v\<rparr>)"

definition rlist_create :: "addr \<Rightarrow> rheap \<Rightarrow> rheap" where
  "rlist_create lst h = set_rprev lst lst (set_rnext lst lst h)"

definition rlist_add :: "addr \<Rightarrow> addr \<Rightarrow> rheap \<Rightarrow> rheap" where
  "rlist_add head item h =
     (let h = set_rprev item head h;
          h = set_rnext item (rnext (h head)) h;
          h = set_rnext (rprev (h item)) item h
      in set_rprev (rnext (h item)) item h)"

definition rlist_add_tail :: "addr \<Rightarrow> addr \<Rightarrow> rheap \<Rightarrow> rheap" where
  "rlist_add_tail head item h =
     (let h = set_rnext item head h;
          h = set_rprev item (rprev (h head)) h;
          h = set_rnext (rprev (h item)) item h
      in set_rprev (rnext (h item)) item h)"

definition rlist_del :: "addr \<Rightarrow> rheap \<Rightarrow> rheap" where
  "rlist_del item h =
     (let h = set_rnext (rprev (h item)) (rnext (h item)) h;
          h = set_rprev (rnext (h item)) (rprev (h item)) h
      in rlist_create item h)"

definition rlist_shift :: "addr \<Rightarrow> rheap \<Rightarrow> addr \<times> rheap" where
  "rlist_shift head h =
     (let shift = rnext (h head);
          h = set_rnext head (rnext (h shift)) h;
          h = set_rprev (rnext (h shift)) head h;
          h = set_rnext shift shift (set_rprev shift shift h)
      in (shift, h))"

definition rlist_first :: "addr \<Rightarrow> rheap \<Rightarrow> addr" where
  "rlist_first head h = rnext (h head)"

definition rlist_last :: "addr \<Rightarrow> rheap \<Rightarrow> addr" where
  "rlist_last head h = rprev (h head)"

definition rlist_next :: "addr \<Rightarrow> rheap \<Rightarrow> addr" where
  "rlist_next item h = rnext (h item)"

definition rlist_prev :: "addr \<Rightarrow> rheap \<Rightarrow> addr" where
  "rlist_prev item h = rprev (h item)"

definition rlist_shift_tail :: "addr \<Rightarrow> rheap \<Rightarrow> addr \<times> rheap" where
  "rlist_shift_tail head h = (let shift = rprev (h head) in (shift, rlist_del shift h))"

definition rlist_empty :: "addr \<Rightarrow> rheap \<Rightarrow> bool" where
  "rlist_empty item h \<longleftrightarrow> rnext (h item) = rprev (h item) \<and> rnext (h item) = item"

definition rlist_move :: "addr \<Rightarrow> addr \<Rightarrow> rheap \<Rightarrow> rheap" where
  "rlist_move to item h = rlist_add to item (rlist_del item h)"

definition rlist_move_tail :: "addr \<Rightarrow> addr \<Rightarrow> rheap \<Rightarrow> rheap" where
  "rlist_move_tail to item h =
     (let h = set_rnext (rprev (h item)) (rnext (h item)) h;
          h = set_rprev (rnext (h item)) (rprev (h item)) h;
          h = set_rnext item to h;
          h = set_rprev item (rprev (h to)) h;
          h = set_rnext (rprev (h item)) item h
      in set_rprev (rnext (h item)) item h)"

text \<open>The relinking that \<open>rlist_swap\<close> performs once for \<open>lhs\<close> and once for \<open>rhs\<close>.\<close>

definition rlist_relink :: "addr \<Rightarrow> addr \<Rightarrow> rheap \<Rightarrow> rheap" where
  "rlist_relink this other h =
     (let h = (if rnext (h this) = other then set_rnext this this h else h);
          h = set_rprev (rnext (h this)) this h
      in set_rnext (rprev (h this)) this h)"

definition rlist_swap :: "addr \<Rightarrow> addr \<Rightarrow> rheap \<Rightarrow> rheap" where
  "rlist_swap rhs lhs h =
     (let tmp = h rhs;
          h = h(rhs := h lhs);
          h = h(lhs := tmp);
          h = rlist_relink lhs rhs h
      in rlist_relink rhs lhs h)"

definition rlist_splice :: "addr \<Rightarrow> addr \<Rightarrow> rheap \<Rightarrow> rheap" where
  "rlist_splice head1 head2 h =
     (if \<not> rlist_empty head2 h then
        (let h = set_rprev (rnext (h head1)) (rprev (h head2)) h;
             h = set_rnext (rprev (h head2)) (rnext (h head1)) h;
             h = set_rnext head1 (rnext (h head2)) h;
             h = set_rprev (rnext (h head2)) head1 h
         in rlist_create head2 h)
      else h)"

definition rlist_splice_tail :: "addr \<Rightarrow> addr \<Rightarrow> rheap \<Rightarrow> rheap" where
  "rlist_splice_tail head1 head2 h =
     (if \<not> rlist_empty head2 h then
        (let h = set_rnext (rprev (h head1)) (rnext (h head2)) h;
             h = set_rprev (rnext (h head2)) (rprev (h head1)) h;
             h = set_rprev head1 (rprev (h head2)) h;
             h = set_rnext (rprev (h head2)) head1 h
         in rlist_create head2 h)
      else h)"

definition rlist_cut_before :: "addr \<Rightarrow> addr \<Rightarrow> addr \<Rightarrow> rheap \<Rightarrow> rheap" where
  "rlist_cut_before head1 head2 item h =
     (if rnext (h head1) = item then rlist_create head1 h
      else
        (let h = set_rnext head1 (rnext (h head2)) h;
             h = set_rprev (rnext (h head1)) head1 h;
             h = set_rprev head1 (rprev (h item)) h;
             h = set_rnext (rprev (h head1)) head1 h;
             h = set_rnext head2 item h
         in set_rprev item head2 h))"

text \<open>
  The traversal macro \<open>rlist_foreach\<close>: the addresses visited from \<open>item\<close> until the head
  comes back. The loop need not end on a heap that is not a list, so it is an option.
\<close>

partial_function (option) rlist_walk :: "rheap \<Rightarrow> addr \<Rightarrow> addr \<Rightarrow> addr list \<Rightarrow> addr list option" where
  "rlist_walk h head item acc =
     (if item = head then Some (rev acc)
      else rlist_walk h head (rlist_next item h) (item # acc))"

definition rlist_foreach :: "addr \<Rightarrow> rheap \<Rightarrow> addr list option" where
  "rlist_foreach head h = rlist_walk h head (rlist_first head h) []"

partial_function (option) rlist_walk_back :: "rheap \<Rightarrow> addr \<Rightarrow> addr \<Rightarrow> addr list \<Rightarrow> addr list option" where
  "rlist_walk_back h head item acc =
     (if item = head then Some (rev acc)
      else rlist_walk_back h head (rlist_prev item h) (item # acc))"

definition rlist_foreach_reverse :: "addr \<Rightarrow> rheap \<Rightarrow> addr list option" where
  "rlist_foreach_reverse head h = rlist_walk_back h head (rlist_last head h) []"

section \<open>Representation\<close>

definition linked :: "rheap \<Rightarrow> addr \<Rightarrow> addr \<Rightarrow> bool" where
  "linked h a b \<longleftrightarrow> rnext (h a) = b \<and> rprev (h b) = a"

fun chain :: "rheap \<Rightarrow> addr list \<Rightarrow> bool" where
  "chain h (a # b # xs) = (linked h a b \<and> chain h (b # xs))"
| "chain h _ = True"

definition rlist_rep :: "rheap \<Rightarrow> addr \<Rightarrow> addr list \<Rightarrow> bool" where
  "rlist_rep h head xs \<longleftrightarrow> distinct (head # xs) \<and> chain h (head # xs @ [head])"

text \<open>An item that is in no list is linked to itself, as \<open>rlist_create\<close> leaves it.\<close>

abbreviation detached :: "rheap \<Rightarrow> addr \<Rightarrow> bool" where
  "detached h item \<equiv> rlist_rep h item []"

section \<open>Pointers after an operation\<close>

lemma set_rnext_simps [simp]:
  "rnext (set_rnext a v h b) = (if b = a then v else rnext (h b))"
  "rprev (set_rnext a v h b) = rprev (h b)"
  by (auto simp: set_rnext_def)

lemma set_rprev_simps [simp]:
  "rprev (set_rprev a v h b) = (if b = a then v else rprev (h b))"
  "rnext (set_rprev a v h b) = rnext (h b)"
  by (auto simp: set_rprev_def)

lemma chain_Cons: "chain h (a # xs) \<longleftrightarrow> xs = [] \<or> linked h a (hd xs) \<and> chain h xs"
  by (cases xs) auto

lemma chain_append:
  "chain h (xs @ ys) \<longleftrightarrow>
     chain h xs \<and> chain h ys \<and> (xs = [] \<or> ys = [] \<or> linked h (last xs) (hd ys))"
  by (induction xs) (auto simp: chain_Cons)

lemmas chain_simps = chain_Cons chain_append hd_append last_append

lemma chain_cong:
  assumes "\<And>a. a \<in> set (butlast xs) \<Longrightarrow> rnext (h' a) = rnext (h a)"
    and "\<And>a. a \<in> set (tl xs) \<Longrightarrow> rprev (h' a) = rprev (h a)"
  shows "chain h' xs = chain h xs"
  using assms
proof (induction h xs rule: chain.induct)
  case (1 h a b xs)
  have "chain h' (b # xs) = chain h (b # xs)"
    using "1.prems" by (intro "1.IH") (auto dest: list.set_sel(2))
  moreover have "linked h' a b = linked h a b"
    using "1.prems" by (auto simp: linked_def)
  ultimately show ?case by simp
qed simp_all

lemma chain_seg:
  assumes "distinct xs"
    and "\<And>a. a \<in> set xs \<Longrightarrow> a \<noteq> last xs \<Longrightarrow> rnext (h' a) = rnext (h a)"
    and "\<And>a. a \<in> set xs \<Longrightarrow> a \<noteq> hd xs \<Longrightarrow> rprev (h' a) = rprev (h a)"
  shows "chain h' xs = chain h xs"
proof (cases "xs = []")
  case False
  have "a \<noteq> last xs" if "a \<in> set (butlast xs)" for a
    using that distinct_last_notin_butlast [OF assms(1) False] by auto
  moreover have "a \<noteq> hd xs" if "a \<in> set (tl xs)" for a
    using that assms(1) False by (cases xs) auto
  ultimately show ?thesis
    by (intro chain_cong assms) (auto dest: in_set_butlastD list.set_sel(2) [OF False])
qed simp

lemma rlist_rep_Nil [simp]: "rlist_rep h l [] \<longleftrightarrow> rnext (h l) = l \<and> rprev (h l) = l"
  by (auto simp: rlist_rep_def linked_def)

lemma rlist_rep_distinct: "rlist_rep h l xs \<Longrightarrow> distinct (l # xs)"
  by (simp add: rlist_rep_def)

lemma rlist_rep_iff:
  "rlist_rep h l xs \<longleftrightarrow> distinct (l # xs) \<and> chain h xs \<and>
     rnext (h l) = hd (xs @ [l]) \<and> rprev (h l) = last (l # xs) \<and>
     (xs \<noteq> [] \<longrightarrow> rprev (h (hd xs)) = l \<and> rnext (h (last xs)) = l)"
  by (cases "xs = []") (auto simp: rlist_rep_def chain_simps linked_def)

lemma rlist_rep_mid:
  "rlist_rep h l (xs @ a # ys) \<longleftrightarrow>
     distinct (l # xs @ a # ys) \<and> chain h (l # xs) \<and> chain h (ys @ [l]) \<and>
     linked h (last (l # xs)) a \<and> linked h a (hd (ys @ [l]))"
  by (auto simp: rlist_rep_def chain_simps)

lemma rlist_rep_midD:
  assumes "rlist_rep h l (xs @ a # ys)"
  shows "rprev (h a) = last (l # xs)" and "rnext (h a) = hd (ys @ [l])"
  using assms by (auto simp: rlist_rep_mid linked_def)

lemma rlist_rep_frame [frame_laws]:
  assumes "\<And>a. a \<in> set (l # xs) \<Longrightarrow> h' a = h a"
  shows "rlist_rep h' l xs = rlist_rep h l xs"
proof -
  have "chain h' (l # xs @ [l]) = chain h (l # xs @ [l])"
    using assms by (intro chain_cong) (auto simp: butlast_append split: if_splits)
  then show ?thesis by (simp add: rlist_rep_def)
qed

lemma rlist_create_rep [rlist_laws]: "rlist_rep (rlist_create l h) l []"
  by (simp add: rlist_create_def)

text \<open>The effect of each operation on the two pointers of a node.\<close>

lemma rlist_add_ptrs:
  assumes "it \<noteq> l" and "rnext (h l) \<noteq> it"
  shows "rnext (rlist_add l it h a) = (if a = it then rnext (h l) else if a = l then it else rnext (h a))"
    and "rprev (rlist_add l it h a) = (if a = rnext (h l) then it else if a = it then l else rprev (h a))"
  using assms by (auto simp: rlist_add_def Let_def)

lemma rlist_add_tail_ptrs:
  assumes "it \<noteq> l" and "rprev (h l) \<noteq> it"
  shows "rnext (rlist_add_tail l it h a) = (if a = rprev (h l) then it else if a = it then l else rnext (h a))"
    and "rprev (rlist_add_tail l it h a) = (if a = it then rprev (h l) else if a = l then it else rprev (h a))"
  using assms by (auto simp: rlist_add_tail_def Let_def)

lemma rlist_del_ptrs:
  assumes "rprev (h it) \<noteq> it" and "rnext (h it) \<noteq> it"
  shows "rnext (rlist_del it h a) = (if a = it then it else if a = rprev (h it) then rnext (h it) else rnext (h a))"
    and "rprev (rlist_del it h a) = (if a = it then it else if a = rnext (h it) then rprev (h it) else rprev (h a))"
  using assms by (auto simp: rlist_del_def rlist_create_def Let_def)

lemma rlist_shift_ptrs:
  assumes "s = rnext (h l)" and "s \<noteq> l" and "rnext (h s) \<noteq> s"
  shows "fst (rlist_shift l h) = s"
    and "rnext (snd (rlist_shift l h) a) = (if a = s then s else if a = l then rnext (h s) else rnext (h a))"
    and "rprev (snd (rlist_shift l h) a) = (if a = s then s else if a = rnext (h s) then l else rprev (h a))"
  using assms by (auto simp: rlist_shift_def Let_def)

lemma rlist_splice_tail_ptrs:
  assumes "\<not> rlist_empty l2 h" and "l1 \<noteq> l2"
    and "rprev (h l1) \<noteq> l2" and "rnext (h l2) \<noteq> l2" and "rprev (h l2) \<noteq> l2"
    and "rnext (h l2) \<noteq> l1" and "rprev (h l2) \<noteq> rprev (h l1)"
  shows "rnext (rlist_splice_tail l1 l2 h a) =
      (if a = l2 then l2 else if a = rprev (h l2) then l1
       else if a = rprev (h l1) then rnext (h l2) else rnext (h a))"
    and "rprev (rlist_splice_tail l1 l2 h a) =
      (if a = l2 then l2 else if a = l1 then rprev (h l2)
       else if a = rnext (h l2) then rprev (h l1) else rprev (h a))"
  using assms by (auto simp: rlist_splice_tail_def rlist_create_def Let_def)

lemma rlist_splice_ptrs:
  assumes "\<not> rlist_empty l2 h" and "l1 \<noteq> l2"
    and "rnext (h l1) \<noteq> l2" and "rprev (h l2) \<noteq> l2" and "rnext (h l2) \<noteq> l2"
    and "rprev (h l2) \<noteq> l1" and "rnext (h l2) \<noteq> rnext (h l1)"
  shows "rprev (rlist_splice l1 l2 h a) =
      (if a = l2 then l2 else if a = rnext (h l2) then l1
       else if a = rnext (h l1) then rprev (h l2) else rprev (h a))"
    and "rnext (rlist_splice l1 l2 h a) =
      (if a = l2 then l2 else if a = l1 then rnext (h l2)
       else if a = rprev (h l2) then rnext (h l1) else rnext (h a))"
  using assms by (auto simp: rlist_splice_def rlist_create_def Let_def)

lemma rlist_add_rep [rlist_laws]:
  assumes "rlist_rep h l xs" and "it \<notin> set (l # xs)"
  shows "rlist_rep (rlist_add l it h) l (it # xs)"
proof -
  let ?h = "rlist_add l it h"
  have d: "distinct (l # xs)" and c: "chain h (xs @ [l])" and n: "rnext (h l) = hd (xs @ [l])"
    using assms(1) by (auto simp: rlist_rep_def chain_simps linked_def)
  have p: "it \<noteq> l" "rnext (h l) \<noteq> it"
    using assms(2) n by (auto simp: hd_append)
  note ptrs = rlist_add_ptrs [where it = it and l = l and h = h, OF p]
  have "chain ?h (xs @ [l]) = chain h (xs @ [l])"
    using assms(2) d
    by (intro chain_cong) (auto simp: ptrs n hd_append tl_append split: if_splits list.splits)
  with c assms(2) d show ?thesis
    by (auto simp: rlist_rep_def chain_Cons linked_def ptrs n hd_append)
qed

lemma rlist_add_tail_rep [rlist_laws]:
  assumes "rlist_rep h l xs" and "it \<notin> set (l # xs)"
  shows "rlist_rep (rlist_add_tail l it h) l (xs @ [it])"
proof -
  let ?h = "rlist_add_tail l it h"
  have d: "distinct (l # xs)" and c: "chain h (l # xs)" and n: "rprev (h l) = last (l # xs)"
    using assms(1) by (auto simp: rlist_rep_def chain_simps linked_def)
  have p: "it \<noteq> l" "rprev (h l) \<noteq> it"
    using assms(2) n last_in_set [of "l # xs"] by auto
  note ptrs = rlist_add_tail_ptrs [where it = it and l = l and h = h, OF p]
  have "last (l # xs) \<notin> set (butlast (l # xs))"
    using d by (intro distinct_last_notin_butlast) auto
  then have "chain ?h (l # xs) = chain h (l # xs)"
    using assms(2) d by (intro chain_cong)
      (auto simp: ptrs n dest: in_set_butlastD split: if_splits)
  with c assms(2) d p show ?thesis
    by (auto simp: rlist_rep_mid [of _ _ _ _ "[]", simplified] linked_def ptrs n)
qed

lemma rlist_del_rep [rlist_laws]:
  assumes "rlist_rep h l (xs @ it # ys)"
  shows "rlist_rep (rlist_del it h) l (xs @ ys)" and "detached (rlist_del it h) it"
proof -
  let ?h = "rlist_del it h" and ?p = "last (l # xs)" and ?n = "hd (ys @ [l])"
  note d = rlist_rep_distinct [OF assms] and m = assms [unfolded rlist_rep_mid]
  have q: "rprev (h it) = ?p" "rnext (h it) = ?n"
    using m by (auto simp: linked_def)
  have p: "rprev (h it) \<noteq> it" "rnext (h it) \<noteq> it"
    using d last_in_set [of "l # xs"] by (auto simp: q hd_append split: if_splits)
  note ptrs = rlist_del_ptrs [where it = it and h = h, OF p]
  have "?p \<notin> set (butlast (l # xs))"
    using d by (intro distinct_last_notin_butlast) auto
  then have 1: "chain ?h (l # xs) = chain h (l # xs)"
    using d by (intro chain_cong)
      (auto simp: ptrs q hd_append dest: in_set_butlastD split: if_splits)
  have "?p \<in> set (l # xs)" by (rule last_in_set) simp
  then have "?p \<notin> set ys" using d by (auto simp del: last.simps)
  then have 2: "chain ?h (ys @ [l]) = chain h (ys @ [l])"
    using d by (intro chain_cong)
      (auto simp: ptrs q hd_append tl_append split: if_splits list.splits)
  have "linked ?h ?p ?n"
    using d p by (auto simp: linked_def ptrs q)
  with 1 2 m show "rlist_rep ?h l (xs @ ys)"
    by (auto simp: rlist_rep_def chain_simps)
  show "detached ?h it"
    by (simp add: ptrs)
qed

lemma rlist_shift_is_del:
  assumes "rlist_rep h l (x # xs)"
  shows "rlist_shift l h = (x, rlist_del x h)"
proof -
  have "rnext (h l) = x" and "rprev (h x) = l" and "l \<noteq> x" and "rnext (h x) \<noteq> x"
    using assms by (auto simp: rlist_rep_def chain_simps linked_def split: if_splits)
  then show ?thesis
    by (auto simp: rlist_shift_def rlist_del_def rlist_create_def Let_def set_rnext_def set_rprev_def fun_eq_iff)
qed

lemma rlist_shift_rep [rlist_laws]:
  assumes "rlist_rep h l (x # xs)"
  shows "fst (rlist_shift l h) = x" and "rlist_rep (snd (rlist_shift l h)) l xs"
    and "detached (snd (rlist_shift l h)) x"
  using assms rlist_del_rep [of h l "[]" x xs] by (simp_all add: rlist_shift_is_del)

lemma rlist_shift_tail_rep [rlist_laws]:
  assumes "rlist_rep h l (xs @ [x])"
  shows "fst (rlist_shift_tail l h) = x" and "rlist_rep (snd (rlist_shift_tail l h)) l xs"
    and "detached (snd (rlist_shift_tail l h)) x"
proof -
  have "rprev (h l) = x" using assms by (simp add: rlist_rep_iff)
  then show "fst (rlist_shift_tail l h) = x" and "rlist_rep (snd (rlist_shift_tail l h)) l xs"
    and "detached (snd (rlist_shift_tail l h)) x"
    using rlist_del_rep [of h l xs x "[]"] assms by (simp_all add: rlist_shift_tail_def Let_def)
qed

lemma rlist_empty_rep [rlist_laws]: "rlist_rep h l xs \<Longrightarrow> rlist_empty l h = (xs = [])"
  by (cases xs) (auto simp: rlist_empty_def rlist_rep_iff)

lemma rlist_first_rep [rlist_laws]: "rlist_rep h l xs \<Longrightarrow> rlist_first l h = hd (xs @ [l])"
  by (simp add: rlist_first_def rlist_rep_iff)

lemma rlist_last_rep [rlist_laws]: "rlist_rep h l xs \<Longrightarrow> rlist_last l h = last (l # xs)"
  by (simp add: rlist_last_def rlist_rep_iff)

lemma rlist_next_rep [rlist_laws]: "rlist_rep h l (xs @ a # ys) \<Longrightarrow> rlist_next a h = hd (ys @ [l])"
  by (simp add: rlist_next_def rlist_rep_midD)

lemma rlist_prev_rep [rlist_laws]: "rlist_rep h l (xs @ a # ys) \<Longrightarrow> rlist_prev a h = last (l # xs)"
  by (simp add: rlist_prev_def rlist_rep_midD)

text \<open>Which addresses an operation writes.\<close>

lemma rlist_add_frame [frame_laws]: "a \<notin> {it, l, rnext (h l)} \<Longrightarrow> it \<noteq> l \<Longrightarrow> rlist_add l it h a = h a"
  by (auto simp: rlist_add_def Let_def set_rnext_def set_rprev_def)

lemma rlist_add_tail_frame [frame_laws]:
  "a \<notin> {it, l, rprev (h l)} \<Longrightarrow> it \<noteq> l \<Longrightarrow> rlist_add_tail l it h a = h a"
  by (auto simp: rlist_add_tail_def Let_def set_rnext_def set_rprev_def)

lemma rlist_del_frame [frame_laws]: "a \<notin> {it, rprev (h it), rnext (h it)} \<Longrightarrow> rlist_del it h a = h a"
  by (auto simp: rlist_del_def rlist_create_def Let_def set_rnext_def set_rprev_def)

lemma rlist_rep_neighbours:
  assumes "rlist_rep h l (xs @ a # ys)"
  shows "rprev (h a) \<in> set (l # xs)" and "rnext (h a) \<in> set (l # ys)"
  using assms last_in_set [of "l # xs"] by (auto simp: rlist_rep_midD hd_append)

lemma rlist_rep_head_neighbours:
  assumes "rlist_rep h l xs"
  shows "rprev (h l) \<in> set (l # xs)" and "rnext (h l) \<in> set (l # xs)"
  using assms last_in_set [of "l # xs"] by (auto simp: rlist_rep_iff hd_append)

lemma rlist_del_other [frame_laws]:
  assumes "rlist_rep h l (xs @ it # ys)" and "rlist_rep h l2 zs"
    and "set (l # xs @ it # ys) \<inter> set (l2 # zs) = {}"
  shows "rlist_rep (rlist_del it h) l2 zs"
proof -
  have "rlist_del it h a = h a" if "a \<in> set (l2 # zs)" for a
    using that assms(3) rlist_rep_neighbours [OF assms(1)] by (intro rlist_del_frame) auto
  then show ?thesis using assms(2) by (metis rlist_rep_frame)
qed

lemma rlist_add_other [frame_laws]:
  assumes "rlist_rep h l xs" and "rlist_rep h l2 zs" and "it \<notin> set (l # xs)"
    and "set (it # l # xs) \<inter> set (l2 # zs) = {}"
  shows "rlist_rep (rlist_add l it h) l2 zs"
proof -
  have "rlist_add l it h a = h a" if "a \<in> set (l2 # zs)" for a
    using that assms(3,4) rlist_rep_head_neighbours [OF assms(1)] by (intro rlist_add_frame) auto
  then show ?thesis using assms(2) by (metis rlist_rep_frame)
qed

lemma rlist_add_tail_other [frame_laws]:
  assumes "rlist_rep h l xs" and "rlist_rep h l2 zs" and "it \<notin> set (l # xs)"
    and "set (it # l # xs) \<inter> set (l2 # zs) = {}"
  shows "rlist_rep (rlist_add_tail l it h) l2 zs"
proof -
  have "rlist_add_tail l it h a = h a" if "a \<in> set (l2 # zs)" for a
    using that assms(3,4) rlist_rep_head_neighbours [OF assms(1)] by (intro rlist_add_tail_frame) auto
  then show ?thesis using assms(2) by (metis rlist_rep_frame)
qed

lemma rlist_move_rep [rlist_laws]:
  assumes "rlist_rep h l1 (xs @ it # ys)" and "rlist_rep h l2 zs"
    and "set (l1 # xs @ it # ys) \<inter> set (l2 # zs) = {}"
  shows "rlist_rep (rlist_move l2 it h) l2 (it # zs)" and "rlist_rep (rlist_move l2 it h) l1 (xs @ ys)"
proof -
  have d: "distinct (l1 # xs @ it # ys)" by (rule rlist_rep_distinct [OF assms(1)])
  have 1: "rlist_rep (rlist_del it h) l2 zs" by (rule rlist_del_other [OF assms])
  have 2: "rlist_rep (rlist_del it h) l1 (xs @ ys)" by (rule rlist_del_rep [OF assms(1)])
  show "rlist_rep (rlist_move l2 it h) l2 (it # zs)"
    using 1 assms(3) by (auto simp: rlist_move_def intro!: rlist_add_rep)
  show "rlist_rep (rlist_move l2 it h) l1 (xs @ ys)"
    unfolding rlist_move_def using assms(3) d
    by (intro rlist_add_other [OF 1 2]) auto
qed

lemma heap_eqI:
  assumes "\<And>a. rnext (h a) = rnext (h' a)" and "\<And>a. rprev (h a) = rprev (h' a)"
  shows "h = (h' :: rheap)"
  using assms by (auto intro: rlist.equality)

lemma rlist_move_tail_is_del_add:
  assumes "rlist_rep h l1 (xs @ it # ys)" and "l2 \<notin> set (l1 # xs @ it # ys)" and "rprev (h l2) \<noteq> it"
  shows "rlist_move_tail l2 it h = rlist_add_tail l2 it (rlist_del it h)"
proof -
  have "distinct (l1 # xs @ it # ys)" by (rule rlist_rep_distinct [OF assms(1)])
  then have n: "rprev (h it) \<noteq> it" "rnext (h it) \<noteq> it" "rprev (h it) \<noteq> l2" "rnext (h it) \<noteq> l2" "l2 \<noteq> it"
    using rlist_rep_neighbours [OF assms(1)] assms(2) by auto
  show ?thesis
  proof (rule heap_eqI)
    fix a
    show "rnext (rlist_move_tail l2 it h a) = rnext (rlist_add_tail l2 it (rlist_del it h) a)"
      using n assms(3) by (simp add: rlist_move_tail_def rlist_add_tail_def rlist_del_def rlist_create_def Let_def)
    show "rprev (rlist_move_tail l2 it h a) = rprev (rlist_add_tail l2 it (rlist_del it h) a)"
      using n assms(3) by (simp add: rlist_move_tail_def rlist_add_tail_def rlist_del_def rlist_create_def Let_def)
  qed
qed

lemma rlist_move_tail_rep [rlist_laws]:
  assumes "rlist_rep h l1 (xs @ it # ys)" and "rlist_rep h l2 zs"
    and "set (l1 # xs @ it # ys) \<inter> set (l2 # zs) = {}"
  shows "rlist_rep (rlist_move_tail l2 it h) l2 (zs @ [it])"
    and "rlist_rep (rlist_move_tail l2 it h) l1 (xs @ ys)"
proof -
  have d: "distinct (l1 # xs @ it # ys)" by (rule rlist_rep_distinct [OF assms(1)])
  have 1: "rlist_rep (rlist_del it h) l2 zs" by (rule rlist_del_other [OF assms])
  have 2: "rlist_rep (rlist_del it h) l1 (xs @ ys)" by (rule rlist_del_rep [OF assms(1)])
  have 3: "rlist_move_tail l2 it h = rlist_add_tail l2 it (rlist_del it h)"
    using assms(3) rlist_rep_head_neighbours [OF assms(2)]
    by (intro rlist_move_tail_is_del_add [OF assms(1)]) auto
  show "rlist_rep (rlist_move_tail l2 it h) l2 (zs @ [it])"
    unfolding 3 using 1 assms(3) by (intro rlist_add_tail_rep) auto
  show "rlist_rep (rlist_move_tail l2 it h) l1 (xs @ ys)"
    unfolding 3 using assms(3) d by (intro rlist_add_tail_other [OF 1 2]) auto
qed

lemma rlist_splice_tail_rep [rlist_laws]:
  assumes "rlist_rep h l1 xs" and "rlist_rep h l2 ys" and "set (l1 # xs) \<inter> set (l2 # ys) = {}"
  shows "rlist_rep (rlist_splice_tail l1 l2 h) l1 (xs @ ys)"
    and "detached (rlist_splice_tail l1 l2 h) l2"
proof -
  let ?h = "rlist_splice_tail l1 l2 h" and ?z = "last (l1 # xs)"
  have "rlist_rep ?h l1 (xs @ ys) \<and> rlist_rep ?h l2 []"
  proof (cases "ys = []")
    case True
    then show ?thesis using assms(1,2) by (simp add: rlist_splice_tail_def rlist_empty_def)
  next
    case False
    have p: "rprev (h l1) = ?z" "rprev (h l2) = last ys" "rnext (h l2) = hd ys"
      using assms(1,2) False by (auto simp: rlist_rep_iff)
    have d: "distinct (l1 # xs)" "distinct (l2 # ys)"
      using assms(1,2) by (auto simp: rlist_rep_def)
    have i: "?z \<in> set (l1 # xs)" "last ys \<in> set ys" "hd ys \<in> set ys"
      using False last_in_set [of "l1 # xs"] by (auto simp del: last.simps)
    then have n: "?z \<noteq> l2" "hd ys \<noteq> l2" "last ys \<noteq> l2" "hd ys \<noteq> l1" "last ys \<noteq> ?z" "l1 \<noteq> l2"
      using assms(3) d by (auto simp del: last.simps)
    have "\<not> rlist_empty l2 h" using False assms(2) by (simp add: rlist_empty_rep)
    then have ptrs:
      "rnext (?h a) = (if a = l2 then l2 else if a = last ys then l1 else if a = ?z then hd ys else rnext (h a))"
      "rprev (?h a) = (if a = l2 then l2 else if a = l1 then last ys else if a = hd ys then ?z else rprev (h a))"
      for a using rlist_splice_tail_ptrs [of l2 h l1 a] n by (simp_all add: p del: last.simps)
    have "chain ?h (l1 # xs) = chain h (l1 # xs)"
      using d(1) by (rule chain_seg) (use i assms(3) in \<open>auto simp: ptrs simp del: last.simps\<close>)
    moreover have "chain ?h ys = chain h ys"
      by (rule chain_seg) (use i assms(3) d in \<open>auto simp: ptrs simp del: last.simps\<close>)
    moreover have "linked ?h ?z (hd ys)" "linked ?h (last ys) l1"
      using n by (auto simp: linked_def ptrs simp del: last.simps)
    ultimately have "chain ?h (l1 # (xs @ ys) @ [l1])"
      using assms(1,2) False by (auto simp: rlist_rep_def chain_simps)
    then show ?thesis using d assms(3) by (auto simp: rlist_rep_def ptrs linked_def)
  qed
  then show "rlist_rep ?h l1 (xs @ ys)" and "detached ?h l2" by auto
qed

lemma rlist_splice_rep [rlist_laws]:
  assumes "rlist_rep h l1 xs" and "rlist_rep h l2 ys" and "set (l1 # xs) \<inter> set (l2 # ys) = {}"
  shows "rlist_rep (rlist_splice l1 l2 h) l1 (ys @ xs)"
    and "detached (rlist_splice l1 l2 h) l2"
proof -
  let ?h = "rlist_splice l1 l2 h" and ?z = "hd (xs @ [l1])"
  have "rlist_rep ?h l1 (ys @ xs) \<and> rlist_rep ?h l2 []"
  proof (cases "ys = []")
    case True
    then show ?thesis using assms(1,2) by (simp add: rlist_splice_def rlist_empty_def)
  next
    case False
    have p: "rnext (h l1) = ?z" "rprev (h l2) = last ys" "rnext (h l2) = hd ys"
      using assms(1,2) False by (auto simp: rlist_rep_iff)
    have d: "distinct (xs @ [l1])" "distinct (l2 # ys)"
      using assms(1,2) by (auto simp: rlist_rep_def)
    have i: "?z \<in> set (l1 # xs)" "last ys \<in> set ys" "hd ys \<in> set ys"
      using False by (auto simp: hd_append)
    then have n: "?z \<noteq> l2" "hd ys \<noteq> l2" "last ys \<noteq> l2" "last ys \<noteq> l1" "hd ys \<noteq> ?z" "l1 \<noteq> l2"
      using assms(3) d by (auto simp del: hd_append)
    have "\<not> rlist_empty l2 h" using False assms(2) by (simp add: rlist_empty_rep)
    then have ptrs:
      "rprev (?h a) = (if a = l2 then l2 else if a = hd ys then l1 else if a = ?z then last ys else rprev (h a))"
      "rnext (?h a) = (if a = l2 then l2 else if a = l1 then hd ys else if a = last ys then ?z else rnext (h a))"
      for a using rlist_splice_ptrs [of l2 h l1 a] n by (simp_all add: p del: hd_append)
    have "chain ?h (xs @ [l1]) = chain h (xs @ [l1])"
      using d(1) by (rule chain_seg) (use i assms(3) in \<open>auto simp: ptrs simp del: hd_append\<close>)
    moreover have "chain ?h ys = chain h ys"
      by (rule chain_seg) (use i assms(3) d in \<open>auto simp: ptrs simp del: hd_append\<close>)
    moreover have "linked ?h l1 (hd ys)" "linked ?h (last ys) ?z"
      using n by (auto simp: linked_def ptrs simp del: hd_append)
    ultimately have "chain ?h (l1 # ys @ (xs @ [l1]))"
      using assms(1,2) False by (auto simp: rlist_rep_def chain_simps)
    then show ?thesis using d assms(3) by (auto simp: rlist_rep_def ptrs linked_def)
  qed
  then show "rlist_rep ?h l1 (ys @ xs)" and "detached ?h l2" by auto
qed

lemma rlist_walk_rep:
  assumes "rlist_rep h l (xs @ ys)"
  shows "rlist_walk h l (hd (ys @ [l])) (rev xs) = Some (xs @ ys)"
  using assms
proof (induction ys arbitrary: xs)
  case Nil
  then show ?case by (simp add: rlist_walk.simps)
next
  case (Cons a ys)
  have "a \<noteq> l" using Cons.prems by (auto simp: rlist_rep_def)
  moreover have "rlist_next a h = hd (ys @ [l])" using Cons.prems by (rule rlist_next_rep)
  moreover have "rlist_walk h l (hd (ys @ [l])) (a # rev xs) = Some (xs @ a # ys)"
    using Cons.IH [of "xs @ [a]"] Cons.prems by simp
  ultimately show ?case by (simp add: rlist_walk.simps [of h l a])
qed

lemma rlist_walk_back_rep:
  assumes "rlist_rep h l (xs @ ys)"
  shows "rlist_walk_back h l (last (l # xs)) ys = Some (rev (xs @ ys))"
  using assms
proof (induction xs arbitrary: ys rule: rev_induct)
  case Nil
  then show ?case by (simp add: rlist_walk_back.simps)
next
  case (snoc a xs)
  have "a \<noteq> l" using snoc.prems by (auto simp: rlist_rep_def)
  moreover have "rlist_prev a h = last (l # xs)" using snoc.prems by (simp add: rlist_prev_rep)
  moreover have "rlist_walk_back h l (last (l # xs)) (a # ys) = Some (rev (xs @ a # ys))"
    using snoc.IH [of "a # ys"] snoc.prems by simp
  ultimately show ?case by (simp add: rlist_walk_back.simps [of h l a])
qed

lemma rlist_foreach_rep [rlist_laws]: "rlist_rep h l xs \<Longrightarrow> rlist_foreach l h = Some xs"
  using rlist_walk_rep [of h l "[]" xs] by (simp add: rlist_foreach_def rlist_first_rep)

lemma rlist_foreach_reverse_rep [rlist_laws]:
  "rlist_rep h l xs \<Longrightarrow> rlist_foreach_reverse l h = Some (rev xs)"
  using rlist_walk_back_rep [of h l xs "[]"] by (simp add: rlist_foreach_reverse_def rlist_last_rep)

lemma rlist_relink_ptrs:
  "rnext (rlist_relink a b h c) =
     (let f = if rnext (h a) = b then a else rnext (h a) in
      if c = (if f = a then a else rprev (h a)) then a else if c = a then f else rnext (h c))"
  "rprev (rlist_relink a b h c) =
     (let f = if rnext (h a) = b then a else rnext (h a) in if c = f then a else rprev (h c))"
  by (auto simp: rlist_relink_def Let_def)

lemma rlist_swap_ptrs:
  assumes "rlist_rep h r xs" and "rlist_rep h l ys" and "set (r # xs) \<inter> set (l # ys) = {}"
  shows "rnext (rlist_swap r l h a) =
      (if a = r then hd (ys @ [r]) else if a = l then hd (xs @ [l])
       else if ys \<noteq> [] \<and> a = last ys then r else if xs \<noteq> [] \<and> a = last xs then l else rnext (h a))"
    and "rprev (rlist_swap r l h a) =
      (if a = r then last (r # ys) else if a = l then last (l # xs)
       else if ys \<noteq> [] \<and> a = hd ys then r else if xs \<noteq> [] \<and> a = hd xs then l else rprev (h a))"
proof -
  define g where "g = (h(r := h l))(l := h r)"
  define k where "k = rlist_relink l r g"
  have d: "distinct (r # xs)" "distinct (l # ys)"
    and p: "rnext (h r) = hd (xs @ [r])" "rprev (h r) = last (r # xs)"
      "rnext (h l) = hd (ys @ [l])" "rprev (h l) = last (l # ys)"
    using assms(1,2) by (auto simp: rlist_rep_iff)
  have n: "r \<noteq> l" using assms(3) by auto
  have nx: "xs \<noteq> [] \<Longrightarrow> hd xs \<noteq> r \<and> hd xs \<noteq> l \<and> last xs \<noteq> r \<and> last xs \<noteq> l"
    and ny: "ys \<noteq> [] \<Longrightarrow> hd ys \<noteq> r \<and> hd ys \<noteq> l \<and> last ys \<noteq> r \<and> last ys \<noteq> l"
    using d assms(3) hd_in_set [of xs] last_in_set [of xs] hd_in_set [of ys] last_in_set [of ys] by auto
  have g: "rnext (g l) = hd (xs @ [r])" "rprev (g l) = last (r # xs)"
      "rnext (g r) = hd (ys @ [l])" "rprev (g r) = last (l # ys)" "\<And>a. a \<noteq> r \<Longrightarrow> a \<noteq> l \<Longrightarrow> g a = h a"
    using n p by (auto simp: g_def)
  have fl: "(if rnext (g l) = r then l else rnext (g l)) = hd (xs @ [l])"
      "(if hd (xs @ [l]) = l then l else rprev (g l)) = last (l # xs)"
    using n nx by (cases "xs = []"; simp add: g)+
  have k: "rnext (k a) = (if a = last (l # xs) then l else if a = l then hd (xs @ [l]) else rnext (g a))"
    "rprev (k a) = (if a = hd (xs @ [l]) then l else rprev (g a))" for a
    unfolding k_def rlist_relink_ptrs Let_def fl by (rule refl)+
  have kr: "rnext (k r) = hd (ys @ [l])" "rprev (k r) = last (l # ys)"
    using n nx by (cases "xs = []"; simp add: k g)+
  have fr: "(if rnext (k r) = l then r else rnext (k r)) = hd (ys @ [r])"
      "(if hd (ys @ [r]) = r then r else rprev (k r)) = last (r # ys)"
    using n ny by (cases "ys = []"; simp add: kr)+
  have s: "rlist_swap r l h = rlist_relink r l k"
    by (simp add: rlist_swap_def k_def g_def Let_def)
  have k': "rnext (rlist_relink r l k a) = (if a = last (r # ys) then r else if a = r then hd (ys @ [r]) else rnext (k a))"
    "rprev (rlist_relink r l k a) = (if a = hd (ys @ [r]) then r else rprev (k a))"
    unfolding rlist_relink_ptrs Let_def fr by (rule refl)+
  show "rnext (rlist_swap r l h a) =
      (if a = r then hd (ys @ [r]) else if a = l then hd (xs @ [l])
       else if ys \<noteq> [] \<and> a = last ys then r else if xs \<noteq> [] \<and> a = last xs then l else rnext (h a))"
    using n nx ny unfolding s k' k by (cases "ys = []"; cases "xs = []") (simp_all add: g(5))
  show "rprev (rlist_swap r l h a) =
      (if a = r then last (r # ys) else if a = l then last (l # xs)
       else if ys \<noteq> [] \<and> a = hd ys then r else if xs \<noteq> [] \<and> a = hd xs then l else rprev (h a))"
    using n nx ny unfolding s k' k by (cases "ys = []"; cases "xs = []") (simp_all add: g(2,4,5))
qed

lemma rlist_swap_rep [rlist_laws]:
  assumes "rlist_rep h r xs" and "rlist_rep h l ys" and "set (r # xs) \<inter> set (l # ys) = {}"
  shows "rlist_rep (rlist_swap r l h) r ys" and "rlist_rep (rlist_swap r l h) l xs"
proof -
  let ?h = "rlist_swap r l h"
  note ptrs = rlist_swap_ptrs [OF assms]
  have d: "distinct (r # xs)" "distinct (l # ys)" and c: "chain h xs" "chain h ys"
    using assms(1,2) by (auto simp: rlist_rep_iff)
  have e: "xs \<noteq> [] \<Longrightarrow> hd xs \<notin> set ys \<and> last xs \<notin> set ys" "ys \<noteq> [] \<Longrightarrow> hd ys \<notin> set xs \<and> last ys \<notin> set xs"
    using assms(3) disjoint_ends [of xs ys] disjoint_ends [of ys xs] by auto
  have "chain ?h xs = chain h xs" "chain ?h ys = chain h ys"
    by (rule chain_seg; use d e assms(3) in \<open>auto simp: ptrs\<close>)+
  with c have c': "chain ?h xs" "chain ?h ys" by simp_all
  show "rlist_rep ?h r ys"
    using c' d e assms(3) by (cases "ys = []") (auto simp: rlist_rep_iff ptrs)
  show "rlist_rep ?h l xs"
    using c' d e assms(3) by (cases "xs = []") (auto simp: rlist_rep_iff ptrs)
qed

lemma rlist_cut_before_rep [rlist_laws]:
  assumes "rlist_rep h l2 (xs @ ys)" and "l1 \<notin> set (l2 # xs @ ys)"
    and "it = hd (ys @ [l2])" and "rnext (h l1) \<noteq> it"
  shows "rlist_rep (rlist_cut_before l1 l2 it h) l1 xs" and "rlist_rep (rlist_cut_before l1 l2 it h) l2 ys"
proof -
  let ?h = "rlist_cut_before l1 l2 it h"
  have d: "distinct (l2 # xs @ ys)" by (rule rlist_rep_distinct [OF assms(1)])
  have "chain h (l2 # xs)" "chain h (ys @ [l2])" "linked h (last (l2 # xs)) it"
    using assms(1) chain_append [of h "l2 # xs" "ys @ [l2]"] by (auto simp: rlist_rep_def assms(3))
  then have c: "chain h xs" "chain h (ys @ [l2])" "rnext (h l2) = (if xs = [] then it else hd xs)"
      "rprev (h it) = last (l2 # xs)"
    by (auto simp: chain_Cons linked_def)
  have i: "it \<in> set (ys @ [l2])" unfolding assms(3) by (rule hd_in_set) simp
  have e: "xs \<noteq> [] \<Longrightarrow> hd xs \<notin> set ys \<and> last xs \<notin> set ys"
    using d disjoint_ends [of xs ys] by auto
  have j: "xs \<noteq> [] \<Longrightarrow> hd xs \<in> set xs \<and> last xs \<in> set xs" by auto
  then have k: "xs \<noteq> [] \<Longrightarrow> hd xs \<noteq> it \<and> last xs \<noteq> it \<and> hd xs \<noteq> l1 \<and> last xs \<noteq> l1 \<and> hd xs \<noteq> l2 \<and> last xs \<noteq> l2"
    using i d e assms(2) by auto
  have n: "l1 \<noteq> l2" "it \<noteq> l1" "rnext (h l1) \<noteq> it" using assms(2,4) i by auto
  define f where "f = (if xs = [] then it else hd xs)"
  define g where "g = set_rprev f l1 (set_rnext l1 f h)"
  have f: "f \<noteq> l1" "rnext (h l2) = f" using n k c by (auto simp: f_def)
  have g: "rnext (g a) = (if a = l1 then f else rnext (h a))"
    "rprev (g a) = (if a = f then l1 else rprev (h a))" for a
    by (auto simp: g_def)
  have r: "?h = set_rprev it l2 (set_rnext l2 it (set_rnext (last (l1 # xs)) l1 (set_rprev l1 (last (l1 # xs)) g)))"
    using n k c(3,4) by (cases "xs = []") (simp_all add: rlist_cut_before_def Let_def g_def f_def)
  have nx: "rnext (?h a) = (if a = l2 then it else if a = l1 then hd (xs @ [l1])
       else if xs \<noteq> [] \<and> a = last xs then l1 else rnext (h a))" for a
    using n k by (auto simp: r g f_def hd_append)
  have pv: "rprev (?h a) = (if a = it then l2 else if a = l1 then last (l1 # xs)
       else if xs \<noteq> [] \<and> a = hd xs then l1 else rprev (h a))" for a
    using n k by (auto simp: r g f_def)
  have x: "chain ?h xs = chain h xs"
    by (rule chain_seg) (use d i assms(2) in \<open>auto simp: nx pv\<close>)
  have y: "chain ?h (ys @ [l2]) = chain h (ys @ [l2])"
    by (rule chain_seg) (use d e n k assms(2) in \<open>auto simp: nx pv assms(3) [symmetric]\<close>)
  show "rlist_rep ?h l1 xs"
    using x c d assms(2) k n by (cases "xs = []") (auto simp: rlist_rep_iff nx pv)
  show "rlist_rep ?h l2 ys"
    using y c(2) d assms(2) nx [of l2] pv [of it] by (auto simp: rlist_rep_def chain_Cons linked_def assms(3) [symmetric])
qed

section \<open>The list contract and its FIFO consequence\<close>

text \<open>
  What the users of \<open>rlist.h\<close> (the coroutine scheduler, the wakeup queues of the bus, the
  block and file lists of the file system) rely on: an abstraction to sequences and the
  effect of each operation on it.
\<close>

primrec pop_n :: "('h \<Rightarrow> 'a \<times> 'h) \<Rightarrow> nat \<Rightarrow> 'h \<Rightarrow> 'a list \<times> 'h" where
  "pop_n pop 0 h = ([], h)"
| "pop_n pop (Suc n) h = (let (x, h1) = pop h; (xs, h2) = pop_n pop n h1 in (x # xs, h2))"

locale intrusive_list =
  fixes rep :: "'h \<Rightarrow> addr \<Rightarrow> addr list \<Rightarrow> bool"
    and create :: "addr \<Rightarrow> 'h \<Rightarrow> 'h"
    and add_tail :: "addr \<Rightarrow> addr \<Rightarrow> 'h \<Rightarrow> 'h"
    and del :: "addr \<Rightarrow> 'h \<Rightarrow> 'h"
    and shift :: "addr \<Rightarrow> 'h \<Rightarrow> addr \<times> 'h"
    and is_empty :: "addr \<Rightarrow> 'h \<Rightarrow> bool"
    and splice_tail :: "addr \<Rightarrow> addr \<Rightarrow> 'h \<Rightarrow> 'h"
  assumes law_distinct: "rep h l xs \<Longrightarrow> distinct (l # xs)"
    and law_create: "rep (create l h) l []"
    and law_add_tail: "rep h l xs \<Longrightarrow> it \<notin> set (l # xs) \<Longrightarrow> rep (add_tail l it h) l (xs @ [it])"
    and law_add_tail_other: "rep h l xs \<Longrightarrow> rep h l2 zs \<Longrightarrow> it \<notin> set (l # xs) \<Longrightarrow>
      set (it # l # xs) \<inter> set (l2 # zs) = {} \<Longrightarrow> rep (add_tail l it h) l2 zs"
    and law_del: "rep h l (xs @ it # ys) \<Longrightarrow> rep (del it h) l (xs @ ys)"
    and law_shift: "rep h l (x # xs) \<Longrightarrow> fst (shift l h) = x \<and> rep (snd (shift l h)) l xs"
    and law_is_empty: "rep h l xs \<Longrightarrow> is_empty l h = (xs = [])"
    and law_splice_tail: "rep h l1 xs \<Longrightarrow> rep h l2 ys \<Longrightarrow> set (l1 # xs) \<inter> set (l2 # ys) = {} \<Longrightarrow>
      rep (splice_tail l1 l2 h) l1 (xs @ ys) \<and> rep (splice_tail l1 l2 h) l2 []"
begin

lemma fold_add_tail:
  "rep h l xs \<Longrightarrow> distinct (l # xs @ items) \<Longrightarrow> rep (fold (add_tail l) items h) l (xs @ items)"
proof (induction items arbitrary: h xs)
  case (Cons it items)
  have "rep (add_tail l it h) l (xs @ [it])"
    using Cons.prems by (intro law_add_tail) auto
  then have "rep (fold (add_tail l) items (add_tail l it h)) l ((xs @ [it]) @ items)"
    using Cons.prems by (intro Cons.IH) auto
  then show ?case by simp
qed simp

lemma pop_n_shift:
  "rep h l (xs @ ys) \<Longrightarrow>
     fst (pop_n (shift l) (length xs) h) = xs \<and> rep (snd (pop_n (shift l) (length xs) h)) l ys"
proof (induction xs arbitrary: h)
  case (Cons x xs)
  then have "fst (shift l h) = x" "rep (snd (shift l h)) l (xs @ ys)"
    using law_shift [of h l x "xs @ ys"] by auto
  with Cons.IH [of "snd (shift l h)"] show ?case
    by (simp add: split_beta Let_def)
qed simp

text \<open>
  One round of a scheduler: everything queued in \<open>l2\<close> is moved behind \<open>l1\<close> and then taken
  out of \<open>l1\<close>, while new items are queued in \<open>l2\<close> again.
\<close>

lemma fifo_round:
  assumes "rep h l1 []" and "rep h l2 []" and "distinct (l1 # l2 # items)"
  shows "fst (pop_n (shift l1) (length items) (splice_tail l1 l2 (fold (add_tail l2) items h))) = items"
    and "is_empty l2 (splice_tail l1 l2 (fold (add_tail l2) items h))"
proof -
  let ?g = "fold (add_tail l2) items h"
  have 2: "rep ?g l2 items" using fold_add_tail [of h l2 "[]" items] assms by auto
  have "rep (fold (add_tail l2) its g) l1 []" if "rep g l1 []" "rep g l2 ys" "distinct (l1 # l2 # ys @ its)" for g ys its
    using that
  proof (induction its arbitrary: g ys)
    case (Cons it its)
    have "rep (add_tail l2 it g) l1 []" using Cons.prems by (intro law_add_tail_other [of g l2 ys]) auto
    moreover have "rep (add_tail l2 it g) l2 (ys @ [it])" using Cons.prems by (intro law_add_tail) auto
    ultimately have "rep (fold (add_tail l2) its (add_tail l2 it g)) l1 []"
      using Cons.prems(3) by (intro Cons.IH [where ys = "ys @ [it]"]) auto
    then show ?case by simp
  qed simp
  from this [of h "[]" items] have 1: "rep ?g l1 []" using assms by simp
  have "rep (splice_tail l1 l2 ?g) l1 items \<and> rep (splice_tail l1 l2 ?g) l2 []"
    using law_splice_tail [OF 1 2] assms(3) by auto
  then show "fst (pop_n (shift l1) (length items) (splice_tail l1 l2 ?g)) = items"
    and "is_empty l2 (splice_tail l1 l2 ?g)"
    using pop_n_shift [of _ l1 items "[]"] law_is_empty by auto
qed

end

interpretation rl: intrusive_list rlist_rep rlist_create rlist_add_tail rlist_del rlist_shift rlist_empty rlist_splice_tail
proof unfold_locales
  fix h l xs
  assume "rlist_rep h l xs"
  then show "distinct (l # xs)" by (rule rlist_rep_distinct)
next
  fix h l1 l2 xs ys
  assume "rlist_rep h l1 xs" and "rlist_rep h l2 ys" and "set (l1 # xs) \<inter> set (l2 # ys) = {}"
  then show "rlist_rep (rlist_splice_tail l1 l2 h) l1 (xs @ ys) \<and> rlist_rep (rlist_splice_tail l1 l2 h) l2 []"
    by (intro conjI rlist_splice_tail_rep)
next
  fix h l xs l2 zs it
  assume "rlist_rep h l xs" and "rlist_rep h l2 zs" and "it \<notin> set (l # xs)"
    and "set (it # l # xs) \<inter> set (l2 # zs) = {}"
  then show "rlist_rep (rlist_add_tail l it h) l2 zs" by (rule rlist_add_tail_other)
qed (auto intro: rlist_create_rep rlist_add_tail_rep rlist_del_rep
    simp: rlist_shift_rep rlist_empty_rep simp del: rlist_rep_Nil)

section \<open>Properties\<close>

text \<open>A heap in which every node is linked to itself, as after \<open>rlist_create\<close> on each.\<close>

definition self_heap :: rheap where
  "self_heap a = \<lparr>rprev = a, rnext = a\<rparr>"

lemma self_heap_detached: "detached self_heap a"
  by (simp add: self_heap_def)

lemma self_heap_list: "distinct (l # xs) \<Longrightarrow> rlist_rep (fold (rlist_add_tail l) xs self_heap) l xs"
  using rl.fold_add_tail [of self_heap l "[]" xs] self_heap_detached by simp

text \<open>
  C36. A scheduler round over two list heads is first in, first out: items appended to the
  second list, spliced to the tail of the first and shifted out of it come out in the order
  in which they were appended, and the second list is empty after the splice.
\<close>

theorem rlist_round_fifo:
  assumes "rlist_rep h l1 []" and "rlist_rep h l2 []" and "distinct (l1 # l2 # items)"
  shows "fst (pop_n (rlist_shift l1) (length items)
           (rlist_splice_tail l1 l2 (fold (rlist_add_tail l2) items h))) = items
       \<and> rlist_empty l2 (rlist_splice_tail l1 l2 (fold (rlist_add_tail l2) items h))"
  using rl.fifo_round [OF assms] by simp

theorem rlist_round_fifo_witness:
  "fst (pop_n (rlist_shift 0) 3 (rlist_splice_tail 0 1 (fold (rlist_add_tail 1) [5, 3, 4] self_heap))) = [5, 3, 4]"
  using rlist_round_fifo [of self_heap 0 1 "[5, 3, 4]"] self_heap_detached by (simp add: numeral_3_eq_3)

text \<open>
  Unlinking an element leaves the other elements of its list in order, detaches the
  element, and changes no list that shares no node with it.
\<close>

theorem rlist_del_unlinks:
  assumes "rlist_rep h l (xs @ it # ys)" and "rlist_rep h l2 zs"
    and "set (l # xs @ it # ys) \<inter> set (l2 # zs) = {}"
  shows "rlist_rep (rlist_del it h) l (xs @ ys) \<and> detached (rlist_del it h) it
       \<and> rlist_rep (rlist_del it h) l2 zs"
  by (intro conjI rlist_del_rep(1) [OF assms(1)] rlist_del_rep(2) [OF assms(1)] rlist_del_other [OF assms])

theorem rlist_del_unlinks_witness:
  "rlist_rep (rlist_del 2 (fold (rlist_add_tail 0) [1, 2, 3] self_heap)) 0 [1, 3]"
proof -
  have "rlist_rep (fold (rlist_add_tail 0) [1, 2, 3] self_heap) 0 ([1] @ 2 # [3])"
    using self_heap_list [of 0 "[1, 2, 3]"] by simp
  moreover have "rlist_rep (fold (rlist_add_tail 0) [1, 2, 3] self_heap) 9 []"
    by (simp add: rlist_add_tail_def Let_def set_rnext_def set_rprev_def self_heap_def)
  ultimately show ?thesis using rlist_del_unlinks [of _ 0 "[1]" 2 "[3]" 9 "[]"] by simp
qed

text \<open>\<open>rlist_swap\<close> exchanges the contents of two disjoint lists, empty lists included.\<close>

theorem rlist_swap_exchanges:
  assumes "rlist_rep h r xs" and "rlist_rep h l ys" and "set (r # xs) \<inter> set (l # ys) = {}"
  shows "rlist_rep (rlist_swap r l h) r ys \<and> rlist_rep (rlist_swap r l h) l xs"
  using rlist_swap_rep [OF assms] by simp

theorem rlist_swap_exchanges_witness:
  "rlist_rep (rlist_swap 0 9 (fold (rlist_add_tail 0) [1, 2] self_heap)) 9 [1, 2]"
proof -
  have "rlist_rep (fold (rlist_add_tail 0) [1, 2] self_heap) 0 [1, 2]"
    using self_heap_list [of 0 "[1, 2]"] by simp
  moreover have "rlist_rep (fold (rlist_add_tail 0) [1, 2] self_heap) 9 []"
    by (simp add: rlist_add_tail_def Let_def set_rnext_def set_rprev_def self_heap_def)
  ultimately show ?thesis using rlist_swap_exchanges [of _ 0 "[1, 2]" 9 "[]"] by simp
qed

text \<open>
  \<open>rlist_cut_before\<close> splits a list at \<open>item\<close>: the part before it becomes the content of
  the first head and the rest stays, whatever the first head held, provided that \<open>item\<close> is
  not already the first element of the first head.
\<close>

theorem rlist_cut_before_splits:
  assumes "rlist_rep h l2 (xs @ ys)" and "l1 \<notin> set (l2 # xs @ ys)"
    and "it = hd (ys @ [l2])" and "rnext (h l1) \<noteq> it"
  shows "rlist_rep (rlist_cut_before l1 l2 it h) l1 xs \<and> rlist_rep (rlist_cut_before l1 l2 it h) l2 ys"
  using rlist_cut_before_rep [OF assms] by simp

theorem rlist_cut_before_splits_witness:
  "rlist_rep (rlist_cut_before 9 0 3 (fold (rlist_add_tail 0) [1, 2, 3] self_heap)) 9 [1, 2]"
proof -
  have "rlist_rep (fold (rlist_add_tail 0) [1, 2, 3] self_heap) 0 ([1, 2] @ [3])"
    using self_heap_list [of 0 "[1, 2, 3]"] by simp
  moreover have "rnext (fold (rlist_add_tail 0) [1, 2, 3] self_heap 9) \<noteq> 3"
    by (simp add: rlist_add_tail_def Let_def set_rnext_def set_rprev_def self_heap_def)
  ultimately show ?thesis using rlist_cut_before_splits [of _ 0 "[1, 2]" "[3]" 9 3] by simp
qed

text \<open>
  The traversal macros end on every well-formed list and visit exactly its elements, in
  order and in reverse order.
\<close>

theorem rlist_foreach_visits:
  assumes "rlist_rep h l xs"
  shows "rlist_foreach l h = Some xs \<and> rlist_foreach_reverse l h = Some (rev xs)"
  by (simp add: rlist_foreach_rep [OF assms] rlist_foreach_reverse_rep [OF assms])

theorem rlist_foreach_visits_witness:
  "rlist_foreach_reverse 0 (fold (rlist_add_tail 0) [1, 2, 3] self_heap) = Some [3, 2, 1]"
  using rlist_foreach_visits [of "fold (rlist_add_tail 0) [1, 2, 3] self_heap" 0 "[1, 2, 3]"]
    self_heap_list [of 0 "[1, 2, 3]"] by simp

end
