(* ===== verification/Streams.thy ===== *)
theory Streams
  imports Prelude
begin

text \<open>
  Incremental consumers of a byte stream. The shell's parser and the chat's line splitter
  share one shape: bytes are appended to a buffer in chunks, and a function tries to take a
  complete item from the front of the buffer. The contract below is what makes the sequence
  of items independent of how the input was cut into chunks.
\<close>

text \<open>
  The outcome of one attempt on a buffer: \<open>None\<close> when the program aborts (a failed
  \<open>assert\<close>), \<open>Some None\<close> when more input is needed, \<open>Some (Some (m, r))\<close> when the item \<open>m\<close> was
  taken and \<open>r\<close> is left.
\<close>

type_synonym ('b, 'm) popper = "'b list \<Rightarrow> ('m \<times> 'b list) option option"

text \<open>Taking items until more input is needed, with at most \<open>n\<close> items.\<close>

fun drain_upto :: "('b, 'm) popper \<Rightarrow> nat \<Rightarrow> 'b list \<Rightarrow> ('m list \<times> 'b list) option" where
  "drain_upto pop 0 b = Some ([], b)"
| "drain_upto pop (Suc n) b =
     (case pop b of
        None \<Rightarrow> None
      | Some None \<Rightarrow> Some ([], b)
      | Some (Some (m, r)) \<Rightarrow> map_option (\<lambda>(ms, r'). (m # ms, r')) (drain_upto pop n r))"

text \<open>Every item takes at least one byte, so the length of the buffer bounds their number.\<close>

definition drain :: "('b, 'm) popper \<Rightarrow> 'b list \<Rightarrow> ('m list \<times> 'b list) option" where
  "drain pop b = drain_upto pop (length b) b"

text \<open>Feeding chunks one after the other, taking all complete items after each chunk.\<close>

fun feed_chunks :: "('b, 'm) popper \<Rightarrow> 'b list \<Rightarrow> 'b list list \<Rightarrow> ('m list \<times> 'b list) option" where
  "feed_chunks pop b [] = Some ([], b)"
| "feed_chunks pop b (c # cs) =
     (case drain pop (b @ c) of
        None \<Rightarrow> None
      | Some (ms, r) \<Rightarrow> map_option (\<lambda>(ms', r'). (ms @ ms', r')) (feed_chunks pop r cs))"

locale stream_popper =
  fixes pop :: "('b, 'm) popper"
    and fits :: "nat \<Rightarrow> bool"
  assumes fits_mono: "fits n \<Longrightarrow> k \<le> n \<Longrightarrow> fits k"
    and pop_empty: "pop [] = Some None"
    and pop_shrinks: "fits (length b) \<Longrightarrow> pop b = Some (Some (m, r)) \<Longrightarrow> length r < length b"
    and pop_extend: "fits (length (b @ x)) \<Longrightarrow> pop b = Some (Some (m, r)) \<Longrightarrow> pop (b @ x) = Some (Some (m, r @ x))"
    and abort_extend: "fits (length (b @ x)) \<Longrightarrow> pop b = None \<Longrightarrow> pop (b @ x) = None"
begin

lemma drain_upto_enough:
  "fits (length b) \<Longrightarrow> length b \<le> n \<Longrightarrow> drain_upto pop n b = drain_upto pop (length b) b"
proof (induction n arbitrary: b rule: less_induct)
  case (less n)
  show ?case
  proof (cases "length b")
    case 0
    then show ?thesis by (cases n) (auto simp: pop_empty)
  next
    case (Suc k)
    then obtain n' where n: "n = Suc n'" and k: "k \<le> n'" using less.prems by (cases n) auto
    have "drain_upto pop n' r = drain_upto pop k r" if "pop b = Some (Some (m, r))" for m r
    proof -
      have r: "length r \<le> k" "fits (length r)"
        using pop_shrinks [OF less.prems(1) that] Suc fits_mono [OF less.prems(1)] by auto
      have "drain_upto pop n' r = drain_upto pop (length r) r"
        using r k n by (intro less.IH) auto
      moreover have "drain_upto pop k r = drain_upto pop (length r) r"
        using r k n by (intro less.IH) auto
      ultimately show ?thesis by simp
    qed
    then show ?thesis using Suc n by (auto split: option.splits)
  qed
qed

lemma drain_unfold:
  assumes "fits (length b)"
  shows "drain pop b =
     (case pop b of
        None \<Rightarrow> None
      | Some None \<Rightarrow> Some ([], b)
      | Some (Some (m, r)) \<Rightarrow> map_option (\<lambda>(ms, r'). (m # ms, r')) (drain pop r))"
proof -
  have e: "drain pop b = drain_upto pop (Suc (length b)) b"
    using drain_upto_enough [OF assms, of "Suc (length b)"] by (simp only: drain_def)
  show ?thesis
  proof (cases "\<exists>m r. pop b = Some (Some (m, r))")
    case True
    then obtain m r where p: "pop b = Some (Some (m, r))" by blast
    have "drain_upto pop (length b) r = drain pop r"
      using pop_shrinks [OF assms p] fits_mono [OF assms, of "length r"] drain_upto_enough [of r "length b"]
      by (simp add: drain_def)
    then show ?thesis by (simp add: e p)
  next
    case False
    then show ?thesis by (auto simp: e split: option.splits)
  qed
qed

lemma drain_append:
  assumes "fits (length (a @ b))"
  shows "drain pop (a @ b) =
     (case drain pop a of
        None \<Rightarrow> None
      | Some (ms, r) \<Rightarrow> map_option (\<lambda>(ms', r'). (ms @ ms', r')) (drain pop (r @ b)))"
  using assms
proof (induction a rule: length_induct)
  case (1 a)
  have f: "fits (length a)" using fits_mono [OF 1(2)] by simp
  show ?case
  proof (cases "pop a")
    case None
    then show ?thesis using drain_unfold [OF f] drain_unfold [OF 1(2)] abort_extend [OF 1(2)] by simp
  next
    case (Some o1)
    show ?thesis
    proof (cases o1)
      case None
      with Some have "drain pop a = Some ([], a)" using drain_unfold [OF f] by simp
      then show ?thesis by (simp add: option.map_ident_strong split_beta)
    next
      case (Some p)
      obtain m r where p: "p = (m, r)" by force
      have pa: "pop a = Some (Some (m, r))" using \<open>pop a = Some o1\<close> Some p by simp
      have "length r < length a" by (rule pop_shrinks [OF f pa])
      moreover then have "fits (length (r @ b))" using fits_mono [OF 1(2), of "length (r @ b)"] by simp
      ultimately have IH: "drain pop (r @ b) = (case drain pop r of None \<Rightarrow> None
          | Some (ms, r') \<Rightarrow> map_option (\<lambda>(ms', r''). (ms @ ms', r'')) (drain pop (r' @ b)))"
        using 1(1) by blast
      show ?thesis
        unfolding drain_unfold [OF f] drain_unfold [OF 1(2)] pa pop_extend [OF 1(2) pa]
        by (auto simp: IH option.map_comp split: option.splits intro!: option.map_cong)
    qed
  qed
qed

lemma drain_length:
  "fits (length b) \<Longrightarrow> drain pop b = Some (ms, r) \<Longrightarrow> length r \<le> length b"
proof (induction b arbitrary: ms r rule: length_induct)
  case (1 b)
  show ?case
  proof (cases "pop b")
    case (Some o1)
    show ?thesis
    proof (cases o1)
      case (Some p)
      obtain m r1 where p: "p = (m, r1)" by force
      have pb: "pop b = Some (Some (m, r1))" using \<open>pop b = Some o1\<close> Some p by simp
      have l: "length r1 < length b" by (rule pop_shrinks [OF 1(2) pb])
      moreover have "fits (length r1)" using fits_mono [OF 1(2)] l by simp
      moreover obtain ms1 where "drain pop r1 = Some (ms1, r)"
        using 1(3) unfolding drain_unfold [OF 1(2)] pb by (auto split: option.splits)
      ultimately have "length r \<le> length r1" using 1(1) by blast
      with l show ?thesis by simp
    qed (use 1(2,3) Some drain_unfold [OF 1(2)] in simp)
  qed (use 1(2,3) drain_unfold [OF 1(2)] in simp)
qed

text \<open>The items taken do not depend on the cut into chunks.\<close>

lemma chunking:
  "fits (length (b @ concat cs)) \<Longrightarrow> drain pop b = Some ([], b) \<Longrightarrow>
     feed_chunks pop b cs = drain pop (b @ concat cs)"
proof (induction cs arbitrary: b)
  case Nil
  then show ?case by simp
next
  case (Cons c cs)
  have f: "fits (length ((b @ c) @ concat cs))" using Cons.prems(1) by simp
  have fc: "fits (length (b @ c))" using fits_mono [OF f] by simp
  have "drain pop (b @ concat (c # cs)) =
     (case drain pop (b @ c) of None \<Rightarrow> None
      | Some (ms, r) \<Rightarrow> map_option (\<lambda>(ms', r'). (ms @ ms', r')) (drain pop (r @ concat cs)))"
    using drain_append [OF f] by simp
  moreover have "feed_chunks pop r cs = drain pop (r @ concat cs)" if "drain pop (b @ c) = Some (ms, r)" for ms r
  proof (rule Cons.IH)
    have l: "length r \<le> length (b @ c)" by (rule drain_length [OF fc that])
    then show "fits (length (r @ concat cs))" using fits_mono [OF f] by simp
    have "drain pop ((b @ c) @ []) = map_option (\<lambda>(ms', r'). (ms @ ms', r')) (drain pop (r @ []))"
      using drain_append [of "b @ c" "[]"] fc that by simp
    then show "drain pop r = Some ([], r)" using that by (cases "drain pop r") auto
  qed
  ultimately show ?case by (auto split: option.splits)
qed

end

end
