(* ===== verification/Parser.thy ===== *)
theory Parser
  imports Streams
begin

text \<open>
  The shell's command line parser, \<open>2/parser.cpp\<close> and \<open>2/parser.h\<close>. The buffer of
  \<open>struct parser\<close> is a byte list. A pointer into the buffer is the list of the bytes from it
  to \<open>end\<close>, together with the number of bytes already passed; the result \<open>None\<close> stands for a
  failed \<open>assert\<close>, which aborts the process (the build does not define \<open>NDEBUG\<close>). Byte
  counts are returned as \<open>uint32_t\<close>, hence truncated modulo \<open>2^32\<close>.
\<close>

section \<open>Characters\<close>

abbreviation NL :: char where "NL \<equiv> CHR 0x0A"
abbreviation SQUOTE :: char where "SQUOTE \<equiv> CHR 0x27"
abbreviation DQUOTE :: char where "DQUOTE \<equiv> CHR 0x22"
abbreviation BSLASH :: char where "BSLASH \<equiv> CHR 0x5C"

text \<open>\<open>isspace\<close> of the C locale; bytes above 127 are not white space.\<close>

definition isspace :: "char \<Rightarrow> bool" where
  "isspace c \<longleftrightarrow> c = CHR '' '' \<or> c = CHR 0x09 \<or> c = NL \<or> c = CHR 0x0B \<or> c = CHR 0x0C \<or> c = CHR 0x0D"

section \<open>Data\<close>

datatype token_type =
    TOKEN_TYPE_NONE | TOKEN_TYPE_STR | TOKEN_TYPE_NEW_LINE | TOKEN_TYPE_PIPE | TOKEN_TYPE_AND
  | TOKEN_TYPE_OR | TOKEN_TYPE_OUT_NEW | TOKEN_TYPE_OUT_APPEND | TOKEN_TYPE_BACKGROUND

record token =
  ttype :: token_type
  tdata :: bytes

datatype parser_error =
    PARSER_ERR_NONE
  | PARSER_ERR_PIPE_WITH_NO_LEFT_ARG
  | PARSER_ERR_PIPE_WITH_LEFT_ARG_NOT_A_COMMAND
  | PARSER_ERR_AND_WITH_NO_LEFT_ARG
  | PARSER_ERR_AND_WITH_LEFT_ARG_NOT_A_COMMAND
  | PARSER_ERR_OR_WITH_NO_LEFT_ARG
  | PARSER_ERR_OR_WITH_LEFT_ARG_NOT_A_COMMAND
  | PARSER_ERR_OUTOUT_REDIRECT_BAD_ARG
  | PARSER_ERR_TOO_LATE_ARGUMENTS
  | PARSER_ERR_ENDS_NOT_WITH_A_COMMAND

record command =
  exe :: bytes
  args :: "bytes list"

datatype expr_type = EXPR_TYPE_COMMAND | EXPR_TYPE_PIPE | EXPR_TYPE_AND | EXPR_TYPE_OR

record expr =
  etype :: expr_type
  cmd :: "command option"

datatype output_type = OUTPUT_TYPE_STDOUT | OUTPUT_TYPE_FILE_NEW | OUTPUT_TYPE_FILE_APPEND

record command_line =
  exprs :: "expr list"
  out_type :: output_type
  out_file :: bytes
  is_background :: bool

definition new_command_line :: command_line where
  "new_command_line =
     \<lparr>exprs = [], out_type = OUTPUT_TYPE_STDOUT, out_file = [], is_background = False\<rparr>"

record parser =
  buffer :: bytes

definition parser_new :: parser where
  "parser_new = \<lparr>buffer = []\<rparr>"

definition parser_feed :: "parser \<Rightarrow> bytes \<Rightarrow> parser" where
  "parser_feed p str = p\<lparr>buffer := buffer p @ str\<rparr>"

text \<open>\<open>None\<close> is the failed assertion that the buffer holds \<open>sz\<close> bytes.\<close>

definition parser_consume :: "parser \<Rightarrow> nat \<Rightarrow> parser option" where
  "parser_consume p sz =
     (if length (buffer p) \<ge> sz then Some (p\<lparr>buffer := drop sz (buffer p)\<rparr>) else None)"

section \<open>Tokens\<close>

text \<open>
  The first loop of \<open>parse_token\<close>: skipping white space. \<open>Inl n\<close> is a new line token that
  ends after \<open>n\<close> bytes.
\<close>

fun skip_spaces :: "bytes \<Rightarrow> nat \<Rightarrow> nat + bytes \<times> nat" where
  "skip_spaces [] n = Inr ([], n)"
| "skip_spaces (c # s) n =
     (if \<not> isspace c then Inr (c # s, n)
      else if c = NL then Inl (n + 1)
      else skip_spaces s (n + 1))"

text \<open>The loop over a comment: the number of bytes up to and with its new line, 0 without one.\<close>

fun skip_comment :: "bytes \<Rightarrow> nat \<Rightarrow> nat" where
  "skip_comment [] n = 0"
| "skip_comment (c # s) n = (if c = NL then n + 1 else skip_comment s (n + 1))"

definition is_operator :: "char \<Rightarrow> bool" where
  "is_operator c \<longleftrightarrow> c = CHR ''&'' \<or> c = CHR ''|'' \<or> c = CHR ''>''"

definition double_token :: "char \<Rightarrow> token_type" where
  "double_token c =
     (if c = CHR ''&'' then TOKEN_TYPE_AND
      else if c = CHR ''|'' then TOKEN_TYPE_OR else TOKEN_TYPE_OUT_APPEND)"

definition single_token :: "char \<Rightarrow> token_type" where
  "single_token c =
     (if c = CHR ''&'' then TOKEN_TYPE_BACKGROUND
      else if c = CHR ''|'' then TOKEN_TYPE_PIPE else TOKEN_TYPE_OUT_NEW)"

text \<open>
  One pass through the second loop: \<open>q\<close> is the open quote, \<open>d\<close> the collected data, \<open>c\<close> the
  byte at \<open>pos\<close> and \<open>s\<close> the bytes behind it. The loop goes on with a new quote and data after
  some bytes, returns a token after some bytes, returns 0 (no complete token yet), or fails
  an assertion.
\<close>

datatype token_step =
    StepGo "char option" bytes nat
  | StepEmit token_type nat
  | StepIncomplete
  | StepAssert

definition token_step :: "char option \<Rightarrow> bytes \<Rightarrow> char \<Rightarrow> bytes \<Rightarrow> token_step" where
  "token_step q d c s =
     (let append_and_next = StepGo q (d @ [c]) 1
      in
      if c = SQUOTE \<or> c = DQUOTE then
        (if q = None then (if s = [] then StepIncomplete else StepGo (Some c) d 1)
         else if q \<noteq> Some c then append_and_next
         else StepEmit TOKEN_TYPE_STR 1)
      else if c = BSLASH then
        (if q = Some SQUOTE then append_and_next
         else (case s of
             [] \<Rightarrow> StepIncomplete
           | e # _ \<Rightarrow>
               if q = Some DQUOTE then
                 (if e = BSLASH \<or> e = DQUOTE then StepGo q (d @ [e]) 2
                  else if e = NL then StepGo q d 2
                  else StepGo q (d @ [BSLASH, e]) 2)
               else if e = NL then StepGo q d 2
               else StepGo q (d @ [e]) 2))
      else if is_operator c then
        (if q \<noteq> None then append_and_next
         else if d \<noteq> [] then StepEmit TOKEN_TYPE_STR 0
         else (case s of
             [] \<Rightarrow> StepIncomplete
           | e # _ \<Rightarrow> if e = c then StepEmit (double_token c) 2 else StepEmit (single_token c) 1))
      else if c = CHR '' '' \<or> c = CHR 0x09 \<or> c = CHR 0x0D then
        (if q \<noteq> None then append_and_next
         else if d = [] then StepAssert
         else StepEmit TOKEN_TYPE_STR 1)
      else if c = NL then
        (if q \<noteq> None then append_and_next
         else if d = [] then StepAssert
         else StepEmit TOKEN_TYPE_STR 0)
      else if c = CHR ''#'' then
        (if q \<noteq> None then append_and_next
         else if d \<noteq> [] then StepEmit TOKEN_TYPE_STR 0
         else if skip_comment s 1 = 0 then StepIncomplete
         else StepEmit TOKEN_TYPE_NEW_LINE (skip_comment s 1))
      else append_and_next)"

lemma token_step_Go: "token_step q d c s = StepGo q' d' k \<Longrightarrow> 0 < k \<and> k \<le> Suc (length s) \<and> k \<le> 2"
  by (auto simp: token_step_def Let_def split: if_splits list.splits)

text \<open>
  The second loop, from the bytes at \<open>pos\<close> and the number \<open>n\<close> of bytes passed since \<open>begin\<close>:
  the number of bytes used (0: no complete token yet) and the token.
\<close>

function token_loop :: "char option \<Rightarrow> bytes \<Rightarrow> bytes \<Rightarrow> nat \<Rightarrow> (nat \<times> token) option" where
  "token_loop q d [] n = Some (0, \<lparr>ttype = TOKEN_TYPE_NONE, tdata = d\<rparr>)"
| "token_loop q d (c # s) n =
     (case token_step q d c s of
        StepGo q' d' k \<Rightarrow> token_loop q' d' (drop k (c # s)) (n + k)
      | StepEmit ty k \<Rightarrow> Some (n + k, \<lparr>ttype = ty, tdata = d\<rparr>)
      | StepIncomplete \<Rightarrow> Some (0, \<lparr>ttype = TOKEN_TYPE_NONE, tdata = d\<rparr>)
      | StepAssert \<Rightarrow> None)"
  by pat_completeness auto
termination
  by (relation "measure (\<lambda>(q, d, s, n). length s)") (auto dest: token_step_Go)

definition scan_token :: "bytes \<Rightarrow> (nat \<times> token) option" where
  "scan_token s =
     (case skip_spaces s 0 of
        Inl n \<Rightarrow> Some (n, \<lparr>ttype = TOKEN_TYPE_NEW_LINE, tdata = []\<rparr>)
      | Inr (s', n) \<Rightarrow> token_loop None [] s' n)"

text \<open>The \<open>uint32_t\<close> result of \<open>parse_token\<close>.\<close>

definition parse_token :: "bytes \<Rightarrow> (nat \<times> token) option" where
  "parse_token s = map_option (\<lambda>(used, t). (to_u32 used, t)) (scan_token s)"

section \<open>Command lines\<close>

text \<open>
  Where the main loop of \<open>parser_pop_next\<close> leaves to: the labels \<open>return_no_line\<close>,
  \<open>close_and_return\<close> (with the line, the last token and the position) and \<open>return_error\<close>.
  A position is the pair of the bytes passed and the bytes left.
\<close>

datatype pop_exit =
    ReturnNoLine
  | CloseAndReturn command_line token nat bytes
  | ReturnError parser_error nat bytes

definition last_is_command :: "command_line \<Rightarrow> bool" where
  "last_is_command line \<longleftrightarrow> exprs line \<noteq> [] \<and> etype (last (exprs line)) = EXPR_TYPE_COMMAND"

definition push_expr :: "expr \<Rightarrow> command_line \<Rightarrow> command_line" where
  "push_expr e line = line\<lparr>exprs := exprs line @ [e]\<rparr>"

definition add_arg :: "bytes \<Rightarrow> expr \<Rightarrow> expr" where
  "add_arg a e = e\<lparr>cmd := map_option (\<lambda>c. c\<lparr>args := args c @ [a]\<rparr>) (cmd e)\<rparr>"

text \<open>The case \<open>TOKEN_TYPE_STR\<close> of the switch.\<close>

definition push_word :: "bytes \<Rightarrow> command_line \<Rightarrow> command_line" where
  "push_word w line =
     (if last_is_command line
      then line\<lparr>exprs := butlast (exprs line) @ [add_arg w (last (exprs line))]\<rparr>
      else push_expr \<lparr>etype = EXPR_TYPE_COMMAND, cmd = Some \<lparr>exe = w, args = []\<rparr>\<rparr> line)"

definition push_operator ::
  "expr_type \<Rightarrow> parser_error \<Rightarrow> parser_error \<Rightarrow> command_line \<Rightarrow> parser_error + command_line" where
  "push_operator op no_left bad_left line =
     (if exprs line = [] then Inl no_left
      else if etype (last (exprs line)) \<noteq> EXPR_TYPE_COMMAND then Inl bad_left
      else Inr (push_expr \<lparr>etype = op, cmd = None\<rparr> line))"

text \<open>One pass through the switch: stop with an exit, or go on with a line.\<close>

definition switch_token :: "command_line \<Rightarrow> token \<Rightarrow> nat \<Rightarrow> bytes \<Rightarrow> (pop_exit + command_line) option" where
  "switch_token line t pos s =
     (case ttype t of
        TOKEN_TYPE_STR \<Rightarrow> Some (Inr (push_word (tdata t) line))
      | TOKEN_TYPE_NEW_LINE \<Rightarrow>
          Some (if exprs line = [] then Inr line else Inl (CloseAndReturn line t pos s))
      | TOKEN_TYPE_PIPE \<Rightarrow>
          Some (case push_operator EXPR_TYPE_PIPE PARSER_ERR_PIPE_WITH_NO_LEFT_ARG
                  PARSER_ERR_PIPE_WITH_LEFT_ARG_NOT_A_COMMAND line of
                  Inl e \<Rightarrow> Inl (ReturnError e pos s) | Inr l \<Rightarrow> Inr l)
      | TOKEN_TYPE_AND \<Rightarrow>
          Some (case push_operator EXPR_TYPE_AND PARSER_ERR_AND_WITH_NO_LEFT_ARG
                  PARSER_ERR_AND_WITH_LEFT_ARG_NOT_A_COMMAND line of
                  Inl e \<Rightarrow> Inl (ReturnError e pos s) | Inr l \<Rightarrow> Inr l)
      | TOKEN_TYPE_OR \<Rightarrow>
          Some (case push_operator EXPR_TYPE_OR PARSER_ERR_OR_WITH_NO_LEFT_ARG
                  PARSER_ERR_OR_WITH_LEFT_ARG_NOT_A_COMMAND line of
                  Inl e \<Rightarrow> Inl (ReturnError e pos s) | Inr l \<Rightarrow> Inr l)
      | TOKEN_TYPE_OUT_NEW \<Rightarrow> Some (Inl (CloseAndReturn line t pos s))
      | TOKEN_TYPE_OUT_APPEND \<Rightarrow> Some (Inl (CloseAndReturn line t pos s))
      | TOKEN_TYPE_BACKGROUND \<Rightarrow> Some (Inl (CloseAndReturn line t pos s))
      | TOKEN_TYPE_NONE \<Rightarrow> None)"

function pop_loop :: "command_line \<Rightarrow> nat \<Rightarrow> bytes \<Rightarrow> pop_exit option" where
  "pop_loop line pos s =
     (if s = [] then Some ReturnNoLine
      else (case parse_token s of
          None \<Rightarrow> None
        | Some (used, t) \<Rightarrow>
            if used = 0 then Some ReturnNoLine
            else (case switch_token line t (pos + used) (drop used s) of
                None \<Rightarrow> None
              | Some (Inl e) \<Rightarrow> Some e
              | Some (Inr line') \<Rightarrow> pop_loop line' (pos + used) (drop used s))))"
  by pat_completeness auto
termination
  by (relation "measure (\<lambda>(line, pos, s). length s)") auto

declare pop_loop.simps [simp del]

text \<open>
  Reading one more token behind the label \<open>close_and_return\<close>: the result of
  \<open>parse_token\<close>, the jump to \<open>return_no_line\<close> when it used no byte, and the rest \<open>k\<close> of the code.
\<close>

definition with_token :: "nat \<Rightarrow> bytes \<Rightarrow> (token \<Rightarrow> nat \<Rightarrow> bytes \<Rightarrow> pop_exit option) \<Rightarrow> pop_exit option" where
  "with_token pos s k =
     (case parse_token s of
        None \<Rightarrow> None
      | Some (used, t) \<Rightarrow>
          if used = 0 then Some ReturnNoLine else k t (pos + used) (drop used s))"

definition close_redirect :: "command_line \<Rightarrow> token \<Rightarrow> nat \<Rightarrow> bytes \<Rightarrow> pop_exit option" where
  "close_redirect line t pos s =
     (if ttype t = TOKEN_TYPE_OUT_NEW \<or> ttype t = TOKEN_TYPE_OUT_APPEND then
        (let line = line\<lparr>out_type := (if ttype t = TOKEN_TYPE_OUT_NEW
                                       then OUTPUT_TYPE_FILE_NEW else OUTPUT_TYPE_FILE_APPEND)\<rparr>
         in with_token pos s (\<lambda>t pos s.
              if ttype t \<noteq> TOKEN_TYPE_STR
              then Some (ReturnError PARSER_ERR_OUTOUT_REDIRECT_BAD_ARG pos s)
              else with_token pos s (\<lambda>t' pos s.
                     Some (CloseAndReturn (line\<lparr>out_file := tdata t\<rparr>) t' pos s))))
      else Some (CloseAndReturn line t pos s))"

definition close_background :: "command_line \<Rightarrow> token \<Rightarrow> nat \<Rightarrow> bytes \<Rightarrow> pop_exit option" where
  "close_background line t pos s =
     (if ttype t = TOKEN_TYPE_BACKGROUND then
        with_token pos s (\<lambda>t pos s. Some (CloseAndReturn (line\<lparr>is_background := True\<rparr>) t pos s))
      else Some (CloseAndReturn line t pos s))"

text \<open>The loop after \<open>return_error\<close>: the position behind the next new line, if there is one.\<close>

function skip_line :: "nat \<Rightarrow> bytes \<Rightarrow> nat option option" where
  "skip_line pos s =
     (if s = [] then Some None
      else (case parse_token s of
          None \<Rightarrow> None
        | Some (used, t) \<Rightarrow>
            if used = 0 then Some None
            else if ttype t = TOKEN_TYPE_NEW_LINE then Some (Some (pos + used))
            else skip_line (pos + used) (drop used s)))"
  by pat_completeness auto
termination
  by (relation "measure (\<lambda>(pos, s). length s)") auto

declare skip_line.simps [simp del]

type_synonym pop_result = "parser_error \<times> command_line option \<times> parser"

definition return_error :: "parser \<Rightarrow> parser_error \<Rightarrow> nat \<Rightarrow> bytes \<Rightarrow> pop_result option" where
  "return_error p res pos s =
     (case skip_line pos s of
        None \<Rightarrow> None
      | Some None \<Rightarrow> Some (PARSER_ERR_NONE, None, p)
      | Some (Some pos) \<Rightarrow> map_option (\<lambda>p. (res, None, p)) (parser_consume p (to_u32 pos)))"

text \<open>From the check for the new line token to the end of the function.\<close>

definition close_line :: "parser \<Rightarrow> command_line \<Rightarrow> token \<Rightarrow> nat \<Rightarrow> bytes \<Rightarrow> pop_result option" where
  "close_line p line t pos s =
     (if ttype t = TOKEN_TYPE_NEW_LINE then
        (if exprs line = [] then None
         else (case parser_consume p (to_u32 pos) of
             None \<Rightarrow> None
           | Some p \<Rightarrow>
               if etype (last (exprs line)) \<noteq> EXPR_TYPE_COMMAND
               then Some (PARSER_ERR_ENDS_NOT_WITH_A_COMMAND, None, p)
               else Some (PARSER_ERR_NONE, Some line, p)))
      else return_error p PARSER_ERR_TOO_LATE_ARGUMENTS pos s)"

definition finish_pop ::
  "parser \<Rightarrow> (command_line \<Rightarrow> token \<Rightarrow> nat \<Rightarrow> bytes \<Rightarrow> pop_result option) \<Rightarrow> pop_exit option \<Rightarrow> pop_result option" where
  "finish_pop p k ex =
     (case ex of
        None \<Rightarrow> None
      | Some ReturnNoLine \<Rightarrow> Some (PARSER_ERR_NONE, None, p)
      | Some (ReturnError e pos s) \<Rightarrow> return_error p e pos s
      | Some (CloseAndReturn line t pos s) \<Rightarrow> k line t pos s)"

definition parser_pop_next :: "parser \<Rightarrow> pop_result option" where
  "parser_pop_next p =
     finish_pop p
       (\<lambda>line t pos s. finish_pop p
          (\<lambda>line t pos s. finish_pop p (close_line p) (close_background line t pos s))
          (close_redirect line t pos s))
       (pop_loop new_command_line 0 (buffer p))"

section \<open>Tokens: bounds and stability under more input\<close>

lemma skip_comment_bound: "skip_comment s n \<noteq> 0 \<Longrightarrow> n < skip_comment s n \<and> skip_comment s n \<le> n + length s"
  by (induction s n rule: skip_comment.induct) (auto split: if_splits)

lemma skip_comment_extend: "skip_comment s n \<noteq> 0 \<Longrightarrow> skip_comment (s @ x) n = skip_comment s n"
  by (induction s n rule: skip_comment.induct) auto

lemma token_types [simp]: "double_token c \<noteq> TOKEN_TYPE_NONE" "single_token c \<noteq> TOKEN_TYPE_NONE"
  by (auto simp: double_token_def single_token_def)

lemma token_step_Emit:
  assumes "token_step q d c s = StepEmit ty k"
  shows "k \<le> Suc (length s)" and "ty \<noteq> TOKEN_TYPE_NONE" and "d = [] \<Longrightarrow> 0 < k"
  using assms skip_comment_bound [of s 1]
  by (auto simp: token_step_def Let_def split: if_splits list.splits)

lemma token_step_extend:
  "token_step q d c s \<noteq> StepIncomplete \<Longrightarrow> token_step q d c (s @ x) = token_step q d c s"
  using skip_comment_extend [of s 1 x]
  by (cases s) (auto simp: token_step_def Let_def split: if_splits)

lemma drop_Cons_append: "k \<le> Suc (length s) \<Longrightarrow> drop k (c # s @ x) = drop k (c # s) @ x"
  by (cases k) auto

lemma token_loop_bound:
  assumes "token_loop q d s n = Some (u, t)" and "d \<noteq> [] \<Longrightarrow> 0 < n"
  shows "u \<le> n + length s \<and> (u = 0 \<longleftrightarrow> ttype t = TOKEN_TYPE_NONE)"
  using assms
proof (induction q d s n rule: token_loop.induct)
  case (1 q d n)
  then show ?case by auto
next
  case (2 q d c s n)
  show ?case
  proof (cases "token_step q d c s")
    case (StepGo q' d' k)
    with 2 token_step_Go [OF StepGo] show ?thesis by fastforce
  next
    case (StepEmit ty k)
    with 2 token_step_Emit [OF StepEmit] show ?thesis by auto
  qed (use 2 in auto)
qed

lemma token_loop_extend:
  assumes "token_loop q d s n = Some (u, t)" and "u \<noteq> 0"
  shows "token_loop q d (s @ x) n = Some (u, t)"
  using assms
proof (induction q d s n rule: token_loop.induct)
  case (2 q d c s n)
  show ?case
  proof (cases "token_step q d c s")
    case (StepGo q' d' k)
    with 2 token_step_Go [OF StepGo] token_step_extend [of q d c s x] drop_Cons_append [of k s c x] show ?thesis by auto
  next
    case (StepEmit ty k)
    with 2 token_step_extend [of q d c s x] show ?thesis by auto
  qed (use 2 in auto)
qed simp

lemma token_loop_abort_extend:
  assumes "token_loop q d s n = None"
  shows "token_loop q d (s @ x) n = None"
  using assms
proof (induction q d s n rule: token_loop.induct)
  case (2 q d c s n)
  show ?case
  proof (cases "token_step q d c s")
    case (StepGo q' d' k)
    with 2 token_step_Go [OF StepGo] token_step_extend [of q d c s x] drop_Cons_append [of k s c x] show ?thesis by auto
  qed (use 2 token_step_extend [of q d c s x] in auto)
qed simp

lemma skip_spaces_Inl:
  "skip_spaces s n = Inl m \<Longrightarrow> n < m \<and> m \<le> n + length s \<and> skip_spaces (s @ x) n = Inl m"
  by (induction s n rule: skip_spaces.induct) (auto split: if_splits)

lemma skip_spaces_Inr:
  "skip_spaces s n = Inr (s', m) \<Longrightarrow>
     m + length s' = n + length s \<and> n \<le> m \<and> (s' \<noteq> [] \<longrightarrow> skip_spaces (s @ x) n = Inr (s' @ x, m))"
  by (induction s n rule: skip_spaces.induct) (auto split: if_splits)

lemma scan_token_bound:
  assumes "scan_token s = Some (u, t)"
  shows "u \<le> length s" and "u = 0 \<longleftrightarrow> ttype t = TOKEN_TYPE_NONE"
proof -
  have "u \<le> length s \<and> (u = 0 \<longleftrightarrow> ttype t = TOKEN_TYPE_NONE)"
  proof (cases "skip_spaces s 0")
    case (Inl m)
    then show ?thesis using assms skip_spaces_Inl [OF Inl] by (auto simp: scan_token_def)
  next
    case (Inr p)
    obtain s' n where p: "skip_spaces s 0 = Inr (s', n)" using Inr by (cases p) auto
    then have "token_loop None [] s' n = Some (u, t)" using assms by (simp add: scan_token_def)
    from token_loop_bound [OF this] show ?thesis using skip_spaces_Inr [OF p, of "[]"] by auto
  qed
  then show "u \<le> length s" and "u = 0 \<longleftrightarrow> ttype t = TOKEN_TYPE_NONE" by auto
qed

lemma scan_token_extend:
  assumes "scan_token s = Some (u, t)" and "u \<noteq> 0"
  shows "scan_token (s @ x) = Some (u, t)"
proof (cases "skip_spaces s 0")
  case (Inl m)
  then show ?thesis using assms skip_spaces_Inl [OF Inl, of x] by (auto simp: scan_token_def)
next
  case (Inr p)
  obtain s' n where p: "skip_spaces s 0 = Inr (s', n)" using Inr by (cases p) auto
  then have l: "token_loop None [] s' n = Some (u, t)" using assms by (simp add: scan_token_def)
  have "s' \<noteq> []" using l assms(2) by auto
  then show ?thesis
    using token_loop_extend [OF l assms(2), of x] skip_spaces_Inr [OF p, of x] by (simp add: scan_token_def)
qed

lemma scan_token_abort_extend:
  assumes "scan_token s = None"
  shows "scan_token (s @ x) = None"
proof (cases "skip_spaces s 0")
  case (Inl m)
  then show ?thesis using assms by (simp add: scan_token_def)
next
  case (Inr p)
  obtain s' n where p: "skip_spaces s 0 = Inr (s', n)" using Inr by (cases p) auto
  then have l: "token_loop None [] s' n = None" using assms by (simp add: scan_token_def)
  have "s' \<noteq> []" using l by auto
  then show ?thesis
    using token_loop_abort_extend [OF l, of x] skip_spaces_Inr [OF p, of x] by (simp add: scan_token_def)
qed

lemma parse_token_scan: "length s < 2 ^ 32 \<Longrightarrow> parse_token s = scan_token s"
  by (cases "scan_token s") (auto simp: parse_token_def dest!: scan_token_bound(1))

text \<open>The bounds of \<open>parse_token\<close> hold at any length, since truncation only lowers the count.\<close>

lemma parse_token_bound:
  assumes "parse_token s = Some (u, t)"
  shows "u \<le> length s" and "u \<noteq> 0 \<Longrightarrow> ttype t \<noteq> TOKEN_TYPE_NONE"
proof -
  obtain u0 where u0: "scan_token s = Some (u0, t)" "u = to_u32 u0"
    using assms by (auto simp: parse_token_def)
  show "u \<le> length s" using u0 scan_token_bound(1) [OF u0(1)] to_u32_le [of u0] by simp
  show "ttype t \<noteq> TOKEN_TYPE_NONE" if "u \<noteq> 0"
    using that u0 scan_token_bound(2) [OF u0(1)] by (auto simp: to_u32_def)
qed

lemma parse_token_extend:
  "length (s @ x) < 2 ^ 32 \<Longrightarrow> parse_token s = Some (u, t) \<Longrightarrow> u \<noteq> 0 \<Longrightarrow> parse_token (s @ x) = Some (u, t)"
  by (simp add: parse_token_scan scan_token_extend)

lemma parse_token_abort_extend:
  "length (s @ x) < 2 ^ 32 \<Longrightarrow> parse_token s = None \<Longrightarrow> parse_token (s @ x) = None"
  by (simp add: parse_token_scan scan_token_abort_extend)

section \<open>Command lines: stability under more input\<close>

text \<open>An exit of the parser, seen with \<open>x\<close> appended to the buffer.\<close>

definition extend_exit :: "bytes \<Rightarrow> pop_exit \<Rightarrow> pop_exit" where
  "extend_exit x e =
     (case e of
        ReturnNoLine \<Rightarrow> ReturnNoLine
      | CloseAndReturn l t pos s \<Rightarrow> CloseAndReturn l t pos (s @ x)
      | ReturnError r pos s \<Rightarrow> ReturnError r pos (s @ x))"

lemma extend_exit_simps [simp]:
  "extend_exit x ReturnNoLine = ReturnNoLine"
  "extend_exit x (CloseAndReturn l t pos s) = CloseAndReturn l t pos (s @ x)"
  "extend_exit x (ReturnError r pos s) = ReturnError r pos (s @ x)"
  by (auto simp: extend_exit_def)

text \<open>The position of an exit lies in the buffer \<open>b\<close>, behind at least one byte.\<close>

fun exit_in :: "bytes \<Rightarrow> pop_exit \<Rightarrow> bool" where
  "exit_in b ReturnNoLine = True"
| "exit_in b (CloseAndReturn l t pos s) = (0 < pos \<and> pos \<le> length b \<and> s = drop pos b)"
| "exit_in b (ReturnError r pos s) = (0 < pos \<and> pos \<le> length b \<and> s = drop pos b)"

lemma switch_token_extend:
  "switch_token line t pos (s @ x) =
     map_option (\<lambda>r. case r of Inl e \<Rightarrow> Inl (extend_exit x e) | Inr l \<Rightarrow> Inr l) (switch_token line t pos s)"
  by (auto simp: switch_token_def push_operator_def split: token_type.splits)

lemma switch_token_None: "ttype t \<noteq> TOKEN_TYPE_NONE \<Longrightarrow> switch_token line t pos s \<noteq> None"
  by (auto simp: switch_token_def split: token_type.splits)

lemma switch_token_Inl:
  "switch_token line t pos s = Some (Inl e) \<Longrightarrow>
     e = CloseAndReturn line t pos s \<or> (\<exists>r. r \<noteq> PARSER_ERR_NONE \<and> e = ReturnError r pos s)"
  by (auto simp: switch_token_def push_operator_def split: token_type.splits if_splits)

lemma parse_token_Nil [simp]: "parse_token [] = Some (0, \<lparr>ttype = TOKEN_TYPE_NONE, tdata = []\<rparr>)"
  by (simp add: parse_token_def scan_token_def)

text \<open>The three ways a pass of the main loop can go, for a buffer with a complete token.\<close>

lemma pop_loop_abort: "parse_token s = None \<Longrightarrow> pop_loop line pos s = None"
  by (cases "s = []") (auto simp: pop_loop.simps [of line pos s])

lemma pop_loop_incomplete: "parse_token s = Some (0, t) \<Longrightarrow> pop_loop line pos s = Some ReturnNoLine"
  by (auto simp: pop_loop.simps [of line pos s])

lemma pop_loop_token:
  "parse_token s = Some (u, t) \<Longrightarrow> u \<noteq> 0 \<Longrightarrow>
     pop_loop line pos s =
       (case switch_token line t (pos + u) (drop u s) of
          None \<Rightarrow> None
        | Some (Inl e) \<Rightarrow> Some e
        | Some (Inr line') \<Rightarrow> pop_loop line' (pos + u) (drop u s))"
  by (cases "s = []") (auto simp: pop_loop.simps [of line pos s])

lemma skip_line_abort: "parse_token s = None \<Longrightarrow> skip_line pos s = None"
  by (cases "s = []") (auto simp: skip_line.simps [of pos s])

lemma skip_line_incomplete: "parse_token s = Some (0, t) \<Longrightarrow> skip_line pos s = Some None"
  by (auto simp: skip_line.simps [of pos s])

lemma skip_line_token:
  "parse_token s = Some (u, t) \<Longrightarrow> u \<noteq> 0 \<Longrightarrow>
     skip_line pos s =
       (if ttype t = TOKEN_TYPE_NEW_LINE then Some (Some (pos + u)) else skip_line (pos + u) (drop u s))"
  by (cases "s = []") (auto simp: skip_line.simps [of pos s])

text \<open>Induction over the tokens of a buffer.\<close>

lemma token_induct [case_names Abort Incomplete Token]:
  assumes "\<And>s. parse_token s = None \<Longrightarrow> P s"
    and "\<And>s t. parse_token s = Some (0, t) \<Longrightarrow> P s"
    and "\<And>s u t. parse_token s = Some (u, t) \<Longrightarrow> u \<noteq> 0 \<Longrightarrow> u \<le> length s \<Longrightarrow> P (drop u s) \<Longrightarrow> P s"
  shows "P s"
proof (induction s rule: length_induct)
  case (1 s)
  show ?case
  proof (cases "parse_token s")
    case (Some p)
    obtain u t where p: "p = (u, t)" by force
    show ?thesis
    proof (cases "u = 0")
      case False
      have b: "u \<le> length s" using Some p by (auto dest: parse_token_bound(1))
      then have "length (drop u s) < length s" using False by auto
      then show ?thesis using 1 assms(3) Some p False b by blast
    qed (use assms(2) Some p in blast)
  qed (rule assms(1))
qed

lemma pop_loop_exit_in:
  "pop_loop line pos s = Some e \<Longrightarrow> s = drop pos b \<Longrightarrow> pos \<le> length b \<Longrightarrow> exit_in b e"
proof (induction s arbitrary: line pos rule: token_induct)
  case (Abort s)
  then show ?case by (simp add: pop_loop_abort)
next
  case (Incomplete s t)
  then show ?case by (simp add: pop_loop_incomplete)
next
  case (Token s u t)
  note pl = pop_loop_token [OF Token.hyps(1,2), of line pos]
  have q: "0 < pos + u" "pos + u \<le> length b" "drop u s = drop (pos + u) b"
    using Token.prems Token.hyps by (auto simp: add.commute)
  show ?case
  proof (cases "switch_token line t (pos + u) (drop u s)")
    case (Some r)
    show ?thesis
    proof (cases r)
      case (Inl e')
      then show ?thesis using switch_token_Inl [of line t "pos + u" "drop u s" e'] q Some pl Token.prems(1) by auto
    next
      case (Inr line')
      then show ?thesis using Token.IH [OF _ q(3,2)] Some pl Token.prems(1) by simp
    qed
  qed (use pl Token.prems(1) in simp)
qed

lemma pop_loop_extend:
  assumes "length (s @ x) < 2 ^ 32"
  shows "pop_loop line pos s = None \<Longrightarrow> pop_loop line pos (s @ x) = None"
    and "pop_loop line pos s = Some e \<Longrightarrow> e \<noteq> ReturnNoLine \<Longrightarrow> pop_loop line pos (s @ x) = Some (extend_exit x e)"
proof -
  have "(pop_loop line pos s = None \<longrightarrow> pop_loop line pos (s @ x) = None) \<and>
    (\<forall>e. pop_loop line pos s = Some e \<longrightarrow> e \<noteq> ReturnNoLine \<longrightarrow> pop_loop line pos (s @ x) = Some (extend_exit x e))"
    using assms
  proof (induction s arbitrary: line pos rule: token_induct)
    case (Abort s)
    then show ?case by (simp add: pop_loop_abort parse_token_abort_extend)
  next
    case (Incomplete s t)
    then show ?case by (simp add: pop_loop_incomplete)
  next
    case (Token s u t)
    note pl = pop_loop_token [OF Token.hyps(1,2), of line pos]
      and pe = pop_loop_token [OF parse_token_extend [OF Token.prems Token.hyps(1,2)] Token.hyps(2), of line pos]
    have d: "drop u (s @ x) = drop u s @ x" "length (drop u s @ x) < 2 ^ 32"
      using Token.hyps(3) Token.prems by auto
    show ?case
    proof (cases "switch_token line t (pos + u) (drop u s)")
      case None
      then show ?thesis by (simp add: pl pe d switch_token_extend)
    next
      case (Some r)
      then show ?thesis using Token.IH [OF d(2)]
        by (cases r) (auto simp: pl pe d(1) switch_token_extend simp del: drop_append)
    qed
  qed
  then show "pop_loop line pos s = None \<Longrightarrow> pop_loop line pos (s @ x) = None"
    and "pop_loop line pos s = Some e \<Longrightarrow> e \<noteq> ReturnNoLine \<Longrightarrow> pop_loop line pos (s @ x) = Some (extend_exit x e)"
    by auto
qed

lemma skip_line_in:
  "skip_line pos s = Some (Some q) \<Longrightarrow> s = drop pos b \<Longrightarrow> pos \<le> length b \<Longrightarrow> pos < q \<and> q \<le> length b"
proof (induction s arbitrary: pos rule: token_induct)
  case (Abort s)
  then show ?case by (simp add: skip_line_abort)
next
  case (Incomplete s t)
  then show ?case by (simp add: skip_line_incomplete)
next
  case (Token s u t)
  have q: "pos + u \<le> length b" "drop u s = drop (pos + u) b"
    using Token.prems Token.hyps by (auto simp: add.commute)
  then show ?case using Token.prems(1) Token.hyps(2) Token.IH [of "pos + u"] skip_line_token [OF Token.hyps(1,2), of pos]
    by (auto split: if_splits)
qed

lemma skip_line_extend:
  assumes "length (s @ x) < 2 ^ 32"
  shows "skip_line pos s \<noteq> Some None \<Longrightarrow> skip_line pos (s @ x) = skip_line pos s"
  using assms
proof (induction s arbitrary: pos rule: token_induct)
  case (Abort s)
  then show ?case by (simp add: skip_line_abort parse_token_abort_extend)
next
  case (Incomplete s t)
  then show ?case by (simp add: skip_line_incomplete)
next
  case (Token s u t)
  have d: "drop u (s @ x) = drop u s @ x" "length (drop u s @ x) < 2 ^ 32"
    using Token.hyps(3) Token.prems by auto
  show ?case
    using Token.IH [OF _ d(2)] Token.prems(1) skip_line_token [OF Token.hyps(1,2), of pos]
      skip_line_token [OF parse_token_extend [OF Token.prems(2) Token.hyps(1,2)] Token.hyps(2), of pos]
    by (auto simp: d(1) simp del: drop_append split: if_splits)
qed

text \<open>
  How an exit computed on the buffer \<open>b\<close> relates to the exit computed on \<open>b @ x\<close>, and
  likewise for results.
\<close>

definition exit_stable :: "bytes \<Rightarrow> bytes \<Rightarrow> pop_exit option \<Rightarrow> pop_exit option \<Rightarrow> bool" where
  "exit_stable b x ex ex' \<longleftrightarrow>
     (ex = None \<longrightarrow> ex' = None) \<and>
     (\<forall>e. ex = Some e \<longrightarrow> e \<noteq> ReturnNoLine \<longrightarrow> ex' = Some (extend_exit x e) \<and> exit_in b e)"

definition needs_input :: "parser_error \<Rightarrow> command_line option \<Rightarrow> bool" where
  "needs_input err line \<longleftrightarrow> err = PARSER_ERR_NONE \<and> line = None"

definition pop_stable :: "bytes \<Rightarrow> pop_result option \<Rightarrow> pop_result option \<Rightarrow> bool" where
  "pop_stable x r r' \<longleftrightarrow>
     (r = None \<longrightarrow> r' = None) \<and>
     (\<forall>err line q. r = Some (err, line, q) \<longrightarrow> \<not> needs_input err line \<longrightarrow> r' = Some (err, line, parser_feed q x))"

lemma exit_stable_at:
  assumes "0 < q" and "q \<le> length b"
  shows "exit_stable b x (Some (CloseAndReturn l t q (drop q b))) (Some (CloseAndReturn l t q (drop q b @ x)))"
    and "exit_stable b x (Some (ReturnError r q (drop q b))) (Some (ReturnError r q (drop q b @ x)))"
  using assms by (simp_all add: exit_stable_def)

lemma with_token_stable:
  assumes "length b + length x < 2 ^ 32" and "pos \<le> length b" and "s = drop pos b"
    and "\<And>t q. 0 < q \<Longrightarrow> q \<le> length b \<Longrightarrow> exit_stable b x (k t q (drop q b)) (k' t q (drop q b @ x))"
  shows "exit_stable b x (with_token pos s k) (with_token pos (s @ x) k')"
proof -
  have l: "length (s @ x) < 2 ^ 32" using assms by auto
  show ?thesis
  proof (cases "parse_token s")
    case None
    then show ?thesis by (simp add: with_token_def exit_stable_def parse_token_abort_extend [OF l])
  next
    case (Some p)
    obtain u t where p: "parse_token s = Some (u, t)" using Some by (cases p) auto
    show ?thesis
    proof (cases "u = 0")
      case True
      then show ?thesis using p by (simp add: with_token_def exit_stable_def)
    next
      case False
      have u: "u \<le> length s" by (rule parse_token_bound(1) [OF p])
      have "drop u s = drop (pos + u) b" by (simp add: assms(3) add.commute)
      moreover have "drop u (s @ x) = drop u s @ x" using u by simp
      moreover have "parse_token (s @ x) = Some (u, t)" by (rule parse_token_extend [OF l p False])
      moreover have "pos + u \<le> length b" using u assms(2,3) by simp
      ultimately show ?thesis using assms(4) [of "pos + u" t] False p
        by (simp add: with_token_def del: drop_append)
    qed
  qed
qed

lemma close_redirect_stable:
  assumes "length b + length x < 2 ^ 32" and "exit_in b (CloseAndReturn line t pos s)"
  shows "exit_stable b x (close_redirect line t pos s) (close_redirect line t pos (s @ x))"
  using assms
  by (auto simp: close_redirect_def Let_def intro!: with_token_stable exit_stable_at)

lemma close_background_stable:
  assumes "length b + length x < 2 ^ 32" and "exit_in b (CloseAndReturn line t pos s)"
  shows "exit_stable b x (close_background line t pos s) (close_background line t pos (s @ x))"
  using assms
  by (auto simp: close_background_def intro!: with_token_stable exit_stable_at)

lemma parser_consume_feed:
  "pos \<le> length (buffer p) \<Longrightarrow> parser_consume (parser_feed p x) pos = map_option (\<lambda>q. parser_feed q x) (parser_consume p pos)"
  by (simp add: parser_consume_def parser_feed_def)

lemma return_error_stable:
  assumes "length (buffer p) + length x < 2 ^ 32" and "pos \<le> length (buffer p)" and "s = drop pos (buffer p)"
  shows "pop_stable x (return_error p e pos s) (return_error (parser_feed p x) e pos (s @ x))"
proof -
  have l: "length (s @ x) < 2 ^ 32" using assms by auto
  show ?thesis
  proof (cases "skip_line pos s")
    case None
    then show ?thesis using skip_line_extend [OF l, of pos] by (simp add: pop_stable_def return_error_def)
  next
    case (Some o1)
    show ?thesis
    proof (cases o1)
      case None
      then show ?thesis using Some by (simp add: pop_stable_def return_error_def needs_input_def)
    next
      case (Some q)
      then have sk: "skip_line pos s = Some (Some q)" using \<open>skip_line pos s = Some o1\<close> by simp
      have q: "q \<le> length (buffer p)" using skip_line_in [OF sk assms(3,2)] by simp
      then have "to_u32 q = q" using assms(1) by simp
      then show ?thesis using sk skip_line_extend [OF l, of pos] q
        by (auto simp: pop_stable_def return_error_def parser_consume_feed)
    qed
  qed
qed

lemma close_line_stable:
  assumes "length (buffer p) + length x < 2 ^ 32" and "exit_in (buffer p) (CloseAndReturn line t pos s)"
  shows "pop_stable x (close_line p line t pos s) (close_line (parser_feed p x) line t pos (s @ x))"
proof -
  have "to_u32 pos = pos" using assms by simp
  then show ?thesis
    using return_error_stable [of p x pos s PARSER_ERR_TOO_LATE_ARGUMENTS] assms
    by (cases "parser_consume p pos") (auto simp: close_line_def pop_stable_def parser_consume_feed)
qed

lemma finish_pop_stable:
  assumes "length (buffer p) + length x < 2 ^ 32" and "exit_stable (buffer p) x ex ex'"
    and "\<And>line t pos s. exit_in (buffer p) (CloseAndReturn line t pos s) \<Longrightarrow>
      pop_stable x (k line t pos s) (k' line t pos (s @ x))"
  shows "pop_stable x (finish_pop p k ex) (finish_pop (parser_feed p x) k' ex')"
proof (cases ex)
  case None
  then show ?thesis using assms(2) by (simp add: finish_pop_def exit_stable_def pop_stable_def)
next
  case (Some e)
  show ?thesis
  proof (cases e)
    case ReturnNoLine
    then show ?thesis using Some by (simp add: finish_pop_def pop_stable_def needs_input_def)
  next
    case (CloseAndReturn line t pos s)
    then show ?thesis using Some assms(2) assms(3) [of line t pos s] by (simp add: finish_pop_def exit_stable_def)
  next
    case (ReturnError r pos s)
    then show ?thesis using Some assms(2) return_error_stable [OF assms(1), of pos s r]
      by (simp add: finish_pop_def exit_stable_def)
  qed
qed

lemma parser_pop_next_stable:
  assumes "length (buffer p) + length x < 2 ^ 32"
  shows "pop_stable x (parser_pop_next p) (parser_pop_next (parser_feed p x))"
proof -
  have "exit_stable (buffer p) x (pop_loop new_command_line 0 (buffer p)) (pop_loop new_command_line 0 (buffer p @ x))"
    using pop_loop_extend [of "buffer p" x new_command_line 0] pop_loop_exit_in [of new_command_line 0 "buffer p"] assms
    by (auto simp: exit_stable_def)
  then show ?thesis
    unfolding parser_pop_next_def
    by (simp add: parser_feed_def [of p x, THEN arg_cong [where f = buffer]])
      (intro finish_pop_stable [OF assms] close_redirect_stable close_background_stable close_line_stable assms)
qed

section \<open>Progress\<close>

text \<open>What a result says of the buffer: it is kept, or a non-empty prefix was removed.\<close>

definition pop_consumes :: "parser \<Rightarrow> pop_result option \<Rightarrow> bool" where
  "pop_consumes p r \<longleftrightarrow>
     (\<forall>err line q. r = Some (err, line, q) \<longrightarrow>
        (if needs_input err line then q = p
         else \<exists>n. 0 < n \<and> n \<le> length (buffer p) \<and> q = p\<lparr>buffer := drop n (buffer p)\<rparr>))"

lemma pop_consumes_Some:
  "0 < n \<Longrightarrow> n \<le> length (buffer p) \<Longrightarrow> \<not> needs_input err line \<Longrightarrow>
     pop_consumes p (Some (err, line, p\<lparr>buffer := drop n (buffer p)\<rparr>))"
  by (auto simp: pop_consumes_def)

lemma return_error_consumes:
  assumes "length (buffer p) < 2 ^ 32" and "pos \<le> length (buffer p)" and "s = drop pos (buffer p)"
    and "e \<noteq> PARSER_ERR_NONE"
  shows "pop_consumes p (return_error p e pos s)"
proof (cases "\<exists>q. skip_line pos s = Some (Some q)")
  case True
  then obtain q where q: "skip_line pos s = Some (Some q)" by blast
  have "pos < q \<and> q \<le> length (buffer p) \<and> to_u32 q = q"
    using skip_line_in [OF q assms(3,2)] assms(1) by simp
  then show ?thesis using q assms(4)
    by (simp add: return_error_def parser_consume_def pop_consumes_Some needs_input_def)
next
  case False
  then show ?thesis
    by (auto simp: pop_consumes_def return_error_def needs_input_def split: option.splits)
qed

lemma close_line_consumes:
  assumes "length (buffer p) < 2 ^ 32" and "exit_in (buffer p) (CloseAndReturn line t pos s)"
  shows "pop_consumes p (close_line p line t pos s)"
proof -
  have "to_u32 pos = pos" "pos \<le> length (buffer p)" "s = drop pos (buffer p)" "0 < pos" using assms by auto
  then show ?thesis
    using return_error_consumes [OF assms(1), of pos s PARSER_ERR_TOO_LATE_ARGUMENTS]
    by (cases "ttype t = TOKEN_TYPE_NEW_LINE")
      (auto simp: close_line_def pop_consumes_def parser_consume_def needs_input_def)
qed

text \<open>The error of an exit is a real error.\<close>

definition exit_error_ok :: "pop_exit option \<Rightarrow> bool" where
  "exit_error_ok ex \<longleftrightarrow> (\<forall>e pos s. ex = Some (ReturnError e pos s) \<longrightarrow> e \<noteq> PARSER_ERR_NONE)"

lemma finish_pop_consumes:
  assumes "length (buffer p) < 2 ^ 32" and "exit_stable (buffer p) x ex ex'" and "exit_error_ok ex"
    and "\<And>line t pos s. exit_in (buffer p) (CloseAndReturn line t pos s) \<Longrightarrow> pop_consumes p (k line t pos s)"
  shows "pop_consumes p (finish_pop p k ex)"
proof (cases ex)
  case None
  then show ?thesis by (simp add: finish_pop_def pop_consumes_def)
next
  case (Some e)
  show ?thesis
  proof (cases e)
    case ReturnNoLine
    then show ?thesis using Some by (simp add: finish_pop_def pop_consumes_def needs_input_def)
  next
    case (CloseAndReturn line t pos s)
    then show ?thesis using Some assms(2) assms(4) [of line t pos s] by (simp add: finish_pop_def exit_stable_def)
  next
    case (ReturnError r pos s)
    then show ?thesis using Some assms(2,3) return_error_consumes [OF assms(1), of pos s r]
      by (simp add: finish_pop_def exit_stable_def exit_error_ok_def)
  qed
qed

lemma with_token_error_ok: "(\<And>t q r. exit_error_ok (k t q r)) \<Longrightarrow> exit_error_ok (with_token pos s k)"
  by (auto simp: exit_error_ok_def with_token_def split: option.splits if_splits)

lemma close_redirect_error_ok: "exit_error_ok (close_redirect line t pos s)"
  by (auto simp: close_redirect_def Let_def intro!: with_token_error_ok) (auto simp: exit_error_ok_def)

lemma close_background_error_ok: "exit_error_ok (close_background line t pos s)"
  by (auto simp: close_background_def intro!: with_token_error_ok) (auto simp: exit_error_ok_def)

lemma pop_loop_error_ok: "exit_error_ok (pop_loop line pos s)"
proof (induction s arbitrary: line pos rule: token_induct)
  case (Token s u t)
  show ?case
  proof (cases "switch_token line t (pos + u) (drop u s)")
    case (Some r)
    then show ?thesis using Token.IH switch_token_Inl [of line t "pos + u" "drop u s"]
      by (cases r) (auto simp: pop_loop_token [OF Token.hyps(1,2)] exit_error_ok_def)
  qed (simp add: pop_loop_token [OF Token.hyps(1,2)] exit_error_ok_def)
qed (auto simp: pop_loop_abort pop_loop_incomplete exit_error_ok_def)

lemma pop_loop_stable:
  assumes "length b + length x < 2 ^ 32"
  shows "exit_stable b x (pop_loop line 0 b) (pop_loop line 0 (b @ x))"
  using pop_loop_extend [of b x line 0] pop_loop_exit_in [of line 0 b _ b] assms
  by (auto simp: exit_stable_def)

lemma parser_pop_next_consumes:
  assumes "length (buffer p) < 2 ^ 32"
  shows "pop_consumes p (parser_pop_next p)"
proof -
  have l: "length (buffer p) + length ([] :: bytes) < 2 ^ 32" using assms by simp
  show ?thesis
    unfolding parser_pop_next_def
    by (rule finish_pop_consumes [OF assms pop_loop_stable [OF l] pop_loop_error_ok],
        rule finish_pop_consumes [OF assms close_redirect_stable [OF l] close_redirect_error_ok], assumption,
        rule finish_pop_consumes [OF assms close_background_stable [OF l] close_background_error_ok], assumption,
        rule close_line_consumes [OF assms])
qed

section \<open>The shape of command lines\<close>

text \<open>Commands and operators alternate, starting with a command.\<close>

definition command_expr :: "expr \<Rightarrow> bool" where
  "command_expr e \<longleftrightarrow> etype e = EXPR_TYPE_COMMAND \<and> cmd e \<noteq> None"

definition operator_expr :: "expr \<Rightarrow> bool" where
  "operator_expr e \<longleftrightarrow> etype e \<noteq> EXPR_TYPE_COMMAND \<and> cmd e = None"

definition alternating :: "expr list \<Rightarrow> bool" where
  "alternating es \<longleftrightarrow> (\<forall>i < length es. if even i then command_expr (es ! i) else operator_expr (es ! i))"

definition line_ok :: "command_line \<Rightarrow> bool" where
  "line_ok line \<longleftrightarrow> alternating (exprs line) \<and> (out_type line = OUTPUT_TYPE_STDOUT \<longrightarrow> out_file line = [])"

lemma alternating_Nil [simp]: "alternating []"
  by (simp add: alternating_def)

lemma alternating_snoc [simp]:
  "alternating (es @ [e]) \<longleftrightarrow> alternating es \<and> (if even (length es) then command_expr e else operator_expr e)"
  by (auto simp: alternating_def All_less_Suc nth_append)

lemma alternating_single [simp]: "alternating [e] \<longleftrightarrow> command_expr e"
  by (simp add: alternating_def)

lemma alternating_snoc2 [simp]:
  "alternating (es @ [d, e]) \<longleftrightarrow> alternating (es @ [d]) \<and> (if odd (length es) then command_expr e else operator_expr e)"
  using alternating_snoc [of "es @ [d]" e] by simp

lemma alternating_last:
  "alternating es \<Longrightarrow> es \<noteq> [] \<Longrightarrow> etype (last es) = EXPR_TYPE_COMMAND \<longleftrightarrow> odd (length es)"
  by (cases es rule: rev_cases) (auto simp: command_expr_def operator_expr_def split: if_splits)

lemma push_word_ok: "line_ok line \<Longrightarrow> line_ok (push_word w line)"
  by (cases "exprs line" rule: rev_cases)
    (auto simp: line_ok_def push_word_def push_expr_def last_is_command_def add_arg_def
      command_expr_def operator_expr_def split: if_splits)

lemma push_operator_ok:
  "line_ok line \<Longrightarrow> op \<noteq> EXPR_TYPE_COMMAND \<Longrightarrow> push_operator op e1 e2 line = Inr line' \<Longrightarrow> line_ok line'"
  using alternating_last [of "exprs line"]
  by (auto simp: line_ok_def push_operator_def push_expr_def operator_expr_def split: if_splits)

lemma switch_token_ok: "line_ok line \<Longrightarrow> switch_token line t pos s = Some (Inr line') \<Longrightarrow> line_ok line'"
  by (auto simp: switch_token_def push_word_ok split: token_type.splits if_splits sum.splits
      dest: push_operator_ok [rotated 2])

text \<open>Every line an exit carries has this shape.\<close>

definition exit_line_ok :: "pop_exit option \<Rightarrow> bool" where
  "exit_line_ok ex \<longleftrightarrow> (\<forall>line t pos s. ex = Some (CloseAndReturn line t pos s) \<longrightarrow> line_ok line)"

lemma pop_loop_line_ok: "line_ok line \<Longrightarrow> exit_line_ok (pop_loop line pos s)"
proof (induction s arbitrary: line pos rule: token_induct)
  case (Token s u t)
  show ?case
  proof (cases "switch_token line t (pos + u) (drop u s)")
    case (Some r)
    then show ?thesis
      using Token.IH Token.prems switch_token_Inl [of line t "pos + u" "drop u s"]
        switch_token_ok [OF Token.prems, of t "pos + u" "drop u s"]
      by (cases r) (auto simp: pop_loop_token [OF Token.hyps(1,2)] exit_line_ok_def)
  qed (simp add: pop_loop_token [OF Token.hyps(1,2)] exit_line_ok_def)
qed (auto simp: pop_loop_abort pop_loop_incomplete exit_line_ok_def)

lemma with_token_line_ok: "(\<And>t q r. exit_line_ok (k t q r)) \<Longrightarrow> exit_line_ok (with_token pos s k)"
  by (auto simp: exit_line_ok_def with_token_def split: option.splits if_splits)

lemma close_redirect_line_ok: "line_ok line \<Longrightarrow> exit_line_ok (close_redirect line t pos s)"
  by (auto simp: close_redirect_def Let_def intro!: with_token_line_ok) (auto simp: exit_line_ok_def line_ok_def)

lemma close_background_line_ok: "line_ok line \<Longrightarrow> exit_line_ok (close_background line t pos s)"
  by (auto simp: close_background_def intro!: with_token_line_ok) (auto simp: exit_line_ok_def line_ok_def)

definition result_line_ok :: "pop_result option \<Rightarrow> bool" where
  "result_line_ok r \<longleftrightarrow>
     (\<forall>err line q. r = Some (err, Some line, q) \<longrightarrow>
        err = PARSER_ERR_NONE \<and> line_ok line \<and> odd (length (exprs line)))"

lemma return_error_line_ok: "result_line_ok (return_error p e pos s)"
  by (auto simp: result_line_ok_def return_error_def split: option.splits)

lemma close_line_line_ok: "line_ok line \<Longrightarrow> result_line_ok (close_line p line t pos s)"
  using alternating_last [of "exprs line"] return_error_line_ok [of p PARSER_ERR_TOO_LATE_ARGUMENTS pos s]
  by (auto simp: result_line_ok_def close_line_def line_ok_def split: option.splits if_splits)

lemma finish_pop_line_ok:
  assumes "exit_line_ok ex" and "\<And>line t pos s. line_ok line \<Longrightarrow> result_line_ok (k line t pos s)"
  shows "result_line_ok (finish_pop p k ex)"
proof (cases ex)
  case None
  then show ?thesis by (simp add: finish_pop_def result_line_ok_def)
next
  case (Some e)
  then show ?thesis
    using assms(1) assms(2) return_error_line_ok
    by (cases e) (simp_all add: finish_pop_def exit_line_ok_def, simp add: result_line_ok_def)
qed

lemma parser_pop_next_line_ok: "result_line_ok (parser_pop_next p)"
proof -
  have "line_ok new_command_line" by (simp add: line_ok_def new_command_line_def)
  then show ?thesis
    unfolding parser_pop_next_def
    by (intro finish_pop_line_ok pop_loop_line_ok close_redirect_line_ok close_background_line_ok close_line_line_ok)
qed

section \<open>Printing and parsing\<close>

text \<open>
  A printer of command lines in the shell's syntax: every word in double quotes, with the
  quote and the backslash escaped, every token behind a space.
\<close>

definition escape :: "bytes \<Rightarrow> bytes" where
  "escape w = concat (map (\<lambda>c. if c = BSLASH \<or> c = DQUOTE then [BSLASH, c] else [c]) w)"

definition print_word :: "bytes \<Rightarrow> bytes" where
  "print_word w = [CHR '' '', DQUOTE] @ escape w @ [DQUOTE]"

definition print_expr :: "expr \<Rightarrow> bytes" where
  "print_expr e =
     (case etype e of
        EXPR_TYPE_COMMAND \<Rightarrow>
          (case cmd e of None \<Rightarrow> [] | Some c \<Rightarrow> print_word (exe c) @ concat (map print_word (args c)))
      | EXPR_TYPE_PIPE \<Rightarrow> '' |''
      | EXPR_TYPE_AND \<Rightarrow> '' &&''
      | EXPR_TYPE_OR \<Rightarrow> '' ||'')"

definition print_output :: "command_line \<Rightarrow> bytes" where
  "print_output line =
     (case out_type line of
        OUTPUT_TYPE_STDOUT \<Rightarrow> []
      | OUTPUT_TYPE_FILE_NEW \<Rightarrow> '' >'' @ print_word (out_file line)
      | OUTPUT_TYPE_FILE_APPEND \<Rightarrow> '' >>'' @ print_word (out_file line))"

definition print_line :: "command_line \<Rightarrow> bytes" where
  "print_line line =
     concat (map print_expr (exprs line)) @ print_output line @
     (if is_background line then '' &'' else []) @ [NL]"

text \<open>The bytes that can stand behind a printed token.\<close>

definition token_end :: "bytes \<Rightarrow> bool" where
  "token_end r \<longleftrightarrow> r \<noteq> [] \<and> (hd r = CHR '' '' \<or> hd r = NL)"

lemma escape_simps [simp]:
  "escape [] = []"
  "escape (c # w) = (if c = BSLASH \<or> c = DQUOTE then [BSLASH, c] else [c]) @ escape w"
  by (simp_all add: escape_def)

lemma token_step_quoted:
  "token_step (Some DQUOTE) d BSLASH (c # s) =
     StepGo (Some DQUOTE) (d @ (if c = BSLASH \<or> c = DQUOTE then [c] else if c = NL then [] else [BSLASH, c])) 2"
  "c \<noteq> BSLASH \<Longrightarrow> c \<noteq> DQUOTE \<Longrightarrow> token_step (Some DQUOTE) d c s = StepGo (Some DQUOTE) (d @ [c]) 1"
  "token_step (Some DQUOTE) d DQUOTE s = StepEmit TOKEN_TYPE_STR 1"
  by (auto simp: token_step_def Let_def)

lemma token_loop_quoted:
  "token_loop (Some DQUOTE) d (escape w @ DQUOTE # r) n =
     Some (n + length (escape w) + 1, \<lparr>ttype = TOKEN_TYPE_STR, tdata = d @ w\<rparr>)"
  by (induction w arbitrary: d n) (auto simp: token_step_quoted)

lemma parse_print_word:
  assumes "length (print_word w @ r) < 2 ^ 32"
  shows "parse_token (print_word w @ r) = Some (length (print_word w), \<lparr>ttype = TOKEN_TYPE_STR, tdata = w\<rparr>)"
  using assms
  by (simp add: parse_token_scan scan_token_def print_word_def isspace_def token_step_def token_loop_quoted)

lemma token_step_operator:
  assumes "is_operator c"
  shows "token_step None [] c (c # r) = StepEmit (double_token c) 2"
    and "token_end r \<Longrightarrow> token_step None [] c r = StepEmit (single_token c) 1"
  using assms by (auto simp: token_step_def Let_def is_operator_def token_end_def split: list.split)

lemma not_isspace_operator: "is_operator c \<Longrightarrow> \<not> isspace c"
  by (auto simp: is_operator_def isspace_def)

lemma parse_operator:
  assumes "is_operator c"
  shows "length (CHR '' '' # c # c # r) < 2 ^ 32 \<Longrightarrow>
           parse_token (CHR '' '' # c # c # r) = Some (3, \<lparr>ttype = double_token c, tdata = []\<rparr>)"
    and "length (CHR '' '' # c # r) < 2 ^ 32 \<Longrightarrow> token_end r \<Longrightarrow>
           parse_token (CHR '' '' # c # r) = Some (2, \<lparr>ttype = single_token c, tdata = []\<rparr>)"
  using token_step_operator [OF assms] not_isspace_operator [OF assms]
  by (simp_all only: parse_token_scan) (simp_all add: scan_token_def isspace_def)

lemma parse_new_line: "length (NL # r) < 2 ^ 32 \<Longrightarrow> parse_token (NL # r) = Some (1, \<lparr>ttype = TOKEN_TYPE_NEW_LINE, tdata = []\<rparr>)"
  by (simp only: parse_token_scan) (simp add: scan_token_def isspace_def)

lemma print_word_end [simp]: "token_end (print_word w @ r)"
  by (simp add: token_end_def print_word_def)

lemma print_word_nonempty [simp]: "print_word w \<noteq> []" "0 < length (print_word w)"
  by (simp_all add: print_word_def)

lemma pop_loop_word:
  assumes "length (print_word w @ r) < 2 ^ 32"
  shows "pop_loop line pos (print_word w @ r) = pop_loop (push_word w line) (pos + length (print_word w)) r"
  by (simp add: pop_loop_token [OF parse_print_word [OF assms]] switch_token_def)

lemma add_args_words:
  assumes "length (concat (map print_word ws) @ r) < 2 ^ 32"
  shows "pop_loop (line\<lparr>exprs := es @ [\<lparr>etype = EXPR_TYPE_COMMAND, cmd = Some c\<rparr>]\<rparr>) pos
           (concat (map print_word ws) @ r) =
         pop_loop (line\<lparr>exprs := es @ [\<lparr>etype = EXPR_TYPE_COMMAND, cmd = Some (c\<lparr>args := args c @ ws\<rparr>)\<rparr>]\<rparr>)
           (pos + length (concat (map print_word ws))) r"
  using assms
proof (induction ws arbitrary: c pos)
  case (Cons w ws)
  have "pop_loop (line\<lparr>exprs := es @ [\<lparr>etype = EXPR_TYPE_COMMAND, cmd = Some c\<rparr>]\<rparr>) pos
           (concat (map print_word (w # ws)) @ r) =
        pop_loop (line\<lparr>exprs := es @ [\<lparr>etype = EXPR_TYPE_COMMAND, cmd = Some (c\<lparr>args := args c @ [w]\<rparr>)\<rparr>]\<rparr>)
          (pos + length (print_word w)) (concat (map print_word ws) @ r)"
    using pop_loop_word [of w "concat (map print_word ws) @ r"] Cons.prems
    by (simp add: push_word_def last_is_command_def add_arg_def)
  then show ?case using Cons.IH [of "c\<lparr>args := args c @ [w]\<rparr>"] Cons.prems by (simp add: add.assoc)
qed simp

lemma pop_loop_print_expr:
  assumes "length (print_expr e @ r) < 2 ^ 32" and "token_end r" and "alternating (exprs line @ [e])"
  shows "pop_loop line pos (print_expr e @ r) = pop_loop (push_expr e line) (pos + length (print_expr e)) r"
proof (cases "even (length (exprs line))")
  case True
  then obtain c where e: "e = \<lparr>etype = EXPR_TYPE_COMMAND, cmd = Some c\<rparr>" using assms(3)
    by (cases e) (auto simp: command_expr_def)
  have "\<not> last_is_command line" using assms(3) True alternating_last [of "exprs line"] by (auto simp: last_is_command_def)
  then have "push_word (exe c) line =
     line\<lparr>exprs := exprs line @ [\<lparr>etype = EXPR_TYPE_COMMAND, cmd = Some \<lparr>exe = exe c, args = []\<rparr>\<rparr>]\<rparr>"
    by (simp add: push_word_def push_expr_def)
  then show ?thesis
    using pop_loop_word [of "exe c" "concat (map print_word (args c)) @ r" line pos] assms(1)
      add_args_words [of "args c" r "exprs line" "\<lparr>exe = exe c, args = []\<rparr>" line "pos + length (print_word (exe c))"]
    by (cases c) (simp add: e print_expr_def push_expr_def add.assoc)
next
  case False
  then have ne: "exprs line \<noteq> []" by auto
  then have op: "operator_expr e" "exprs line \<noteq> []" "etype (last (exprs line)) = EXPR_TYPE_COMMAND"
    using assms(3) alternating_last [of "exprs line"] False by auto
  have "e = \<lparr>etype = etype e, cmd = None\<rparr>" using op(1) by (cases e) (simp add: operator_expr_def)
  then show ?thesis
    using op assms(1,2)
    by (cases "etype e")
      (auto simp: print_expr_def operator_expr_def pop_loop_token [OF parse_operator(1)] pop_loop_token [OF parse_operator(2)]
        is_operator_def single_token_def double_token_def switch_token_def push_operator_def numeral_3_eq_3)
qed


lemma print_expr_end: "command_expr e \<or> operator_expr e \<Longrightarrow> token_end (print_expr e @ r)"
  by (auto simp: print_expr_def command_expr_def operator_expr_def print_word_def token_end_def
      split: expr_type.split option.split)

lemma alternating_append: "alternating (xs @ ys) \<Longrightarrow> alternating xs"
  by (auto simp: alternating_def nth_append split: if_splits)

lemma pop_loop_print_exprs:
  assumes "length (concat (map print_expr es) @ r) < 2 ^ 32" and "token_end r" and "alternating (exprs line @ es)"
  shows "pop_loop line pos (concat (map print_expr es) @ r) =
         pop_loop (line\<lparr>exprs := exprs line @ es\<rparr>) (pos + length (concat (map print_expr es))) r"
  using assms
proof (induction es arbitrary: line pos)
  case (Cons e es)
  have te: "token_end (concat (map print_expr es) @ r)"
  proof (cases es)
    case (Cons f fs)
    then have "command_expr f \<or> operator_expr f"
      using Cons.prems(3) alternating_append [of "exprs line @ [e, f]" fs] by (auto split: if_splits)
    then show ?thesis using Cons print_expr_end by simp
  qed (use Cons.prems in simp)
  have "pop_loop line pos (print_expr e @ concat (map print_expr es) @ r) =
        pop_loop (push_expr e line) (pos + length (print_expr e)) (concat (map print_expr es) @ r)"
    using Cons.prems alternating_append [of "exprs line @ [e]" es] te by (intro pop_loop_print_expr) auto
  also have "\<dots> = pop_loop (line\<lparr>exprs := exprs line @ e # es\<rparr>)
       (pos + length (print_expr e) + length (concat (map print_expr es))) r"
    using Cons.IH [of "push_expr e line"] Cons.prems by (simp add: push_expr_def)
  finally show ?case by (simp add: add.assoc)
qed simp


lemma pop_loop_exit:
  assumes "parse_token s = Some (u, t)" and "u \<noteq> 0" and "switch_token line t (pos + u) (drop u s) = Some (Inl ex)"
  shows "pop_loop line pos s = Some ex"
  using assms by (simp add: pop_loop_token)

lemma with_token_at:
  "parse_token s = Some (u, t) \<Longrightarrow> u \<noteq> 0 \<Longrightarrow> with_token pos s k = k t (pos + u) (drop u s)"
  by (simp add: with_token_def)

text \<open>What follows the expressions: redirection, background mark and new line.\<close>

definition line_tail :: "command_line \<Rightarrow> bytes" where
  "line_tail line = (if is_background line then '' &'' else []) @ [NL]"

lemma line_tail_end [simp]: "token_end (line_tail line @ r)" "token_end (print_output line @ line_tail line @ r)"
  by (auto simp: line_tail_def token_end_def print_output_def split: output_type.split)

definition tail_token :: "command_line \<Rightarrow> token" where
  "tail_token line = \<lparr>ttype = (if is_background line then TOKEN_TYPE_BACKGROUND else TOKEN_TYPE_NEW_LINE), tdata = []\<rparr>"

definition tail_used :: "command_line \<Rightarrow> nat" where
  "tail_used line = (if is_background line then 2 else 1)"

lemma parse_line_tail:
  assumes "length (line_tail line @ r) < 2 ^ 32"
  shows "parse_token (line_tail line @ r) = Some (tail_used line, tail_token line)"
  using assms parse_operator(2) [of "CHR ''&''" "NL # r"] parse_new_line [of r]
  by (auto simp: line_tail_def tail_used_def tail_token_def is_operator_def single_token_def token_end_def)

lemma close_background_tail:
  assumes "length (line_tail line @ r) < 2 ^ 32" and "line' = line\<lparr>is_background := False\<rparr>"
  shows "close_background line' (tail_token line) (pos + tail_used line) (drop (tail_used line) (line_tail line @ r)) =
     Some (CloseAndReturn line \<lparr>ttype = TOKEN_TYPE_NEW_LINE, tdata = []\<rparr> (pos + length (line_tail line)) r)"
proof (cases "is_background line")
  case True
  then have "with_token (pos + 2) (NL # r) k = k \<lparr>ttype = TOKEN_TYPE_NEW_LINE, tdata = []\<rparr> (pos + 3) r" for k
    using with_token_at [OF parse_new_line [of r], of "pos + 2" k] assms(1) by (simp add: line_tail_def numeral_3_eq_3)
  then show ?thesis using True assms(2)
    by (cases line) (simp add: close_background_def tail_token_def tail_used_def line_tail_def)
next
  case False
  then show ?thesis using assms(2)
    by (cases line) (simp add: close_background_def tail_token_def tail_used_def line_tail_def)
qed


definition bare_line :: "command_line \<Rightarrow> command_line" where
  "bare_line line = new_command_line\<lparr>exprs := exprs line\<rparr>"

lemma redirect_stage:
  assumes "length (print_output line @ line_tail line @ r) < 2 ^ 32" and "line_ok line" and "exprs line \<noteq> []"
  shows "\<exists>l t p s.
     pop_loop (bare_line line) pos (print_output line @ line_tail line @ r) = Some (CloseAndReturn l t p s) \<and>
     close_redirect l t p s =
       Some (CloseAndReturn (line\<lparr>is_background := False\<rparr>) (tail_token line)
         (pos + length (print_output line) + tail_used line) (drop (tail_used line) (line_tail line @ r)))"
proof (cases "out_type line = OUTPUT_TYPE_STDOUT")
  case True
  have "pop_loop (bare_line line) pos (line_tail line @ r) =
      Some (CloseAndReturn (bare_line line) (tail_token line) (pos + tail_used line) (drop (tail_used line) (line_tail line @ r)))"
    using assms True
    by (intro pop_loop_exit [OF parse_line_tail])
      (auto simp: tail_used_def tail_token_def switch_token_def bare_line_def print_output_def)
  then show ?thesis using True assms(2)
    by (cases line) (simp add: print_output_def close_redirect_def tail_token_def bare_line_def new_command_line_def line_ok_def)
next
  case False
  define sgn where "sgn = (if out_type line = OUTPUT_TYPE_FILE_NEW then '' >'' else '' >>'')"
  define t where "t = \<lparr>ttype = (if out_type line = OUTPUT_TYPE_FILE_NEW then TOKEN_TYPE_OUT_NEW else TOKEN_TYPE_OUT_APPEND),
      tdata = ([] :: bytes)\<rparr>"
  let ?w = "print_word (out_file line)"
  have o: "print_output line = sgn @ ?w" using False by (cases "out_type line") (auto simp: print_output_def sgn_def)
  then have len: "length (sgn @ ?w @ line_tail line @ r) < 2 ^ 32" using assms(1) by simp
  have "parse_token (sgn @ ?w @ line_tail line @ r) = Some (length sgn, t)"
    using parse_operator [of "CHR ''>''"] len False
    by (auto simp: sgn_def t_def is_operator_def single_token_def double_token_def)
  then have "pop_loop (bare_line line) pos (sgn @ ?w @ line_tail line @ r) =
      Some (CloseAndReturn (bare_line line) t (pos + length sgn) (?w @ line_tail line @ r))"
    by (rule pop_loop_exit) (auto simp: sgn_def switch_token_def t_def)
  moreover have "close_redirect (bare_line line) t (pos + length sgn) (?w @ line_tail line @ r) =
      Some (CloseAndReturn (line\<lparr>is_background := False\<rparr>) (tail_token line)
         (pos + length sgn + length ?w + tail_used line) (drop (tail_used line) (line_tail line @ r)))"
    using False len
    by (cases line; cases "out_type line")
      (simp_all add: close_redirect_def t_def with_token_at [OF parse_print_word] with_token_at [OF parse_line_tail]
        tail_used_def bare_line_def new_command_line_def)
  ultimately show ?thesis by (auto simp: o add.assoc)
qed

text \<open>
  C27. Print and parse of a whole line: a line of commands separated by operators, with or
  without redirection and background mark, is read back unchanged from its printed form, whatever
  bytes its words hold and whatever follows it in the buffer, and exactly its bytes are consumed.
\<close>

theorem print_parse_line:
  assumes "line_ok line" and "odd (length (exprs line))" and "length (print_line line @ rest) < 2 ^ 32"
  shows "parser_pop_next \<lparr>buffer = print_line line @ rest\<rparr> = Some (PARSER_ERR_NONE, Some line, \<lparr>buffer = rest\<rparr>)"
proof -
  let ?e = "concat (map print_expr (exprs line))"
  let ?s = "print_output line @ line_tail line @ rest"
  have p: "print_line line @ rest = ?e @ ?s" by (simp add: print_line_def line_tail_def)
  have ne: "exprs line \<noteq> []" using assms(2) by auto
  have len: "length (?e @ ?s) < 2 ^ 32" using assms(3) by (simp only: p)
  have "pop_loop new_command_line 0 (?e @ ?s) = pop_loop (bare_line line) (length ?e) ?s"
    using pop_loop_print_exprs [of "exprs line" ?s new_command_line 0] len assms(1)
    by (simp add: bare_line_def line_ok_def new_command_line_def)
  moreover obtain l t q s where "pop_loop (bare_line line) (length ?e) ?s = Some (CloseAndReturn l t q s)"
    and "close_redirect l t q s =
       Some (CloseAndReturn (line\<lparr>is_background := False\<rparr>) (tail_token line)
         (length ?e + length (print_output line) + tail_used line) (drop (tail_used line) (line_tail line @ rest)))"
    using redirect_stage [of line rest "length ?e"] len assms(1) ne by auto
  moreover have "length (print_line line) = length ?e + length (print_output line) + length (line_tail line)"
    by (simp add: print_line_def line_tail_def)
  moreover have "to_u32 (length (print_line line)) = length (print_line line)" using assms(3) by simp
  moreover have "etype (last (exprs line)) = EXPR_TYPE_COMMAND"
    using alternating_last [of "exprs line"] assms(1,2) ne by (simp add: line_ok_def)
  ultimately show ?thesis
    using close_background_tail [of line rest "line\<lparr>is_background := False\<rparr>" "length ?e + length (print_output line)"] len ne
    by (simp add: parser_pop_next_def p finish_pop_def close_line_def parser_consume_def flip: p)
qed

section \<open>The parser as a stream consumer\<close>

text \<open>
  One call of \<open>parser_pop_next\<close> as \<open>main\<close> of the shell uses it: neither an error nor a line
  means that the buffer holds no complete line.
\<close>

definition parser_step :: "bytes \<Rightarrow> ((parser_error \<times> command_line option) \<times> bytes) option option" where
  "parser_step b =
     (case parser_pop_next \<lparr>buffer = b\<rparr> of
        None \<Rightarrow> None
      | Some (err, line, q) \<Rightarrow>
          Some (if err = PARSER_ERR_NONE \<and> line = None then None else Some ((err, line), buffer q)))"

lemma parser_step_Some:
  "parser_step b = Some (Some ((err, line), r)) \<longleftrightarrow>
     parser_pop_next \<lparr>buffer = b\<rparr> = Some (err, line, \<lparr>buffer = r\<rparr>) \<and> \<not> needs_input err line"
  by (auto simp: parser_step_def needs_input_def split: option.splits)

lemma parser_step_None: "parser_step b = None \<longleftrightarrow> parser_pop_next \<lparr>buffer = b\<rparr> = None"
  by (auto simp: parser_step_def split: option.splits)

lemma parser_step_empty: "parser_step [] = Some None"
  by (simp add: parser_step_def parser_pop_next_def pop_loop_incomplete finish_pop_def)

lemma parser_step_extend:
  assumes "length (b @ x) < 2 ^ 32"
  shows "parser_step b = Some (Some (m, r)) \<Longrightarrow> parser_step (b @ x) = Some (Some (m, r @ x))"
    and "parser_step b = None \<Longrightarrow> parser_step (b @ x) = None"
  using parser_pop_next_stable [of "\<lparr>buffer = b\<rparr>" x] assms
  by (cases m; auto simp: parser_step_Some parser_step_None pop_stable_def parser_feed_def)+

lemma parser_step_shrinks:
  assumes "length b < 2 ^ 32" and "parser_step b = Some (Some (m, r))"
  shows "length r < length b"
  using parser_pop_next_consumes [of "\<lparr>buffer = b\<rparr>"] assms
  by (cases m) (auto simp: parser_step_Some pop_consumes_def)

interpretation shell_input: stream_popper parser_step "\<lambda>n. n < 2 ^ 32"
  by unfold_locales (auto simp: parser_step_empty intro: parser_step_shrinks parser_step_extend)

section \<open>Properties of the parser\<close>

text \<open>
  The command lines and errors the shell takes from its input, and the bytes it is left
  with, depend only on the bytes, not on how \<open>read\<close> cut them into chunks: feeding the chunks
  one by one and popping all there is after each gives what popping from the whole input gives,
  also when a failed assertion ends the process.
\<close>

theorem shell_input_chunking:
  assumes "length (concat chunks) < 2 ^ 32"
  shows "feed_chunks parser_step [] chunks = drain parser_step (concat chunks)"
  using shell_input.chunking [of "[]" chunks] assms by (simp add: drain_def)

text \<open>
  C29. Progress: a call either leaves the buffer as it is and reports neither error nor line,
  or it removes a non-empty prefix; \<open>parser_consume\<close> never asserts. So the loop of \<open>main\<close>
  around it ends.
\<close>

theorem parser_pop_next_progress:
  assumes "length (buffer p) < 2 ^ 32" and "parser_pop_next p = Some (err, line, q)"
  shows "(err = PARSER_ERR_NONE \<and> line = None \<and> q = p) \<or>
         ((err \<noteq> PARSER_ERR_NONE \<or> line \<noteq> None) \<and>
          (\<exists>n > 0. n \<le> length (buffer p) \<and> q = \<lparr>buffer = drop n (buffer p)\<rparr>))"
  using parser_pop_next_consumes [OF assms(1)] assms(2)
  by (cases p) (auto simp: pop_consumes_def needs_input_def split: if_splits)

text \<open>
  C28. Every line the parser returns has the shape the executor relies on: it comes with no
  error, it starts and ends with a command, commands and operators alternate, a command always
  carries its program and an operator never does, and a line with no redirection names no file.
\<close>

theorem parser_lines_well_formed:
  assumes "parser_pop_next p = Some (err, Some line, q)"
  shows "err = PARSER_ERR_NONE \<and> odd (length (exprs line)) \<and>
         (\<forall>i < length (exprs line).
            if even i then etype (exprs line ! i) = EXPR_TYPE_COMMAND \<and> cmd (exprs line ! i) \<noteq> None
            else etype (exprs line ! i) \<noteq> EXPR_TYPE_COMMAND \<and> cmd (exprs line ! i) = None) \<and>
         (out_type line = OUTPUT_TYPE_STDOUT \<longrightarrow> out_file line = [])"
  using parser_pop_next_line_ok [of p] assms
  by (auto simp: result_line_ok_def line_ok_def alternating_def command_expr_def operator_expr_def)

lemmas parser_eval =
  parser_step_def parser_pop_next_def pop_loop.simps skip_line.simps parse_token_def scan_token_def isspace_def
  token_step_def is_operator_def single_token_def double_token_def switch_token_def push_word_def push_operator_def
  push_expr_def last_is_command_def add_arg_def finish_pop_def close_redirect_def close_background_def
  with_token_def close_line_def return_error_def parser_consume_def new_command_line_def

text \<open>
  Input alone can reach the asserts of the parser: a line that is only a background mark
  or only a redirection, and a line continuation followed by a space, abort the shell instead of
  giving an error. And after a redirection without a file name the recovery skips one line too
  many: the new line that shows the error is already consumed when \<open>return_error\<close> looks for the
  next one, so the following command is thrown away.
\<close>

theorem parser_error_recovery_faults:
  "parser_step (''&'' @ [NL]) = None \<and>
   parser_step (''>a'' @ [NL]) = None \<and>
   parser_step (''echo '' @ [BSLASH, NL] @ '' b'' @ [NL]) = None \<and>
   parser_step (''echo >'' @ [NL] @ ''ls'' @ [NL]) =
     Some (Some ((PARSER_ERR_OUTOUT_REDIRECT_BAD_ARG, None), []))"
  by (intro conjI; simp add: parser_eval)

section \<open>Concrete command lines\<close>

text \<open>\<open>grep "a b" | wc >> out &\<close>, and the same line without redirection and background mark.\<close>

definition sample_exprs :: "expr list" where
  "sample_exprs =
     [\<lparr>etype = EXPR_TYPE_COMMAND, cmd = Some \<lparr>exe = ''grep'', args = [''a b'']\<rparr>\<rparr>,
      \<lparr>etype = EXPR_TYPE_PIPE, cmd = None\<rparr>,
      \<lparr>etype = EXPR_TYPE_COMMAND, cmd = Some \<lparr>exe = ''wc'', args = []\<rparr>\<rparr>]"

definition sample_line :: command_line where
  "sample_line = \<lparr>exprs = sample_exprs, out_type = OUTPUT_TYPE_FILE_APPEND, out_file = ''out'', is_background = True\<rparr>"

theorem print_parse_line_witness:
  "parser_pop_next \<lparr>buffer = print_line sample_line @ ''ls''\<rparr> = Some (PARSER_ERR_NONE, Some sample_line, \<lparr>buffer = ''ls''\<rparr>)"
  by (rule print_parse_line)
    (simp_all add: sample_line_def sample_exprs_def line_ok_def alternating_def All_less_Suc command_expr_def operator_expr_def
      numeral_3_eq_3 print_line_def print_output_def print_expr_def print_word_def)

theorem shell_input_chunking_witness:
  "feed_chunks parser_step [] [''ec'', ''ho'' @ [NL] @ ''l'', ''s'' @ [NL]] =
     Some ([(PARSER_ERR_NONE, Some (new_command_line\<lparr>exprs := [\<lparr>etype = EXPR_TYPE_COMMAND, cmd = Some \<lparr>exe = ''echo'', args = []\<rparr>\<rparr>]\<rparr>)),
       (PARSER_ERR_NONE, Some (new_command_line\<lparr>exprs := [\<lparr>etype = EXPR_TYPE_COMMAND, cmd = Some \<lparr>exe = ''ls'', args = []\<rparr>\<rparr>]\<rparr>))], [])"
  using shell_input_chunking [of "[''ec'', ''ho'' @ [NL] @ ''l'', ''s'' @ [NL]]"]
  by (simp add: drain_def parser_eval)

lemma parse_ls:
  "parser_pop_next \<lparr>buffer = ''ls'' @ [NL]\<rparr> =
     Some (PARSER_ERR_NONE, Some (new_command_line\<lparr>exprs := [\<lparr>etype = EXPR_TYPE_COMMAND, cmd = Some \<lparr>exe = ''ls'', args = []\<rparr>\<rparr>]\<rparr>),
       \<lparr>buffer = []\<rparr>)"
  by (simp add: parser_eval)

theorem parser_pop_next_progress_witness:
  "\<exists>n > 0. n \<le> length (''ls'' @ [NL]) \<and> \<lparr>buffer = []\<rparr> = \<lparr>buffer = drop n (''ls'' @ [NL])\<rparr>"
  using parser_pop_next_progress [OF _ parse_ls] by simp

theorem parser_lines_well_formed_witness:
  "parser_pop_next \<lparr>buffer = ''ls'' @ [NL]\<rparr> \<noteq> None \<and>
   odd (length (exprs (new_command_line\<lparr>exprs := [\<lparr>etype = EXPR_TYPE_COMMAND, cmd = Some \<lparr>exe = ''ls'', args = []\<rparr>\<rparr>]\<rparr>)))"
  using parser_lines_well_formed [OF parse_ls] parse_ls by simp

end
