(* ===== verification/Shell.thy ===== *)
theory Shell
  imports Parser "HOL-Library.Monad_Syntax"
begin

text \<open>
  The shell itself, \<open>2/solution.cpp\<close>. The operating system is a parameter: a record of functions
  on a world \<open>'w\<close>, one per system call the shell makes, each returning its outcome and the new
  world. A forked child is handed to \<open>fork\<close> as the description of what it will do, and what it
  then does is \<open>child_run\<close>, over the outcomes of the child's own system calls. Loops around
  \<open>waitpid\<close> may run forever, so the results are options. Messages on the standard error stream
  are not modelled.
\<close>

unbundle bit_operations_syntax

section \<open>Strings and numbers of the C library\<close>

text \<open>\<open>c_str\<close>: the C functions see a string up to its first zero byte.\<close>

definition c_str :: "bytes \<Rightarrow> bytes" where
  "c_str s = takeWhile (\<lambda>c. c \<noteq> CHR 0x00) s"

definition is_digit :: "char \<Rightarrow> bool" where
  "is_digit c \<longleftrightarrow> 48 \<le> (of_char c :: nat) \<and> (of_char c :: nat) \<le> 57"

text \<open>\<open>atoi\<close>, for numbers in the range of \<open>int\<close>.\<close>

definition atoi :: "bytes \<Rightarrow> int" where
  "atoi s =
     (let s = dropWhile isspace s;
          neg = (s \<noteq> [] \<and> hd s = CHR ''-'');
          s = (if s \<noteq> [] \<and> (hd s = CHR ''-'' \<or> hd s = CHR ''+'') then tl s else s);
          n = fold (\<lambda>c n. 10 * n + (of_char c - 48)) (takeWhile is_digit s) 0
      in if neg then - n else n)"

section \<open>Children\<close>

datatype child_out =
    OutInherit
  | OutPipe int
  | OutFile bytes output_type

text \<open>What a forked child does before it runs its command.\<close>

record child =
  child_stdin :: "int option"
  child_stdout :: child_out
  child_close :: "int list"
  child_cmd :: command

record child_env =
  dup2_ok :: "int \<Rightarrow> int \<Rightarrow> bool"
  open_out :: "bytes \<Rightarrow> bool \<Rightarrow> int option"
  chdir_ok :: "bytes \<Rightarrow> bool"
  exec_ok :: "bytes list \<Rightarrow> bool"

datatype child_end = ChildExit int | ChildExec "bytes list"

definition exit_code :: "command \<Rightarrow> int" where
  "exit_code c = (if args c = [] then 0 else atoi (c_str (hd (args c))))"

text \<open>The part of the child behind the descriptors: the built-in commands and \<open>execvp\<close>.\<close>

definition child_command :: "child_env \<Rightarrow> command \<Rightarrow> child_end" where
  "child_command env c =
     (if exe c = ''cd'' then
        (if args c = [] then ChildExit 0
         else if chdir_ok env (c_str (hd (args c))) then ChildExit 0 else ChildExit 1)
      else if exe c = ''exit'' then ChildExit (exit_code c AND 255)
      else
        (let argv = map c_str (exe c # args c)
         in if exec_ok env argv then ChildExec argv else ChildExit 127))"

text \<open>The child of \<open>fork\<close>; opening for append or truncating is the flag of \<open>open_out\<close>.\<close>

definition child_run :: "child_env \<Rightarrow> child \<Rightarrow> child_end" where
  "child_run env c =
     (if (case child_stdin c of None \<Rightarrow> False | Some fd \<Rightarrow> \<not> dup2_ok env fd 0) then ChildExit 127
      else
        (case child_stdout c of
           OutInherit \<Rightarrow> child_command env (child_cmd c)
         | OutPipe fd \<Rightarrow> if dup2_ok env fd 1 then child_command env (child_cmd c) else ChildExit 127
         | OutFile f ty \<Rightarrow>
             (case open_out env (c_str f) (ty = OUTPUT_TYPE_FILE_NEW) of
                None \<Rightarrow> ChildExit 127
              | Some fd \<Rightarrow> if dup2_ok env fd 1 then child_command env (child_cmd c) else ChildExit 127)))"

section \<open>The operating system\<close>

datatype wait_status = Exited int | Signaled int | OtherStatus

datatype wait_error = EINTR | ECHILD | OtherError

record 'w os =
  os_pipe :: "'w \<Rightarrow> (int \<times> int) option \<times> 'w"
  os_fork :: "child \<Rightarrow> 'w \<Rightarrow> int option \<times> 'w"
  os_close :: "int \<Rightarrow> 'w \<Rightarrow> 'w"
  os_waitpid :: "int \<Rightarrow> 'w \<Rightarrow> (wait_error + wait_status) \<times> 'w"
  os_chdir :: "bytes \<Rightarrow> 'w \<Rightarrow> bool \<times> 'w"

section \<open>Pipelines\<close>

text \<open>The loop that creates \<open>n\<close> pipes; a failure leaves the earlier ones open.\<close>

fun make_pipes :: "'w os \<Rightarrow> nat \<Rightarrow> (int \<times> int) list \<Rightarrow> 'w \<Rightarrow> (int \<times> int) list option \<times> 'w" where
  "make_pipes os 0 acc w = (Some acc, w)"
| "make_pipes os (Suc n) acc w =
     (case os_pipe os w of
        (None, w) \<Rightarrow> (None, w)
      | (Some p, w) \<Rightarrow> make_pipes os n (acc @ [p]) w)"

definition pipe_fds :: "(int \<times> int) list \<Rightarrow> int list" where
  "pipe_fds ps = concat (map (\<lambda>(r, w). [r, w]) ps)"

definition close_all :: "'w os \<Rightarrow> int list \<Rightarrow> 'w \<Rightarrow> 'w" where
  "close_all os fds w = fold (os_close os) fds w"

text \<open>Child \<open>i\<close> of \<open>n\<close>: reads pipe \<open>i - 1\<close>, writes pipe \<open>i\<close>, the last one may write a file.\<close>

definition make_child ::
  "(int \<times> int) list \<Rightarrow> nat \<Rightarrow> nat \<Rightarrow> bool \<Rightarrow> output_type \<Rightarrow> bytes \<Rightarrow> command \<Rightarrow> child" where
  "make_child ps n i redirect_out oty ofile c =
     \<lparr>child_stdin = (if i > 0 then Some (fst (ps ! (i - 1))) else None),
      child_stdout =
        (if i + 1 < n then OutPipe (snd (ps ! i)) else if redirect_out then OutFile ofile oty else OutInherit),
      child_close = pipe_fds ps, child_cmd = c\<rparr>"

text \<open>The fork loop over the children; \<open>Inl\<close> when a \<open>fork\<close> fails.\<close>

fun fork_all :: "'w os \<Rightarrow> child list \<Rightarrow> int list \<Rightarrow> 'w \<Rightarrow> (int list + int list) \<times> 'w" where
  "fork_all os [] pids w = (Inr pids, w)"
| "fork_all os (c # cs) pids w =
     (case os_fork os c w of
        (None, w) \<Rightarrow> (Inl pids, w)
      | (Some pid, w) \<Rightarrow> fork_all os cs (pids @ [pid]) w)"

text \<open>Waiting for the last command: retried on \<open>EINTR\<close>.\<close>

partial_function (option) wait_last :: "'w os \<Rightarrow> int \<Rightarrow> 'w \<Rightarrow> (int \<times> 'w) option" where
  "wait_last os pid w =
     (case os_waitpid os pid w of
        (Inl EINTR, w) \<Rightarrow> wait_last os pid w
      | (Inl _, w) \<Rightarrow> Some (0, w)
      | (Inr (Exited s), w) \<Rightarrow> Some (s, w)
      | (Inr (Signaled s), w) \<Rightarrow> Some (128 + s, w)
      | (Inr OtherStatus, w) \<Rightarrow> Some (0, w))"

text \<open>Reaping all other children.\<close>

partial_function (option) wait_rest :: "'w os \<Rightarrow> 'w \<Rightarrow> 'w option" where
  "wait_rest os w =
     (case os_waitpid os (-1) w of
        (Inl EINTR, w) \<Rightarrow> wait_rest os w
      | (Inl _, w) \<Rightarrow> Some w
      | (Inr _, w) \<Rightarrow> wait_rest os w)"

definition run_pipeline ::
  "'w os \<Rightarrow> command list \<Rightarrow> bool \<Rightarrow> output_type \<Rightarrow> bytes \<Rightarrow> bool \<Rightarrow> 'w \<Rightarrow> (int \<times> 'w) option" where
  "run_pipeline os cmds redirect_out oty ofile background w =
     (if cmds = [] then Some (0, w)
      else
        (case make_pipes os (length cmds - 1) [] w of
           (None, w) \<Rightarrow> Some (-1, w)
         | (Some ps, w) \<Rightarrow>
             (let n = length cmds;
                  children = map (\<lambda>i. make_child ps n i redirect_out oty ofile (cmds ! i)) [0..<n]
              in
              case fork_all os children [] w of
                (Inl _, w) \<Rightarrow> Some (-1, close_all os (pipe_fds ps) w)
              | (Inr pids, w) \<Rightarrow>
                  (let w = close_all os (pipe_fds ps) w
                   in if background then Some (0, w)
                      else do {
                        (st, w) \<leftarrow> wait_last os (last pids) w;
                        w \<leftarrow> wait_rest os w;
                        Some (st, w) }))))"

section \<open>Command lines\<close>

record segment =
  seg_cmds :: "command list"
  sep_type :: int

text \<open>The loop over the expressions: \<open>done\<close> are the finished segments, \<open>cur\<close> the open one.\<close>

fun split_segments :: "expr list \<Rightarrow> segment list \<Rightarrow> segment \<Rightarrow> segment list" where
  "split_segments [] done cur = done @ [cur]"
| "split_segments (e # es) done cur =
     (case etype e of
        EXPR_TYPE_COMMAND \<Rightarrow> split_segments es done (cur\<lparr>seg_cmds := seg_cmds cur @ [the (cmd e)]\<rparr>)
      | EXPR_TYPE_PIPE \<Rightarrow> split_segments es done cur
      | EXPR_TYPE_AND \<Rightarrow> split_segments es (done @ [cur]) \<lparr>seg_cmds = [], sep_type = 1\<rparr>
      | EXPR_TYPE_OR \<Rightarrow> split_segments es (done @ [cur]) \<lparr>seg_cmds = [], sep_type = 2\<rparr>)"

definition segments_of :: "command_line \<Rightarrow> segment list" where
  "segments_of line = split_segments (exprs line) [] \<lparr>seg_cmds = [], sep_type = 0\<rparr>"

text \<open>The result of a step of the shell: it goes on with a status, or the process exits.\<close>

datatype 'w outcome = Goes int 'w | Exits int 'w

text \<open>
  One pass through the loop over the segments up to the label \<open>after_exec_segment\<close>, with
  \<open>is_last\<close> telling whether this is the last one.
\<close>

definition run_segment ::
  "'w os \<Rightarrow> command_line \<Rightarrow> bool \<Rightarrow> segment \<Rightarrow> int \<Rightarrow> 'w \<Rightarrow> 'w outcome option" where
  "run_segment os line is_last seg st w =
     (if seg_cmds seg = [] then Some (Goes st w)
      else
        (let redirect_out = (is_last \<and> out_type line \<noteq> OUTPUT_TYPE_STDOUT);
             oty = (if redirect_out then out_type line else OUTPUT_TYPE_STDOUT);
             ofile = (if redirect_out then out_file line else []);
             c = hd (seg_cmds seg)
         in
         if length (seg_cmds seg) = 1 \<and> exe c = ''cd'' then
           (if args c = [] then Some (Goes 0 w)
            else (let (ok, w) = os_chdir os (c_str (hd (args c))) w in Some (Goes (if ok then 0 else 1) w)))
         else do {
           (st, w) \<leftarrow> run_pipeline os (seg_cmds seg) redirect_out oty ofile (is_background line) w;
           if exe (last (seg_cmds seg)) = ''exit'' \<and> length (seg_cmds seg) = 1 \<and> is_last \<and>
              \<not> redirect_out \<and> \<not> is_background line
           then Some (Exits (st AND 255) w)
           else Some (Goes st w) }))"

text \<open>
  The loop. Behind the label the separator of the next segment is checked: both \<open>continue\<close>
  statements and the end of the body start the next pass.
\<close>

fun run_segments :: "'w os \<Rightarrow> command_line \<Rightarrow> segment list \<Rightarrow> int \<Rightarrow> 'w \<Rightarrow> 'w outcome option" where
  "run_segments os line [] st w = Some (Goes st w)"
| "run_segments os line (seg # segs) st w =
     do {
       r \<leftarrow> run_segment os line (segs = []) seg st w;
       case r of
         Exits c w \<Rightarrow> Some (Exits c w)
       | Goes st w \<Rightarrow>
           if segs \<noteq> [] \<and> sep_type (hd segs) = 1 \<and> st \<noteq> 0 then run_segments os line segs st w
           else if segs \<noteq> [] \<and> sep_type (hd segs) = 2 \<and> st = 0 then run_segments os line segs st w
           else run_segments os line segs st w }"

definition execute_command_line :: "'w os \<Rightarrow> command_line \<Rightarrow> 'w \<Rightarrow> 'w outcome option" where
  "execute_command_line os line w =
     (let segments = segments_of line;
          only = hd (seg_cmds (hd segments))
      in
      if length segments = 1 \<and> length (seg_cmds (hd segments)) = 1 \<and> exe only = ''exit'' \<and>
         out_type line = OUTPUT_TYPE_STDOUT \<and> \<not> is_background line
      then Some (Goes (exit_code only AND 255) w)
      else do {
        r \<leftarrow> run_segments os line segments 0 w;
        case r of
          Exits c w \<Rightarrow> Some (Exits c w)
        | Goes st w \<Rightarrow> Some (Goes (st AND 255) w) })"

section \<open>The main loop\<close>

text \<open>One item from the parser: a message for an error, the execution of a line, or \<open>exit\<close>.\<close>

definition shell_item :: "'w os \<Rightarrow> parser_error \<times> command_line option \<Rightarrow> int \<Rightarrow> 'w \<Rightarrow> 'w outcome option" where
  "shell_item os item st w =
     (case item of
        (err, None) \<Rightarrow> Some (Goes st w)
      | (err, Some line) \<Rightarrow>
          if err \<noteq> PARSER_ERR_NONE then Some (Goes st w)
          else if length (exprs line) = 1 \<and> etype (hd (exprs line)) = EXPR_TYPE_COMMAND \<and>
                  exe (the (cmd (hd (exprs line)))) = ''exit''
          then Some (Exits (exit_code (the (cmd (hd (exprs line)))) AND 255) w)
          else do {
            r \<leftarrow> execute_command_line os line w;
            case r of
              Exits c w \<Rightarrow> Some (Exits c w)
            | Goes st w \<Rightarrow> Some (Goes (st AND 255) w) })"

text \<open>
  The inner loop: pop and handle items until there is none. \<open>Inl\<close> is a failed assertion of the
  parser, \<open>Inr\<close> the outcome and the parser's buffer.
\<close>

partial_function (option) shell_inner ::
  "'w os \<Rightarrow> bytes \<Rightarrow> int \<Rightarrow> 'w \<Rightarrow> ('w + 'w outcome \<times> bytes) option" where
  "shell_inner os b st w =
     (case parser_step b of
        None \<Rightarrow> Some (Inl w)
      | Some None \<Rightarrow> Some (Inr (Goes st w, b))
      | Some (Some (item, r)) \<Rightarrow>
          Option.bind (shell_item os item st w) (\<lambda>res.
            case res of
              Exits c w \<Rightarrow> Some (Inr (Exits c w, r))
            | Goes st w \<Rightarrow> shell_inner os r st w))"

text \<open>
  The outer loop over the chunks that \<open>read\<close> returns, until the end of the input. The result is
  the exit status of the shell and the world.
\<close>

fun shell_outer :: "'w os \<Rightarrow> bytes list \<Rightarrow> bytes \<Rightarrow> int \<Rightarrow> 'w \<Rightarrow> ('w + int \<times> 'w) option" where
  "shell_outer os [] b st w = Some (Inr (st AND 255, w))"
| "shell_outer os (c # cs) b st w =
     do {
       r \<leftarrow> shell_inner os (b @ c) st w;
       case r of
         Inl w \<Rightarrow> Some (Inl w)
       | Inr (Exits code w, _) \<Rightarrow> Some (Inr (code, w))
       | Inr (Goes st w, b) \<Rightarrow> shell_outer os cs b st w }"

definition shell_main :: "'w os \<Rightarrow> bytes list \<Rightarrow> 'w \<Rightarrow> ('w + int \<times> 'w) option" where
  "shell_main os chunks w = shell_outer os chunks (buffer parser_new) 0 w"

unbundle bit_operations_syntax

section \<open>Independence of the chunks\<close>






section \<open>Segments\<close>

text \<open>The expressions that a list of segments stands for.\<close>

definition command_of :: "command \<Rightarrow> expr" where
  "command_of c = \<lparr>etype = EXPR_TYPE_COMMAND, cmd = Some c\<rparr>"

definition operator_of :: "expr_type \<Rightarrow> expr" where
  "operator_of ty = \<lparr>etype = ty, cmd = None\<rparr>"

fun pipe_exprs :: "command list \<Rightarrow> expr list" where
  "pipe_exprs [] = []"
| "pipe_exprs [c] = [command_of c]"
| "pipe_exprs (c # cs) = command_of c # operator_of EXPR_TYPE_PIPE # pipe_exprs cs"

definition separator :: "segment \<Rightarrow> expr list" where
  "separator s =
     (if sep_type s = 1 then [operator_of EXPR_TYPE_AND]
      else if sep_type s = 2 then [operator_of EXPR_TYPE_OR] else [])"

definition join_segments :: "segment list \<Rightarrow> expr list" where
  "join_segments segs = concat (map (\<lambda>s. separator s @ pipe_exprs (seg_cmds s)) segs)"

lemma pipe_exprs_snoc:
  "pipe_exprs (cs @ [c]) = pipe_exprs cs @ (if cs = [] then [] else [operator_of EXPR_TYPE_PIPE]) @ [command_of c]"
proof (induction cs)
  case (Cons a cs)
  then show ?case by (cases cs) auto
qed simp

lemma join_segments_append [simp]:
  "join_segments [] = []" "join_segments (xs @ ys) = join_segments xs @ join_segments ys"
  "join_segments (s # ss) = separator s @ pipe_exprs (seg_cmds s) @ join_segments ss"
  by (simp_all add: join_segments_def)

text \<open>
  After an operator the open segment is waiting for a command; \<open>pending\<close> is a pipe that was read
  but shows only in the shape of the segment.
\<close>

fun expr_shape :: "bool \<Rightarrow> expr list \<Rightarrow> bool" where
  "expr_shape want [] = (\<not> want)"
| "expr_shape want (e # es) =
     (if want then command_expr e \<and> expr_shape False es else operator_expr e \<and> expr_shape True es)"

lemma alternating_shape:
  "expr_shape want es \<longleftrightarrow>
     (\<forall>i < length es. if even i = want then command_expr (es ! i) else operator_expr (es ! i)) \<and>
     (if want then odd (length es) else even (length es))"
proof (induction es arbitrary: want)
  case (Cons e es)
  show ?case by (cases want) (auto simp: Cons.IH nth_Cons split: nat.splits)
qed auto

lemma command_expr_of: "command_expr e \<Longrightarrow> e = command_of (the (cmd e)) \<and> etype e = EXPR_TYPE_COMMAND"
  by (cases e) (auto simp: command_expr_def command_of_def)

lemma operator_expr_of: "operator_expr e \<Longrightarrow> e = operator_of (etype e) \<and> etype e \<noteq> EXPR_TYPE_COMMAND"
  by (cases e) (auto simp: operator_expr_def operator_of_def)

lemma split_segments_join:
  "expr_shape want es \<Longrightarrow> (want \<longrightarrow> pend = (seg_cmds cur \<noteq> [])) \<Longrightarrow> (\<not> want \<longrightarrow> \<not> pend \<and> seg_cmds cur \<noteq> []) \<Longrightarrow>
     join_segments (split_segments es acc cur) =
       join_segments (acc @ [cur]) @ (if pend then [operator_of EXPR_TYPE_PIPE] else []) @ es"
proof (induction es arbitrary: want pend acc cur)
  case (Cons e es)
  show ?case
  proof (cases want)
    case True
    then have e: "command_expr e" "expr_shape False es" using Cons.prems(1) by auto
    show ?thesis
      using Cons.IH [OF e(2), of False "cur\<lparr>seg_cmds := seg_cmds cur @ [the (cmd e)]\<rparr>" "acc"] command_expr_of [OF e(1)] True Cons.prems(2)
      by (auto simp: pipe_exprs_snoc separator_def)
  next
    case False
    then have e: "operator_expr e" "expr_shape True es" using Cons.prems(1) by auto
    note o = operator_expr_of [OF e(1)]
    show ?thesis
    proof (cases "etype e")
      case EXPR_TYPE_PIPE
      then show ?thesis using Cons.IH [OF e(2), of True cur "acc"] o False Cons.prems(3) by simp
    next
      case EXPR_TYPE_AND
      then show ?thesis using Cons.IH [OF e(2), of False "\<lparr>seg_cmds = [], sep_type = 1\<rparr>" "acc @ [cur]"] o False Cons.prems(3)
        by (simp add: separator_def)
    next
      case EXPR_TYPE_OR
      then show ?thesis using Cons.IH [OF e(2), of False "\<lparr>seg_cmds = [], sep_type = 2\<rparr>" "acc @ [cur]"] o False Cons.prems(3)
        by (simp add: separator_def)
    qed (use o in simp)
  qed
qed simp


section \<open>What a pipeline starts\<close>







section \<open>Properties of the shell\<close>


text \<open>
  C31. Splitting into segments loses nothing: for every line the parser can return, putting
  pipes between the commands of each segment and the separators between the segments gives
  back the expressions of the line.
\<close>

theorem segments_preserve_line:
  assumes "parser_pop_next p = Some (err, Some line, q)"
  shows "join_segments (segments_of line) = exprs line"
proof -
  have "expr_shape True (exprs line)"
    using parser_pop_next_line_ok [of p] assms
    by (auto simp: alternating_shape result_line_ok_def line_ok_def alternating_def)
  then show ?thesis
    using split_segments_join [of True "exprs line" False "\<lparr>seg_cmds = [], sep_type = 0\<rparr>" "[]"]
    by (simp add: segments_of_def separator_def)
qed


definition is_byte :: "int \<Rightarrow> bool" where
  "is_byte c \<longleftrightarrow> 0 \<le> c \<and> c \<le> 255"

lemma is_byte_and [simp]: "is_byte (x AND 255)"
  by (simp add: is_byte_def)

lemma run_segments_byte: "run_segments os line segs st w = Some (Exits c w') \<Longrightarrow> is_byte c"
proof (induction segs arbitrary: st w)
  case (Cons seg segs)
  have "is_byte c" if "run_segment os line last seg st w = Some (Exits c w')" for last w'
    using that by (auto simp: run_segment_def Let_def split: if_splits bind_splits prod.splits)
  then show ?case using Cons by (fastforce split: bind_splits outcome.splits if_splits)
qed simp

lemma shell_item_byte: "shell_item os item st w = Some (Exits c w') \<Longrightarrow> is_byte c"
  by (auto simp: shell_item_def execute_command_line_def Let_def
      split: prod.splits option.splits if_splits bind_splits outcome.splits dest: run_segments_byte)

lemma shell_inner_byte: "shell_inner os b st w = Some y \<Longrightarrow> y = Inr (Exits c w', r) \<longrightarrow> is_byte c"
proof (induction rule: shell_inner.raw_induct [rotated, consumes 1, case_names Pass])
  case (Pass f os b st w y)
  then show ?case by (force split: option.splits bind_splits outcome.splits dest: shell_item_byte)
qed

lemma shell_outer_byte: "shell_outer os cs b st w = Some (Inr (c, w')) \<Longrightarrow> is_byte c"
proof (induction cs arbitrary: b st w)
  case (Cons x cs)
  then show ?case by (force split: bind_splits sum.splits outcome.splits dest: shell_inner_byte)
qed auto

text \<open>
  The status with which the shell ends is a byte: between 0 and 255, whatever the
  commands and the operating system return.
\<close>

theorem shell_status_is_byte:
  assumes "shell_main os chunks w = Some (Inr (code, w'))"
  shows "0 \<le> code \<and> code \<le> 255"
  using shell_outer_byte [OF assms [unfolded shell_main_def]] by (simp add: is_byte_def)

text \<open>
  The operators \<open>&&\<close> and \<open>||\<close> have no effect: two lists of segments that differ only in
  their separators run the same commands with the same outcome, because both \<open>continue\<close>
  statements of the separator check lead to the next segment.
\<close>

theorem separators_have_no_effect:
  assumes "map seg_cmds segs = map seg_cmds segs'"
  shows "run_segments os line segs st w = run_segments os line segs' st w"
  using assms
proof (induction segs arbitrary: segs' st w)
  case (Cons s segs)
  then obtain s' ss where s: "segs' = s' # ss" "seg_cmds s = seg_cmds s'" "map seg_cmds segs = map seg_cmds ss" by (cases segs') auto
  have e: "segs = [] \<longleftrightarrow> ss = []" using s(3) by auto
  have "run_segment os line last s st w = run_segment os line last s' st w" for last
    unfolding run_segment_def s(2) by (rule refl)
  then show ?case using Cons.IH [OF s(3)] e by (cases "run_segment os line (ss = []) s' st w") (auto simp: s(1) split: outcome.split)
qed simp

section \<open>A concrete operating system\<close>

text \<open>Every call succeeds, children are recorded and end with the status 0.\<close>

definition record_os :: "child list os" where
  "record_os = \<lparr>os_pipe = (\<lambda>w. (Some (3, 4), w)), os_fork = (\<lambda>c w. (Some 1, w @ [c])), os_close = (\<lambda>fd w. w),
     os_waitpid = (\<lambda>pid w. (if pid = -1 then Inl ECHILD else Inr (Exited 0), w)), os_chdir = (\<lambda>d w. (True, w))\<rparr>"

definition ls_cmd :: command where "ls_cmd = \<lparr>exe = ''ls'', args = []\<rparr>"
definition wc_cmd :: command where "wc_cmd = \<lparr>exe = ''wc'', args = [''-l'']\<rparr>"

lemma record_os_simps [simp]:
  "os_pipe record_os w = (Some (3, 4), w)" "os_fork record_os c w = (Some 1, w @ [c])" "os_close record_os fd w = w"
  "os_waitpid record_os pid w = (if pid = -1 then Inl ECHILD else Inr (Exited 0), w)" "close_all record_os fds w = w"
  by (simp_all add: record_os_def close_all_def fold_invariant)
    (induction fds; simp)

lemma record_os_waits [simp]: "pid \<noteq> -1 \<Longrightarrow> wait_last record_os pid w = Some (0, w)" "wait_rest record_os w = Some w"
  by (simp_all add: wait_last.simps wait_rest.simps)




theorem segments_preserve_line_witness:
  "join_segments (segments_of (new_command_line\<lparr>exprs := [\<lparr>etype = EXPR_TYPE_COMMAND, cmd = Some \<lparr>exe = ''ls'', args = []\<rparr>\<rparr>]\<rparr>)) =
     [\<lparr>etype = EXPR_TYPE_COMMAND, cmd = Some \<lparr>exe = ''ls'', args = []\<rparr>\<rparr>]"
  using segments_preserve_line [OF parse_ls] by simp

lemma shell_exit_300: "shell_main record_os [''exit 300'' @ [NL]] [] = Some (Inr (44, []))"
  by (simp add: shell_main_def parser_new_def shell_inner.simps parser_eval shell_item_def exit_code_def atoi_def c_str_def is_digit_def)

theorem shell_status_is_byte_witness: "shell_main record_os [''exit 300'' @ [NL]] [] = Some (Inr (44, [])) \<and> (0 :: int) \<le> 44 \<and> (44 :: int) \<le> 255"
  using shell_status_is_byte [OF shell_exit_300] shell_exit_300 by blast

theorem separators_have_no_effect_witness:
  "run_segments record_os new_command_line [\<lparr>seg_cmds = [ls_cmd], sep_type = 0\<rparr>, \<lparr>seg_cmds = [wc_cmd], sep_type = 1\<rparr>] 0 [] =
   run_segments record_os new_command_line [\<lparr>seg_cmds = [ls_cmd], sep_type = 0\<rparr>, \<lparr>seg_cmds = [wc_cmd], sep_type = 2\<rparr>] 0 []"
  by (rule separators_have_no_effect) simp

end
