(* ===== verification/Userfs.thy ===== *)
theory Userfs
  imports Prelude "HOL-Library.Monad_Syntax"
begin

text \<open>
  The in-memory file system of \<open>3/userfs.cpp\<close> and \<open>3/userfs.h\<close> (built with open flags and
  resize). Blocks and files are heap objects with addresses: \<open>mem\<close> maps the live blocks to their
  512 bytes and \<open>files\<close> the live files to their fields; both also hold the next unused address.
  The list of a file's blocks and the list of files are the address lists that the intrusive
  lists represent. A result \<open>None\<close> is a use of freed memory, which C++ leaves undefined; an
  error return is the value -1 with the error code in \<open>errno\<close>.
\<close>

unbundle bit_operations_syntax

section \<open>Data\<close>

definition BLOCK_SIZE :: nat where "BLOCK_SIZE = 512"
definition MAX_FILE_SIZE :: nat where "MAX_FILE_SIZE = 1024 * 1024 * 100"

definition UFS_CREATE :: int where "UFS_CREATE = 1"
definition UFS_READ_ONLY :: int where "UFS_READ_ONLY = 2"
definition UFS_WRITE_ONLY :: int where "UFS_WRITE_ONLY = 4"
definition UFS_READ_WRITE :: int where "UFS_READ_WRITE = UFS_READ_ONLY OR UFS_WRITE_ONLY"

datatype ufs_error_code =
    UFS_ERR_NO_ERR | UFS_ERR_NO_FILE | UFS_ERR_NO_MEM | UFS_ERR_NOT_IMPLEMENTED | UFS_ERR_NO_PERMISSION

record block_heap =
  mem :: "addr \<rightharpoonup> bytes"
  fresh_block :: addr

record ufile =
  f_blocks :: "addr list"
  f_refs :: int
  f_name :: bytes
  f_size :: nat
  f_last :: "addr option"
  f_blocks_count :: int
  f_deleted :: bool

record filedesc =
  d_file :: addr
  d_pos :: nat
  d_cur_block :: "addr option"
  d_cur_block_index :: int
  d_flags :: int

record ufs =
  heap :: block_heap
  files :: "addr \<rightharpoonup> ufile"
  fresh_file :: addr
  file_list :: "addr list"
  file_descriptors :: "filedesc option list"
  errno :: ufs_error_code

definition ufs_init :: ufs where
  "ufs_init = \<lparr>heap = \<lparr>mem = Map.empty, fresh_block = 0\<rparr>, files = Map.empty, fresh_file = 0,
     file_list = [], file_descriptors = [], errno = UFS_ERR_NO_ERR\<rparr>"

definition ufs_errno :: "ufs \<Rightarrow> ufs_error_code" where
  "ufs_errno u = errno u"

text \<open>The result of a call that fails with an error code.\<close>

definition ufs_fail :: "ufs_error_code \<Rightarrow> ufs \<Rightarrow> int \<times> ufs" where
  "ufs_fail e u = (-1, u\<lparr>errno := e\<rparr>)"

section \<open>Opening\<close>

fun find_file :: "(addr \<rightharpoonup> ufile) \<Rightarrow> bytes \<Rightarrow> addr list \<Rightarrow> addr option option" where
  "find_file fs n [] = Some None"
| "find_file fs n (a # as) =
     do { f \<leftarrow> fs a; if \<not> f_deleted f \<and> f_name f = n then Some (Some a) else find_file fs n as }"

definition find_file_by_name :: "bytes \<Rightarrow> ufs \<Rightarrow> addr option option" where
  "find_file_by_name n u = find_file (files u) n (file_list u)"

definition new_file :: "bytes \<Rightarrow> ufile" where
  "new_file n = \<lparr>f_blocks = [], f_refs = 1, f_name = n, f_size = 0, f_last = None, f_blocks_count = 0, f_deleted = False\<rparr>"

definition new_filedesc :: "addr \<Rightarrow> int \<Rightarrow> filedesc" where
  "new_filedesc a fl = \<lparr>d_file = a, d_pos = 0, d_cur_block = None, d_cur_block_index = 0, d_flags = fl\<rparr>"

text \<open>The file that \<open>ufs_open\<close> opens: a new one, or the one found with one more reference.\<close>

definition open_file :: "bytes \<Rightarrow> int \<Rightarrow> addr option \<Rightarrow> ufs \<Rightarrow> (addr \<times> ufs) option option" where
  "open_file n fl found u =
     (case found of
        None \<Rightarrow>
          if fl AND UFS_CREATE \<noteq> 0 then
            Some (Some (fresh_file u,
              u\<lparr>files := (files u)(fresh_file u \<mapsto> new_file n), fresh_file := Suc (fresh_file u),
                file_list := file_list u @ [fresh_file u]\<rparr>))
          else Some None
      | Some a \<Rightarrow>
          do { f \<leftarrow> files u a;
               Some (Some (a, u\<lparr>files := (files u)(a \<mapsto> f\<lparr>f_refs := f_refs f + 1, f_deleted := False\<rparr>)\<rparr>)) })"

text \<open>The loop over the descriptor table: the first free slot, or a new one at the end.\<close>

fun store_fd :: "'d \<Rightarrow> 'd option list \<Rightarrow> nat \<times> 'd option list" where
  "store_fd d [] = (0, [Some d])"
| "store_fd d (x # xs) =
     (case x of
        None \<Rightarrow> (0, Some d # xs)
      | Some _ \<Rightarrow> let (i, ys) = store_fd d xs in (Suc i, x # ys))"

definition ufs_open :: "bytes option \<Rightarrow> int \<Rightarrow> ufs \<Rightarrow> (int \<times> ufs) option" where
  "ufs_open filename fl u =
     (case filename of
        None \<Rightarrow> Some (ufs_fail UFS_ERR_NO_FILE u)
      | Some n \<Rightarrow>
          let fl = (if fl AND (UFS_READ_ONLY OR UFS_WRITE_ONLY OR UFS_READ_WRITE) = 0
                    then fl OR UFS_READ_WRITE else fl)
          in do {
            found \<leftarrow> find_file_by_name n u;
            opened \<leftarrow> open_file n fl found u;
            case opened of
              None \<Rightarrow> Some (ufs_fail UFS_ERR_NO_FILE u)
            | Some (a, u) \<Rightarrow>
                let (i, fds) = store_fd (new_filedesc a fl) (file_descriptors u)
                in Some (int i + 1, u\<lparr>file_descriptors := fds, errno := UFS_ERR_NO_ERR\<rparr>) })"

section \<open>Blocks\<close>

definition allocate_block :: "block_heap \<Rightarrow> addr \<times> block_heap" where
  "allocate_block h =
     (fresh_block h, h\<lparr>mem := (mem h)(fresh_block h \<mapsto> replicate BLOCK_SIZE (CHR 0x00)),
       fresh_block := Suc (fresh_block h)\<rparr>)"

text \<open>The four statements that allocate a block and put it at the end of a file.\<close>

definition append_block :: "ufile \<Rightarrow> block_heap \<Rightarrow> addr \<times> ufile \<times> block_heap" where
  "append_block f h =
     (let (b, h) = allocate_block h
      in (b, f\<lparr>f_blocks := f_blocks f @ [b], f_last := Some b, f_blocks_count := f_blocks_count f + 1\<rparr>, h))"

text \<open>
  \<open>in_block_list.next\<close> and \<open>.prev\<close> of a block of a list: \<open>Some None\<close> is the list head, \<open>None\<close>
  a block that is not in the list.
\<close>

fun next_of :: "addr \<Rightarrow> addr list \<Rightarrow> addr option option" where
  "next_of b [] = None"
| "next_of b (x # xs) = (if x = b then Some (case xs of [] \<Rightarrow> None | y # _ \<Rightarrow> Some y) else next_of b xs)"

definition prev_of :: "addr \<Rightarrow> addr list \<Rightarrow> addr option option" where
  "prev_of b xs = next_of b (rev xs)"

text \<open>Reading the links of a block needs a live block.\<close>

definition block_next :: "block_heap \<Rightarrow> ufile \<Rightarrow> addr \<Rightarrow> addr option option" where
  "block_next h f b = do { _ \<leftarrow> mem h b; next_of b (f_blocks f) }"

definition block_prev :: "block_heap \<Rightarrow> ufile \<Rightarrow> addr \<Rightarrow> addr option option" where
  "block_prev h f b = do { _ \<leftarrow> mem h b; prev_of b (f_blocks f) }"

text \<open>The loop that creates blocks until the file has one with the index.\<close>

function create_blocks :: "int \<Rightarrow> ufile \<Rightarrow> block_heap \<Rightarrow> ufile \<times> block_heap" where
  "create_blocks index f h =
     (if f_blocks_count f \<le> index then (let (b, f, h) = append_block f h in create_blocks index f h) else (f, h))"
  by pat_completeness auto
termination
  by (relation "measure (\<lambda>(index, f, h). nat (index + 1 - f_blocks_count f))")
    (auto simp: append_block_def allocate_block_def)

declare create_blocks.simps [simp del]

definition set_cursor :: "addr option \<Rightarrow> int \<Rightarrow> filedesc \<Rightarrow> filedesc" where
  "set_cursor b i d = d\<lparr>d_cur_block := b, d_cur_block_index := i\<rparr>"

text \<open>The walk along the whole list, and the creation of the missing blocks.\<close>

definition walk_blocks ::
  "filedesc \<Rightarrow> ufile \<Rightarrow> block_heap \<Rightarrow> int \<Rightarrow> bool \<Rightarrow> (addr option \<times> filedesc \<times> ufile \<times> block_heap) option" where
  "walk_blocks d f h index create =
     (if index < int (length (f_blocks f)) then
        Some (Some (f_blocks f ! nat index), set_cursor (Some (f_blocks f ! nat index)) index d, f, h)
      else if \<not> create then Some (None, d, f, h)
      else
        (let (f, h) = create_blocks index f h
         in Some (f_last f, set_cursor (f_last f) index d, f, h)))"

definition step_back ::
  "filedesc \<Rightarrow> ufile \<Rightarrow> block_heap \<Rightarrow> int \<Rightarrow> bool \<Rightarrow> (addr option \<times> filedesc \<times> ufile \<times> block_heap) option" where
  "step_back d f h index create =
     (case d_cur_block d of
        Some c \<Rightarrow>
          if index = d_cur_block_index d - 1 then
            do { p \<leftarrow> block_prev h f c;
                 case p of
                   Some b \<Rightarrow> Some (Some b, set_cursor (Some b) index d, f, h)
                 | None \<Rightarrow> walk_blocks d f h index create }
          else walk_blocks d f h index create
      | None \<Rightarrow> walk_blocks d f h index create)"

definition get_block_by_index ::
  "filedesc \<Rightarrow> ufile \<Rightarrow> block_heap \<Rightarrow> int \<Rightarrow> bool \<Rightarrow> (addr option \<times> filedesc \<times> ufile \<times> block_heap) option" where
  "get_block_by_index d f h index create =
     (if index < 0 then Some (None, d, f, h)
      else
        (case d_cur_block d of
           Some c \<Rightarrow>
             if d_cur_block_index d = index then Some (Some c, d, f, h)
             else if index = d_cur_block_index d + 1 then
               do { n \<leftarrow> block_next h f c;
                    case n of
                      Some b \<Rightarrow> Some (Some b, set_cursor (Some b) index d, f, h)
                    | None \<Rightarrow> step_back d f h index create }
             else step_back d f h index create
         | None \<Rightarrow> step_back d f h index create))"

section \<open>Writing and reading\<close>

text \<open>\<open>memcpy\<close> and \<open>memset\<close> on a byte list that is long enough.\<close>

definition put_bytes :: "nat \<Rightarrow> bytes \<Rightarrow> bytes \<Rightarrow> bytes" where
  "put_bytes off s m = take off m @ s @ drop (off + length s) m"

text \<open>The descriptor behind a number, or nothing for a number that is not an open descriptor.\<close>

definition get_fd :: "int \<Rightarrow> ufs \<Rightarrow> filedesc option" where
  "get_fd fd u =
     (if fd \<le> 0 \<or> nat (fd - 1) \<ge> length (file_descriptors u) then None
      else file_descriptors u ! nat (fd - 1))"

definition put_fd :: "int \<Rightarrow> filedesc \<Rightarrow> ufs \<Rightarrow> ufs" where
  "put_fd fd d u = u\<lparr>file_descriptors := (file_descriptors u)[nat (fd - 1) := Some d]\<rparr>"

text \<open>
  The loop of \<open>ufs_write\<close>: \<open>buf\<close> holds the bytes still to write. \<open>(b, block_index)\<close> is the
  current block.
\<close>

function write_loop ::
  "bytes \<Rightarrow> nat \<Rightarrow> addr \<Rightarrow> nat \<Rightarrow> filedesc \<Rightarrow> ufile \<Rightarrow> block_heap \<Rightarrow>
     (addr \<times> nat \<times> filedesc \<times> ufile \<times> block_heap) option" where
  "write_loop buf offset b block_index d f h =
     (if buf = [] then Some (b, block_index, d, f, h)
      else
        (let chunk = min (BLOCK_SIZE - offset) (length buf)
         in do {
           m \<leftarrow> mem h b;
           let h = h\<lparr>mem := (mem h)(b \<mapsto> put_bytes offset (take chunk buf) m)\<rparr>;
           let d = d\<lparr>d_pos := d_pos d + chunk\<rparr>;
           if chunk = length buf then Some (b, block_index, d, f, h)
           else do {
             next \<leftarrow> block_next h f b;
             let (b, f, h) = (case next of None \<Rightarrow> append_block f h | Some b \<Rightarrow> (b, f, h));
             write_loop (drop chunk buf) 0 b (Suc block_index)
               (set_cursor (Some b) (int (Suc block_index)) d) f h } }))"
  by pat_completeness auto
termination
  by (relation "measure (\<lambda>(buf, offset, _). 2 * length buf + (if offset < BLOCK_SIZE then 0 else 1))")
    (auto simp: BLOCK_SIZE_def)

declare write_loop.simps [simp del]

definition ufs_write :: "int \<Rightarrow> bytes \<Rightarrow> ufs \<Rightarrow> (int \<times> ufs) option" where
  "ufs_write fd buf u =
     (case get_fd fd u of
        None \<Rightarrow> Some (ufs_fail UFS_ERR_NO_FILE u)
      | Some d \<Rightarrow>
          if d_flags d AND UFS_WRITE_ONLY = 0 then Some (ufs_fail UFS_ERR_NO_PERMISSION u)
          else if buf = [] then Some (0, u\<lparr>errno := UFS_ERR_NO_ERR\<rparr>)
          else if length buf > MAX_FILE_SIZE \<or> d_pos d > MAX_FILE_SIZE - length buf
          then Some (ufs_fail UFS_ERR_NO_MEM u)
          else do {
            f \<leftarrow> files u (d_file d);
            let block_index = d_pos d div BLOCK_SIZE;
            let offset = d_pos d mod BLOCK_SIZE;
            (b, d, f, h) \<leftarrow> get_block_by_index d f (heap u) (int block_index) True;
            case b of
              None \<Rightarrow> Some (ufs_fail UFS_ERR_NO_MEM (put_fd fd d (u\<lparr>heap := h, files := (files u)(d_file d \<mapsto> f)\<rparr>)))
            | Some b \<Rightarrow> do {
                (b, block_index, d, f, h) \<leftarrow> write_loop buf offset b block_index d f h;
                let f = (if d_pos d > f_size f then f\<lparr>f_size := d_pos d\<rparr> else f);
                let d = set_cursor (Some b) (int block_index) d;
                Some (int (length buf),
                  put_fd fd d (u\<lparr>heap := h, files := (files u)(d_file d \<mapsto> f), errno := UFS_ERR_NO_ERR\<rparr>)) } })"

text \<open>The loop of \<open>ufs_read\<close>: \<open>n\<close> bytes are still to read, \<open>acc\<close> are those read.\<close>

function read_loop ::
  "nat \<Rightarrow> bytes \<Rightarrow> nat \<Rightarrow> addr \<Rightarrow> nat \<Rightarrow> filedesc \<Rightarrow> ufile \<Rightarrow> block_heap \<Rightarrow>
     (bytes \<times> addr \<times> nat \<times> filedesc) option" where
  "read_loop n acc offset b block_index d f h =
     (if n = 0 then Some (acc, b, block_index, d)
      else
        (let chunk = min (BLOCK_SIZE - offset) n
         in do {
           m \<leftarrow> mem h b;
           let acc = acc @ take chunk (drop offset m);
           let d = d\<lparr>d_pos := d_pos d + chunk\<rparr>;
           if chunk = n then Some (acc, b, block_index, d)
           else do {
             next \<leftarrow> block_next h f b;
             case next of
               None \<Rightarrow> Some (acc, b, block_index, d)
             | Some b \<Rightarrow>
                 read_loop (n - chunk) acc 0 b (Suc block_index)
                   (set_cursor (Some b) (int (Suc block_index)) d) f h } }))"
  by pat_completeness auto
termination
  by (relation "measure (\<lambda>(n, _, offset, _). 2 * n + (if offset < BLOCK_SIZE then 0 else 1))")
    (auto simp: BLOCK_SIZE_def)

declare read_loop.simps [simp del]

text \<open>The result is the number of bytes read (or -1) and those bytes, the written part of \<open>buf\<close>.\<close>

definition ufs_read :: "int \<Rightarrow> nat \<Rightarrow> ufs \<Rightarrow> ((int \<times> bytes) \<times> ufs) option" where
  "ufs_read fd sz u =
     (let failed = (\<lambda>e. let (r, u) = ufs_fail e u in ((r, []), u));
          eof = (\<lambda>u. ((0, []), u\<lparr>errno := UFS_ERR_NO_ERR\<rparr>))
      in
      case get_fd fd u of
        None \<Rightarrow> Some (failed UFS_ERR_NO_FILE)
      | Some d \<Rightarrow>
          if d_flags d AND UFS_READ_ONLY = 0 then Some (failed UFS_ERR_NO_PERMISSION)
          else do {
            f \<leftarrow> files u (d_file d);
            if d_pos d \<ge> f_size f then Some (eof u)
            else do {
              let to_read = min sz (f_size f - d_pos d);
              let block_index = d_pos d div BLOCK_SIZE;
              let offset = d_pos d mod BLOCK_SIZE;
              (b, d, f, h) \<leftarrow> get_block_by_index d f (heap u) (int block_index) False;
              case b of
                None \<Rightarrow> Some (eof (put_fd fd d u))
              | Some b \<Rightarrow> do {
                  (acc, b, block_index, d) \<leftarrow> read_loop to_read [] offset b block_index d f h;
                  let d = set_cursor (Some b) (int block_index) d;
                  Some ((int (length acc), acc), put_fd fd d (u\<lparr>errno := UFS_ERR_NO_ERR\<rparr>)) } } })"

section \<open>Closing and deleting\<close>

text \<open>\<open>delete b\<close> of a block that is not live is a double free.\<close>

fun free_blocks :: "addr list \<Rightarrow> block_heap \<Rightarrow> block_heap option" where
  "free_blocks [] h = Some h"
| "free_blocks (b # bs) h = do { _ \<leftarrow> mem h b; free_blocks bs (h\<lparr>mem := (mem h)(b := None)\<rparr>) }"

definition reset_cursors :: "addr \<Rightarrow> filedesc option list \<Rightarrow> filedesc option list" where
  "reset_cursors a fds =
     map (map_option (\<lambda>d. if d_file d = a then set_cursor None (-1) d else d)) fds"

definition free_file_blocks :: "addr \<Rightarrow> ufs \<Rightarrow> ufs option" where
  "free_file_blocks a u =
     do { f \<leftarrow> files u a;
          h \<leftarrow> free_blocks (f_blocks f) (heap u);
          Some (u\<lparr>heap := h, files := (files u)(a \<mapsto> f\<lparr>f_blocks := [], f_last := None, f_blocks_count := 0\<rparr>),
            file_descriptors := reset_cursors a (file_descriptors u)\<rparr>) }"

definition delete_file :: "addr \<Rightarrow> ufs \<Rightarrow> ufs option" where
  "delete_file a u =
     do { u \<leftarrow> free_file_blocks a u; Some (u\<lparr>files := (files u)(a := None)\<rparr>) }"

definition ufs_close :: "int \<Rightarrow> ufs \<Rightarrow> (int \<times> ufs) option" where
  "ufs_close fd u =
     (case get_fd fd u of
        None \<Rightarrow> Some (ufs_fail UFS_ERR_NO_FILE u)
      | Some d \<Rightarrow> do {
          f \<leftarrow> files u (d_file d);
          let f = f\<lparr>f_refs := f_refs f - 1\<rparr>;
          let u = u\<lparr>file_descriptors := (file_descriptors u)[nat (fd - 1) := None],
                    files := (files u)(d_file d \<mapsto> f)\<rparr>;
          u \<leftarrow> (if f_refs f = 0 \<and> f_deleted f then delete_file (d_file d) u else Some u);
          Some (0, u\<lparr>errno := UFS_ERR_NO_ERR\<rparr>) })"

definition ufs_delete :: "bytes \<Rightarrow> ufs \<Rightarrow> (int \<times> ufs) option" where
  "ufs_delete filename u =
     do {
       found \<leftarrow> find_file_by_name filename u;
       case found of
         None \<Rightarrow> Some (ufs_fail UFS_ERR_NO_FILE u)
       | Some a \<Rightarrow> do {
           f \<leftarrow> files u a;
           let u = u\<lparr>file_list := remove1 a (file_list u), files := (files u)(a \<mapsto> f\<lparr>f_deleted := True\<rparr>),
                     file_descriptors := reset_cursors a (file_descriptors u)\<rparr>;
           u \<leftarrow> (if f_refs f = 0 then delete_file a u else Some u);
           Some (0, u\<lparr>errno := UFS_ERR_NO_ERR\<rparr>) } }"

section \<open>Resizing\<close>

function grow_blocks :: "nat \<Rightarrow> ufile \<Rightarrow> block_heap \<Rightarrow> ufile \<times> block_heap" where
  "grow_blocks n f h =
     (if f_blocks_count f < int n then (let (b, f, h) = append_block f h in grow_blocks n f h) else (f, h))"
  by pat_completeness auto
termination
  by (relation "measure (\<lambda>(n, f, h). nat (int n - f_blocks_count f))")
    (auto simp: append_block_def allocate_block_def)

declare grow_blocks.simps [simp del]

text \<open>With no block left, \<open>f->blocks.prev\<close> is the list head: not a block, hence \<open>None\<close>.\<close>

definition last_block :: "ufile \<Rightarrow> addr option" where
  "last_block f = (if f_blocks f = [] then None else Some (List.last (f_blocks f)))"

function shrink_blocks :: "nat \<Rightarrow> ufile \<Rightarrow> block_heap \<Rightarrow> (ufile \<times> block_heap) option" where
  "shrink_blocks n f h =
     (if f_blocks_count f > int n then
        (case last_block f of
           None \<Rightarrow> None
         | Some b \<Rightarrow>
             (case free_blocks [b] h of
                None \<Rightarrow> None
              | Some h \<Rightarrow> shrink_blocks n (f\<lparr>f_blocks := butlast (f_blocks f), f_blocks_count := f_blocks_count f - 1\<rparr>) h))
      else Some (f, h))"
  by pat_completeness auto
termination
  by (relation "measure (\<lambda>(n, f, h). nat (f_blocks_count f - int n))") auto

declare shrink_blocks.simps [simp del]

text \<open>\<open>memset\<close> of \<open>n\<close> zero bytes in the last block of a file.\<close>

definition zero_last_block :: "nat \<Rightarrow> nat \<Rightarrow> ufile \<Rightarrow> block_heap \<Rightarrow> block_heap option" where
  "zero_last_block off n f h =
     do { b \<leftarrow> last_block f;
          m \<leftarrow> mem h b;
          Some (h\<lparr>mem := (mem h)(b \<mapsto> put_bytes off (replicate n (CHR 0x00)) m)\<rparr>) }"

definition resize_blocks :: "nat \<Rightarrow> ufile \<Rightarrow> block_heap \<Rightarrow> (ufile \<times> block_heap) option" where
  "resize_blocks new_size f h =
     (let old_size = f_size f;
          old_blocks = (old_size + BLOCK_SIZE - 1) div BLOCK_SIZE;
          new_blocks = (new_size + BLOCK_SIZE - 1) div BLOCK_SIZE
      in
      if new_size > old_size then
        (let (f, h) = grow_blocks new_blocks f h;
             to = min new_size (old_blocks * BLOCK_SIZE)
         in if old_size mod BLOCK_SIZE \<noteq> 0 \<and> old_size div BLOCK_SIZE < new_blocks \<and> to > old_size
            then do { h \<leftarrow> zero_last_block (old_size mod BLOCK_SIZE) (to - old_size) f h; Some (f, h) }
            else Some (f, h))
      else if new_size < old_size then
        do { (f, h) \<leftarrow> shrink_blocks new_blocks f h;
             if new_size mod BLOCK_SIZE \<noteq> 0 \<and> f_blocks_count f > 0
             then do { h \<leftarrow> zero_last_block (new_size mod BLOCK_SIZE) (BLOCK_SIZE - new_size mod BLOCK_SIZE) f h;
                       Some (f, h) }
             else Some (f, h) }
      else Some (f, h))"

definition clamp_positions :: "addr \<Rightarrow> nat \<Rightarrow> filedesc option list \<Rightarrow> filedesc option list" where
  "clamp_positions a new_size fds =
     map (map_option (\<lambda>d. if d_file d = a \<and> d_pos d > new_size
                            then set_cursor None (-1) (d\<lparr>d_pos := new_size\<rparr>) else d)) fds"

definition ufs_resize :: "int \<Rightarrow> nat \<Rightarrow> ufs \<Rightarrow> (int \<times> ufs) option" where
  "ufs_resize fd new_size u =
     (case get_fd fd u of
        None \<Rightarrow> Some (ufs_fail UFS_ERR_NO_FILE u)
      | Some d \<Rightarrow>
          if d_flags d AND UFS_WRITE_ONLY = 0 then Some (ufs_fail UFS_ERR_NO_PERMISSION u)
          else if new_size > MAX_FILE_SIZE then Some (ufs_fail UFS_ERR_NO_MEM u)
          else do {
            f \<leftarrow> files u (d_file d);
            (f, h) \<leftarrow> resize_blocks new_size f (heap u);
            Some (0, u\<lparr>heap := h, files := (files u)(d_file d \<mapsto> f\<lparr>f_size := new_size\<rparr>),
              file_descriptors := clamp_positions (d_file d) new_size (file_descriptors u),
              errno := UFS_ERR_NO_ERR\<rparr>) })"

section \<open>Destruction\<close>

text \<open>The files of the descriptors and of the list, each once.\<close>

definition files_to_delete :: "ufs \<Rightarrow> addr list" where
  "files_to_delete u =
     remdups (map d_file (List.map_filter id (file_descriptors u)) @ file_list u)"

fun delete_files :: "addr list \<Rightarrow> ufs \<Rightarrow> ufs option" where
  "delete_files [] u = Some u"
| "delete_files (a # as) u = do { u \<leftarrow> delete_file a u; delete_files as u }"

definition ufs_destroy :: "ufs \<Rightarrow> ufs option" where
  "ufs_destroy u =
     do { u \<leftarrow> delete_files (files_to_delete u) (u\<lparr>file_descriptors := [], file_list := []\<rparr>);
          Some (u\<lparr>errno := UFS_ERR_NO_ERR\<rparr>) }"

section \<open>Bytes of a file\<close>

lemma length_put_bytes: "p + length s \<le> length xs \<Longrightarrow> length (put_bytes p s xs) = length xs"
  by (simp add: put_bytes_def)

lemma put_bytes_append: "p + length s \<le> length xs \<Longrightarrow> put_bytes p s xs @ ys = put_bytes p s (xs @ ys)"
  by (simp add: put_bytes_def)

lemma put_bytes_at: "length xs = p \<Longrightarrow> put_bytes (p + q) s (xs @ ys) = xs @ put_bytes q s ys"
  by (simp add: put_bytes_def add.assoc)

lemma put_bytes_put_bytes:
  "p + length s \<le> length xs \<Longrightarrow> put_bytes (p + length s) t (put_bytes p s xs) = put_bytes p (s @ t) xs"
  by (simp add: put_bytes_def ac_simps)

lemma take_put_bytes:
  "p \<le> n \<Longrightarrow> n \<le> length xs \<Longrightarrow> take (max n (p + length s)) (put_bytes p s (xs @ ys)) = put_bytes p s (take n xs)"
  by (cases "n \<le> p + length s") (auto simp: put_bytes_def min_def max_def take_Cons' drop_take)

lemma drop_put_bytes: "p + length s \<le> n \<Longrightarrow> p \<le> length xs \<Longrightarrow> drop n (put_bytes p s xs) = drop n xs"
  by (simp add: put_bytes_def min_def)

definition zeros :: "nat \<Rightarrow> bytes" where
  "zeros n = replicate n (CHR 0x00)"

lemma zeros_simps [simp]: "length (zeros n) = n" "zeros n @ zeros k = zeros (n + k)" "take k (zeros n) = zeros (min k n)"
  "drop k (zeros n) = zeros (n - k)" "zeros 0 = []"
  by (simp_all add: zeros_def replicate_add)

text \<open>From position \<open>n\<close> on there are only zero bytes.\<close>

definition zero_from :: "nat \<Rightarrow> bytes \<Rightarrow> bool" where
  "zero_from n xs \<longleftrightarrow> drop n xs = zeros (length xs - n)"

lemma zero_from_append [simp]: "n \<le> length xs \<Longrightarrow> zero_from n (xs @ zeros k) \<longleftrightarrow> zero_from n xs"
proof -
  assume n: "n \<le> length xs"
  then have "length xs + k - n = length xs - n + k" by simp
  then have "zeros (length xs + k - n) = zeros (length xs - n) @ zeros k" by (simp only: zeros_simps)
  then have "drop n xs @ zeros k = zeros (length xs + k - n) \<longleftrightarrow> drop n xs = zeros (length xs - n)"
    by (simp only: append_same_eq)
  then show ?thesis using n by (simp add: zero_from_def)
qed

lemma zero_from_mono: "zero_from n xs \<Longrightarrow> n \<le> k \<Longrightarrow> zero_from k xs"
proof -
  assume z: "zero_from n xs" and k: "n \<le> k"
  have "drop k xs = drop (k - n) (drop n xs)" using k by simp
  also have "\<dots> = zeros (length xs - k)" using z k by (simp add: zero_from_def)
  finally show "zero_from k xs" by (simp add: zero_from_def)
qed

lemma put_zeros_id:
  assumes "zero_from n xs" and "n \<le> p" and "p + k \<le> length xs"
  shows "put_bytes p (zeros k) xs = xs"
proof -
  have "drop p xs = zeros (length xs - p)" using zero_from_mono [OF assms(1,2)] by (simp add: zero_from_def)
  moreover then have "drop (p + k) xs = zeros (length xs - (p + k))"
    by (metis zeros_simps(4) add.commute diff_diff_left drop_drop)
  ultimately have "zeros k @ drop (p + k) xs = drop p xs" using assms(3) by simp
  then show ?thesis by (simp add: put_bytes_def)
qed

lemma take_zero_from:
  "zero_from n xs \<Longrightarrow> n \<le> k \<Longrightarrow> k \<le> length xs \<Longrightarrow> take k xs = take n xs @ zeros (k - n)"
  using take_add [of n "k - n" xs] by (simp add: zero_from_def min_def)

text \<open>The bytes of a block list, one block after the other.\<close>

definition flat :: "block_heap \<Rightarrow> addr list \<Rightarrow> bytes" where
  "flat h bs = concat (map (\<lambda>b. the (mem h b)) bs)"

definition blocks_live :: "block_heap \<Rightarrow> addr list \<Rightarrow> bool" where
  "blocks_live h bs \<longleftrightarrow> (\<forall>b \<in> set bs. \<exists>m. mem h b = Some m \<and> length m = BLOCK_SIZE)"

lemma flat_simps [simp]: "flat h [] = []" "flat h (b # bs) = the (mem h b) @ flat h bs" "flat h (as @ bs) = flat h as @ flat h bs"
  by (simp_all add: flat_def)

lemma blocks_live_simps [simp]:
  "blocks_live h []"
  "blocks_live h (b # bs) \<longleftrightarrow> (\<exists>m. mem h b = Some m \<and> length m = BLOCK_SIZE) \<and> blocks_live h bs"
  "blocks_live h (as @ bs) \<longleftrightarrow> blocks_live h as \<and> blocks_live h bs"
  by (auto simp: blocks_live_def)

lemma flat_cong: "(\<And>b. b \<in> set bs \<Longrightarrow> mem h' b = mem h b) \<Longrightarrow> flat h' bs = flat h bs"
  by (simp add: flat_def cong: map_cong)

lemma blocks_live_cong: "(\<And>b. b \<in> set bs \<Longrightarrow> mem h' b = mem h b) \<Longrightarrow> blocks_live h' bs = blocks_live h bs"
  by (simp add: blocks_live_def)

lemma length_flat: "blocks_live h bs \<Longrightarrow> length (flat h bs) = BLOCK_SIZE * length bs"
  by (induction bs) auto

lemma flat_update_other [simp]: "b \<notin> set bs \<Longrightarrow> flat (h\<lparr>mem := (mem h)(b := x)\<rparr>) bs = flat h bs"
  by (rule flat_cong) auto

lemma blocks_live_update_other [simp]: "b \<notin> set bs \<Longrightarrow> blocks_live (h\<lparr>mem := (mem h)(b := x)\<rparr>) bs = blocks_live h bs"
  by (rule blocks_live_cong) auto

lemma split_at_block:
  assumes "distinct bs" and "k < length bs"
  shows "bs = take k bs @ bs ! k # drop (Suc k) bs" and "bs ! k \<notin> set (take k bs)" and "bs ! k \<notin> set (drop (Suc k) bs)"
proof -
  show s: "bs = take k bs @ bs ! k # drop (Suc k) bs" using assms(2) by (simp add: id_take_nth_drop)
  have "distinct (take k bs @ bs ! k # drop (Suc k) bs)" using assms(1) s by simp
  then show "bs ! k \<notin> set (take k bs)" "bs ! k \<notin> set (drop (Suc k) bs)" by auto
qed

text \<open>Writing into one block writes into the bytes of the list.\<close>

lemma flat_put:
  assumes "distinct bs" and "blocks_live h bs" and "k < length bs" and "off + length s \<le> BLOCK_SIZE"
  defines "h' \<equiv> h\<lparr>mem := (mem h)(bs ! k \<mapsto> put_bytes off s (the (mem h (bs ! k))))\<rparr>"
  shows "flat h' bs = put_bytes (BLOCK_SIZE * k + off) s (flat h bs)" and "blocks_live h' bs"
proof -
  note sp = split_at_block [OF assms(1,3)]
  have live: "blocks_live h (take k bs)" "blocks_live h (bs ! k # drop (Suc k) bs)"
    using assms(2) sp(1) by (metis blocks_live_simps(3))+
  have "flat h' (take k bs @ bs ! k # drop (Suc k) bs) =
      put_bytes (BLOCK_SIZE * k + off) s (flat h (take k bs @ bs ! k # drop (Suc k) bs))"
    using sp(2,3) live assms(3,4)
    by (auto simp: h'_def put_bytes_at length_flat put_bytes_append)
  then show "flat h' bs = put_bytes (BLOCK_SIZE * k + off) s (flat h bs)" using sp(1) by metis
  have "blocks_live h' (take k bs @ bs ! k # drop (Suc k) bs)"
    using sp(2,3) live assms(3,4) by (auto simp: h'_def length_put_bytes)
  then show "blocks_live h' bs" using sp(1) by metis
qed

lemma flat_block:
  assumes "blocks_live h bs" and "k < length bs"
  shows "the (mem h (bs ! k)) = take BLOCK_SIZE (drop (BLOCK_SIZE * k) (flat h bs))"
proof -
  have s: "bs = take k bs @ bs ! k # drop (Suc k) bs" using assms(2) by (simp add: id_take_nth_drop)
  have live: "blocks_live h (take k bs)" "blocks_live h (bs ! k # drop (Suc k) bs)"
    using assms(1) s by (metis blocks_live_simps(3))+
  have "take BLOCK_SIZE (drop (BLOCK_SIZE * k) (flat h (take k bs @ bs ! k # drop (Suc k) bs))) = the (mem h (bs ! k))"
    using live assms(2) by (auto simp: length_flat)
  then show ?thesis using s by metis
qed

lemma next_of_nth:
  "distinct bs \<Longrightarrow> k < length bs \<Longrightarrow> next_of (bs ! k) bs = Some (if Suc k < length bs then Some (bs ! Suc k) else None)"
proof (induction bs arbitrary: k)
  case (Cons x xs)
  show ?case
  proof (cases k)
    case (Suc j)
    then have "xs ! j \<in> set xs" using Cons.prems by simp
    then have "x \<noteq> xs ! j" using Cons.prems by auto
    then show ?thesis using Cons.IH [of j] Cons.prems Suc by simp
  qed (auto split: list.split)
qed simp

lemma blocks_live_nth: "blocks_live h bs \<Longrightarrow> k < length bs \<Longrightarrow> \<exists>m. mem h (bs ! k) = Some m \<and> length m = BLOCK_SIZE"
  by (simp add: blocks_live_def)

lemma block_next_nth:
  "distinct (f_blocks f) \<Longrightarrow> blocks_live h (f_blocks f) \<Longrightarrow> k < length (f_blocks f) \<Longrightarrow>
     block_next h f (f_blocks f ! k) = Some (if Suc k < length (f_blocks f) then Some (f_blocks f ! Suc k) else None)"
  using blocks_live_nth [of h "f_blocks f" k] by (auto simp: block_next_def next_of_nth)

lemma block_prev_nth:
  assumes "distinct (f_blocks f)" and "blocks_live h (f_blocks f)" and "Suc k < length (f_blocks f)"
  shows "block_prev h f (f_blocks f ! Suc k) = Some (Some (f_blocks f ! k))"
proof -
  let ?bs = "f_blocks f"
  define j where "j = length ?bs - Suc (Suc k)"
  have j: "Suc j < length (rev ?bs)" "rev ?bs ! j = ?bs ! Suc k" "rev ?bs ! Suc j = ?bs ! k"
    using assms(3) by (auto simp: j_def rev_nth Suc_diff_Suc)
  have "next_of (rev ?bs ! j) (rev ?bs) = Some (Some (rev ?bs ! Suc j))"
    using next_of_nth [of "rev ?bs" j] assms(1) j(1) by simp
  then show ?thesis using j blocks_live_nth [OF assms(2,3)] by (auto simp: block_prev_def prev_of_def)
qed

section \<open>Block lists of a file\<close>

definition heap_fresh :: "block_heap \<Rightarrow> bool" where
  "heap_fresh h \<longleftrightarrow> (\<forall>b. mem h b \<noteq> None \<longrightarrow> b < fresh_block h)"

definition store_ok :: "block_heap \<Rightarrow> ufile \<Rightarrow> bool" where
  "store_ok h f \<longleftrightarrow>
     heap_fresh h \<and> distinct (f_blocks f) \<and> blocks_live h (f_blocks f) \<and> f_blocks_count f = int (length (f_blocks f))"

text \<open>
  What the block operations do to the heap and the file: blocks may have been added at the end,
  all from unused memory, and no block outside the file has changed.
\<close>

definition same_meta :: "ufile \<Rightarrow> ufile \<Rightarrow> bool" where
  "same_meta f f' \<longleftrightarrow> f_size f' = f_size f \<and> f_name f' = f_name f \<and> f_refs f' = f_refs f \<and> f_deleted f' = f_deleted f"

definition store_ext :: "block_heap \<Rightarrow> ufile \<Rightarrow> block_heap \<Rightarrow> ufile \<Rightarrow> bool" where
  "store_ext h f h' f' \<longleftrightarrow>
     store_ok h' f' \<and> same_meta f f' \<and> fresh_block h \<le> fresh_block h' \<and>
     (\<exists>new. f_blocks f' = f_blocks f @ new \<and> (\<forall>b \<in> set new. fresh_block h \<le> b) \<and>
        (\<forall>b. b \<notin> set (f_blocks f) \<longrightarrow> b \<notin> set new \<longrightarrow> mem h' b = mem h b))"

lemma same_meta_simps [simp]:
  "same_meta f f"
  "same_meta f f' \<Longrightarrow> same_meta f' f'' \<Longrightarrow> same_meta f f''"
  by (auto simp: same_meta_def)

lemma store_ext_refl [simp]: "store_ok h f \<Longrightarrow> store_ext h f h f"
  by (auto simp: store_ext_def)

lemma store_ext_trans: "store_ext h f h1 f1 \<Longrightarrow> store_ext h1 f1 h2 f2 \<Longrightarrow> store_ext h f h2 f2"
  unfolding store_ext_def by (fastforce intro: same_meta_simps(2))

lemma store_ext_ok: "store_ext h f h' f' \<Longrightarrow> store_ok h' f'"
  by (simp add: store_ext_def)

lemma store_ext_other:
  assumes "store_ext h f h' f'" and "heap_fresh h" and "b \<notin> set (f_blocks f)" and "mem h b \<noteq> None"
  shows "mem h' b = mem h b" and "b \<notin> set (f_blocks f')"
proof -
  have "b < fresh_block h" using assms(2,4) by (auto simp: heap_fresh_def)
  moreover obtain new where new: "f_blocks f' = f_blocks f @ new" "\<forall>b \<in> set new. fresh_block h \<le> b"
    "\<forall>b. b \<notin> set (f_blocks f) \<longrightarrow> b \<notin> set new \<longrightarrow> mem h' b = mem h b"
    using assms(1) by (auto simp: store_ext_def)
  ultimately have "b \<notin> set new" by (meson leD)
  then show "mem h' b = mem h b" "b \<notin> set (f_blocks f')" using new assms(3) by auto
qed

lemma append_block_ext:
  assumes "store_ok h f" and "append_block f h = (b, f', h')"
  shows "store_ext h f h' f'" and "f_blocks f' = f_blocks f @ [b]" and "f_last f' = Some b"
    and "flat h' (f_blocks f') = flat h (f_blocks f) @ zeros BLOCK_SIZE"
proof -
  have b: "b = fresh_block h" "f_blocks f' = f_blocks f @ [b]" "f_last f' = Some b" "f_blocks_count f' = f_blocks_count f + 1"
    "same_meta f f'" "h' = h\<lparr>mem := (mem h)(b \<mapsto> zeros BLOCK_SIZE), fresh_block := Suc b\<rparr>"
    using assms(2) by (auto simp: append_block_def allocate_block_def same_meta_def zeros_def)
  have "b \<notin> set (f_blocks f)" using assms(1) b(1) unfolding store_ok_def heap_fresh_def blocks_live_def
    by (metis less_irrefl option.distinct(1))
  moreover then have "flat h' (f_blocks f) = flat h (f_blocks f)" "blocks_live h' (f_blocks f) = blocks_live h (f_blocks f)"
    using b(6) by (auto intro!: flat_cong blocks_live_cong)
  ultimately show "store_ext h f h' f'" and "flat h' (f_blocks f') = flat h (f_blocks f) @ zeros BLOCK_SIZE"
    using assms(1) b by (auto simp: store_ext_def store_ok_def heap_fresh_def less_Suc_eq)
  show "f_blocks f' = f_blocks f @ [b]" "f_last f' = Some b" by fact+
qed

text \<open>A cursor that points to the block it says.\<close>

definition cursor_valid :: "filedesc \<Rightarrow> ufile \<Rightarrow> bool" where
  "cursor_valid d f \<longleftrightarrow>
     (\<forall>b. d_cur_block d = Some b \<longrightarrow>
        (\<exists>k. d_cur_block_index d = int k \<and> k < length (f_blocks f) \<and> f_blocks f ! k = b))"

lemma walk_blocks_at:
  "k < length (f_blocks f) \<Longrightarrow>
     walk_blocks d f h (int k) c = Some (Some (f_blocks f ! k), set_cursor (Some (f_blocks f ! k)) (int k) d, f, h)"
  by (simp add: walk_blocks_def)

lemma walk_blocks_new:
  assumes "f_blocks_count f = int (length (f_blocks f))" and "append_block f h = (b, f', h')"
  shows "walk_blocks d f h (int (length (f_blocks f))) True = Some (Some b, set_cursor (Some b) (int (length (f_blocks f))) d, f', h')"
proof -
  have "f_last f' = Some b" "f_blocks_count f' = int (length (f_blocks f)) + 1"
    using assms by (auto simp: append_block_def allocate_block_def)
  then show ?thesis using assms
    by (simp add: walk_blocks_def create_blocks.simps [of _ f] create_blocks.simps [of _ f'])
qed

lemma step_back_at:
  assumes "store_ok h f" and "cursor_valid d f" and "k < length (f_blocks f)"
  shows "step_back d f h (int k) c = Some (Some (f_blocks f ! k), set_cursor (Some (f_blocks f ! k)) (int k) d, f, h)"
proof (cases "d_cur_block d")
  case (Some b)
  then obtain j where j: "d_cur_block_index d = int j" "j < length (f_blocks f)" "f_blocks f ! j = b"
    using assms(2) by (auto simp: cursor_valid_def)
  show ?thesis
  proof (cases "j = Suc k")
    case True
    then show ?thesis using Some j block_prev_nth [of f h k] assms(1) by (simp add: step_back_def store_ok_def)
  qed (use Some j walk_blocks_at [OF assms(3)] in \<open>simp add: step_back_def\<close>)
qed (simp add: step_back_def walk_blocks_at [OF assms(3)])

lemma get_block_at:
  assumes "store_ok h f" and "cursor_valid d f" and "k < length (f_blocks f)"
  shows "get_block_by_index d f h (int k) c = Some (Some (f_blocks f ! k), set_cursor (Some (f_blocks f ! k)) (int k) d, f, h)"
proof (cases "d_cur_block d")
  case (Some b)
  then obtain j where j: "d_cur_block_index d = int j" "j < length (f_blocks f)" "f_blocks f ! j = b"
    using assms(2) by (auto simp: cursor_valid_def)
  consider "j = k" | "k = Suc j" | "j \<noteq> k" "k \<noteq> Suc j" by blast
  then show ?thesis
  proof cases
    case 1
    then have "set_cursor (Some b) (int k) d = d" using Some j by (cases d) (simp add: set_cursor_def)
    then show ?thesis using 1 Some j by (simp add: get_block_by_index_def)
  next
    case 2
    then show ?thesis using Some j block_next_nth [of f h j] assms(1,3) by (simp add: get_block_by_index_def store_ok_def)
  next
    case 3
    then show ?thesis using Some j step_back_at [OF assms] by (simp add: get_block_by_index_def)
  qed
qed (simp add: get_block_by_index_def step_back_at [OF assms])

lemma get_block_new:
  assumes "store_ok h f" and "cursor_valid d f" and "append_block f h = (b, f', h')" and "k = length (f_blocks f)"
  shows "get_block_by_index d f h (int k) True = Some (Some b, set_cursor (Some b) (int k) d, f', h')"
proof -
  have w: "walk_blocks d f h (int k) True = Some (Some b, set_cursor (Some b) (int k) d, f', h')"
    using walk_blocks_new [OF _ assms(3)] assms(1,4) by (simp add: store_ok_def)
  show ?thesis
  proof (cases "d_cur_block d")
    case (Some c)
    then obtain j where j: "d_cur_block_index d = int j" "j < length (f_blocks f)" "f_blocks f ! j = c"
      using assms(2) by (auto simp: cursor_valid_def)
    then show ?thesis using Some w assms(1,4) block_next_nth [of f h j]
      by (auto simp: get_block_by_index_def step_back_def store_ok_def)
  qed (simp add: get_block_by_index_def step_back_def w)
qed


lemma put_block_ext:
  assumes "store_ok h f" and "k < length (f_blocks f)" and "off + length s \<le> BLOCK_SIZE"
  defines "h' \<equiv> h\<lparr>mem := (mem h)(f_blocks f ! k \<mapsto> put_bytes off s (the (mem h (f_blocks f ! k))))\<rparr>"
  shows "store_ext h f h' f" and "flat h' (f_blocks f) = put_bytes (BLOCK_SIZE * k + off) s (flat h (f_blocks f))"
proof -
  have d: "distinct (f_blocks f)" "blocks_live h (f_blocks f)" using assms(1) by (auto simp: store_ok_def)
  note fp = flat_put [OF d assms(2,3), folded h'_def]
  show "flat h' (f_blocks f) = put_bytes (BLOCK_SIZE * k + off) s (flat h (f_blocks f))" by (rule fp)
  have "heap_fresh h'" using assms(1) blocks_live_nth [OF d(2) assms(2)]
    by (auto simp: h'_def store_ok_def heap_fresh_def)
  moreover have "f_blocks f ! k \<in> set (f_blocks f)" using assms(2) by simp
  ultimately show "store_ext h f h' f"
    using assms(1) fp(2) by (auto simp: store_ext_def store_ok_def h'_def)
qed

section \<open>The write loop\<close>

definition same_desc :: "filedesc \<Rightarrow> filedesc \<Rightarrow> bool" where
  "same_desc d d' \<longleftrightarrow> d_file d' = d_file d \<and> d_flags d' = d_flags d"

lemma block_index_step:
  assumes "n > BLOCK_SIZE - off" and "off < BLOCK_SIZE"
  shows "(BLOCK_SIZE * Suc k + 0 + (n - (BLOCK_SIZE - off)) - 1) div BLOCK_SIZE = (BLOCK_SIZE * k + off + n - 1) div BLOCK_SIZE"
proof -
  have "BLOCK_SIZE * Suc k + 0 + (n - (BLOCK_SIZE - off)) - 1 = BLOCK_SIZE * k + off + n - 1" using assms by simp
  then show ?thesis by simp
qed

lemma block_index_here:
  assumes "0 < n" and "n \<le> BLOCK_SIZE - off" and "off < BLOCK_SIZE"
  shows "(BLOCK_SIZE * k + off + n - 1) div BLOCK_SIZE = k"
  using assms by (intro div_nat_eqI) (auto simp: algebra_simps)

lemma next_or_append_ext:
  assumes "store_ok h f" and "k < length (f_blocks f)"
    and "(case (if Suc k < length (f_blocks f) then Some (f_blocks f ! Suc k) else None) of
        None \<Rightarrow> append_block f h | Some b \<Rightarrow> (b, f, h)) = (b2, f2, h2)"
  shows "store_ext h f h2 f2 \<and> b2 = f_blocks f2 ! Suc k \<and> length (f_blocks f2) = max (length (f_blocks f)) (Suc (Suc k)) \<and>
      flat h2 (f_blocks f2) = flat h (f_blocks f) @ zeros (BLOCK_SIZE * (length (f_blocks f2) - length (f_blocks f)))"
proof (cases "Suc k < length (f_blocks f)")
  case True
  then show ?thesis using assms(1,3) by auto
next
  case False
  then have k: "length (f_blocks f) = Suc k" and a: "append_block f h = (b2, f2, h2)" using assms(2,3) by auto
  show ?thesis using append_block_ext [OF assms(1) a] k by (simp add: nth_append)
qed

lemma write_loop_next:
  assumes "buf \<noteq> []" and "BLOCK_SIZE - off < length buf" and "mem h b = Some m"
    and "h1 = h\<lparr>mem := (mem h)(b \<mapsto> put_bytes off (take (BLOCK_SIZE - off) buf) m)\<rparr>"
    and "block_next h1 f b = Some nx"
    and "(case nx of None \<Rightarrow> append_block f h1 | Some b \<Rightarrow> (b, f, h1)) = (b2, f2, h2)"
  shows "write_loop buf off b k d f h =
    write_loop (drop (BLOCK_SIZE - off) buf) 0 b2 (Suc k)
      (set_cursor (Some b2) (int (Suc k)) (d\<lparr>d_pos := d_pos d + (BLOCK_SIZE - off)\<rparr>)) f2 h2"
  using assms by (cases nx) (simp_all add: write_loop.simps [of buf] min_def Let_def)

lemma write_loop_ok:
  assumes "store_ok h f" and "k < length (f_blocks f)" and "off < BLOCK_SIZE" and "buf \<noteq> []"
  shows "\<exists>k' d' f' h'. write_loop buf off (f_blocks f ! k) k d f h = Some (f_blocks f' ! k', k', d', f', h') \<and>
     k' = (BLOCK_SIZE * k + off + length buf - 1) div BLOCK_SIZE \<and> same_desc d d' \<and> d_pos d' = d_pos d + length buf \<and>
     store_ext h f h' f' \<and> length (f_blocks f') = max (length (f_blocks f)) (Suc k') \<and>
     flat h' (f_blocks f') =
       put_bytes (BLOCK_SIZE * k + off) buf
         (flat h (f_blocks f) @ zeros (BLOCK_SIZE * (length (f_blocks f') - length (f_blocks f))))"
  using assms
proof (induction "length buf" arbitrary: buf off k d f h rule: less_induct)
  case less
  let ?b = "f_blocks f ! k" and ?c = "min (BLOCK_SIZE - off) (length buf)"
  obtain m where m: "mem h ?b = Some m"
    using blocks_live_nth [of h "f_blocks f" k] less.prems(1,2) by (auto simp: store_ok_def)
  define h1 where "h1 = h\<lparr>mem := (mem h)(?b \<mapsto> put_bytes off (take ?c buf) m)\<rparr>"
  have c: "off + length (take ?c buf) \<le> BLOCK_SIZE" "0 < ?c" using less.prems(3,4) by auto
  note p = put_block_ext [OF less.prems(1,2) c(1), unfolded m option.sel, folded h1_def]
  have len: "length (flat h (f_blocks f)) = BLOCK_SIZE * length (f_blocks f)"
    using less.prems(1) by (simp add: length_flat store_ok_def)
  have fits: "BLOCK_SIZE * k + off + length (take ?c buf) \<le> length (flat h (f_blocks f))"
  proof -
    have "BLOCK_SIZE * Suc k \<le> BLOCK_SIZE * length (f_blocks f)" using less.prems(2) by (intro mult_le_mono2) simp
    then show ?thesis using c(1) len by simp
  qed
  show ?case
  proof (cases "length buf \<le> BLOCK_SIZE - off")
    case True
    then have "k = (BLOCK_SIZE * k + off + length buf - 1) div BLOCK_SIZE"
      using block_index_here [of "length buf" off k] less.prems(3,4) by simp
    moreover have "write_loop buf off ?b k d f h = Some (?b, k, d\<lparr>d_pos := d_pos d + length buf\<rparr>, f, h1)"
      using True less.prems(4) m by (simp add: write_loop.simps [of buf] h1_def min_def)
    ultimately show ?thesis using p True less.prems(2)
      by (intro exI [of _ k] exI [of _ "d\<lparr>d_pos := d_pos d + length buf\<rparr>"] exI [of _ f] exI [of _ h1])
        (simp add: same_desc_def)
  next
    case False
    define r where "r = drop ?c buf"
    have r: "r \<noteq> []" "length r < length buf" "length r = length buf - (BLOCK_SIZE - off)" "?c = BLOCK_SIZE - off"
      "take ?c buf @ r = buf"
      using False less.prems(3,4) by (auto simp: r_def)
    have s1: "store_ok h1 f" by (rule store_ext_ok [OF p(1)])
    have nx: "block_next h1 f ?b = Some (if Suc k < length (f_blocks f) then Some (f_blocks f ! Suc k) else None)"
      using s1 less.prems(2) by (intro block_next_nth) (auto simp: store_ok_def)
    obtain b2 f2 h2 where n2: "(case (if Suc k < length (f_blocks f) then Some (f_blocks f ! Suc k) else None) of
        None \<Rightarrow> append_block f h1 | Some b \<Rightarrow> (b, f, h1)) = (b2, f2, h2)"
      by (metis prod_cases3)
    have e2: "store_ext h1 f h2 f2" "b2 = f_blocks f2 ! Suc k" "length (f_blocks f2) = max (length (f_blocks f)) (Suc (Suc k))"
      "flat h2 (f_blocks f2) = flat h1 (f_blocks f) @ zeros (BLOCK_SIZE * (length (f_blocks f2) - length (f_blocks f)))"
      using next_or_append_ext [OF s1 less.prems(2) n2] by auto
    have lt: "Suc k < length (f_blocks f2)" "0 < BLOCK_SIZE" using e2(3) by (auto simp: BLOCK_SIZE_def)
    define d1 where "d1 = set_cursor (Some b2) (int (Suc k)) (d\<lparr>d_pos := d_pos d + ?c\<rparr>)"
    have "write_loop buf off ?b k d f h = write_loop r 0 b2 (Suc k) d1 f2 h2"
      using write_loop_next [OF less.prems(4) _ m _ nx n2] False r(4) by (simp add: h1_def r_def d1_def)
    moreover obtain k' d' f' h' where IH: "write_loop r 0 (f_blocks f2 ! Suc k) (Suc k) d1 f2 h2 = Some (f_blocks f' ! k', k', d', f', h')"
      "k' = (BLOCK_SIZE * Suc k + 0 + length r - 1) div BLOCK_SIZE" "same_desc d1 d'" "d_pos d' = d_pos d1 + length r"
      "store_ext h2 f2 h' f'" "length (f_blocks f') = max (length (f_blocks f2)) (Suc k')"
      "flat h' (f_blocks f') = put_bytes (BLOCK_SIZE * Suc k + 0) r
         (flat h2 (f_blocks f2) @ zeros (BLOCK_SIZE * (length (f_blocks f') - length (f_blocks f2))))"
      using less.hyps [OF r(2) store_ext_ok [OF e2(1)] lt r(1), of d1] by blast
    moreover have k': "k' = (BLOCK_SIZE * k + off + length buf - 1) div BLOCK_SIZE"
      using IH(2) r(3) block_index_step [of off "length buf" k] False less.prems(3) by simp
    moreover have "Suc k \<le> k'"
    proof -
      have "BLOCK_SIZE * Suc k div BLOCK_SIZE \<le> (BLOCK_SIZE * Suc k + 0 + length r - 1) div BLOCK_SIZE"
        using r(1) by (intro div_le_mono) (cases r; simp)
      then show ?thesis using IH(2) by (simp add: BLOCK_SIZE_def)
    qed
    moreover have "flat h' (f_blocks f') = put_bytes (BLOCK_SIZE * k + off) buf
         (flat h (f_blocks f) @ zeros (BLOCK_SIZE * (length (f_blocks f') - length (f_blocks f))))"
    proof -
      have "BLOCK_SIZE * Suc k + 0 = BLOCK_SIZE * k + off + length (take ?c buf)" using r(4) less.prems(3) by simp
      moreover have "length (f_blocks f') - length (f_blocks f) =
          (length (f_blocks f2) - length (f_blocks f)) + (length (f_blocks f') - length (f_blocks f2))"
        using IH(6) e2(3) by simp
      ultimately show ?thesis using fits
        by (simp only: IH(7) e2(4) p(2) append_assoc zeros_simps add_mult_distrib2 put_bytes_append put_bytes_put_bytes
            length_append trans_le_add1 r(5))
    qed
    moreover have "store_ext h f h' f'" by (rule store_ext_trans [OF p(1) store_ext_trans [OF e2(1) IH(5)]])
    moreover have "length (f_blocks f') = max (length (f_blocks f)) (Suc k')" using IH(6) e2(3) \<open>Suc k \<le> k'\<close> by simp
    moreover have "same_desc d d'" "d_pos d' = d_pos d + length buf"
      using IH(3,4) r(3,4) False by (auto simp: d1_def same_desc_def set_cursor_def)
    ultimately show ?thesis using e2(2) by metis
  qed
qed

section \<open>The read loop\<close>

lemma flat_chunk:
  assumes "blocks_live h bs" and "k < length bs" and "off + c \<le> BLOCK_SIZE"
  shows "take c (drop off (the (mem h (bs ! k)))) = take c (drop (BLOCK_SIZE * k + off) (flat h bs))"
  using assms(3) by (simp add: flat_block [OF assms(1,2)] drop_take min_def add.commute)

lemma zero_less_block [simp]: "0 < BLOCK_SIZE"
  by (simp add: BLOCK_SIZE_def)

lemma read_loop_ok:
  assumes "store_ok h f" and "k < length (f_blocks f)" and "off < BLOCK_SIZE" and "0 < n"
    and "BLOCK_SIZE * k + off + n \<le> BLOCK_SIZE * length (f_blocks f)"
  shows "\<exists>k' d'. read_loop n acc off (f_blocks f ! k) k d f h =
       Some (acc @ take n (drop (BLOCK_SIZE * k + off) (flat h (f_blocks f))), f_blocks f ! k', k', d') \<and>
     k' = (BLOCK_SIZE * k + off + n - 1) div BLOCK_SIZE \<and> same_desc d d' \<and> d_pos d' = d_pos d + n"
  using assms(2-)
proof (induction n arbitrary: acc off k d rule: less_induct)
  case (less n)
  let ?b = "f_blocks f ! k" and ?c = "min (BLOCK_SIZE - off) n" and ?F = "flat h (f_blocks f)"
  have live: "blocks_live h (f_blocks f)" "distinct (f_blocks f)" using assms(1) by (auto simp: store_ok_def)
  obtain m where m: "mem h ?b = Some m" using blocks_live_nth [OF live(1) less.prems(1)] by auto
  have ch: "take ?c (drop off m) = take ?c (drop (BLOCK_SIZE * k + off) ?F)"
    using flat_chunk [OF live(1) less.prems(1), of off ?c] less.prems(2) m by auto
  show ?case
  proof (cases "n \<le> BLOCK_SIZE - off")
    case True
    then have "k = (BLOCK_SIZE * k + off + n - 1) div BLOCK_SIZE"
      using block_index_here [of n off k] less.prems(2,3) by simp
    moreover have "read_loop n acc off ?b k d f h =
        Some (acc @ take n (drop (BLOCK_SIZE * k + off) ?F), ?b, k, d\<lparr>d_pos := d_pos d + n\<rparr>)"
      using True less.prems(3) m ch by (simp add: read_loop.simps [of n] min_absorb2)
    ultimately show ?thesis by (intro exI [of _ k] exI [of _ "d\<lparr>d_pos := d_pos d + n\<rparr>"]) (simp add: same_desc_def)
  next
    case False
    then have c: "?c = BLOCK_SIZE - off" by simp
    define n1 where "n1 = n - (BLOCK_SIZE - off)"
    have n1: "n1 < n" "0 < n1" "n = (BLOCK_SIZE - off) + n1" using False less.prems(2) by (auto simp: n1_def)
    have fit: "BLOCK_SIZE * Suc k + 0 + n1 \<le> BLOCK_SIZE * length (f_blocks f)"
      using less.prems(2,4) n1(3) by simp
    have "BLOCK_SIZE * Suc k < BLOCK_SIZE * length (f_blocks f)" using fit n1(2) by linarith
    then have sk: "Suc k < length (f_blocks f)" by (metis mult_less_cancel1)
    define d1 where "d1 = set_cursor (Some (f_blocks f ! Suc k)) (int (Suc k)) (d\<lparr>d_pos := d_pos d + (BLOCK_SIZE - off)\<rparr>)"
    have "read_loop n acc off ?b k d f h =
        read_loop n1 (acc @ take (BLOCK_SIZE - off) (drop (BLOCK_SIZE * k + off) ?F)) 0 (f_blocks f ! Suc k) (Suc k) d1 f h"
      using False less.prems(3) m ch block_next_nth [OF live(2,1) less.prems(1)] sk c
      by (simp add: read_loop.simps [of n] d1_def n1_def Let_def)
    moreover have "take (BLOCK_SIZE - off) (drop (BLOCK_SIZE * k + off) ?F) @ take n1 (drop (BLOCK_SIZE * Suc k + 0) ?F) =
        take n (drop (BLOCK_SIZE * k + off) ?F)"
    proof -
      have "drop (BLOCK_SIZE * Suc k + 0) ?F = drop (BLOCK_SIZE - off) (drop (BLOCK_SIZE * k + off) ?F)"
        using less.prems(2) by (simp add: add.commute)
      then show ?thesis using n1(3) by (simp only: take_add)
    qed
    moreover have "(BLOCK_SIZE * Suc k + 0 + n1 - 1) div BLOCK_SIZE = (BLOCK_SIZE * k + off + n - 1) div BLOCK_SIZE"
      unfolding n1_def using block_index_step [of off n k] False less.prems(2) by simp
    moreover have "same_desc d1 d' \<longleftrightarrow> same_desc d d'" "d_pos d1 = d_pos d + (BLOCK_SIZE - off)" for d'
      by (auto simp: d1_def same_desc_def set_cursor_def)
    moreover obtain k' d' where "read_loop n1 (acc @ take (BLOCK_SIZE - off) (drop (BLOCK_SIZE * k + off) ?F)) 0
          (f_blocks f ! Suc k) (Suc k) d1 f h =
        Some ((acc @ take (BLOCK_SIZE - off) (drop (BLOCK_SIZE * k + off) ?F)) @ take n1 (drop (BLOCK_SIZE * Suc k + 0) ?F),
          f_blocks f ! k', k', d')"
      "k' = (BLOCK_SIZE * Suc k + 0 + n1 - 1) div BLOCK_SIZE" "same_desc d1 d'" "d_pos d' = d_pos d1 + n1"
      using less.IH [OF n1(1) sk zero_less_block n1(2) fit] by blast
    ultimately show ?thesis using n1(3) by (intro exI [of _ k'] exI [of _ d']) (simp only: append_assoc, simp)
  qed
qed

section \<open>Changing the number of blocks\<close>

lemma grow_blocks_ok:
  "store_ok h f \<Longrightarrow> grow_blocks n f h = (f', h') \<Longrightarrow>
     store_ext h f h' f' \<and> length (f_blocks f') = max (length (f_blocks f)) n \<and>
     flat h' (f_blocks f') = flat h (f_blocks f) @ zeros (BLOCK_SIZE * (n - length (f_blocks f)))"
proof (induction "n - length (f_blocks f)" arbitrary: f h)
  case 0
  then show ?case by (auto simp: grow_blocks.simps [of n f] store_ok_def)
next
  case (Suc x)
  obtain b f1 h1 where a: "append_block f h = (b, f1, h1)" by (metis prod_cases3)
  note e = append_block_ext [OF Suc.prems(1) a]
  have "f_blocks_count f < int n" using Suc.hyps(2) Suc.prems(1) by (auto simp: store_ok_def)
  then have g: "grow_blocks n f1 h1 = (f', h')" using Suc.prems(2) a by (simp add: grow_blocks.simps [of n f])
  have "x = n - length (f_blocks f1)" using Suc.hyps(2) e(2) by simp
  note IH = Suc.hyps(1) [OF this store_ext_ok [OF e(1)] g]
  have n: "n - length (f_blocks f) = Suc (n - length (f_blocks f1))" using Suc.hyps(2) e(2) by simp
  have "flat h' (f_blocks f') = flat h (f_blocks f) @ zeros (BLOCK_SIZE * (n - length (f_blocks f)))"
    using IH by (simp only: e(4) n append_assoc zeros_simps mult_Suc_right)
  then show ?case using IH store_ext_trans [OF e(1)] e(2) Suc.hyps(2) by auto
qed

lemma shrink_blocks_ok:
  "store_ok h f \<Longrightarrow> n \<le> length (f_blocks f) \<Longrightarrow>
     \<exists>f' h'. shrink_blocks n f h = Some (f', h') \<and> store_ok h' f' \<and> same_meta f f' \<and>
       f_blocks f' = take n (f_blocks f) \<and> flat h' (f_blocks f') = take (BLOCK_SIZE * n) (flat h (f_blocks f)) \<and>
       fresh_block h' = fresh_block h \<and>
       (\<forall>b. mem h' b = (if b \<in> set (drop n (f_blocks f)) then None else mem h b))"
proof (induction "length (f_blocks f) - n" arbitrary: f h)
  case 0
  then show ?case by (auto simp: shrink_blocks.simps [of n f] store_ok_def length_flat)
next
  case (Suc x)
  have ne: "f_blocks f \<noteq> []" using Suc.hyps(2) by auto
  let ?b = "last (f_blocks f)"
  define f1 where "f1 = f\<lparr>f_blocks := butlast (f_blocks f), f_blocks_count := f_blocks_count f - 1\<rparr>"
  define h1 where "h1 = h\<lparr>mem := (mem h)(?b := None)\<rparr>"
  have bs: "f_blocks f = f_blocks f1 @ [?b]" using ne by (simp add: f1_def)
  have b: "?b \<notin> set (f_blocks f1)" "distinct (f_blocks f1)" "blocks_live h (f_blocks f1)" "\<exists>m. mem h ?b = Some m"
    using Suc.prems(1) bs unfolding store_ok_def
    by (metis distinct_append disjoint_iff list.set_intros(1), metis distinct_append, metis blocks_live_simps(3),
        metis blocks_live_simps(2,3))
  have s1: "store_ok h1 f1" using Suc.prems(1) b ne by (auto simp: store_ok_def h1_def f1_def heap_fresh_def Suc_leI of_nat_diff)
  have "shrink_blocks n f h = shrink_blocks n f1 h1"
    using Suc.hyps(2) Suc.prems(1) b(4) ne
    by (auto simp: shrink_blocks.simps [of n f] last_block_def store_ok_def f1_def h1_def)
  moreover have "x = length (f_blocks f1) - n" "n \<le> length (f_blocks f1)" using Suc.hyps(2) by (auto simp: f1_def)
  moreover have "flat h1 (f_blocks f1) = flat h (f_blocks f1)" using b(1) by (simp add: h1_def)
  moreover have "take n (f_blocks f) = take n (f_blocks f1)" "drop n (f_blocks f) = drop n (f_blocks f1) @ [?b]"
    using \<open>n \<le> length (f_blocks f1)\<close> bs by (metis take_append diff_is_0_eq take0 append_Nil2, metis drop_append diff_is_0_eq drop0)
  moreover have "take (BLOCK_SIZE * n) (flat h (f_blocks f)) = take (BLOCK_SIZE * n) (flat h (f_blocks f1))"
    using \<open>n \<le> length (f_blocks f1)\<close> length_flat [OF b(3)] by (subst bs) simp
  moreover have "same_meta f f1" by (simp add: f1_def same_meta_def)
  moreover obtain f' h' where "shrink_blocks n f1 h1 = Some (f', h')" "store_ok h' f'" "same_meta f1 f'"
      "f_blocks f' = take n (f_blocks f1)" "flat h' (f_blocks f') = take (BLOCK_SIZE * n) (flat h1 (f_blocks f1))"
      "fresh_block h' = fresh_block h1" "\<forall>b. mem h' b = (if b \<in> set (drop n (f_blocks f1)) then None else mem h1 b)"
    using Suc.hyps(1) [OF \<open>x = _\<close> s1 \<open>n \<le> length (f_blocks f1)\<close>] by blast
  moreover have "fresh_block h1 = fresh_block h" "\<And>b. mem h1 b = (if b = ?b then None else mem h b)" by (auto simp: h1_def)
  ultimately show ?case using same_meta_simps(2) [of f f1 f']
    by (intro exI [of _ f'] exI [of _ h']) (simp del: fun_upd_apply)
qed

lemma zero_last_block_ok:
  assumes "store_ok h f" and "f_blocks f \<noteq> []" and "off + n \<le> BLOCK_SIZE"
  shows "\<exists>h'. zero_last_block off n f h = Some h' \<and> store_ext h f h' f \<and>
    flat h' (f_blocks f) = put_bytes (BLOCK_SIZE * (length (f_blocks f) - 1) + off) (zeros n) (flat h (f_blocks f))"
proof -
  let ?k = "length (f_blocks f) - 1"
  have k: "?k < length (f_blocks f)" "last (f_blocks f) = f_blocks f ! ?k" using assms(2) by (auto simp: last_conv_nth)
  obtain m where m: "mem h (f_blocks f ! ?k) = Some m"
    using blocks_live_nth [OF _ k(1), of h] assms(1) by (auto simp: store_ok_def)
  show ?thesis using put_block_ext [OF assms(1) k(1), of off "zeros n"] assms(2,3) k m
    by (auto simp: zero_last_block_def last_block_def zeros_def)
qed

section \<open>Files\<close>

definition blocks_for :: "nat \<Rightarrow> nat" where
  "blocks_for n = (n + BLOCK_SIZE - 1) div BLOCK_SIZE"

text \<open>
  A file owns exactly the blocks its size needs, and the bytes behind its end are zero.
\<close>

definition file_ok :: "block_heap \<Rightarrow> ufile \<Rightarrow> bool" where
  "file_ok h f \<longleftrightarrow>
     store_ok h f \<and> length (f_blocks f) = blocks_for (f_size f) \<and> f_size f \<le> MAX_FILE_SIZE \<and>
     zero_from (f_size f) (flat h (f_blocks f))"

text \<open>The bytes of a file, its abstract value.\<close>

definition content :: "block_heap \<Rightarrow> ufile \<Rightarrow> bytes" where
  "content h f = take (f_size f) (flat h (f_blocks f))"

lemma blocks_for_bounds: "n \<le> BLOCK_SIZE * blocks_for n" "BLOCK_SIZE * blocks_for n < n + BLOCK_SIZE"
  by (simp_all add: blocks_for_def BLOCK_SIZE_def)

lemma blocks_for_mono: "n \<le> k \<Longrightarrow> blocks_for n \<le> blocks_for k"
  by (simp add: blocks_for_def div_le_mono)

lemma blocks_for_pos: "0 < n \<Longrightarrow> blocks_for n = Suc ((n - 1) div BLOCK_SIZE)"
  by (simp add: blocks_for_def BLOCK_SIZE_def)

lemma block_start_less: "0 < n \<Longrightarrow> BLOCK_SIZE * ((n - 1) div BLOCK_SIZE) < n"
  by (rule le_less_trans [OF times_div_less_eq_dividend]) simp

lemma blocks_for_0 [simp]: "blocks_for 0 = 0"
  by (simp add: blocks_for_def BLOCK_SIZE_def)

lemma length_file_flat: "file_ok h f \<Longrightarrow> length (flat h (f_blocks f)) = BLOCK_SIZE * blocks_for (f_size f)"
  by (simp add: file_ok_def store_ok_def length_flat)

lemma size_le_flat: "file_ok h f \<Longrightarrow> f_size f \<le> length (flat h (f_blocks f))"
  by (simp add: length_file_flat blocks_for_bounds)

lemma length_content [simp]: "file_ok h f \<Longrightarrow> length (content h f) = f_size f"
  by (simp add: content_def size_le_flat)

lemma block_of_pos:
  assumes "file_ok h f" and "p \<le> f_size f"
  shows "p div BLOCK_SIZE \<le> length (f_blocks f)" and "p < f_size f \<Longrightarrow> p div BLOCK_SIZE < length (f_blocks f)"
proof -
  have l: "length (f_blocks f) = blocks_for (f_size f)" using assms(1) by (simp add: file_ok_def)
  have "p div BLOCK_SIZE \<le> blocks_for p" unfolding blocks_for_def by (rule div_le_mono) (simp add: BLOCK_SIZE_def)
  then show "p div BLOCK_SIZE \<le> length (f_blocks f)" using blocks_for_mono [OF assms(2)] l by simp
  assume "p < f_size f"
  then have "p div BLOCK_SIZE \<le> (f_size f - 1) div BLOCK_SIZE" by (intro div_le_mono) simp
  then show "p div BLOCK_SIZE < length (f_blocks f)" using l blocks_for_pos [of "f_size f"] \<open>p < f_size f\<close> by simp
qed

text \<open>The block that a write at a position inside the file or at its end starts in.\<close>

lemma get_block_ok:
  assumes "store_ok h f" and "cursor_valid d f" and "k \<le> length (f_blocks f)"
  shows "\<exists>f1 h1. get_block_by_index d f h (int k) True =
       Some (Some (f_blocks f1 ! k), set_cursor (Some (f_blocks f1 ! k)) (int k) d, f1, h1) \<and>
     store_ext h f h1 f1 \<and> length (f_blocks f1) = max (length (f_blocks f)) (Suc k) \<and>
     flat h1 (f_blocks f1) = flat h (f_blocks f) @ zeros (BLOCK_SIZE * (length (f_blocks f1) - length (f_blocks f)))"
proof (cases "k < length (f_blocks f)")
  case True
  then show ?thesis using get_block_at [OF assms(1,2) True] assms(1)
    by (intro exI [of _ f] exI [of _ h]) simp
next
  case False
  obtain b f1 h1 where a: "append_block f h = (b, f1, h1)" by (metis prod_cases3)
  have k: "k = length (f_blocks f)" using False assms(3) by simp
  show ?thesis using get_block_new [OF assms(1,2) a k] append_block_ext [OF assms(1) a] k
    by (intro exI [of _ f1] exI [of _ h1]) (simp add: nth_append)
qed

definition grow_size :: "nat \<Rightarrow> ufile \<Rightarrow> ufile" where
  "grow_size n f = (if n > f_size f then f\<lparr>f_size := n\<rparr> else f)"

lemma grow_size_simps [simp]:
  "f_size (grow_size n f) = max (f_size f) n" "f_blocks (grow_size n f) = f_blocks f" "f_name (grow_size n f) = f_name f"
  "f_refs (grow_size n f) = f_refs f" "f_deleted (grow_size n f) = f_deleted f" "f_blocks_count (grow_size n f) = f_blocks_count f"
  by (auto simp: grow_size_def)

lemma write_file_ok:
  assumes "file_ok h f" and "cursor_valid d f" and "d_pos d \<le> f_size f" and "buf \<noteq> []" and "d_pos d + length buf \<le> MAX_FILE_SIZE"
  defines "n \<equiv> d_pos d + length buf"
  shows "\<exists>b d1 f1 h1 k d2 f2 h2.
     get_block_by_index d f h (int (d_pos d div BLOCK_SIZE)) True = Some (Some b, d1, f1, h1) \<and>
     write_loop buf (d_pos d mod BLOCK_SIZE) b (d_pos d div BLOCK_SIZE) d1 f1 h1 = Some (f_blocks f2 ! k, k, d2, f2, h2) \<and>
     same_desc d d2 \<and> d_pos d2 = n \<and> k < length (f_blocks f2) \<and> BLOCK_SIZE * k < n \<and>
     store_ext h f h2 f2 \<and> file_ok h2 (grow_size n f2) \<and>
     content h2 (grow_size n f2) = put_bytes (d_pos d) buf (content h f)"
proof -
  let ?p = "d_pos d" and ?F = "flat h (f_blocks f)"
  define k0 where "k0 = ?p div BLOCK_SIZE"
  have s: "store_ok h f" using assms(1) by (simp add: file_ok_def)
  obtain f1 h1 where g: "get_block_by_index d f h (int k0) True =
       Some (Some (f_blocks f1 ! k0), set_cursor (Some (f_blocks f1 ! k0)) (int k0) d, f1, h1)"
    "store_ext h f h1 f1" "length (f_blocks f1) = max (length (f_blocks f)) (Suc k0)"
    "flat h1 (f_blocks f1) = ?F @ zeros (BLOCK_SIZE * (length (f_blocks f1) - length (f_blocks f)))"
    using get_block_ok [OF s assms(2), of k0] block_of_pos(1) [OF assms(1,3)] unfolding k0_def by blast
  let ?d1 = "set_cursor (Some (f_blocks f1 ! k0)) (int k0) d"
  have lt: "k0 < length (f_blocks f1)" "?p mod BLOCK_SIZE < BLOCK_SIZE" using g(3) by auto
  have p: "BLOCK_SIZE * k0 + ?p mod BLOCK_SIZE = ?p" by (simp add: k0_def)
  obtain k d2 f2 h2 where w: "write_loop buf (?p mod BLOCK_SIZE) (f_blocks f1 ! k0) k0 ?d1 f1 h1 = Some (f_blocks f2 ! k, k, d2, f2, h2)"
    "k = (n - 1) div BLOCK_SIZE" "same_desc ?d1 d2" "d_pos d2 = d_pos ?d1 + length buf" "store_ext h1 f1 h2 f2"
    "length (f_blocks f2) = max (length (f_blocks f1)) (Suc k)"
    "flat h2 (f_blocks f2) = put_bytes ?p buf (flat h1 (f_blocks f1) @ zeros (BLOCK_SIZE * (length (f_blocks f2) - length (f_blocks f1))))"
    using write_loop_ok [OF store_ext_ok [OF g(2)] lt assms(4), of ?d1] unfolding p n_def by blast
  have n: "0 < n" using assms(4) by (simp add: n_def)
  have ext: "store_ext h f h2 f2" by (rule store_ext_trans [OF g(2) w(5)])
  then have sz: "f_size f2 = f_size f" "store_ok h2 f2" by (auto simp: store_ext_def same_meta_def)
  have "k0 \<le> k" unfolding k0_def w(2) using assms(4) by (intro div_le_mono) (cases buf; simp add: n_def)
  then have "length (f_blocks f2) = max (blocks_for (f_size f)) (blocks_for n)"
    using w(6) g(3) assms(1) blocks_for_pos [OF n] w(2) by (simp add: file_ok_def max.assoc max_absorb2)
  then have len: "length (f_blocks f2) = blocks_for (max (f_size f) n)"
    by (simp add: max_of_mono blocks_for_mono monoI)
  define z where "z = BLOCK_SIZE * (length (f_blocks f2) - length (f_blocks f))"
  have "z = BLOCK_SIZE * (length (f_blocks f1) - length (f_blocks f)) + BLOCK_SIZE * (length (f_blocks f2) - length (f_blocks f1))"
    unfolding z_def add_mult_distrib2 [symmetric] using w(6) g(3) by simp
  then have fl: "flat h2 (f_blocks f2) = put_bytes ?p buf (?F @ zeros z)"
    using w(7) g(4) by (simp only: append_assoc zeros_simps(2))
  have fs: "?p \<le> f_size f" "f_size f \<le> length ?F" using assms(3) size_le_flat [OF assms(1)] by auto
  have "zero_from (f_size f) (?F @ zeros z)"
    unfolding zero_from_append [OF fs(2)] using assms(1) by (simp add: file_ok_def)
  then have "zero_from (max (f_size f) n) (?F @ zeros z)" by (rule zero_from_mono) simp
  moreover have "length (flat h2 (f_blocks f2)) = length (?F @ zeros z)"
  proof -
    have "length (?F @ zeros z) = BLOCK_SIZE * length (f_blocks f2)"
      using length_flat [of h "f_blocks f"] s w(6) g(3)
      by (simp add: z_def store_ok_def flip: add_mult_distrib2)
    moreover have "n \<le> BLOCK_SIZE * length (f_blocks f2)"
      using len blocks_for_bounds(1) [of "max (f_size f) n"] by simp
    ultimately show ?thesis unfolding fl by (intro length_put_bytes) (simp add: n_def)
  qed
  ultimately have "zero_from (max (f_size f) n) (flat h2 (f_blocks f2))"
    using fs by (simp add: zero_from_def fl drop_put_bytes n_def)
  then have "file_ok h2 (grow_size n f2)"
    using len sz assms(1,5) by (auto simp: file_ok_def store_ok_def n_def)
  moreover have "content h2 (grow_size n f2) = put_bytes ?p buf (content h f)"
    using take_put_bytes [OF fs, of buf "zeros z"] by (simp add: content_def sz fl n_def)
  moreover have "same_desc d d2" "d_pos d2 = n" using w(3,4) by (auto simp: same_desc_def set_cursor_def n_def)
  moreover have "BLOCK_SIZE * k < n"
    using w(2) block_start_less [OF n] by simp
  moreover have "k < length (f_blocks f2)" using w(6) by simp
  ultimately show ?thesis using g(1) w(1) ext unfolding k0_def by blast
qed


lemma read_file_ok:
  assumes "file_ok h f" and "cursor_valid d f" and "d_pos d < f_size f" and "0 < sz"
  defines "n \<equiv> min sz (f_size f - d_pos d)"
  shows "\<exists>b d1 k d2.
     get_block_by_index d f h (int (d_pos d div BLOCK_SIZE)) False = Some (Some b, d1, f, h) \<and>
     read_loop n [] (d_pos d mod BLOCK_SIZE) b (d_pos d div BLOCK_SIZE) d1 f h =
       Some (take sz (drop (d_pos d) (content h f)), f_blocks f ! k, k, d2) \<and>
     same_desc d d2 \<and> d_pos d2 = d_pos d + n \<and> k < length (f_blocks f) \<and> BLOCK_SIZE * k < d_pos d + n"
proof -
  let ?p = "d_pos d"
  define k0 where "k0 = ?p div BLOCK_SIZE"
  have s: "store_ok h f" using assms(1) by (simp add: file_ok_def)
  have k0: "k0 < length (f_blocks f)" using block_of_pos(2) [OF assms(1)] assms(3) by (simp add: k0_def)
  let ?d1 = "set_cursor (Some (f_blocks f ! k0)) (int k0) d"
  have p: "BLOCK_SIZE * k0 + ?p mod BLOCK_SIZE = ?p" by (simp add: k0_def)
  have n: "0 < n" "?p + n \<le> f_size f" using assms(3,4) by (auto simp: n_def)
  have fit: "BLOCK_SIZE * k0 + ?p mod BLOCK_SIZE + n \<le> BLOCK_SIZE * length (f_blocks f)"
    unfolding p using n(2) assms(1) blocks_for_bounds(1) [of "f_size f"] by (simp add: file_ok_def)
  obtain k d2 where r: "read_loop n [] (?p mod BLOCK_SIZE) (f_blocks f ! k0) k0 ?d1 f h =
      Some ([] @ take n (drop ?p (flat h (f_blocks f))), f_blocks f ! k, k, d2)"
    "k = (?p + n - 1) div BLOCK_SIZE" "same_desc ?d1 d2" "d_pos d2 = d_pos ?d1 + n"
    using read_loop_ok [OF s k0 _ n(1) fit, of "[]" ?d1] unfolding p by auto
  have "take n (drop ?p (flat h (f_blocks f))) = take sz (drop ?p (content h f))"
    using assms(3) by (simp add: content_def n_def drop_take)
  moreover have "BLOCK_SIZE * k < ?p + n"
    using r(2) block_start_less [of "?p + n"] n(1) by simp
  moreover have "k < length (f_blocks f)"
  proof -
    have "k < blocks_for (?p + n)" using blocks_for_pos [of "?p + n"] n(1) r(2) by simp
    also have "\<dots> \<le> length (f_blocks f)" using blocks_for_mono [OF n(2)] assms(1) by (simp add: file_ok_def)
    finally show ?thesis .
  qed
  moreover have "same_desc d d2" "d_pos d2 = ?p + n" using r(3,4) by (auto simp: same_desc_def set_cursor_def)
  ultimately show ?thesis using get_block_at [OF s assms(2) k0] r(1) unfolding k0_def by auto
qed

text \<open>What resizing promises: the old bytes up to the new size, then zeros.\<close>

definition resized :: "nat \<Rightarrow> bytes \<Rightarrow> bytes" where
  "resized n xs = take n xs @ zeros (n - length xs)"

lemma grow_file_ok:
  assumes "file_ok h f" and "f_size f < n" and "n \<le> MAX_FILE_SIZE"
  shows "\<exists>f' h'. resize_blocks n f h = Some (f', h') \<and> store_ext h f h' f' \<and>
     file_ok h' (f'\<lparr>f_size := n\<rparr>) \<and> content h' (f'\<lparr>f_size := n\<rparr>) = resized n (content h f)"
proof -
  let ?o = "f_size f" and ?F = "flat h (f_blocks f)"
  have s: "store_ok h f" using assms(1) by (simp add: file_ok_def)
  obtain f1 h1 where g: "grow_blocks (blocks_for n) f h = (f1, h1)" by force
  define z where "z = BLOCK_SIZE * (blocks_for n - length (f_blocks f))"
  have e: "store_ext h f h1 f1" "length (f_blocks f1) = max (length (f_blocks f)) (blocks_for n)"
    "flat h1 (f_blocks f1) = ?F @ zeros z"
    using grow_blocks_ok [OF s g] by (auto simp: z_def)
  have len: "length (f_blocks f1) = blocks_for n"
    using e(2) assms(1) blocks_for_mono [of ?o n] assms(2) by (simp add: file_ok_def)
  have fz: "?o \<le> length ?F" by (rule size_le_flat [OF assms(1)])
  have zf: "zero_from ?o (flat h1 (f_blocks f1))"
    unfolding e(3) zero_from_append [OF fz] using assms(1) by (simp add: file_ok_def)
  have l1: "length (flat h1 (f_blocks f1)) = BLOCK_SIZE * blocks_for n"
    using length_flat [of h1 "f_blocks f1"] store_ext_ok [OF e(1)] len by (simp add: store_ok_def)
  have fin: "file_ok h2 (f1\<lparr>f_size := n\<rparr>) \<and> content h2 (f1\<lparr>f_size := n\<rparr>) = resized n (content h f)"
    if "store_ext h1 f1 h2 f1" "flat h2 (f_blocks f1) = flat h1 (f_blocks f1)" for h2
  proof -
    have n: "n \<le> length (flat h1 (f_blocks f1))" using l1 blocks_for_bounds(1) [of n] by simp
    have "take n (flat h1 (f_blocks f1)) = take ?o (flat h1 (f_blocks f1)) @ zeros (n - ?o)"
      using take_zero_from [OF zf _ n] assms(2) by simp
    also have "take ?o (flat h1 (f_blocks f1)) = content h f" using fz by (simp add: e(3) content_def)
    finally have "content h2 (f1\<lparr>f_size := n\<rparr>) = resized n (content h f)"
      using that(2) assms(1,2) by (simp add: content_def [of h2] resized_def)
    moreover have "zero_from n (flat h1 (f_blocks f1))" using zero_from_mono [OF zf] assms(2) by simp
    ultimately show ?thesis using that store_ext_ok [OF that(1)] len assms(3) by (simp add: file_ok_def store_ok_def)
  qed
  define to where "to = min n (blocks_for ?o * BLOCK_SIZE)"
  show ?thesis
  proof (cases "?o mod BLOCK_SIZE \<noteq> 0 \<and> ?o div BLOCK_SIZE < blocks_for n \<and> to > ?o")
    case False
    then have "resize_blocks n f h = Some (f1, h1)"
      using assms(2) g by (auto simp: resize_blocks_def Let_def blocks_for_def to_def)
    then show ?thesis using fin [of h1] e(1) store_ext_ok [OF e(1)] by auto
  next
    case True
    have ne: "f_blocks f1 \<noteq> []" using len True by auto
    have to: "?o mod BLOCK_SIZE + (to - ?o) \<le> BLOCK_SIZE"
    proof -
      have "to \<le> BLOCK_SIZE * blocks_for ?o" by (simp add: to_def mult.commute)
      moreover have "blocks_for ?o \<le> Suc (?o div BLOCK_SIZE)" by (simp add: blocks_for_def BLOCK_SIZE_def)
      ultimately have "to \<le> BLOCK_SIZE * Suc (?o div BLOCK_SIZE)" by (meson le_trans mult_le_mono2)
      then have "to \<le> BLOCK_SIZE + BLOCK_SIZE * (?o div BLOCK_SIZE)" by simp
      then show ?thesis using mult_div_mod_eq [of BLOCK_SIZE ?o] True by linarith
    qed
    obtain h2 where zl: "zero_last_block (?o mod BLOCK_SIZE) (to - ?o) f1 h1 = Some h2" "store_ext h1 f1 h2 f1"
      "flat h2 (f_blocks f1) = put_bytes (BLOCK_SIZE * (length (f_blocks f1) - 1) + ?o mod BLOCK_SIZE) (zeros (to - ?o)) (flat h1 (f_blocks f1))"
      using zero_last_block_ok [OF store_ext_ok [OF e(1)] ne to] by blast
    have "flat h2 (f_blocks f1) = flat h1 (f_blocks f1)"
      unfolding zl(3)
    proof (rule put_zeros_id [OF zf])
      have "BLOCK_SIZE * (?o div BLOCK_SIZE) \<le> BLOCK_SIZE * (length (f_blocks f1) - 1)"
        using True len by (intro mult_le_mono2) linarith
      then show "?o \<le> BLOCK_SIZE * (length (f_blocks f1) - 1) + ?o mod BLOCK_SIZE"
        using mult_div_mod_eq [of BLOCK_SIZE ?o] by linarith
      have "BLOCK_SIZE * (length (f_blocks f1) - 1) + BLOCK_SIZE = length (flat h1 (f_blocks f1))"
        unfolding l1 len [symmetric] using ne by (cases "length (f_blocks f1)") simp_all
      then show "BLOCK_SIZE * (length (f_blocks f1) - 1) + ?o mod BLOCK_SIZE + (to - ?o) \<le> length (flat h1 (f_blocks f1))"
        using to by linarith
    qed
    moreover have "resize_blocks n f h = Some (f1, h2)"
      using assms(2) g True zl(1) by (simp add: resize_blocks_def Let_def blocks_for_def to_def)
    ultimately show ?thesis using fin [OF zl(2)] store_ext_trans [OF e(1) zl(2)] by auto
  qed
qed


lemma blocks_for_partial: "n mod BLOCK_SIZE \<noteq> 0 \<Longrightarrow> blocks_for n = Suc (n div BLOCK_SIZE)"
proof -
  assume r: "n mod BLOCK_SIZE \<noteq> 0"
  have n: "n = BLOCK_SIZE * (n div BLOCK_SIZE) + n mod BLOCK_SIZE" "n mod BLOCK_SIZE < BLOCK_SIZE" by simp_all
  have "(n - 1) div BLOCK_SIZE = n div BLOCK_SIZE"
  proof (rule div_nat_eqI)
    show "BLOCK_SIZE * (n div BLOCK_SIZE) \<le> n - 1" using n r by linarith
    show "n - 1 < BLOCK_SIZE * Suc (n div BLOCK_SIZE)" unfolding mult_Suc_right using n r by linarith
  qed
  moreover have "0 < n" using r by (cases n) auto
  ultimately show ?thesis using blocks_for_pos by simp
qed

lemma shrink_file_ok:
  assumes "file_ok h f" and "n < f_size f"
  shows "\<exists>f' h'. resize_blocks n f h = Some (f', h') \<and> same_meta f f' \<and> fresh_block h' = fresh_block h \<and>
     f_blocks f' = take (blocks_for n) (f_blocks f) \<and>
     (\<forall>b. b \<notin> set (f_blocks f) \<longrightarrow> mem h' b = mem h b) \<and>
     (\<forall>b. b \<in> set (f_blocks f) \<longrightarrow> b \<notin> set (f_blocks f') \<longrightarrow> mem h' b = None) \<and>
     file_ok h' (f'\<lparr>f_size := n\<rparr>) \<and> content h' (f'\<lparr>f_size := n\<rparr>) = resized n (content h f)"
proof -
  let ?F = "flat h (f_blocks f)" and ?m = "blocks_for n"
  have s: "store_ok h f" using assms(1) by (simp add: file_ok_def)
  have nb: "?m \<le> length (f_blocks f)" using assms blocks_for_mono [of n "f_size f"] by (simp add: file_ok_def)
  obtain f1 h1 where g: "shrink_blocks ?m f h = Some (f1, h1)" "store_ok h1 f1" "same_meta f f1"
    "f_blocks f1 = take ?m (f_blocks f)" "flat h1 (f_blocks f1) = take (BLOCK_SIZE * ?m) ?F" "fresh_block h1 = fresh_block h"
    "\<forall>b. mem h1 b = (if b \<in> set (drop ?m (f_blocks f)) then None else mem h b)"
    using shrink_blocks_ok [OF s nb] by blast
  have len: "length (f_blocks f1) = ?m" using g(4) nb by simp
  have fz: "n \<le> length ?F" using size_le_flat [OF assms(1)] assms(2) by simp
  have bl: "n \<le> BLOCK_SIZE * ?m" by (rule blocks_for_bounds)
  have l1: "length (flat h1 (f_blocks f1)) = BLOCK_SIZE * ?m"
    using length_flat [of h1 "f_blocks f1"] g(2) len by (simp add: store_ok_def)
  have gone: "b \<in> set (f_blocks f) \<Longrightarrow> b \<notin> set (f_blocks f1) \<Longrightarrow> mem h1 b = None" for b
    using g(4,7) by (metis Un_iff append_take_drop_id set_append)
  have kept: "b \<notin> set (f_blocks f) \<Longrightarrow> mem h1 b = mem h b" for b
    using g(7) by (metis in_set_dropD)
  have res: "resized n (content h f) = take n ?F" using assms by (simp add: resized_def) (simp add: content_def min_def)
  have mp: "f_blocks_count f1 > 0 \<longleftrightarrow> f_blocks f1 \<noteq> []" using g(2) by (simp add: store_ok_def)
  have sz: "n \<le> MAX_FILE_SIZE" using assms by (simp add: file_ok_def)
  show ?thesis
  proof (cases "n mod BLOCK_SIZE \<noteq> 0 \<and> f_blocks f1 \<noteq> []")
    case False
    have "BLOCK_SIZE * ?m = n"
    proof (cases "f_blocks f1 = []")
      case True
      then show ?thesis using len bl by simp
    next
      case F: False
      then have "n mod BLOCK_SIZE = 0" using False by simp
      then show ?thesis by (auto simp: blocks_for_def BLOCK_SIZE_def)
    qed
    then have "zero_from n (flat h1 (f_blocks f1))" "content h1 (f1\<lparr>f_size := n\<rparr>) = take n ?F"
      using g(5) l1 by (auto simp: zero_from_def content_def)
    moreover have "resize_blocks n f h = Some (f1, h1)"
      using assms(2) g(1) False mp by (auto simp: resize_blocks_def Let_def blocks_for_def)
    ultimately show ?thesis using g(2,3,4,6) len sz gone kept res
      by (intro exI [of _ f1] exI [of _ h1]) (auto simp: file_ok_def store_ok_def)
  next
    case True
    let ?o = "n mod BLOCK_SIZE"
    have o: "?o + (BLOCK_SIZE - ?o) \<le> BLOCK_SIZE" by (simp add: less_imp_le_nat)
    obtain h2 where zl: "zero_last_block ?o (BLOCK_SIZE - ?o) f1 h1 = Some h2" "store_ext h1 f1 h2 f1"
      "flat h2 (f_blocks f1) = put_bytes (BLOCK_SIZE * (length (f_blocks f1) - 1) + ?o) (zeros (BLOCK_SIZE - ?o)) (flat h1 (f_blocks f1))"
      using zero_last_block_ok [OF g(2) _ o] True by blast
    have m: "?m = Suc (n div BLOCK_SIZE)" using True blocks_for_partial by blast
    have at1: "BLOCK_SIZE * (length (f_blocks f1) - 1) + ?o = n" using len m by simp
    have "BLOCK_SIZE * ?m = BLOCK_SIZE + BLOCK_SIZE * (n div BLOCK_SIZE)" using m by simp
    then have at2: "BLOCK_SIZE - ?o = BLOCK_SIZE * ?m - n" using mult_div_mod_eq [of BLOCK_SIZE n] by linarith
    have fl: "flat h2 (f_blocks f1) = take n ?F @ zeros (BLOCK_SIZE * ?m - n)"
      using zl(3) g(5) bl unfolding at1 at2 by (simp add: put_bytes_def min_def)
    then have "zero_from n (flat h2 (f_blocks f1))" "content h2 (f1\<lparr>f_size := n\<rparr>) = take n ?F"
      using fz by (auto simp: zero_from_def content_def)
    moreover have "resize_blocks n f h = Some (f1, h2)"
      using assms(2) g(1) True zl(1) mp by (simp add: resize_blocks_def Let_def blocks_for_def)
    moreover have "fresh_block h2 = fresh_block h1" "\<And>b. b \<notin> set (f_blocks f1) \<Longrightarrow> mem h2 b = mem h1 b"
      using zl(1) True by (auto simp: zero_last_block_def last_block_def split: bind_splits)
    moreover have "b \<notin> set (f_blocks f) \<Longrightarrow> b \<notin> set (f_blocks f1)" for b using g(4) in_set_takeD by metis
    ultimately show ?thesis using g(3,4,6) len sz gone kept res store_ext_ok [OF zl(2)]
      by (intro exI [of _ f1] exI [of _ h2]) (auto simp: file_ok_def store_ok_def)
  qed
qed

section \<open>The whole file system\<close>

text \<open>
  Three parts of the invariant. Storage: every file is well formed, files do not share blocks,
  and every live block belongs to a file, so no memory is lost.
\<close>

definition storage_ok :: "block_heap \<Rightarrow> (addr \<rightharpoonup> ufile) \<Rightarrow> addr \<Rightarrow> bool" where
  "storage_ok h fs n \<longleftrightarrow>
     heap_fresh h \<and>
     (\<forall>a f. fs a = Some f \<longrightarrow> a < n \<and> file_ok h f) \<and>
     (\<forall>a b f g. fs a = Some f \<longrightarrow> fs b = Some g \<longrightarrow> a \<noteq> b \<longrightarrow> set (f_blocks f) \<inter> set (f_blocks g) = {}) \<and>
     (\<forall>x. mem h x \<noteq> None \<longrightarrow> (\<exists>a f. fs a = Some f \<and> x \<in> set (f_blocks f)))"

text \<open>Directory: the list holds exactly the files that are not deleted, under different names.\<close>

definition dir_ok :: "(addr \<rightharpoonup> ufile) \<Rightarrow> addr list \<Rightarrow> bool" where
  "dir_ok fs fl \<longleftrightarrow>
     distinct fl \<and> (\<forall>a. a \<in> set fl \<longleftrightarrow> (\<exists>f. fs a = Some f \<and> \<not> f_deleted f)) \<and>
     inj_on (\<lambda>a. f_name (the (fs a))) (set fl)"

text \<open>
  Descriptors: each is at a position inside a live file, its cached block is a block of that file
  that starts before the position, and a file counts its descriptors.
\<close>

definition cursor_ok :: "filedesc \<Rightarrow> ufile \<Rightarrow> bool" where
  "cursor_ok d f \<longleftrightarrow>
     (\<forall>b. d_cur_block d = Some b \<longrightarrow>
        (\<exists>k. d_cur_block_index d = int k \<and> k < length (f_blocks f) \<and> f_blocks f ! k = b \<and> BLOCK_SIZE * k < d_pos d))"

definition fd_ok :: "(addr \<rightharpoonup> ufile) \<Rightarrow> filedesc \<Rightarrow> bool" where
  "fd_ok fs d \<longleftrightarrow> (\<exists>f. fs (d_file d) = Some f \<and> d_pos d \<le> f_size f \<and> cursor_ok d f)"

definition open_count :: "addr \<Rightarrow> filedesc option list \<Rightarrow> nat" where
  "open_count a fds = length (filter (\<lambda>x. map_option d_file x = Some a) fds)"

definition fds_ok :: "(addr \<rightharpoonup> ufile) \<Rightarrow> filedesc option list \<Rightarrow> bool" where
  "fds_ok fs fds \<longleftrightarrow>
     (\<forall>d. Some d \<in> set fds \<longrightarrow> fd_ok fs d) \<and>
     (\<forall>a f. fs a = Some f \<longrightarrow> f_refs f = int (open_count a fds) \<and> (f_deleted f \<longrightarrow> 0 < f_refs f))"

definition ufs_ok :: "ufs \<Rightarrow> bool" where
  "ufs_ok u \<longleftrightarrow>
     storage_ok (heap u) (files u) (fresh_file u) \<and> dir_ok (files u) (file_list u) \<and>
     fds_ok (files u) (file_descriptors u)"

lemma ufs_init_ok: "ufs_ok ufs_init"
  by (simp add: ufs_ok_def ufs_init_def storage_ok_def dir_ok_def fds_ok_def heap_fresh_def)

lemma file_ok_cong:
  assumes "heap_fresh h'" and "\<And>x. x \<in> set (f_blocks f) \<Longrightarrow> mem h' x = mem h x" and "file_ok h f"
  shows "file_ok h' f" and "content h' f = content h f"
  using assms flat_cong [of "f_blocks f" h' h] blocks_live_cong [of "f_blocks f" h' h]
  by (auto simp: file_ok_def store_ok_def content_def)

lemma storage_okD:
  assumes "storage_ok h fs n"
  shows "heap_fresh h" and "fs a = Some f \<Longrightarrow> a < n" and "fs a = Some f \<Longrightarrow> file_ok h f"
    and "fs a = Some f \<Longrightarrow> fs b = Some g \<Longrightarrow> a \<noteq> b \<Longrightarrow> x \<in> set (f_blocks f) \<Longrightarrow> x \<notin> set (f_blocks g)"
    and "mem h x \<noteq> None \<Longrightarrow> \<exists>a f. fs a = Some f \<and> x \<in> set (f_blocks f)"
    and "fs a = Some f \<Longrightarrow> x \<in> set (f_blocks f) \<Longrightarrow> mem h x \<noteq> None"
proof -
  show "heap_fresh h" and "fs a = Some f \<Longrightarrow> a < n" and f: "fs a = Some f \<Longrightarrow> file_ok h f"
    and "mem h x \<noteq> None \<Longrightarrow> \<exists>a f. fs a = Some f \<and> x \<in> set (f_blocks f)"
    using assms unfolding storage_ok_def by blast+
  show "fs a = Some f \<Longrightarrow> fs b = Some g \<Longrightarrow> a \<noteq> b \<Longrightarrow> x \<in> set (f_blocks f) \<Longrightarrow> x \<notin> set (f_blocks g)"
    using assms unfolding storage_ok_def by blast
  assume "fs a = Some f" and "x \<in> set (f_blocks f)"
  then show "mem h x \<noteq> None" using f by (auto simp: file_ok_def store_ok_def blocks_live_def)
qed

text \<open>One file and its blocks change, the rest of the heap does not.\<close>

lemma storage_update:
  assumes "storage_ok h fs n" and "fs a = Some f" and "file_ok h' f'"
    and "\<And>x. mem h x \<noteq> None \<Longrightarrow> x \<notin> set (f_blocks f) \<Longrightarrow> mem h' x = mem h x \<and> x \<notin> set (f_blocks f')"
    and "\<And>x. mem h' x \<noteq> None \<Longrightarrow> x \<in> set (f_blocks f') \<or> mem h x \<noteq> None \<and> x \<notin> set (f_blocks f)"
  shows "storage_ok h' (fs(a \<mapsto> f')) n"
    and "fs b = Some g \<Longrightarrow> b \<noteq> a \<Longrightarrow> content h' g = content h g"
proof -
  have hf: "heap_fresh h'" using assms(3) by (simp add: file_ok_def store_ok_def)
  have g_mem: "mem h x \<noteq> None \<and> x \<notin> set (f_blocks f)" if "fs b = Some g" "b \<noteq> a" "x \<in> set (f_blocks g)" for b g x
    using storage_okD(4,6) [OF assms(1)] assms(2) that by blast
  note other = file_ok_cong [OF hf]
  have g_ok: "file_ok h' g" "content h' g = content h g" "set (f_blocks g) \<inter> set (f_blocks f') = {}"
    if "fs b = Some g" "b \<noteq> a" for b g
  proof -
    have "file_ok h g" by (rule storage_okD(3) [OF assms(1) that(1)])
    then show "file_ok h' g" "content h' g = content h g"
      using other [of g h] g_mem [OF that] assms(4) by blast+
    show "set (f_blocks g) \<inter> set (f_blocks f') = {}" using g_mem [OF that] assms(4) by blast
  qed
  show "fs b = Some g \<Longrightarrow> b \<noteq> a \<Longrightarrow> content h' g = content h g" by (rule g_ok(2))
  have own: "\<exists>b g. (fs(a \<mapsto> f')) b = Some g \<and> x \<in> set (f_blocks g)" if "mem h' x \<noteq> None" for x
  proof (cases "x \<in> set (f_blocks f')")
    case False
    then have x: "mem h x \<noteq> None" "x \<notin> set (f_blocks f)" using assms(5) [OF that] by auto
    then obtain b g where "fs b = Some g" "x \<in> set (f_blocks g)" using storage_okD(5) [OF assms(1)] by blast
    then show ?thesis using x(2) assms(2) by (metis fun_upd_other option.inject)
  qed auto
  have "b < n" if "fs b = Some g" for b g by (rule storage_okD(2) [OF assms(1) that])
  moreover have "set (f_blocks g) \<inter> set (f_blocks g') = {}" if "fs b = Some g" "fs c = Some g'" "b \<noteq> c" for b c g g'
    using storage_okD(4) [OF assms(1)] that by blast
  ultimately show "storage_ok h' (fs(a \<mapsto> f')) n"
    unfolding storage_ok_def using hf assms(2,3) g_ok own by (simp add: Int_commute)
qed

end
