(* ===== verification/Machines.thy ===== *)
theory Machines
  imports Prelude
begin

text \<open>
  The contracts the stateful components are verified against. A component with a sequential
  interface refines an abstract machine call by call; a component whose threads or coroutines
  interleave is a transition system with an invariant; a program around such a component keeps its rules.
\<close>

section \<open>Refinement of a sequential interface\<close>

text \<open>
  Running a list of calls: \<open>None\<close> when one of them has undefined behaviour. The abstract
  machine is total.
\<close>

fun run_calls :: "('c \<Rightarrow> 's \<Rightarrow> ('r \<times> 's) option) \<Rightarrow> 'c list \<Rightarrow> 's \<Rightarrow> ('r list \<times> 's) option" where
  "run_calls ex [] s = Some ([], s)"
| "run_calls ex (c # cs) s =
     (case ex c s of
        None \<Rightarrow> None
      | Some (r, s') \<Rightarrow> map_option (\<lambda>(rs, t). (r # rs, t)) (run_calls ex cs s'))"

fun run_spec :: "('c \<Rightarrow> 'a \<Rightarrow> 'r \<times> 'a) \<Rightarrow> 'c list \<Rightarrow> 'a \<Rightarrow> 'r list \<times> 'a" where
  "run_spec ex [] s = ([], s)"
| "run_spec ex (c # cs) s = (let (r, s') = ex c s; (rs, t) = run_spec ex cs s' in (r # rs, t))"

locale machine_refinement =
  fixes exec :: "'c \<Rightarrow> 's \<Rightarrow> ('r \<times> 's) option"
    and spec :: "'c \<Rightarrow> 'a \<Rightarrow> 'r \<times> 'a"
    and inv :: "'s \<Rightarrow> bool"
    and abs :: "'s \<Rightarrow> 'a"
    and allowed :: "'c \<Rightarrow> bool"
  assumes simulation:
    "inv s \<Longrightarrow> allowed c \<Longrightarrow> \<exists>r s'. exec c s = Some (r, s') \<and> inv s' \<and> spec c (abs s) = (r, abs s')"
begin

text \<open>No allowed call sequence is undefined, and the results are those of the specification.\<close>

lemma run_refines:
  "inv s \<Longrightarrow> list_all allowed cs \<Longrightarrow>
     \<exists>rs s'. run_calls exec cs s = Some (rs, s') \<and> inv s' \<and> run_spec spec cs (abs s) = (rs, abs s')"
proof (induction cs arbitrary: s)
  case (Cons c cs)
  obtain r s1 where 1: "exec c s = Some (r, s1)" "inv s1" "spec c (abs s) = (r, abs s1)"
    using simulation [OF Cons.prems(1), of c] Cons.prems(2) by auto
  obtain rs s2 where "run_calls exec cs s1 = Some (rs, s2)" "inv s2" "run_spec spec cs (abs s1) = (rs, abs s2)"
    using Cons.IH [OF 1(2)] Cons.prems(2) by auto
  with 1 show ?case by simp
qed simp

end

section \<open>Transition systems with an invariant\<close>

text \<open>
  A component whose parts interleave: a label names who moves and what it does, a step may fail
  (an assertion, an exit of the process, undefined behaviour). \<open>enabled\<close> says which labels can
  occur in a state when the users of the component keep its rules.
\<close>

fun run_labels :: "('l \<Rightarrow> 's \<Rightarrow> 'f + 's) \<Rightarrow> 'l list \<Rightarrow> 's \<Rightarrow> 'f + 's" where
  "run_labels step [] s = Inr s"
| "run_labels step (l # ls) s = (case step l s of Inl f \<Rightarrow> Inl f | Inr s' \<Rightarrow> run_labels step ls s')"

fun legal :: "('l \<Rightarrow> 's \<Rightarrow> 'f + 's) \<Rightarrow> ('l \<Rightarrow> 's \<Rightarrow> bool) \<Rightarrow> 'l list \<Rightarrow> 's \<Rightarrow> bool" where
  "legal step enabled [] s = True"
| "legal step enabled (l # ls) s \<longleftrightarrow>
     enabled l s \<and> (case step l s of Inl f \<Rightarrow> True | Inr s' \<Rightarrow> legal step enabled ls s')"

text \<open>What an observer records of a run: \<open>obs l s s'\<close> are the events of one step.\<close>

fun events :: "('l \<Rightarrow> 's \<Rightarrow> 's \<Rightarrow> 'e list) \<Rightarrow> ('l \<Rightarrow> 's \<Rightarrow> 'f + 's) \<Rightarrow> 'l list \<Rightarrow> 's \<Rightarrow> 'e list" where
  "events obs step [] s = []"
| "events obs step (l # ls) s = (case step l s of Inl f \<Rightarrow> [] | Inr s' \<Rightarrow> obs l s s' @ events obs step ls s')"

lemma run_labels_append:
  "run_labels step (ls @ ms) s = (case run_labels step ls s of Inl f \<Rightarrow> Inl f | Inr s' \<Rightarrow> run_labels step ms s')"
  by (induction ls arbitrary: s) (auto split: sum.splits)

lemma legal_append:
  "run_labels step ls s = Inr s' \<Longrightarrow>
     legal step enabled (ls @ ms) s \<longleftrightarrow> legal step enabled ls s \<and> legal step enabled ms s'"
  by (induction ls arbitrary: s) (auto split: sum.splits)

lemma events_append:
  "run_labels step ls s = Inr s' \<Longrightarrow> events obs step (ls @ ms) s = events obs step ls s @ events obs step ms s'"
  by (induction ls arbitrary: s) (auto split: sum.splits)

locale safe_system =
  fixes step :: "'l \<Rightarrow> 's \<Rightarrow> 'f + 's"
    and enabled :: "'l \<Rightarrow> 's \<Rightarrow> bool"
    and inv :: "'s \<Rightarrow> bool"
  assumes step_safe: "inv s \<Longrightarrow> enabled l s \<Longrightarrow> \<exists>s'. step l s = Inr s' \<and> inv s'"
begin

lemma run_safe:
  "inv s \<Longrightarrow> legal step enabled ls s \<Longrightarrow> \<exists>s'. run_labels step ls s = Inr s' \<and> inv s'"
proof (induction ls arbitrary: s)
  case (Cons l ls)
  obtain s1 where "step l s = Inr s1" "inv s1"
    using step_safe [of s l] Cons.prems by auto
  with Cons.IH [of s1] Cons.prems(2) show ?case by simp
qed simp

lemma run_inv:
  "inv s \<Longrightarrow> legal step enabled ls s \<Longrightarrow> run_labels step ls s = Inr s' \<Longrightarrow> inv s'"
  using run_safe by fastforce

text \<open>A relation between a state and what was observed so far that every step preserves holds at the end of every run.\<close>

lemma history_inv:
  assumes "inv s" and "legal step enabled ls s" and "run_labels step ls s = Inr s'" and "J s h"
    and kept: "\<And>s l s' h. inv s \<Longrightarrow> enabled l s \<Longrightarrow> step l s = Inr s' \<Longrightarrow> J s h \<Longrightarrow> J s' (h @ obs l s s')"
  shows "J s' (h @ events obs step ls s)"
  using assms(1-4)
proof (induction ls arbitrary: s h)
  case (Cons l ls)
  obtain s1 where 1: "step l s = Inr s1" "inv s1"
    using step_safe [of s l] Cons.prems by auto
  have "J s1 (h @ obs l s s1)"
    using Cons.prems 1 by (intro kept) auto
  from Cons.IH [OF 1(2) _ _ this] Cons.prems 1 show ?case by simp
qed simp

end

section \<open>A system that uses another one\<close>

text \<open>
  A system is built around another, of which its state has a part: \<open>view\<close>. Each of its steps makes some steps of the other,
  \<open>labels\<close>, and keeps the rules of that one. So does every run, whatever the system does besides.
\<close>

locale client_system = safe_system step enabled inv
  for step :: "'l \<Rightarrow> 's \<Rightarrow> 'f + 's" and enabled :: "'l \<Rightarrow> 's \<Rightarrow> bool" and inv :: "'s \<Rightarrow> bool" +
  fixes used_step :: "'m \<Rightarrow> 't \<Rightarrow> 'f + 't"
    and used_enabled :: "'m \<Rightarrow> 't \<Rightarrow> bool"
    and view :: "'s \<Rightarrow> 't"
    and labels :: "'l \<Rightarrow> 's \<Rightarrow> 'm list"
  assumes uses: "inv s \<Longrightarrow> enabled l s \<Longrightarrow> step l s = Inr s' \<Longrightarrow>
      legal used_step used_enabled (labels l s) (view s) \<and> run_labels used_step (labels l s) (view s) = Inr (view s')"
begin

lemma run_uses:
  "inv s \<Longrightarrow> legal step enabled ls s \<Longrightarrow> run_labels step ls s = Inr s' \<Longrightarrow>
     \<exists>ms. legal used_step used_enabled ms (view s) \<and> run_labels used_step ms (view s) = Inr (view s')"
proof (induction ls arbitrary: s)
  case Nil
  then have "legal used_step used_enabled [] (view s) \<and> run_labels used_step [] (view s) = Inr (view s')" by simp
  then show ?case by blast
next
  case (Cons l ls)
  obtain s1 where 1: "step l s = Inr s1" "inv s1" using step_safe [of s l] Cons.prems by auto
  obtain ms where ms: "legal used_step used_enabled ms (view s1)" "run_labels used_step ms (view s1) = Inr (view s')"
    using Cons.IH [OF 1(2)] Cons.prems(2,3) 1(1) by auto
  have u: "legal used_step used_enabled (labels l s) (view s)" "run_labels used_step (labels l s) (view s) = Inr (view s1)"
    using uses [OF Cons.prems(1) _ 1(1)] Cons.prems(2) by simp_all
  then have "legal used_step used_enabled (labels l s @ ms) (view s)" "run_labels used_step (labels l s @ ms) (view s) = Inr (view s')"
    using ms by (simp_all add: legal_append run_labels_append)
  then show ?case by blast
qed

end

end
