(* ===== verification/Userfs_Spec.thy ===== *)
theory Userfs_Spec
  imports Userfs Machines
begin

text \<open>
  What the file system of \<open>3/userfs.cpp\<close> promises, and the proof that the code keeps it. The
  abstract machine has byte strings for files; every call of the implementation is shown to return
  what the abstract call returns and to keep the invariant \<open>ufs_ok\<close>, under which no call uses freed
  memory.
\<close>

unbundle bit_operations_syntax

section \<open>The abstract file system\<close>

text \<open>
  Files are byte strings, the directory maps names to files, and a descriptor is a file, a
  position and its flags.
\<close>

record afs =
  afiles :: "addr \<rightharpoonup> bytes"
  adir :: "bytes \<rightharpoonup> addr"
  afds :: "(addr \<times> nat \<times> int) option list"
  afresh :: addr
  aerr :: ufs_error_code

datatype ufs_call =
    Open "bytes option" int | Write int bytes | Read int nat | Close int | Delete bytes | Resize int nat

definition afs_fail :: "ufs_error_code \<Rightarrow> afs \<Rightarrow> (int \<times> bytes) \<times> afs" where
  "afs_fail e A = ((-1, []), A\<lparr>aerr := e\<rparr>)"

definition afs_fd :: "int \<Rightarrow> afs \<Rightarrow> (addr \<times> nat \<times> int) option" where
  "afs_fd fd A = (if fd \<le> 0 \<or> nat (fd - 1) \<ge> length (afds A) then None else afds A ! nat (fd - 1))"

text \<open>A file lives as long as it has a name or an open descriptor.\<close>

definition afs_gc :: "addr \<Rightarrow> afs \<Rightarrow> afs" where
  "afs_gc a A =
     (if a \<in> ran (adir A) \<or> Some a \<in> set (map (map_option fst) (afds A)) then A
      else A\<lparr>afiles := (afiles A)(a := None)\<rparr>)"

definition afs_open :: "bytes option \<Rightarrow> int \<Rightarrow> afs \<Rightarrow> (int \<times> bytes) \<times> afs" where
  "afs_open filename fl A =
     (case filename of
        None \<Rightarrow> afs_fail UFS_ERR_NO_FILE A
      | Some n \<Rightarrow>
          let fl = (if fl AND UFS_READ_WRITE = 0 then fl OR UFS_READ_WRITE else fl);
              put = (\<lambda>a A. let (i, fds) = store_fd (a, 0, fl) (afds A)
                           in ((int i + 1, []), A\<lparr>afds := fds, aerr := UFS_ERR_NO_ERR\<rparr>))
          in case adir A n of
               Some a \<Rightarrow> put a A
             | None \<Rightarrow>
                 if fl AND UFS_CREATE = 0 then afs_fail UFS_ERR_NO_FILE A
                 else put (afresh A) (A\<lparr>afiles := (afiles A)(afresh A \<mapsto> []), adir := (adir A)(n \<mapsto> afresh A),
                        afresh := Suc (afresh A)\<rparr>))"

definition afs_write :: "int \<Rightarrow> bytes \<Rightarrow> afs \<Rightarrow> (int \<times> bytes) \<times> afs" where
  "afs_write fd buf A =
     (case afs_fd fd A of
        None \<Rightarrow> afs_fail UFS_ERR_NO_FILE A
      | Some (a, p, fl) \<Rightarrow>
          if fl AND UFS_WRITE_ONLY = 0 then afs_fail UFS_ERR_NO_PERMISSION A
          else if buf = [] then ((0, []), A\<lparr>aerr := UFS_ERR_NO_ERR\<rparr>)
          else if p + length buf > MAX_FILE_SIZE then afs_fail UFS_ERR_NO_MEM A
          else ((int (length buf), []),
            A\<lparr>afiles := (afiles A)(a := map_option (put_bytes p buf) (afiles A a)),
              afds := (afds A)[nat (fd - 1) := Some (a, p + length buf, fl)], aerr := UFS_ERR_NO_ERR\<rparr>))"

definition afs_read :: "int \<Rightarrow> nat \<Rightarrow> afs \<Rightarrow> (int \<times> bytes) \<times> afs" where
  "afs_read fd n A =
     (case afs_fd fd A of
        None \<Rightarrow> afs_fail UFS_ERR_NO_FILE A
      | Some (a, p, fl) \<Rightarrow>
          if fl AND UFS_READ_ONLY = 0 then afs_fail UFS_ERR_NO_PERMISSION A
          else
            (let s = take n (drop p (the (afiles A a)))
             in ((int (length s), s),
                 A\<lparr>afds := (afds A)[nat (fd - 1) := Some (a, p + length s, fl)], aerr := UFS_ERR_NO_ERR\<rparr>)))"

definition afs_close :: "int \<Rightarrow> afs \<Rightarrow> (int \<times> bytes) \<times> afs" where
  "afs_close fd A =
     (case afs_fd fd A of
        None \<Rightarrow> afs_fail UFS_ERR_NO_FILE A
      | Some (a, p, fl) \<Rightarrow>
          ((0, []), afs_gc a (A\<lparr>afds := (afds A)[nat (fd - 1) := None], aerr := UFS_ERR_NO_ERR\<rparr>)))"

definition afs_delete :: "bytes \<Rightarrow> afs \<Rightarrow> (int \<times> bytes) \<times> afs" where
  "afs_delete n A =
     (case adir A n of
        None \<Rightarrow> afs_fail UFS_ERR_NO_FILE A
      | Some a \<Rightarrow> ((0, []), afs_gc a (A\<lparr>adir := (adir A)(n := None), aerr := UFS_ERR_NO_ERR\<rparr>)))"

definition afs_clamp :: "addr \<Rightarrow> nat \<Rightarrow> (addr \<times> nat \<times> int) \<Rightarrow> (addr \<times> nat \<times> int)" where
  "afs_clamp a n = (\<lambda>(b, p, fl). (b, if b = a then min p n else p, fl))"

definition afs_resize :: "int \<Rightarrow> nat \<Rightarrow> afs \<Rightarrow> (int \<times> bytes) \<times> afs" where
  "afs_resize fd n A =
     (case afs_fd fd A of
        None \<Rightarrow> afs_fail UFS_ERR_NO_FILE A
      | Some (a, p, fl) \<Rightarrow>
          if fl AND UFS_WRITE_ONLY = 0 then afs_fail UFS_ERR_NO_PERMISSION A
          else if n > MAX_FILE_SIZE then afs_fail UFS_ERR_NO_MEM A
          else ((0, []),
            A\<lparr>afiles := (afiles A)(a := map_option (resized n) (afiles A a)),
              afds := map (map_option (afs_clamp a n)) (afds A), aerr := UFS_ERR_NO_ERR\<rparr>))"

definition afs_exec :: "ufs_call \<Rightarrow> afs \<Rightarrow> (int \<times> bytes) \<times> afs" where
  "afs_exec c =
     (case c of Open n fl \<Rightarrow> afs_open n fl | Write fd b \<Rightarrow> afs_write fd b | Read fd n \<Rightarrow> afs_read fd n
      | Close fd \<Rightarrow> afs_close fd | Delete n \<Rightarrow> afs_delete n | Resize fd n \<Rightarrow> afs_resize fd n)"

text \<open>The calls of the implementation; only \<open>ufs_read\<close> returns bytes.\<close>

definition ufs_exec :: "ufs_call \<Rightarrow> ufs \<Rightarrow> ((int \<times> bytes) \<times> ufs) option" where
  "ufs_exec c u =
     (let no_bytes = map_option (\<lambda>(r, u). ((r, []), u))
      in case c of Open n fl \<Rightarrow> no_bytes (ufs_open n fl u) | Write fd b \<Rightarrow> no_bytes (ufs_write fd b u)
         | Read fd n \<Rightarrow> ufs_read fd n u | Close fd \<Rightarrow> no_bytes (ufs_close fd u)
         | Delete n \<Rightarrow> no_bytes (ufs_delete n u) | Resize fd n \<Rightarrow> no_bytes (ufs_resize fd n u))"

section \<open>Abstraction\<close>

definition abs_fd :: "filedesc \<Rightarrow> addr \<times> nat \<times> int" where
  "abs_fd d = (d_file d, d_pos d, d_flags d)"

definition abs_files :: "block_heap \<Rightarrow> (addr \<rightharpoonup> ufile) \<Rightarrow> addr \<rightharpoonup> bytes" where
  "abs_files h fs a = map_option (content h) (fs a)"

definition abs_dir :: "(addr \<rightharpoonup> ufile) \<Rightarrow> addr list \<Rightarrow> bytes \<rightharpoonup> addr" where
  "abs_dir fs fl = map_of (map (\<lambda>a. (f_name (the (fs a)), a)) fl)"

definition abs_ufs :: "ufs \<Rightarrow> afs" where
  "abs_ufs u =
     \<lparr>afiles = abs_files (heap u) (files u), adir = abs_dir (files u) (file_list u),
      afds = map (map_option abs_fd) (file_descriptors u), afresh = fresh_file u, aerr = errno u\<rparr>"

text \<open>One call is implemented correctly.\<close>

definition call_ok :: "ufs \<Rightarrow> ((int \<times> bytes) \<times> ufs) option \<Rightarrow> (int \<times> bytes) \<times> afs \<Rightarrow> bool" where
  "call_ok u c a \<longleftrightarrow> (\<exists>r u'. c = Some (r, u') \<and> ufs_ok u' \<and> a = (r, abs_ufs u'))"

lemma ufs_ok_errno [simp]: "ufs_ok (u\<lparr>errno := e\<rparr>) = ufs_ok u"
  by (simp add: ufs_ok_def)

lemma get_fd_errno [simp]: "get_fd fd (u\<lparr>errno := e\<rparr>) = get_fd fd u"
  by (simp add: get_fd_def)

lemma abs_errno [simp]: "abs_ufs (u\<lparr>errno := e\<rparr>) = abs_ufs u\<lparr>aerr := e\<rparr>"
  by (simp add: abs_ufs_def)

lemma fail_ok: "ufs_ok u \<Longrightarrow> call_ok u (map_option (\<lambda>(r, u). ((r, []), u)) (Some (ufs_fail e u))) (afs_fail e (abs_ufs u))"
  by (simp add: call_ok_def ufs_fail_def afs_fail_def)

lemma afs_fd_abs: "afs_fd fd (abs_ufs u) = map_option abs_fd (get_fd fd u)"
  by (auto simp: afs_fd_def get_fd_def abs_ufs_def)

text \<open>An open descriptor of a good state.\<close>

lemma get_fd_ok:
  assumes "ufs_ok u" and "get_fd fd u = Some d"
  shows "\<exists>f. files u (d_file d) = Some f \<and> file_ok (heap u) f \<and> d_pos d \<le> f_size f \<and> cursor_ok d f"
    and "nat (fd - 1) < length (file_descriptors u)" and "file_descriptors u ! nat (fd - 1) = Some d"
proof -
  show i: "nat (fd - 1) < length (file_descriptors u)" and d: "file_descriptors u ! nat (fd - 1) = Some d"
    using assms(2) by (auto simp: get_fd_def split: if_splits)
  then have "Some d \<in> set (file_descriptors u)" by (metis nth_mem)
  then obtain f where "files u (d_file d) = Some f" "d_pos d \<le> f_size f" "cursor_ok d f"
    using assms(1) by (auto simp: ufs_ok_def fds_ok_def fd_ok_def)
  moreover then have "file_ok (heap u) f" using assms(1) storage_okD(3) by (auto simp: ufs_ok_def)
  ultimately show "\<exists>f. files u (d_file d) = Some f \<and> file_ok (heap u) f \<and> d_pos d \<le> f_size f \<and> cursor_ok d f" by blast
qed

lemma cursor_ok_valid: "cursor_ok d f \<Longrightarrow> cursor_valid d f"
  by (auto simp: cursor_ok_def cursor_valid_def)


section \<open>Writing, reading and resizing\<close>

lemma fds_ok_update:
  assumes "fds_ok fs fds" and "fs a = Some f" and "f_refs f' = f_refs f" and "f_deleted f' = f_deleted f"
    and "map (map_option d_file) fds' = map (map_option d_file) fds"
    and "\<And>d. Some d \<in> set fds' \<Longrightarrow> fd_ok (fs(a \<mapsto> f')) d"
  shows "fds_ok (fs(a \<mapsto> f')) fds'"
proof -
  have c: "open_count b fds = length (filter (\<lambda>x. x = Some b) (map (map_option d_file) fds))" for b fds
    by (simp add: open_count_def filter_map o_def)
  have o: "open_count b fds' = open_count b fds" for b unfolding c assms(5) ..
  have old: "f_refs g = int (open_count b fds) \<and> (f_deleted g \<longrightarrow> 0 < f_refs g)" if "fs b = Some g" for b g
    using assms(1) that unfolding fds_ok_def by blast
  have "f_refs g = int (open_count b fds') \<and> (f_deleted g \<longrightarrow> 0 < f_refs g)" if "(fs(a \<mapsto> f')) b = Some g" for b g
    using old [of b] old [OF assms(2)] assms(3,4) that unfolding o by (cases "b = a") auto
  then show ?thesis using assms(6) unfolding fds_ok_def by blast
qed

lemma dir_ok_update:
  assumes "dir_ok fs fl" and "fs a = Some f" and "f_name f' = f_name f" and "f_deleted f' = f_deleted f"
  shows "dir_ok (fs(a \<mapsto> f')) fl" and "abs_dir (fs(a \<mapsto> f')) fl = abs_dir fs fl"
proof -
  have n: "f_name (the ((fs(a \<mapsto> f')) b)) = f_name (the (fs b))" for b using assms(2,3) by simp
  show "abs_dir (fs(a \<mapsto> f')) fl = abs_dir fs fl" by (simp only: abs_dir_def n)
  show "dir_ok (fs(a \<mapsto> f')) fl" using assms unfolding dir_ok_def n by auto
qed

lemma abs_files_update:
  assumes "\<And>b g. fs b = Some g \<Longrightarrow> b \<noteq> a \<Longrightarrow> content h' g = content h g"
  shows "abs_files h' (fs(a \<mapsto> f')) = (abs_files h fs)(a \<mapsto> content h' f')"
  using assms by (auto simp: abs_files_def fun_eq_iff map_option_case split: option.split)

lemma fd_ok_extend:
  assumes "fd_ok fs d" and "fs a = Some f" and "f_size f \<le> f_size f'" and "f_blocks f' = f_blocks f @ new"
  shows "fd_ok (fs(a \<mapsto> f')) d"
  using assms by (auto simp: fd_ok_def cursor_ok_def nth_append intro: le_trans)

lemma same_desc_map:
  "i < length fds \<Longrightarrow> fds ! i = Some d \<Longrightarrow> d_file d' = d_file d \<Longrightarrow> map (map_option d_file) (fds[i := Some d']) = map (map_option d_file) fds"
  by (simp add: map_update list_update_same_conv)

lemma write_storage:
  assumes "storage_ok h fs n" and "fs a = Some f" and "store_ext h f h' f1" and "file_ok h' (grow_size m f1)"
  shows "storage_ok h' (fs(a \<mapsto> grow_size m f1)) n"
    and "fs b = Some g \<Longrightarrow> b \<noteq> a \<Longrightarrow> content h' g = content h g"
proof -
  have x: "mem h' x = mem h x \<and> x \<notin> set (f_blocks (grow_size m f1))" if "mem h x \<noteq> None" "x \<notin> set (f_blocks f)" for x
    using store_ext_other [OF assms(3) storage_okD(1) [OF assms(1)] that(2,1)] by simp
  have y: "x \<in> set (f_blocks (grow_size m f1)) \<or> mem h x \<noteq> None \<and> x \<notin> set (f_blocks f)" if "mem h' x \<noteq> None" for x
    using assms(3) that by (auto simp: store_ext_def)
  show "storage_ok h' (fs(a \<mapsto> grow_size m f1)) n"
    and "fs b = Some g \<Longrightarrow> b \<noteq> a \<Longrightarrow> content h' g = content h g"
    using storage_update [OF assms(1,2,4) x y] by blast+
qed

lemma write_ok:
  assumes "ufs_ok u"
  shows "call_ok u (ufs_exec (Write fd buf) u) (afs_exec (Write fd buf) (abs_ufs u))"
proof (cases "get_fd fd u")
  case None
  then show ?thesis using fail_ok [OF assms] by (simp add: ufs_exec_def afs_exec_def ufs_write_def afs_write_def afs_fd_abs)
next
  case (Some d)
  note g = get_fd_ok [OF assms Some]
  let ?a = "d_file d"
  obtain f where f: "files u ?a = Some f" "file_ok (heap u) f" "d_pos d \<le> f_size f" "cursor_ok d f" using g(1) by blast
  show ?thesis
  proof (cases "d_flags d AND UFS_WRITE_ONLY = 0 \<or> buf = [] \<or> d_pos d + length buf > MAX_FILE_SIZE")
    case True
    then show ?thesis using fail_ok [OF assms] Some assms
      by (auto simp: ufs_exec_def afs_exec_def ufs_write_def afs_write_def afs_fd_abs abs_fd_def call_ok_def
          ufs_fail_def afs_fail_def)
  next
    case False
    define n where "n = d_pos d + length buf"
    obtain b d1 f1 h1 k d2 f2 h2 where w:
      "get_block_by_index d f (heap u) (int (d_pos d div BLOCK_SIZE)) True = Some (Some b, d1, f1, h1)"
      "write_loop buf (d_pos d mod BLOCK_SIZE) b (d_pos d div BLOCK_SIZE) d1 f1 h1 = Some (f_blocks f2 ! k, k, d2, f2, h2)"
      "same_desc d d2" "d_pos d2 = n" "k < length (f_blocks f2)" "BLOCK_SIZE * k < n"
      "store_ext (heap u) f h2 f2" "file_ok h2 (grow_size n f2)"
      "content h2 (grow_size n f2) = put_bytes (d_pos d) buf (content (heap u) f)"
      using write_file_ok [OF f(2) cursor_ok_valid [OF f(4)] f(3), of buf] False unfolding n_def by auto
    let ?f = "grow_size n f2" and ?d = "set_cursor (Some (f_blocks f2 ! k)) (int k) d2"
    define u' where "u' = put_fd fd ?d (u\<lparr>heap := h2, files := (files u)(?a \<mapsto> ?f), errno := UFS_ERR_NO_ERR\<rparr>)"
    have ex: "ufs_exec (Write fd buf) u = Some ((int (length buf), []), u')"
      using False Some f(1) w(1,2,3,4)
      by (auto simp: ufs_exec_def ufs_write_def Let_def u'_def grow_size_def same_desc_def set_cursor_def n_def)
    have meta: "f_refs ?f = f_refs f" "f_deleted ?f = f_deleted f" "f_name ?f = f_name f" "f_size f \<le> f_size ?f"
      "n \<le> f_size ?f"
      using w(7) by (auto simp: store_ext_def same_meta_def)
    obtain new where new: "f_blocks ?f = f_blocks f @ new" using w(7) by (auto simp: store_ext_def)
    have d': "d_file ?d = ?a" "d_pos ?d = n" "d_flags ?d = d_flags d"
      using w(3,4) by (auto simp: set_cursor_def same_desc_def)
    have st: "storage_ok (heap u) (files u) (fresh_file u)" using assms by (simp add: ufs_ok_def)
    note su = write_storage [OF st f(1) w(7,8)]
    have fok: "fds_ok (files u) (file_descriptors u)" using assms by (simp add: ufs_ok_def)
    have "fds_ok ((files u)(?a \<mapsto> ?f)) ((file_descriptors u)[nat (fd - 1) := Some ?d])"
    proof (rule fds_ok_update [OF fok f(1) meta(1,2)])
      show "map (map_option d_file) ((file_descriptors u)[nat (fd - 1) := Some ?d]) = map (map_option d_file) (file_descriptors u)"
        by (rule same_desc_map [OF g(2,3) d'(1)])
      fix e assume "Some e \<in> set ((file_descriptors u)[nat (fd - 1) := Some ?d])"
      then consider "e = ?d" | "Some e \<in> set (file_descriptors u)" by (meson option.inject set_update_subset_insert insertE subsetD)
      then show "fd_ok ((files u)(?a \<mapsto> ?f)) e"
      proof cases
        case 1
        then show ?thesis using d' meta(5) w(5,6) by (auto simp: fd_ok_def cursor_ok_def set_cursor_def)
      next
        case 2
        then have fe: "fd_ok (files u) e" using assms by (auto simp: ufs_ok_def fds_ok_def)
        show ?thesis by (rule fd_ok_extend [OF fe f(1) meta(4) new])
      qed
    qed
    moreover have "dir_ok (files u) (file_list u)" using assms by (simp add: ufs_ok_def)
    note dir = dir_ok_update [OF this f(1) meta(3,2)]
    ultimately have "ufs_ok u'" using su(1) by (simp add: ufs_ok_def u'_def put_fd_def)
    moreover have "afs_exec (Write fd buf) (abs_ufs u) = ((int (length buf), []), abs_ufs u')"
    proof -
      have "abs_files h2 ((files u)(?a \<mapsto> ?f)) = (abs_files (heap u) (files u))(?a \<mapsto> put_bytes (d_pos d) buf (content (heap u) f))"
        using abs_files_update [OF su(2)] w(9) by simp
      then show ?thesis using False Some f(1) dir(2) d'
        by (simp add: afs_exec_def afs_write_def afs_fd_abs abs_fd_def)
          (simp add: abs_ufs_def abs_fd_def u'_def put_fd_def map_update n_def abs_files_def)
    qed
    ultimately show ?thesis using ex by (simp add: call_ok_def)
  qed
qed


text \<open>A descriptor moves inside its file.\<close>

lemma put_fd_ok:
  assumes "ufs_ok u" and "get_fd fd u = Some d" and "d_file d' = d_file d" and "fd_ok (files u) d'"
  shows "ufs_ok (put_fd fd d' u)"
proof -
  note g = get_fd_ok(2,3) [OF assms(1,2)]
  obtain f where f: "files u (d_file d) = Some f" using get_fd_ok(1) [OF assms(1,2)] by blast
  have fok: "fds_ok (files u) (file_descriptors u)" using assms(1) by (simp add: ufs_ok_def)
  have "fds_ok ((files u)(d_file d \<mapsto> f)) ((file_descriptors u)[nat (fd - 1) := Some d'])"
  proof (rule fds_ok_update [OF fok f])
    show "map (map_option d_file) ((file_descriptors u)[nat (fd - 1) := Some d']) = map (map_option d_file) (file_descriptors u)"
      by (rule same_desc_map [OF g assms(3)])
    fix e assume "Some e \<in> set ((file_descriptors u)[nat (fd - 1) := Some d'])"
    then have "e = d' \<or> Some e \<in> set (file_descriptors u)" by (meson option.inject set_update_subset_insert insertE subsetD)
    then show "fd_ok ((files u)(d_file d \<mapsto> f)) e"
      using assms(4) fok f by (auto simp: fds_ok_def fun_upd_idem)
  qed simp_all
  then show ?thesis using assms(1) f by (simp add: ufs_ok_def put_fd_def fun_upd_idem)
qed

lemma read_ok:
  assumes "ufs_ok u" and "0 < sz"
  shows "call_ok u (ufs_exec (Read fd sz) u) (afs_exec (Read fd sz) (abs_ufs u))"
proof (cases "get_fd fd u")
  case None
  then show ?thesis using assms(1)
    by (simp add: ufs_exec_def afs_exec_def ufs_read_def afs_read_def afs_fd_abs call_ok_def ufs_fail_def afs_fail_def)
next
  case (Some d)
  note g = get_fd_ok [OF assms(1) Some]
  obtain f where f: "files u (d_file d) = Some f" "file_ok (heap u) f" "d_pos d \<le> f_size f" "cursor_ok d f" using g(1) by blast
  have c: "afiles (abs_ufs u) (d_file d) = Some (content (heap u) f)" using f(1) by (simp add: abs_ufs_def abs_files_def)
  have same: "(map (map_option abs_fd) (file_descriptors u))[nat (fd - 1) := Some (abs_fd d)] = map (map_option abs_fd) (file_descriptors u)"
    using g(2,3) by (simp add: list_update_same_conv)
  consider "d_flags d AND UFS_READ_ONLY = 0" | "d_flags d AND UFS_READ_ONLY \<noteq> 0" "d_pos d \<ge> f_size f"
    | "d_flags d AND UFS_READ_ONLY \<noteq> 0" "d_pos d < f_size f" by linarith
  then show ?thesis
  proof cases
    case 1
    then show ?thesis using assms(1) Some
      by (simp add: ufs_exec_def afs_exec_def ufs_read_def afs_read_def afs_fd_abs abs_fd_def call_ok_def ufs_fail_def afs_fail_def)
  next
    case 2
    then show ?thesis using assms(1) Some f c same
      by (simp add: ufs_exec_def afs_exec_def ufs_read_def afs_read_def afs_fd_abs abs_fd_def call_ok_def)
        (simp add: abs_ufs_def)
  next
    case 3
    define n where "n = min sz (f_size f - d_pos d)"
    let ?s = "take sz (drop (d_pos d) (content (heap u) f))"
    obtain b d1 k d2 where r: "get_block_by_index d f (heap u) (int (d_pos d div BLOCK_SIZE)) False = Some (Some b, d1, f, heap u)"
      "read_loop n [] (d_pos d mod BLOCK_SIZE) b (d_pos d div BLOCK_SIZE) d1 f (heap u) = Some (?s, f_blocks f ! k, k, d2)"
      "same_desc d d2" "d_pos d2 = d_pos d + n" "k < length (f_blocks f)" "BLOCK_SIZE * k < d_pos d + n"
      using read_file_ok [OF f(2) cursor_ok_valid [OF f(4)] 3(2) assms(2)] unfolding n_def by blast
    let ?d = "set_cursor (Some (f_blocks f ! k)) (int k) d2"
    have s: "length ?s = n" using f(2) by (simp add: n_def)
    have ex: "ufs_exec (Read fd sz) u = Some ((int n, ?s), put_fd fd ?d (u\<lparr>errno := UFS_ERR_NO_ERR\<rparr>))"
      using 3 Some f(1) r(1,2) s by (simp add: ufs_exec_def ufs_read_def n_def Let_def)
    have d': "d_file ?d = d_file d" "d_pos ?d = d_pos d + n" "d_flags ?d = d_flags d"
      using r(3,4) by (auto simp: set_cursor_def same_desc_def)
    have "d_pos d + n \<le> f_size f" using f(3) by (simp add: n_def)
    then have fd: "fd_ok (files u) ?d" using f(1) d' r(5,6) by (auto simp: fd_ok_def cursor_ok_def set_cursor_def)
    have "ufs_ok (put_fd fd ?d (u\<lparr>errno := UFS_ERR_NO_ERR\<rparr>))"
      using put_fd_ok [of "u\<lparr>errno := UFS_ERR_NO_ERR\<rparr>" fd d ?d] assms(1) Some d'(1) fd by simp
    moreover have "afs_exec (Read fd sz) (abs_ufs u) = ((int n, ?s), abs_ufs (put_fd fd ?d (u\<lparr>errno := UFS_ERR_NO_ERR\<rparr>)))"
      using 3(1) Some c s d'
      by (simp add: afs_exec_def afs_read_def afs_fd_abs abs_fd_def Let_def) (simp add: abs_ufs_def put_fd_def map_update abs_fd_def)
    ultimately show ?thesis using ex by (simp add: call_ok_def)
  qed
qed


text \<open>All three directions of a resize, as one fact on the file and its blocks.\<close>

lemma resize_file_ok:
  assumes "file_ok h f" and "n \<le> MAX_FILE_SIZE"
  shows "\<exists>f' h'. resize_blocks n f h = Some (f', h') \<and> same_meta f f' \<and>
     (\<forall>x. mem h x \<noteq> None \<longrightarrow> x \<notin> set (f_blocks f) \<longrightarrow> mem h' x = mem h x \<and> x \<notin> set (f_blocks f')) \<and>
     (\<forall>x. mem h' x \<noteq> None \<longrightarrow> x \<in> set (f_blocks f') \<or> mem h x \<noteq> None \<and> x \<notin> set (f_blocks f)) \<and>
     (\<forall>k < min (length (f_blocks f)) (blocks_for n). k < length (f_blocks f') \<and> f_blocks f' ! k = f_blocks f ! k) \<and>
     file_ok h' (f'\<lparr>f_size := n\<rparr>) \<and> content h' (f'\<lparr>f_size := n\<rparr>) = resized n (content h f)"
proof -
  have hf: "heap_fresh h" using assms(1) by (simp add: file_ok_def store_ok_def)
  consider "f_size f < n" | "f_size f = n" | "n < f_size f" by linarith
  then show ?thesis
  proof cases
    case 1
    obtain f' h' where r: "resize_blocks n f h = Some (f', h')" "store_ext h f h' f'"
      "file_ok h' (f'\<lparr>f_size := n\<rparr>)" "content h' (f'\<lparr>f_size := n\<rparr>) = resized n (content h f)"
      using grow_file_ok [OF assms(1) 1 assms(2)] by blast
    have "x \<in> set (f_blocks f') \<or> mem h x \<noteq> None \<and> x \<notin> set (f_blocks f)" if "mem h' x \<noteq> None" for x
      using r(2) that by (auto simp: store_ext_def)
    moreover have "same_meta f f'" "\<exists>new. f_blocks f' = f_blocks f @ new" using r(2) by (auto simp: store_ext_def)
    ultimately show ?thesis using r store_ext_other [OF r(2) hf]
      by (intro exI [of _ f'] exI [of _ h']) (auto simp: nth_append)
  next
    case 2
    then have "f\<lparr>f_size := n\<rparr> = f" by (cases f) simp
    moreover have "resized n (content h f) = content h f" using 2 assms(1) by (simp add: resized_def)
    moreover have "mem h x \<noteq> None" if "x \<in> set (f_blocks f)" for x
      using assms(1) that by (auto simp: file_ok_def store_ok_def blocks_live_def)
    ultimately show ?thesis using assms(1) 2
      by (intro exI [of _ f] exI [of _ h]) (auto simp: resize_blocks_def)
  next
    case 3
    obtain f' h' where r: "resize_blocks n f h = Some (f', h')" "same_meta f f'"
      "f_blocks f' = take (blocks_for n) (f_blocks f)" "\<forall>b. b \<notin> set (f_blocks f) \<longrightarrow> mem h' b = mem h b"
      "\<forall>b. b \<in> set (f_blocks f) \<longrightarrow> b \<notin> set (f_blocks f') \<longrightarrow> mem h' b = None"
      "file_ok h' (f'\<lparr>f_size := n\<rparr>)" "content h' (f'\<lparr>f_size := n\<rparr>) = resized n (content h f)"
      using shrink_file_ok [OF assms(1) 3] by blast
    moreover have "x \<notin> set (f_blocks f) \<Longrightarrow> x \<notin> set (f_blocks f')" for x using r(3) in_set_takeD by metis
    moreover have "x \<in> set (f_blocks f') \<or> mem h x \<noteq> None \<and> x \<notin> set (f_blocks f)" if "mem h' x \<noteq> None" for x
      using r(4,5) that by metis
    ultimately show ?thesis by (intro exI [of _ f'] exI [of _ h']) simp
  qed
qed

definition clamp_fd :: "addr \<Rightarrow> nat \<Rightarrow> filedesc \<Rightarrow> filedesc" where
  "clamp_fd a n d = (if d_file d = a \<and> d_pos d > n then set_cursor None (-1) (d\<lparr>d_pos := n\<rparr>) else d)"

lemma clamp_fd_simps [simp]:
  "d_file (clamp_fd a n d) = d_file d" "abs_fd (clamp_fd a n d) = afs_clamp a n (abs_fd d)"
  by (auto simp: clamp_fd_def set_cursor_def abs_fd_def afs_clamp_def)

lemma clamp_positions_map: "clamp_positions a n fds = map (map_option (clamp_fd a n)) fds"
  by (simp add: clamp_positions_def clamp_fd_def [abs_def])

lemma clamp_fd_ok:
  assumes "fd_ok fs d" and "fs a = Some f" and "f_size f' = n"
    and "\<And>k. k < length (f_blocks f) \<Longrightarrow> k < blocks_for n \<Longrightarrow> k < length (f_blocks f') \<and> f_blocks f' ! k = f_blocks f ! k"
  shows "fd_ok (fs(a \<mapsto> f')) (clamp_fd a n d)"
proof (cases "d_file d = a \<and> d_pos d \<le> n")
  case True
  have "k < blocks_for n" if "BLOCK_SIZE * k < d_pos d" for k
  proof -
    have "BLOCK_SIZE * k < BLOCK_SIZE * blocks_for n" using that True blocks_for_bounds(1) [of n] by linarith
    then show ?thesis by (metis mult_less_cancel1)
  qed
  then show ?thesis using assms True by (fastforce simp: fd_ok_def cursor_ok_def clamp_fd_def)
qed (use assms in \<open>auto simp: fd_ok_def cursor_ok_def clamp_fd_def set_cursor_def\<close>)

lemma resize_ok:
  assumes "ufs_ok u"
  shows "call_ok u (ufs_exec (Resize fd n) u) (afs_exec (Resize fd n) (abs_ufs u))"
proof (cases "get_fd fd u")
  case None
  then show ?thesis using fail_ok [OF assms] by (simp add: ufs_exec_def afs_exec_def ufs_resize_def afs_resize_def afs_fd_abs)
next
  case (Some d)
  let ?a = "d_file d"
  obtain f where f: "files u ?a = Some f" "file_ok (heap u) f" using get_fd_ok(1) [OF assms Some] by blast
  show ?thesis
  proof (cases "d_flags d AND UFS_WRITE_ONLY = 0 \<or> n > MAX_FILE_SIZE")
    case True
    then show ?thesis using assms Some
      by (auto simp: ufs_exec_def afs_exec_def ufs_resize_def afs_resize_def afs_fd_abs abs_fd_def call_ok_def
          ufs_fail_def afs_fail_def)
  next
    case False
    then obtain f1 h' where r: "resize_blocks n f (heap u) = Some (f1, h')" "same_meta f f1"
      "\<And>x. mem (heap u) x \<noteq> None \<Longrightarrow> x \<notin> set (f_blocks f) \<Longrightarrow> mem h' x = mem (heap u) x \<and> x \<notin> set (f_blocks (f1\<lparr>f_size := n\<rparr>))"
      "\<And>x. mem h' x \<noteq> None \<Longrightarrow> x \<in> set (f_blocks (f1\<lparr>f_size := n\<rparr>)) \<or> mem (heap u) x \<noteq> None \<and> x \<notin> set (f_blocks f)"
      "\<And>k. k < length (f_blocks f) \<Longrightarrow> k < blocks_for n \<Longrightarrow>
         k < length (f_blocks (f1\<lparr>f_size := n\<rparr>)) \<and> f_blocks (f1\<lparr>f_size := n\<rparr>) ! k = f_blocks f ! k"
      "file_ok h' (f1\<lparr>f_size := n\<rparr>)" "content h' (f1\<lparr>f_size := n\<rparr>) = resized n (content (heap u) f)"
      using resize_file_ok [OF f(2), of n] by auto
    define f' where "f' = f1\<lparr>f_size := n\<rparr>"
    note r' = r(3-7) [folded f'_def]
    have meta: "f_refs f' = f_refs f" "f_deleted f' = f_deleted f" "f_name f' = f_name f" "f_size f' = n"
      using r(2) by (auto simp: f'_def same_meta_def)
    have ok: "storage_ok (heap u) (files u) (fresh_file u)" "dir_ok (files u) (file_list u)"
      "fds_ok (files u) (file_descriptors u)" using assms by (auto simp: ufs_ok_def)
    note su = storage_update [OF ok(1) f(1) r'(4) r'(1,2)]
    note dir = dir_ok_update [OF ok(2) f(1) meta(3,2)]
    define u' where "u' = u\<lparr>heap := h', files := (files u)(?a \<mapsto> f'),
        file_descriptors := clamp_positions ?a n (file_descriptors u), errno := UFS_ERR_NO_ERR\<rparr>"
    have ex: "ufs_exec (Resize fd n) u = Some ((0, []), u')"
      using False Some f(1) r(1) by (simp add: ufs_exec_def ufs_resize_def u'_def f'_def)
    have "fds_ok ((files u)(?a \<mapsto> f')) (clamp_positions ?a n (file_descriptors u))"
    proof (rule fds_ok_update [OF ok(3) f(1) meta(1,2)])
      show "map (map_option d_file) (clamp_positions ?a n (file_descriptors u)) = map (map_option d_file) (file_descriptors u)"
        by (simp add: clamp_positions_map option.map_comp o_def)
      fix e assume "Some e \<in> set (clamp_positions ?a n (file_descriptors u))"
      then obtain e' where e: "e = clamp_fd ?a n e'" "Some e' \<in> set (file_descriptors u)"
        by (auto simp: clamp_positions_map map_option_case split: option.splits)
      then have e': "fd_ok (files u) e'" using ok(3) by (auto simp: fds_ok_def)
      show "fd_ok ((files u)(?a \<mapsto> f')) e"
        unfolding e(1) by (rule clamp_fd_ok [OF e' f(1) meta(4) r'(3)])
    qed
    then have "ufs_ok u'" using su(1) dir(1) by (simp add: ufs_ok_def u'_def)
    moreover have "afs_exec (Resize fd n) (abs_ufs u) = ((0, []), abs_ufs u')"
    proof -
      have "abs_files h' ((files u)(?a \<mapsto> f')) = (abs_files (heap u) (files u))(?a \<mapsto> resized n (content (heap u) f))"
        using abs_files_update [OF su(2)] r'(5) by simp
      then show ?thesis using False Some f(1) dir(2)
        by (simp add: afs_exec_def afs_resize_def afs_fd_abs abs_fd_def)
          (simp add: abs_ufs_def u'_def abs_files_def clamp_positions_map option.map_comp o_def)
    qed
    ultimately show ?thesis using ex by (simp add: call_ok_def)
  qed
qed

section \<open>Opening, closing and deleting\<close>

lemma find_file_abs:
  "\<forall>a \<in> set fl. \<exists>f. fs a = Some f \<and> \<not> f_deleted f \<Longrightarrow> find_file fs n fl = Some (abs_dir fs fl n)"
  by (induction fl) (auto simp: abs_dir_def)

lemma find_file_by_name_abs: "ufs_ok u \<Longrightarrow> find_file_by_name n u = Some (abs_dir (files u) (file_list u) n)"
  unfolding find_file_by_name_def by (rule find_file_abs) (auto simp: ufs_ok_def dir_ok_def)

lemma abs_dir_Some: "abs_dir fs fl n = Some a \<Longrightarrow> a \<in> set fl \<and> f_name (the (fs a)) = n"
  unfolding abs_dir_def by (drule map_of_SomeD) auto

lemma ran_abs_dir: "dir_ok fs fl \<Longrightarrow> ran (abs_dir fs fl) = set fl"
  unfolding abs_dir_def by (subst ran_distinct) (simp_all add: dir_ok_def distinct_map o_def image_image)

lemma store_fd_map: "store_fd (g d) (map (map_option g) fds) = (let (i, fds') = store_fd d fds in (i, map (map_option g) fds'))"
  by (induction fds) (auto split: option.split prod.split)

lemma store_fd_set: "store_fd d fds = (i, fds') \<Longrightarrow> set fds' \<subseteq> insert (Some d) (set fds)"
  by (induction fds arbitrary: i fds') (auto split: option.splits prod.splits)

lemma open_count_Cons [simp]: "open_count a (x # fds) = (if map_option d_file x = Some a then 1 else 0) + open_count a fds"
  by (simp add: open_count_def)

lemma open_count_store: "store_fd d fds = (i, fds') \<Longrightarrow> open_count a fds' = open_count a fds + (if d_file d = a then 1 else 0)"
proof (induction fds arbitrary: i fds')
  case Nil
  then show ?case by (auto simp: open_count_def)
next
  case (Cons x fds)
  then show ?case by (cases x; cases "store_fd d fds") auto
qed

lemma open_count_0: "open_count a fds = 0 \<longleftrightarrow> (\<forall>d. Some d \<in> set fds \<longrightarrow> d_file d \<noteq> a)"
  by (auto simp: open_count_def filter_empty_conv)

lemma open_count_close:
  "i < length fds \<Longrightarrow> fds ! i = Some d \<Longrightarrow> open_count a fds = open_count a (fds[i := None]) + (if d_file d = a then 1 else 0)"
proof (induction fds arbitrary: i)
  case (Cons x fds)
  then show ?case by (cases i) auto
qed simp

lemma abs_new_fd [simp]: "abs_fd (new_filedesc a fl) = (a, 0, fl)"
  by (simp add: abs_fd_def new_filedesc_def)

lemma new_fd_ok: "fs a = Some f \<Longrightarrow> fd_ok fs (new_filedesc a fl)"
  by (simp add: fd_ok_def new_filedesc_def cursor_ok_def)

text \<open>Adding a descriptor for a file whose count goes up by one.\<close>

lemma fds_ok_open:
  assumes "fds_ok fs fds" and "store_fd (new_filedesc a fl) fds = (i, fds')"
    and "\<And>b. b \<noteq> a \<Longrightarrow> fs' b = fs b" and "fs' a = Some f'" and "\<not> f_deleted f'"
    and "f_refs f' = int (open_count a fds) + 1"
    and "\<And>d. Some d \<in> set fds \<Longrightarrow> d_file d = a \<Longrightarrow> fd_ok fs' d"
  shows "fds_ok fs' fds'"
proof -
  have d: "fd_ok fs' d" if "Some d \<in> set fds'" for d
  proof -
    have "d = new_filedesc a fl \<or> Some d \<in> set fds" using store_fd_set [OF assms(2)] that by auto
    moreover have "fd_ok fs' d" if "Some d \<in> set fds" "d_file d \<noteq> a"
      using assms(1,3) that by (auto simp: fds_ok_def fd_ok_def)
    ultimately show ?thesis using new_fd_ok [of fs' a f' fl] assms(4,7) by blast
  qed
  have "f_refs g = int (open_count b fds') \<and> (f_deleted g \<longrightarrow> 0 < f_refs g)" if "fs' b = Some g" for b g
  proof (cases "b = a")
    case True
    then show ?thesis using that assms(4,5,6) open_count_store [OF assms(2), of a] by (simp add: new_filedesc_def)
  next
    case False
    then have "f_refs g = int (open_count b fds)" "f_deleted g \<longrightarrow> 0 < f_refs g"
      using assms(1) assms(3) [OF False] that unfolding fds_ok_def by metis+
    then show ?thesis using False open_count_store [OF assms(2), of b] by (simp add: new_filedesc_def)
  qed
  then show ?thesis using d unfolding fds_ok_def by blast
qed

lemma storage_new:
  assumes "storage_ok h fs n"
  shows "storage_ok h (fs(n \<mapsto> new_file nm)) (Suc n)" and "abs_files h (fs(n \<mapsto> new_file nm)) = (abs_files h fs)(n \<mapsto> [])"
proof -
  have new: "file_ok h (new_file nm)" "f_blocks (new_file nm) = []"
    using storage_okD(1) [OF assms] by (auto simp: file_ok_def store_ok_def new_file_def zero_from_def)
  have "fs n = None" using storage_okD(2) [OF assms] by (metis less_irrefl not_Some_eq)
  then have own: "\<exists>a f. (fs(n \<mapsto> new_file nm)) a = Some f \<and> x \<in> set (f_blocks f)" if "mem h x \<noteq> None" for x
    using storage_okD(5) [OF assms that] by (metis fun_upd_other option.distinct(1))
  have "a < Suc n \<and> file_ok h f" if "(fs(n \<mapsto> new_file nm)) a = Some f" for a f
    using storage_okD(2,3) [OF assms] new(1) that by (auto simp: less_Suc_eq split: if_splits)
  moreover have "set (f_blocks f) \<inter> set (f_blocks g) = {}"
    if "(fs(n \<mapsto> new_file nm)) a = Some f" "(fs(n \<mapsto> new_file nm)) b = Some g" "a \<noteq> b" for a b f g
    using storage_okD(4) [OF assms, of a f b g] new(2) that by (auto split: if_splits)
  ultimately show "storage_ok h (fs(n \<mapsto> new_file nm)) (Suc n)"
    unfolding storage_ok_def using storage_okD(1) [OF assms] own by blast
  show "abs_files h (fs(n \<mapsto> new_file nm)) = (abs_files h fs)(n \<mapsto> [])"
    using abs_files_update [of fs n h h "new_file nm"] by (simp add: content_def new(2))
qed

lemma dir_new:
  assumes "dir_ok fs fl" and "fs a = None" and "abs_dir fs fl n = None"
  shows "dir_ok (fs(a \<mapsto> new_file n)) (fl @ [a])" and "abs_dir (fs(a \<mapsto> new_file n)) (fl @ [a]) = (abs_dir fs fl)(n \<mapsto> a)"
proof -
  have a: "a \<notin> set fl" using assms(1,2) by (auto simp: dir_ok_def)
  have nn: "f_name (the (fs b)) \<noteq> n" if "b \<in> set fl" for b
    using assms(3) that unfolding abs_dir_def map_of_eq_None_iff by (auto simp: image_image)
  have same: "f_name (the ((fs(a \<mapsto> new_file n)) b)) = f_name (the (fs b))" if "b \<in> set fl" for b using a that by auto
  have m: "map (\<lambda>b. (f_name (the ((fs(a \<mapsto> new_file n)) b)), b)) fl = map (\<lambda>b. (f_name (the (fs b)), b)) fl"
    by (simp only: same cong: map_cong)
  show "abs_dir (fs(a \<mapsto> new_file n)) (fl @ [a]) = (abs_dir fs fl)(n \<mapsto> a)"
    using assms(3) unfolding abs_dir_def map_append m
    by (auto simp: fun_eq_iff new_file_def map_add_def split: option.split)
  have "inj_on (\<lambda>b. f_name (the (fs b))) (set fl)" using assms(1) by (simp add: dir_ok_def)
  then have "inj_on (\<lambda>b. f_name (the ((fs(a \<mapsto> new_file n)) b))) (set (fl @ [a]))"
    using a nn by (auto simp: inj_on_def new_file_def)
  then show "dir_ok (fs(a \<mapsto> new_file n)) (fl @ [a])"
    using assms(1,2) a unfolding dir_ok_def by (auto simp: new_file_def)
qed

lemma open_ok:
  assumes "ufs_ok u"
  shows "call_ok u (ufs_exec (Open fname fl) u) (afs_exec (Open fname fl) (abs_ufs u))"
proof (cases fname)
  case None
  then show ?thesis using fail_ok [OF assms] by (simp add: ufs_exec_def afs_exec_def ufs_open_def afs_open_def)
next
  case (Some n)
  have ok: "storage_ok (heap u) (files u) (fresh_file u)" "dir_ok (files u) (file_list u)"
    "fds_ok (files u) (file_descriptors u)" using assms by (auto simp: ufs_ok_def)
  define fl' where "fl' = (if fl AND UFS_READ_WRITE = 0 then fl OR UFS_READ_WRITE else fl)"
  have fl': "fl' = (if fl AND (UFS_READ_ONLY OR UFS_WRITE_ONLY OR UFS_READ_WRITE) = 0 then fl OR UFS_READ_WRITE else fl)"
    by (simp add: fl'_def UFS_READ_ONLY_def UFS_WRITE_ONLY_def UFS_READ_WRITE_def)
  note find = find_file_by_name_abs [OF assms, of n]
  have put: "store_fd (a, 0, fl') (map (map_option abs_fd) (file_descriptors u)) = (i, map (map_option abs_fd) fds')"
    if "store_fd (new_filedesc a fl') (file_descriptors u) = (i, fds')" for a i fds'
    using store_fd_map [of abs_fd "new_filedesc a fl'" "file_descriptors u"] that by simp
  show ?thesis
  proof (cases "abs_dir (files u) (file_list u) n")
    case None
    show ?thesis
    proof (cases "fl' AND UFS_CREATE = 0")
      case True
      then show ?thesis using Some None find fail_ok [OF assms]
        by (simp add: ufs_exec_def afs_exec_def ufs_open_def afs_open_def fl'_def [symmetric] fl' [symmetric] Let_def open_file_def abs_ufs_def afs_fail_def ufs_fail_def call_ok_def)
    next
      case False
      let ?a = "fresh_file u"
      let ?fs = "(files u)(?a \<mapsto> new_file n)"
      obtain i fds' where s: "store_fd (new_filedesc ?a fl') (file_descriptors u) = (i, fds')" by force
      define u' where "u' = u\<lparr>files := ?fs, fresh_file := Suc ?a, file_list := file_list u @ [?a],
          file_descriptors := fds', errno := UFS_ERR_NO_ERR\<rparr>"
      have ex: "ufs_exec (Open fname fl) u = Some ((int i + 1, []), u')"
        using Some None find False s
        by (simp add: ufs_exec_def ufs_open_def fl' [symmetric] Let_def open_file_def u'_def)
      have new: "files u ?a = None" using storage_okD(2) [OF ok(1)] by (metis less_irrefl not_Some_eq)
      note st = storage_new [OF ok(1), of n] and dir = dir_new [OF ok(2) new None]
      have no: "d_file d \<noteq> ?a" if "Some d \<in> set (file_descriptors u)" for d
        using ok(3) new that by (auto simp: fds_ok_def fd_ok_def)
      then have "fds_ok ?fs fds'"
        using fds_ok_open [OF ok(3) s, of ?fs "new_file n"] open_count_0 [of ?a "file_descriptors u"] by (auto simp: new_file_def)
      then have "ufs_ok u'" using st(1) dir(1) by (simp add: ufs_ok_def u'_def)
      moreover have "afs_exec (Open fname fl) (abs_ufs u) = ((int i + 1, []), abs_ufs u')"
        using Some None False put [OF s] st(2) dir(2)
        by (simp add: afs_exec_def afs_open_def fl'_def [symmetric] Let_def abs_ufs_def u'_def)
      ultimately show ?thesis using ex by (simp add: call_ok_def)
    qed
  next
    case F: (Some a)
    then obtain f where f: "files u a = Some f" "\<not> f_deleted f"
      using abs_dir_Some [OF F] ok(2) by (auto simp: dir_ok_def)
    let ?f = "f\<lparr>f_refs := f_refs f + 1, f_deleted := False\<rparr>"
    obtain i fds' where s: "store_fd (new_filedesc a fl') (file_descriptors u) = (i, fds')" by force
    define u' where "u' = u\<lparr>files := (files u)(a \<mapsto> ?f), file_descriptors := fds', errno := UFS_ERR_NO_ERR\<rparr>"
    have ex: "ufs_exec (Open fname fl) u = Some ((int i + 1, []), u')"
      using Some F find f(1) s by (simp add: ufs_exec_def ufs_open_def fl' [symmetric] Let_def open_file_def u'_def)
    have st: "file_ok (heap u) ?f" "content (heap u) ?f = content (heap u) f"
      using storage_okD(3) [OF ok(1) f(1)] by (auto simp: file_ok_def store_ok_def content_def)
    have "storage_ok (heap u) ((files u)(a \<mapsto> ?f)) (fresh_file u)"
      using storage_update(1) [OF ok(1) f(1) st(1)] storage_okD(6) [OF ok(1) f(1)] by auto
    moreover note dir = dir_ok_update [OF ok(2) f(1), of ?f]
    moreover have "fds_ok ((files u)(a \<mapsto> ?f)) fds'"
    proof (rule fds_ok_open [OF ok(3) s])
      show "f_refs ?f = int (open_count a (file_descriptors u)) + 1" using ok(3) f(1) by (auto simp: fds_ok_def)
      show "fd_ok ((files u)(a \<mapsto> ?f)) d" if "Some d \<in> set (file_descriptors u)" "d_file d = a" for d
        using ok(3) that f(1) by (auto simp: fds_ok_def fd_ok_def cursor_ok_def)
    qed auto
    ultimately have "ufs_ok u'" using f(2) by (simp add: ufs_ok_def u'_def)
    moreover have "afs_exec (Open fname fl) (abs_ufs u) = ((int i + 1, []), abs_ufs u')"
    proof -
      have "abs_files (heap u) ((files u)(a \<mapsto> ?f)) = abs_files (heap u) (files u)"
        using abs_files_update [of "files u" a "heap u" "heap u" ?f] st(2) f(1) by (simp add: fun_upd_idem abs_files_def)
      then show ?thesis using Some F put [OF s] dir(2) f(2)
        by (simp add: afs_exec_def afs_open_def fl'_def [symmetric] Let_def abs_ufs_def u'_def)
    qed
    ultimately show ?thesis using ex by (simp add: call_ok_def)
  qed
qed


definition without_blocks :: "addr list \<Rightarrow> block_heap \<Rightarrow> block_heap" where
  "without_blocks bs h = h\<lparr>mem := (\<lambda>b. if b \<in> set bs then None else mem h b)\<rparr>"

lemma free_blocks_ok:
  "distinct bs \<Longrightarrow> \<forall>b \<in> set bs. mem h b \<noteq> None \<Longrightarrow>
     free_blocks bs h = Some (without_blocks bs h)"
proof (induction bs arbitrary: h)
  case (Cons b bs)
  let ?h = "h\<lparr>mem := (mem h)(b := None)\<rparr>"
  have "free_blocks bs ?h = Some (without_blocks bs ?h)"
    using Cons.prems by (intro Cons.IH) auto
  moreover have E: "(\<lambda>x. if x \<in> set bs then None else mem ?h x) = (\<lambda>x. if x \<in> set (b # bs) then None else mem h x)"
    by auto
  moreover obtain m where "mem h b = Some m" using Cons.prems(2) by auto
  ultimately show ?case by (simp add: without_blocks_def [of _ h] without_blocks_def [of bs ?h, unfolded E])
qed (simp add: without_blocks_def)

text \<open>Deleting a file whose descriptors are all closed.\<close>

lemma reset_cursors_none: "open_count a fds = 0 \<Longrightarrow> reset_cursors a fds = fds"
proof -
  assume o: "open_count a fds = 0"
  have "map_option (\<lambda>d. if d_file d = a then set_cursor None (-1) d else d) x = x" if "x \<in> set fds" for x
    using o that by (cases x) (auto simp: open_count_0)
  then show ?thesis unfolding reset_cursors_def by (rule map_idI)
qed

lemma delete_storage:
  assumes "storage_ok h fs n" and "fs a = Some f"
  defines "h' \<equiv> without_blocks (f_blocks f) h"
  shows "free_blocks (f_blocks f) h = Some h'" and "storage_ok h' (fs(a := None)) n"
    and "abs_files h' (fs(a := None)) = (abs_files h fs)(a := None)"
proof -
  have f: "distinct (f_blocks f)" using storage_okD(3) [OF assms(1,2)] by (simp add: file_ok_def store_ok_def)
  show "free_blocks (f_blocks f) h = Some h'"
    unfolding h'_def using f storage_okD(6) [OF assms(1,2)] by (intro free_blocks_ok) auto
  have hf: "heap_fresh h'" using storage_okD(1) [OF assms(1)] by (auto simp: heap_fresh_def h'_def without_blocks_def)
  have g: "file_ok h' g" "content h' g = content h g" if "fs b = Some g" "b \<noteq> a" for b g
  proof -
    have "mem h' x = mem h x" if "x \<in> set (f_blocks g)" for x
      using storage_okD(4) [OF assms(1) \<open>fs b = Some g\<close> assms(2) \<open>b \<noteq> a\<close> that] by (simp add: h'_def without_blocks_def)
    then show "file_ok h' g" "content h' g = content h g"
      using file_ok_cong [OF hf _ storage_okD(3) [OF assms(1) \<open>fs b = Some g\<close>]] by blast+
  qed
  show "abs_files h' (fs(a := None)) = (abs_files h fs)(a := None)"
    using g(2) by (auto simp: abs_files_def fun_eq_iff map_option_case split: option.split)
  have own: "\<exists>b g. (fs(a := None)) b = Some g \<and> x \<in> set (f_blocks g)" if x: "mem h' x \<noteq> None" for x
  proof -
    have x': "mem h x \<noteq> None" "x \<notin> set (f_blocks f)" using x by (auto simp: h'_def without_blocks_def split: if_splits)
    then obtain b g where "fs b = Some g" "x \<in> set (f_blocks g)" using storage_okD(5) [OF assms(1)] by blast
    moreover then have "b \<noteq> a" using x'(2) assms(2) by auto
    ultimately show ?thesis by (metis fun_upd_other)
  qed
  have "b < n \<and> file_ok h' g" if "(fs(a := None)) b = Some g" for b g
    using storage_okD(2) [OF assms(1)] g(1) that by (auto split: if_splits)
  moreover have "set (f_blocks g) \<inter> set (f_blocks g') = {}"
    if "(fs(a := None)) b = Some g" "(fs(a := None)) c = Some g'" "b \<noteq> c" for b c g g'
    using storage_okD(4) [OF assms(1), of b g c g'] that by (auto split: if_splits)
  ultimately show "storage_ok h' (fs(a := None)) n" unfolding storage_ok_def using hf own by blast
qed

lemma delete_file_eq:
  assumes "storage_ok (heap u) (files u) n" and "files u a = Some f" and "open_count a (file_descriptors u) = 0"
  shows "delete_file a u = Some (u\<lparr>heap := without_blocks (f_blocks f) (heap u),
     files := (files u)(a := None)\<rparr>)"
  using delete_storage(1) [OF assms(1,2)] assms(2) reset_cursors_none [OF assms(3)]
  by (simp add: delete_file_def free_file_blocks_def)

lemma in_dir_iff:
  assumes "dir_ok fs fl" and "fs a = Some f"
  shows "a \<in> ran (abs_dir fs fl) \<longleftrightarrow> \<not> f_deleted f"
  unfolding ran_abs_dir [OF assms(1)] using assms by (auto simp: dir_ok_def)

lemma open_iff: "Some a \<in> set (map (map_option fst) (map (map_option abs_fd) fds)) \<longleftrightarrow> open_count a fds \<noteq> 0"
  by (force simp: open_count_0 abs_fd_def image_iff map_option_case split: option.splits)

lemma close_ok:
  assumes "ufs_ok u"
  shows "call_ok u (ufs_exec (Close fd) u) (afs_exec (Close fd) (abs_ufs u))"
proof (cases "get_fd fd u")
  case None
  then show ?thesis using fail_ok [OF assms] by (simp add: ufs_exec_def afs_exec_def ufs_close_def afs_close_def afs_fd_abs)
next
  case (Some d)
  let ?a = "d_file d" and ?fds = "(file_descriptors u)[nat (fd - 1) := None]"
  note g = get_fd_ok [OF assms Some]
  obtain f where f: "files u ?a = Some f" "file_ok (heap u) f" using g(1) by blast
  have ok: "storage_ok (heap u) (files u) (fresh_file u)" "dir_ok (files u) (file_list u)"
    "fds_ok (files u) (file_descriptors u)" using assms by (auto simp: ufs_ok_def)
  define f' where "f' = f\<lparr>f_refs := f_refs f - 1\<rparr>"
  have oc: "open_count b (file_descriptors u) = open_count b ?fds + (if ?a = b then 1 else 0)" for b
    by (rule open_count_close [OF g(2,3)])
  have refs: "f_refs f' = int (open_count ?a ?fds)" using ok(3) f(1) oc [of ?a] by (auto simp: fds_ok_def f'_def)
  have st0: "file_ok (heap u) f'" "content (heap u) f' = content (heap u) f" "f_blocks f' = f_blocks f"
    using f(2) by (auto simp: f'_def file_ok_def store_ok_def content_def)
  have st: "storage_ok (heap u) ((files u)(?a \<mapsto> f')) (fresh_file u)"
    using storage_update(1) [OF ok(1) f(1) st0(1)] storage_okD(6) [OF ok(1) f(1)] st0(3) by auto
  have af: "abs_files (heap u) ((files u)(?a \<mapsto> f')) = abs_files (heap u) (files u)"
    using abs_files_update [of "files u" ?a "heap u" "heap u" f'] st0(2) f(1) by (simp add: fun_upd_idem abs_files_def)
  have dir: "dir_ok ((files u)(?a \<mapsto> f')) (file_list u)" "abs_dir ((files u)(?a \<mapsto> f')) (file_list u) = abs_dir (files u) (file_list u)"
    using dir_ok_update [OF ok(2) f(1), of f'] by (auto simp: f'_def)
  have others: "fd_ok ((files u)(?a \<mapsto> f')) e" if "Some e \<in> set ?fds" for e
  proof -
    have "Some e \<in> set (file_descriptors u)" using that set_update_subset_insert [of "file_descriptors u" "nat (fd - 1)" None] by blast
    then have "fd_ok (files u) e" using ok(3) by (auto simp: fds_ok_def)
    then show ?thesis using f(1) by (auto simp: fd_ok_def cursor_ok_def f'_def)
  qed
  have counts: "f_refs h = int (open_count b ?fds) \<and> (b \<noteq> ?a \<longrightarrow> f_deleted h \<longrightarrow> 0 < f_refs h)"
    if "((files u)(?a \<mapsto> f')) b = Some h" for b h
  proof (cases "b = ?a")
    case False
    then have "files u b = Some h" using that by simp
    then have "f_refs h = int (open_count b (file_descriptors u)) \<and> (f_deleted h \<longrightarrow> 0 < f_refs h)"
      using ok(3) unfolding fds_ok_def by blast
    then show ?thesis using False oc [of b] by auto
  qed (use that refs in simp)
  define u1 where "u1 = u\<lparr>file_descriptors := ?fds, files := (files u)(?a \<mapsto> f')\<rparr>"
  have A: "afs_exec (Close fd) (abs_ufs u) = ((0, []), afs_gc ?a (abs_ufs u1\<lparr>aerr := UFS_ERR_NO_ERR\<rparr>))"
    using Some af dir(2) by (simp add: afs_exec_def afs_close_def afs_fd_abs abs_fd_def) (simp add: abs_ufs_def u1_def map_update)
  have gc: "(?a \<in> ran (adir (abs_ufs u1)) \<or> Some ?a \<in> set (map (map_option fst) (afds (abs_ufs u1)))) \<longleftrightarrow>
      \<not> (f_deleted f' \<and> f_refs f' = 0)"
    using in_dir_iff [OF dir(1), of ?a f'] open_iff [of ?a ?fds] refs by (auto simp: abs_ufs_def u1_def)
  show ?thesis
  proof (cases "f_refs f' = 0 \<and> f_deleted f'")
    case True
    let ?h = "without_blocks (f_blocks f') (heap u)"
    define u' where "u' = u1\<lparr>heap := ?h, files := (files u1)(?a := None)\<rparr>"
    have o0: "open_count ?a ?fds = 0" using True refs by simp
    have "delete_file ?a u1 = Some u'"
      using delete_file_eq [of u1 "fresh_file u" ?a f'] st o0 by (simp add: u1_def u'_def)
    then have ex: "ufs_exec (Close fd) u = Some ((0, []), u'\<lparr>errno := UFS_ERR_NO_ERR\<rparr>)"
      using Some f(1) True by (simp add: ufs_exec_def ufs_close_def f'_def u1_def)
    note ds = delete_storage [OF st, of ?a f']
    have "dir_ok ((files u)(?a := None)) (file_list u)"
    proof -
      have "?a \<notin> set (file_list u)" using ok(2) f(1) True by (auto simp: dir_ok_def f'_def)
      then have "inj_on (\<lambda>a. f_name (the (((files u)(?a := None)) a))) (set (file_list u))"
        using ok(2) by (auto simp: dir_ok_def inj_on_def)
      then show ?thesis using ok(2) f(1) True by (auto simp: dir_ok_def f'_def)
    qed
    moreover have "fds_ok ((files u)(?a := None)) ?fds"
    proof -
      have "fd_ok ((files u)(?a := None)) e" if "Some e \<in> set ?fds" for e
        using others [OF that] o0 that by (auto simp: open_count_0 fd_ok_def)
      moreover have "f_refs h = int (open_count b ?fds) \<and> (f_deleted h \<longrightarrow> 0 < f_refs h)" if "((files u)(?a := None)) b = Some h" for b h
        using counts [of b h] that by (auto split: if_splits)
      ultimately show ?thesis unfolding fds_ok_def by blast
    qed
    ultimately have "ufs_ok u'" using ds(2) by (simp add: ufs_ok_def u'_def u1_def)
    moreover have "afs_gc ?a (abs_ufs u1\<lparr>aerr := UFS_ERR_NO_ERR\<rparr>) = abs_ufs (u'\<lparr>errno := UFS_ERR_NO_ERR\<rparr>)"
    proof -
      have ad: "abs_dir ((files u)(?a := None)) (file_list u) = abs_dir (files u) (file_list u)"
      proof -
        have "?a \<notin> set (file_list u)" using ok(2) f(1) True by (auto simp: dir_ok_def f'_def)
        then show ?thesis unfolding abs_dir_def by (auto intro!: arg_cong [where f = map_of])
      qed
      have "afs_gc ?a (abs_ufs u1\<lparr>aerr := UFS_ERR_NO_ERR\<rparr>) =
          abs_ufs u1\<lparr>aerr := UFS_ERR_NO_ERR, afiles := (afiles (abs_ufs u1))(?a := None)\<rparr>"
        using gc True by (simp add: afs_gc_def)
      then show ?thesis using ds(3) ad dir(2) by (simp add: abs_ufs_def u'_def u1_def)
    qed
    ultimately show ?thesis using ex A by (simp add: call_ok_def)
  next
    case False
    then have ex: "ufs_exec (Close fd) u = Some ((0, []), u1\<lparr>errno := UFS_ERR_NO_ERR\<rparr>)"
      using Some f(1) by (auto simp: ufs_exec_def ufs_close_def f'_def u1_def Let_def)
    have "f_refs h = int (open_count b ?fds) \<and> (f_deleted h \<longrightarrow> 0 < f_refs h)" if "((files u)(?a \<mapsto> f')) b = Some h" for b h
      using counts [OF that] False that by (cases "b = ?a") auto
    then have "fds_ok ((files u)(?a \<mapsto> f')) ?fds" unfolding fds_ok_def using others by blast
    then have "ufs_ok u1" using st dir(1) by (simp add: ufs_ok_def u1_def)
    moreover have "afs_gc ?a (abs_ufs u1\<lparr>aerr := UFS_ERR_NO_ERR\<rparr>) = abs_ufs (u1\<lparr>errno := UFS_ERR_NO_ERR\<rparr>)"
      using gc False by (auto simp: afs_gc_def)
    ultimately show ?thesis using ex A by (simp add: call_ok_def)
  qed
qed


definition reset_fd :: "addr \<Rightarrow> filedesc \<Rightarrow> filedesc" where
  "reset_fd a d = (if d_file d = a then set_cursor None (-1) d else d)"

lemma reset_fd_simps [simp]: "d_file (reset_fd a d) = d_file d" "d_pos (reset_fd a d) = d_pos d" "abs_fd (reset_fd a d) = abs_fd d"
  "fd_ok fs d \<Longrightarrow> fd_ok fs (reset_fd a d)"
  by (auto simp: reset_fd_def set_cursor_def abs_fd_def fd_ok_def cursor_ok_def)

lemma reset_cursors_map: "reset_cursors a fds = map (map_option (reset_fd a)) fds"
  by (simp add: reset_cursors_def reset_fd_def [abs_def])

lemma reset_cursors_simps [simp]:
  "map (map_option d_file) (reset_cursors a fds) = map (map_option d_file) fds"
  "map (map_option abs_fd) (reset_cursors a fds) = map (map_option abs_fd) fds"
  by (simp_all add: reset_cursors_map option.map_comp o_def)

lemma open_count_reset [simp]: "open_count b (reset_cursors a fds) = open_count b fds"
proof -
  have c: "open_count b fds = length (filter (\<lambda>x. x = Some b) (map (map_option d_file) fds))" for fds
    by (simp add: open_count_def filter_map o_def)
  show ?thesis unfolding c reset_cursors_simps ..
qed

text \<open>Taking a file out of the directory.\<close>

lemma dir_remove:
  assumes "dir_ok fs fl" and "a \<in> set fl" and "f_name (the (fs a)) = n"
    and "\<And>b. b \<noteq> a \<Longrightarrow> fs' b = fs b" and "\<And>f. fs' a = Some f \<Longrightarrow> f_deleted f"
  shows "dir_ok fs' (remove1 a fl)" and "abs_dir fs' (remove1 a fl) = (abs_dir fs fl)(n := None)"
proof -
  have d: "distinct fl" "inj_on (\<lambda>b. f_name (the (fs b))) (set fl)" using assms(1) by (auto simp: dir_ok_def)
  have s: "set (remove1 a fl) = set fl - {a}" using d(1) by simp
  have same: "map (\<lambda>b. (f_name (the (fs' b)), b)) (remove1 a fl) = map (\<lambda>b. (f_name (the (fs b)), b)) (remove1 a fl)"
    using s assms(4) by (intro map_cong) auto
  have "inj_on (\<lambda>b. f_name (the (fs' b))) (set fl - {a})"
    using d(2) assms(4) by (auto simp: inj_on_def)
  moreover have "b \<in> set fl - {a} \<longleftrightarrow> (\<exists>f. fs' b = Some f \<and> \<not> f_deleted f)" for b
    using assms(1,4,5) by (cases "b = a") (auto simp: dir_ok_def)
  ultimately show "dir_ok fs' (remove1 a fl)" using d(1) s by (simp add: dir_ok_def)
  have "map_of (map (\<lambda>b. (f_name (the (fs b)), b)) (remove1 a fl)) = (map_of (map (\<lambda>b. (f_name (the (fs b)), b)) fl))(n := None)"
    using d assms(2,3)
  proof (induction fl)
    case (Cons x fl)
    then show ?case
      by (cases "x = a") (auto simp: fun_eq_iff inj_on_def map_of_eq_None_iff image_iff)
  qed simp
  then show "abs_dir fs' (remove1 a fl) = (abs_dir fs fl)(n := None)" by (simp add: abs_dir_def same)
qed

lemma delete_ok:
  assumes "ufs_ok u"
  shows "call_ok u (ufs_exec (Delete n) u) (afs_exec (Delete n) (abs_ufs u))"
proof (cases "abs_dir (files u) (file_list u) n")
  case None
  then show ?thesis using fail_ok [OF assms] find_file_by_name_abs [OF assms, of n]
    by (simp add: ufs_exec_def afs_exec_def ufs_delete_def afs_delete_def abs_ufs_def call_ok_def ufs_fail_def afs_fail_def)
next
  case (Some a)
  have ok: "storage_ok (heap u) (files u) (fresh_file u)" "dir_ok (files u) (file_list u)"
    "fds_ok (files u) (file_descriptors u)" using assms by (auto simp: ufs_ok_def)
  note find = find_file_by_name_abs [OF assms, of n, unfolded Some]
  obtain f where f: "files u a = Some f" "\<not> f_deleted f" "f_name f = n" and al: "a \<in> set (file_list u)"
    using abs_dir_Some [OF Some] ok(2) by (auto simp: dir_ok_def)
  have nm: "f_name (the (files u a)) = n" using f by simp
  define f' where "f' = f\<lparr>f_deleted := True\<rparr>"
  let ?fs = "(files u)(a \<mapsto> f')" and ?fds = "reset_cursors a (file_descriptors u)"
  define u1 where "u1 = u\<lparr>file_list := remove1 a (file_list u), files := ?fs, file_descriptors := ?fds\<rparr>"
  have st0: "file_ok (heap u) f'" "content (heap u) f' = content (heap u) f" "f_blocks f' = f_blocks f"
    using storage_okD(3) [OF ok(1) f(1)] by (auto simp: f'_def file_ok_def store_ok_def content_def)
  have st: "storage_ok (heap u) ?fs (fresh_file u)"
    using storage_update(1) [OF ok(1) f(1) st0(1)] storage_okD(6) [OF ok(1) f(1)] st0(3) by auto
  have af: "abs_files (heap u) ?fs = abs_files (heap u) (files u)"
    using abs_files_update [of "files u" a "heap u" "heap u" f'] st0(2) f(1) by (simp add: fun_upd_idem abs_files_def)
  have dir: "dir_ok ?fs (remove1 a (file_list u))" "abs_dir ?fs (remove1 a (file_list u)) = (abs_dir (files u) (file_list u))(n := None)"
    using dir_remove [OF ok(2) al nm, of ?fs] by (auto simp: f'_def)
  have refs: "f_refs f = int (open_count a (file_descriptors u))" using ok(3) f(1) by (auto simp: fds_ok_def)
  have others: "fd_ok ?fs e" if e0: "Some e \<in> set ?fds" for e
  proof -
    obtain e' where e: "e = reset_fd a e'" "Some e' \<in> set (file_descriptors u)"
      using e0 by (auto simp: reset_cursors_map map_option_case split: option.splits)
    then have "fd_ok (files u) e'" using ok(3) by (auto simp: fds_ok_def)
    then have "fd_ok ?fs e'" using f(1) by (auto simp: fd_ok_def cursor_ok_def f'_def)
    then show ?thesis using e(1) by simp
  qed
  have counts: "f_refs h = int (open_count b ?fds) \<and> (b \<noteq> a \<longrightarrow> f_deleted h \<longrightarrow> 0 < f_refs h)" if "?fs b = Some h" for b h
  proof (cases "b = a")
    case False
    then have "files u b = Some h" using that by simp
    then show ?thesis using ok(3) unfolding fds_ok_def open_count_reset by blast
  qed (use that refs in \<open>auto simp: f'_def\<close>)
  have A: "afs_exec (Delete n) (abs_ufs u) = ((0, []), afs_gc a (abs_ufs u1\<lparr>aerr := UFS_ERR_NO_ERR\<rparr>))"
    using Some af dir(2) by (simp add: afs_exec_def afs_delete_def abs_ufs_def u1_def)
  have gc: "(a \<in> ran (adir (abs_ufs u1)) \<or> Some a \<in> set (map (map_option fst) (afds (abs_ufs u1)))) \<longleftrightarrow> f_refs f \<noteq> 0"
    using in_dir_iff [OF dir(1), of a f'] open_iff [of a ?fds] refs by (auto simp: abs_ufs_def u1_def f'_def)
  show ?thesis
  proof (cases "f_refs f = 0")
    case True
    define u' where "u' = u1\<lparr>heap := without_blocks (f_blocks f') (heap u), files := (files u1)(a := None)\<rparr>"
    have o0: "open_count a ?fds = 0" using True refs by simp
    have "delete_file a u1 = Some u'"
      using delete_file_eq [of u1 "fresh_file u" a f'] st o0 by (simp add: u1_def u'_def)
    then have ex: "ufs_exec (Delete n) u = Some ((0, []), u'\<lparr>errno := UFS_ERR_NO_ERR\<rparr>)"
      using find f(1) True by (simp add: ufs_exec_def ufs_delete_def f'_def u1_def)
    note ds = delete_storage [OF st, of a f']
    note dir' = dir_remove [OF ok(2) al nm, of "(files u)(a := None)"]
    have "fds_ok ((files u)(a := None)) ?fds"
    proof -
      have "fd_ok ((files u)(a := None)) e" if "Some e \<in> set ?fds" for e
      proof -
        have "d_file e \<noteq> a" using o0 that unfolding open_count_0 by blast
        then show ?thesis using others [OF that] by (auto simp: fd_ok_def)
      qed
      moreover have "f_refs h = int (open_count b ?fds) \<and> (f_deleted h \<longrightarrow> 0 < f_refs h)" if "((files u)(a := None)) b = Some h" for b h
        using counts [of b h] that by (auto split: if_splits)
      ultimately show ?thesis unfolding fds_ok_def by blast
    qed
    then have "ufs_ok u'" using ds(2) dir'(1) by (simp add: ufs_ok_def u'_def u1_def)
    moreover have "afs_gc a (abs_ufs u1\<lparr>aerr := UFS_ERR_NO_ERR\<rparr>) = abs_ufs (u'\<lparr>errno := UFS_ERR_NO_ERR\<rparr>)"
    proof -
      have "afs_gc a (abs_ufs u1\<lparr>aerr := UFS_ERR_NO_ERR\<rparr>) =
          abs_ufs u1\<lparr>aerr := UFS_ERR_NO_ERR, afiles := (afiles (abs_ufs u1))(a := None)\<rparr>"
        using gc True by (simp add: afs_gc_def)
      then show ?thesis using ds(3) dir'(2) dir(2) by (simp add: abs_ufs_def u'_def u1_def)
    qed
    ultimately show ?thesis using ex A by (simp add: call_ok_def)
  next
    case False
    then have ex: "ufs_exec (Delete n) u = Some ((0, []), u1\<lparr>errno := UFS_ERR_NO_ERR\<rparr>)"
      using find f(1) by (simp add: ufs_exec_def ufs_delete_def f'_def u1_def)
    have "f_refs h = int (open_count b ?fds) \<and> (f_deleted h \<longrightarrow> 0 < f_refs h)" if "?fs b = Some h" for b h
      using counts [OF that] False refs that by (cases "b = a") auto
    then have "fds_ok ?fs ?fds" unfolding fds_ok_def using others by blast
    then have "ufs_ok u1" using st dir(1) by (simp add: ufs_ok_def u1_def)
    moreover have "afs_gc a (abs_ufs u1\<lparr>aerr := UFS_ERR_NO_ERR\<rparr>) = abs_ufs (u1\<lparr>errno := UFS_ERR_NO_ERR\<rparr>)"
      using gc False by (auto simp: afs_gc_def)
    ultimately show ?thesis using ex A by (simp add: call_ok_def)
  qed
qed

section \<open>Destruction\<close>

lemma delete_files_ok:
  "storage_ok (heap u) (files u) n \<Longrightarrow> file_descriptors u = [] \<Longrightarrow> distinct as \<Longrightarrow> \<forall>a \<in> set as. files u a \<noteq> None \<Longrightarrow>
     \<exists>u'. delete_files as u = Some u' \<and> storage_ok (heap u') (files u') n \<and>
       (\<forall>a. files u' a = (if a \<in> set as then None else files u a)) \<and> file_descriptors u' = [] \<and> file_list u' = file_list u"
proof (induction as arbitrary: u)
  case (Cons a as)
  obtain f where f: "files u a = Some f" using Cons.prems(4) by auto
  define u1 where "u1 = u\<lparr>heap := without_blocks (f_blocks f) (heap u), files := (files u)(a := None)\<rparr>"
  have d: "delete_file a u = Some u1"
    using delete_file_eq [OF Cons.prems(1) f] Cons.prems(2) by (simp add: u1_def open_count_def)
  have 1: "storage_ok (heap u1) (files u1) n" using delete_storage(2) [OF Cons.prems(1) f] by (simp add: u1_def)
  have 2: "\<forall>b \<in> set as. files u1 b \<noteq> None" using Cons.prems(3,4) by (auto simp: u1_def)
  have 3: "file_descriptors u1 = []" "distinct as" using Cons.prems(2,3) by (auto simp: u1_def)
  obtain u' where "delete_files as u1 = Some u'" "storage_ok (heap u') (files u') n"
    "\<forall>b. files u' b = (if b \<in> set as then None else files u1 b)" "file_descriptors u' = []" "file_list u' = file_list u1"
    using Cons.IH [OF 1 3 2] by blast
  then show ?case using d by (auto simp: u1_def)
qed auto

lemma files_to_delete_all: "ufs_ok u \<Longrightarrow> set (files_to_delete u) = {a. files u a \<noteq> None}"
proof -
  assume ok: "ufs_ok u"
  have fd: "a \<in> d_file ` {d. Some d \<in> set (file_descriptors u)} \<Longrightarrow> files u a \<noteq> None" for a
    using ok by (auto simp: ufs_ok_def fds_ok_def fd_ok_def)
  have "a \<in> d_file ` {d. Some d \<in> set (file_descriptors u)} \<or> a \<in> set (file_list u)" if "files u a = Some f" for a f
  proof (cases "f_deleted f")
    case True
    then have "open_count a (file_descriptors u) \<noteq> 0" using ok that unfolding ufs_ok_def fds_ok_def by fastforce
    then show ?thesis by (auto simp: open_count_0)
  next
    case False
    then show ?thesis using ok that by (auto simp: ufs_ok_def dir_ok_def)
  qed
  moreover have "a \<in> set (file_list u) \<Longrightarrow> files u a \<noteq> None" for a using ok by (auto simp: ufs_ok_def dir_ok_def)
  moreover have "set (map d_file (List.map_filter id (file_descriptors u))) = d_file ` {d. Some d \<in> set (file_descriptors u)}"
    by (force simp: List.map_filter_def image_iff)
  ultimately show ?thesis using fd unfolding files_to_delete_def by auto
qed

lemma destroy_ok:
  assumes "ufs_ok u"
  shows "\<exists>u'. ufs_destroy u = Some u' \<and> mem (heap u') = Map.empty \<and> files u' = Map.empty \<and>
     file_descriptors u' = [] \<and> file_list u' = []"
proof -
  let ?u = "u\<lparr>file_descriptors := [], file_list := []\<rparr>"
  have 1: "storage_ok (heap ?u) (files ?u) (fresh_file u)" "file_descriptors ?u = []" "distinct (files_to_delete u)"
    using assms by (auto simp: ufs_ok_def files_to_delete_def)
  have 2: "\<forall>a \<in> set (files_to_delete u). files ?u a \<noteq> None" using files_to_delete_all [OF assms] by auto
  obtain u' where u': "delete_files (files_to_delete u) ?u = Some u'" "storage_ok (heap u') (files u') (fresh_file u)"
    "\<forall>a. files u' a = (if a \<in> set (files_to_delete u) then None else files ?u a)" "file_descriptors u' = []" "file_list u' = file_list ?u"
    using delete_files_ok [OF 1 2] by blast
  have "files u' = Map.empty" using u'(3) files_to_delete_all [OF assms] by auto
  moreover then have "mem (heap u') = Map.empty" using storage_okD(5) [OF u'(2)] by fastforce
  ultimately show ?thesis using u' by (simp add: ufs_destroy_def)
qed

section \<open>Refinement\<close>

definition no_empty_read :: "ufs_call \<Rightarrow> bool" where
  "no_empty_read c = (case c of Read fd n \<Rightarrow> n > 0 | _ \<Rightarrow> True)"

lemma exec_ok: "ufs_ok u \<Longrightarrow> no_empty_read c \<Longrightarrow> call_ok u (ufs_exec c u) (afs_exec c (abs_ufs u))"
  by (cases c) (auto simp: no_empty_read_def intro: open_ok write_ok read_ok close_ok delete_ok resize_ok)

interpretation fs: machine_refinement ufs_exec afs_exec ufs_ok abs_ufs no_empty_read
proof
  show "\<exists>r u'. ufs_exec c u = Some (r, u') \<and> ufs_ok u' \<and> afs_exec c (abs_ufs u) = (r, abs_ufs u')"
    if "ufs_ok u" "no_empty_read c" for u c
    using exec_ok [OF that] by (simp add: call_ok_def)
qed

definition afs_init :: afs where
  "afs_init = \<lparr>afiles = Map.empty, adir = Map.empty, afds = [], afresh = 0, aerr = UFS_ERR_NO_ERR\<rparr>"

lemma abs_init: "abs_ufs ufs_init = afs_init"
  by (simp add: abs_ufs_def ufs_init_def afs_init_def abs_files_def abs_dir_def fun_eq_iff)

section \<open>Properties of the file system\<close>

text \<open>
  C1. The file system implements its specification: whatever calls are made on a new file
  system, none has undefined behaviour (no use of freed blocks), each returns exactly the value,
  bytes and error code that the abstract machine with byte string files returns, and at the end the
  invariant holds: every file has exactly the blocks its size needs, no block is shared or lost,
  and every cached block is live. The calls may be any, except reads of zero bytes.
\<close>

theorem ufs_refines_spec:
  assumes "list_all no_empty_read calls"
  shows "\<exists>rs u. run_calls ufs_exec calls ufs_init = Some (rs, u) \<and> ufs_ok u \<and>
           run_spec afs_exec calls afs_init = (rs, abs_ufs u)"
  using fs.run_refines [OF ufs_init_ok assms] by (simp add: abs_init)

text \<open>
  C19. \<open>ufs_destroy\<close> after any such use succeeds and leaves no block, file or descriptor behind,
  whatever was open or deleted.
\<close>

theorem ufs_destroy_frees_all:
  assumes "list_all no_empty_read calls" and "run_calls ufs_exec calls ufs_init = Some (rs, u)"
  shows "\<exists>u'. ufs_destroy u = Some u' \<and> mem (heap u') = Map.empty \<and> files u' = Map.empty \<and>
           file_descriptors u' = [] \<and> file_list u' = []"
  using fs.run_refines [OF ufs_init_ok assms(1)] assms(2) by (auto intro: destroy_ok)


text \<open>
  C15. What was written is read back, byte for byte and for every size up to the limit, and
  deleting a file does not touch it for the descriptors that are open on it, while a file
  created under the same name starts empty.
\<close>

theorem ufs_deleted_file_reads_back:
  assumes "data \<noteq> []" and "length data \<le> MAX_FILE_SIZE" and "0 < k"
  shows "\<exists>u. run_calls ufs_exec [Open (Some n) UFS_CREATE, Write 1 data, Open (Some n) 0, Delete n,
             Open (Some n) UFS_CREATE, Read 3 k, Read 2 (length data)] ufs_init =
           Some ([(1, []), (int (length data), []), (2, []), (0, []), (3, []), (0, []), (int (length data), data)], u)"
proof -
  let ?cs = "[Open (Some n) UFS_CREATE, Write 1 data, Open (Some n) 0, Delete n, Open (Some n) UFS_CREATE, Read 3 k, Read 2 (length data)]"
  have "fst (run_spec afs_exec ?cs afs_init) =
      [(1, []), (int (length data), []), (2, []), (0, []), (3, []), (0, []), (int (length data), data)]"
    using assms
    by (simp add: afs_exec_def afs_open_def afs_write_def afs_delete_def afs_read_def afs_gc_def afs_init_def afs_fd_def
        UFS_CREATE_def UFS_READ_WRITE_def UFS_READ_ONLY_def UFS_WRITE_ONLY_def put_bytes_def numeral_3_eq_3 numeral_2_eq_2)
  then show ?thesis using fs.run_refines [OF ufs_init_ok, of ?cs] assms(1,3) by (auto simp: no_empty_read_def abs_init)
qed

text \<open>Evaluation of the loops on a concrete state, one pass at a time.\<close>

lemma write_loop_last:
  "buf \<noteq> [] \<Longrightarrow> length buf \<le> BLOCK_SIZE - off \<Longrightarrow>
     write_loop buf off b k d f h =
       (case mem h b of None \<Rightarrow> None
        | Some m \<Rightarrow> Some (b, k, d\<lparr>d_pos := d_pos d + length buf\<rparr>, f, h\<lparr>mem := (mem h)(b \<mapsto> put_bytes off buf m)\<rparr>))"
  by (cases "mem h b") (simp_all add: write_loop.simps [of buf] min_absorb2)

lemma read_loop_last:
  "read_loop 0 acc off b k d f h = Some (acc, b, k, d)"
  "0 < n \<Longrightarrow> n \<le> BLOCK_SIZE - off \<Longrightarrow>
     read_loop n acc off b k d f h =
       (case mem h b of None \<Rightarrow> None
        | Some m \<Rightarrow> Some (acc @ take n (drop off m), b, k, d\<lparr>d_pos := d_pos d + n\<rparr>))"
  by (cases "mem h b"; simp add: read_loop.simps [of n] read_loop.simps [of 0] min_absorb2)+

lemmas ufs_eval =
  ufs_exec_def ufs_open_def ufs_write_def ufs_read_def ufs_resize_def ufs_init_def find_file_by_name_def open_file_def
  new_file_def new_filedesc_def get_fd_def put_fd_def get_block_by_index_def step_back_def walk_blocks_def
  create_blocks.simps append_block_def allocate_block_def set_cursor_def write_loop_last read_loop_last block_next_def
  resize_blocks_def shrink_blocks.simps last_block_def clamp_positions_def BLOCK_SIZE_def MAX_FILE_SIZE_def
  UFS_CREATE_def UFS_READ_WRITE_def UFS_READ_ONLY_def UFS_WRITE_ONLY_def

text \<open>
  The exception for empty reads is needed: a read of zero bytes at a block boundary
  caches the block behind the position, a shrink to exactly that position frees the block but
  resets only cursors whose position is greater, and the next write goes to freed memory.
\<close>

theorem ufs_empty_read_leaves_dangling_block:
  "run_calls ufs_exec
     [Open (Some ''f'') UFS_CREATE, Write 1 (replicate 512 (CHR ''a'')), Write 1 ''b'',
      Open (Some ''f'') 0, Read 2 512, Read 2 0, Resize 1 512, Write 2 ''c''] ufs_init = None"
  by (simp add: ufs_eval)


text \<open>
  C8. Memory is exact in every reachable state: a file of \<open>s\<close> bytes has \<open>s\<close> divided by the
  block size, rounded up, blocks and never passes the size limit, all live blocks belong to a
  file, and no block belongs to two.
\<close>

theorem ufs_memory_exact:
  assumes "list_all no_empty_read calls" and "run_calls ufs_exec calls ufs_init = Some (rs, u)"
  shows "(\<forall>a f. files u a = Some f \<longrightarrow>
            f_size f \<le> MAX_FILE_SIZE \<and> length (f_blocks f) = (f_size f + BLOCK_SIZE - 1) div BLOCK_SIZE \<and>
            distinct (f_blocks f)) \<and>
         (\<forall>b. mem (heap u) b \<noteq> None \<longleftrightarrow> (\<exists>!a. \<exists>f. files u a = Some f \<and> b \<in> set (f_blocks f)))"
proof -
  have "ufs_ok u" using fs.run_refines [OF ufs_init_ok assms(1)] assms(2) by auto
  then have ok: "storage_ok (heap u) (files u) (fresh_file u)" by (simp add: ufs_ok_def)
  have "f_size f \<le> MAX_FILE_SIZE \<and> length (f_blocks f) = (f_size f + BLOCK_SIZE - 1) div BLOCK_SIZE \<and> distinct (f_blocks f)"
    if "files u a = Some f" for a f
    using storage_okD(3) [OF ok that] by (simp add: file_ok_def store_ok_def blocks_for_def)
  moreover have "mem (heap u) b \<noteq> None \<longleftrightarrow> (\<exists>!a. \<exists>f. files u a = Some f \<and> b \<in> set (f_blocks f))" for b
    using storage_okD(4,5,6) [OF ok] by metis
  ultimately show ?thesis by blast
qed

lemma store_fd_lowest:
  "store_fd d fds = (i, fds') \<Longrightarrow>
     (i < length fds \<longrightarrow> fds ! i = None) \<and> i \<le> length fds \<and> (\<forall>j < i. fds ! j \<noteq> None) \<and> fds' ! i = Some d \<and> i < length fds'"
proof (induction fds arbitrary: i fds')
  case (Cons x fds)
  then show ?case
    by (cases x; cases "store_fd d fds") (auto simp: less_Suc_eq_0_disj)
qed auto

lemma open_file_fds: "open_file n fl found u = Some (Some (a, u')) \<Longrightarrow> file_descriptors u' = file_descriptors u"
  by (auto simp: open_file_def split: option.splits if_splits bind_splits)

text \<open>
  Opening returns the smallest number that is not an open descriptor, and that number is
  open afterwards at position 0.
\<close>

theorem ufs_open_lowest_free:
  assumes "ufs_open filename fl u = Some (fd, u')" and "fd \<noteq> -1"
  shows "0 < fd \<and> get_fd fd u = None \<and> (\<forall>i. 0 < i \<longrightarrow> i < fd \<longrightarrow> get_fd i u \<noteq> None) \<and>
         (\<exists>d. get_fd fd u' = Some d \<and> d_pos d = 0)"
proof -
  obtain n fl' a u1 i fds' where o: "filename = Some n" "open_file n fl' (the (find_file_by_name n u)) u = Some (Some (a, u1))"
    "store_fd (new_filedesc a fl') (file_descriptors u1) = (i, fds')" "fd = int i + 1"
    "u' = u1\<lparr>file_descriptors := fds', errno := UFS_ERR_NO_ERR\<rparr>"
    using assms by (auto simp: ufs_open_def ufs_fail_def Let_def split: option.splits bind_splits prod.splits)
  note l = store_fd_lowest [OF o(3), unfolded open_file_fds [OF o(2)]]
  have "get_fd j u \<noteq> None" if "0 < j" "j < fd" for j
    using l that o(4) by (auto simp: get_fd_def)
  then show ?thesis using l o by (auto simp: get_fd_def new_filedesc_def)
qed

section \<open>Concrete uses\<close>

definition sample_calls :: "ufs_call list" where
  "sample_calls = [Open (Some ''f'') UFS_CREATE, Write 1 ''abc'', Resize 1 700, Open (Some ''f'') 0, Read 2 10, Delete ''f'', Close 1]"

lemma sample_calls_ok: "list_all no_empty_read sample_calls"
  by (simp add: sample_calls_def no_empty_read_def)

theorem ufs_refines_spec_witness:
  "\<exists>rs u. run_calls ufs_exec sample_calls ufs_init = Some (rs, u) \<and> ufs_ok u"
  using ufs_refines_spec [OF sample_calls_ok] by blast

theorem ufs_destroy_frees_all_witness:
  "\<exists>rs u u'. run_calls ufs_exec sample_calls ufs_init = Some (rs, u) \<and> ufs_destroy u = Some u' \<and> mem (heap u') = Map.empty"
  using fs.run_refines [OF ufs_init_ok sample_calls_ok] ufs_destroy_frees_all [OF sample_calls_ok] by blast

theorem ufs_memory_exact_witness:
  "\<exists>rs u. run_calls ufs_exec sample_calls ufs_init = Some (rs, u) \<and>
     (\<forall>a f. files u a = Some f \<longrightarrow> length (f_blocks f) = (f_size f + BLOCK_SIZE - 1) div BLOCK_SIZE)"
  using fs.run_refines [OF ufs_init_ok sample_calls_ok] ufs_memory_exact [OF sample_calls_ok] by blast

theorem ufs_deleted_file_reads_back_witness:
  "\<exists>u. run_calls ufs_exec [Open (Some ''f'') UFS_CREATE, Write 1 ''abc'', Open (Some ''f'') 0, Delete ''f'',
      Open (Some ''f'') UFS_CREATE, Read 3 9, Read 2 (length ''abc'')] ufs_init =
     Some ([(1, []), (int (length ''abc''), []), (2, []), (0, []), (3, []), (0, []), (int (length ''abc''), ''abc'')], u)"
  by (rule ufs_deleted_file_reads_back) (simp_all add: MAX_FILE_SIZE_def)

theorem ufs_open_lowest_free_witness:
  "get_fd 1 ufs_init = None \<and> (\<exists>u'. ufs_open (Some ''f'') UFS_CREATE ufs_init = Some (1, u') \<and> get_fd 1 u' \<noteq> None)"
proof -
  obtain u' where "ufs_open (Some ''f'') UFS_CREATE ufs_init = Some (1, u')" by (simp add: ufs_eval)
  then show ?thesis using ufs_open_lowest_free [of "Some ''f''" UFS_CREATE ufs_init 1 u'] by auto
qed

end
