(* ===== verification/Libcoro.thy ===== *)
theory Libcoro
  imports Rlist Machines
begin

text \<open>
  The coroutine library, \<open>1/libcoro.cpp\<close>: the engine with its three intrusive lists, the
  operations that switch contexts, the body of a coroutine and the scheduler loop.

  The code switches between stacks with \<open>sigsetjmp\<close> and \<open>siglongjmp\<close>. A saved context is modelled
  by the place in the library where it was saved, and the field \<open>control\<close> says which code has the
  processor: code of the user (of the main program or of a coroutine), the landing of a
  \<open>siglongjmp\<close>, or the head of the scheduler loop. One step of the model runs from one such place to
  the next. Every assertion of the source is a branch that fails with the line of the assertion.

  The lists are sequences here; \<open>links_rep\<close> below ties them to the doubly linked lists of the
  theory on \<open>rlist.h\<close>, whose operations the code calls.
\<close>

section \<open>State\<close>

datatype coro_state = CORO_STATE_RUNNING | CORO_STATE_SUSPENDED | CORO_STATE_FINISHED

text \<open>Where a context was saved: all of these but the first return from \<open>coro_engine_resume_next\<close>.\<close>

datatype coro_ctx =
    At_start
  | In_suspend
  | In_yield
  | In_join addr
  | In_finish
  | In_run

record coro =
  co_state :: coro_state
  co_ret :: "addr option"
  co_func_arg :: "addr option"
  co_func :: "addr option"
  co_ctx :: coro_ctx
  co_joiner :: "addr option"

text \<open>What a call of the library returned to the code of its user.\<close>

datatype reply = Void | Handle addr | Ret "addr option"

datatype control = Main reply | User addr reply | Jump addr | Loop | Destroyed

record coro_engine =
  coros :: "addr \<Rightarrow> coro"
  allocated :: "addr list"
  this_coro :: "addr option"
  coros_running_now :: "addr list"
  coros_running_next :: "addr list"
  coros_pool :: "addr list"
  coro_count :: nat
  control :: control

datatype failure = Assertion nat | Deadlock_exit | Signal_exit | Bad_pointer

type_synonym engine_result = "failure + coro_engine"

text \<open>The scheduler is a coroutine object inside the engine; its address is fixed.\<close>

definition SCHED :: addr where
  "SCHED = 0"

definition upd_coro :: "addr \<Rightarrow> (coro \<Rightarrow> coro) \<Rightarrow> coro_engine \<Rightarrow> coro_engine" where
  "upd_coro c f e = e\<lparr>coros := (coros e)(c := f (coros e c))\<rparr>"

text \<open>The negation of \<open>rlist_empty(&c->link)\<close>: the links of a coroutine are used by these three lists only.\<close>

definition is_linked :: "addr \<Rightarrow> coro_engine \<Rightarrow> bool" where
  "is_linked c e \<longleftrightarrow> c \<in> set (coros_running_now e @ coros_running_next e @ coros_pool e)"

definition zero_coro :: coro where
  "zero_coro = \<lparr>co_state = CORO_STATE_RUNNING, co_ret = None, co_func_arg = None, co_func = None,
                co_ctx = At_start, co_joiner = None\<rparr>"

section \<open>Operations\<close>

definition coro_engine_create :: coro_engine where
  "coro_engine_create = \<lparr>coros = (\<lambda>_. zero_coro), allocated = [], this_coro = None, coros_running_now = [],
     coros_running_next = [], coros_pool = [], coro_count = 0, control = Main Void\<rparr>"

text \<open>Up to the jump: the place the context is saved at is given by the caller.\<close>

definition coro_engine_resume_next :: "coro_ctx \<Rightarrow> coro_engine \<Rightarrow> engine_result" where
  "coro_engine_resume_next k e =
     (case coros_running_now e of
        [] \<Rightarrow> Inl (Assertion 93)
      | to # rest \<Rightarrow>
          (case this_coro e of
             None \<Rightarrow> Inl (Assertion 97)
           | Some from \<Rightarrow>
               Inr (upd_coro from (co_ctx_update (\<lambda>_. k))
                      (e\<lparr>coros_running_now := rest, this_coro := None, control := Jump to\<rparr>))))"

text \<open>The rest of it, when another coroutine has jumped back to the saved context.\<close>

definition coro_engine_resumed :: "addr \<Rightarrow> coro_engine \<Rightarrow> engine_result" where
  "coro_engine_resumed from e =
     (if is_linked from e then Inl (Assertion 102)
      else if this_coro e \<noteq> None then Inl (Assertion 103)
      else Inr (e\<lparr>this_coro := Some from\<rparr>))"

text \<open>\<open>coro_engine_suspend\<close> is called by the user and by the loop of \<open>coro_engine_join\<close>: \<open>k\<close> tells them apart.\<close>

definition coro_engine_suspend :: "coro_ctx \<Rightarrow> coro_engine \<Rightarrow> engine_result" where
  "coro_engine_suspend k e =
     (case this_coro e of
        None \<Rightarrow> Inl Deadlock_exit
      | Some c \<Rightarrow>
          if is_linked c e then Inl (Assertion 116)
          else if co_state (coros e c) \<noteq> CORO_STATE_RUNNING then Inl (Assertion 117)
          else coro_engine_resume_next k (upd_coro c (co_state_update (\<lambda>_. CORO_STATE_SUSPENDED)) e))"

definition coro_engine_yield :: "coro_engine \<Rightarrow> engine_result" where
  "coro_engine_yield e =
     (case this_coro e of
        None \<Rightarrow> Inl Bad_pointer
      | Some c \<Rightarrow>
          if is_linked c e then Inl (Assertion 126)
          else if co_state (coros e c) \<noteq> CORO_STATE_RUNNING then Inl (Assertion 127)
          else coro_engine_resume_next In_yield (e\<lparr>coros_running_next := coros_running_next e @ [c]\<rparr>))"

definition coro_engine_wakeup :: "addr \<Rightarrow> coro_engine \<Rightarrow> engine_result" where
  "coro_engine_wakeup c e =
     (case co_state (coros e c) of
        CORO_STATE_RUNNING \<Rightarrow> Inr e
      | CORO_STATE_FINISHED \<Rightarrow> Inr e
      | CORO_STATE_SUSPENDED \<Rightarrow>
          if is_linked c e then Inl (Assertion 140)
          else Inr (upd_coro c (co_state_update (\<lambda>_. CORO_STATE_RUNNING))
                      (e\<lparr>coros_running_next := coros_running_next e @ [c]\<rparr>)))"

text \<open>One iteration of the scheduler loop up to the jump, and its end when the scheduler has the control back.\<close>

definition coro_engine_run :: "coro_engine \<Rightarrow> engine_result" where
  "coro_engine_run e =
     (if coros_running_now e \<noteq> [] then Inl (Assertion 149)
      else let e1 = e\<lparr>coros_running_now := coros_running_now e @ coros_running_next e, coros_running_next := []\<rparr>
           in if coros_running_now e1 = [] then Inr (e1\<lparr>control := Main Void\<rparr>)
              else if this_coro e1 \<noteq> None then Inl (Assertion 155)
              else if is_linked SCHED e1 then Inl (Assertion 157)
              else coro_engine_resume_next In_run
                     (e1\<lparr>this_coro := Some SCHED, coros_running_now := coros_running_now e1 @ [SCHED]\<rparr>))"

definition coro_engine_run_end :: "coro_engine \<Rightarrow> engine_result" where
  "coro_engine_run_end e =
     (if coros_running_now e \<noteq> [] then Inl (Assertion 166)
      else if this_coro e \<noteq> Some SCHED then Inl (Assertion 167)
      else Inr (e\<lparr>this_coro := None, control := Loop\<rparr>))"

text \<open>The loop frees the pool from its head.\<close>

fun destroy_pool :: "addr list \<Rightarrow> coro_engine \<Rightarrow> engine_result" where
  "destroy_pool [] e = Inr (e\<lparr>coros_pool := []\<rparr>)"
| "destroy_pool (c # cs) e =
     (if coro_count e = 0 then Inl (Assertion 183)
      else destroy_pool cs (e\<lparr>allocated := remove1 c (allocated e), coro_count := coro_count e - 1\<rparr>))"

definition coro_engine_destroy :: "coro_engine \<Rightarrow> engine_result" where
  "coro_engine_destroy e =
     (if this_coro e \<noteq> None then Inl (Assertion 175)
      else if coros_running_now e \<noteq> [] then Inl (Assertion 176)
      else if coros_running_next e \<noteq> [] then Inl (Assertion 177)
      else case destroy_pool (coros_pool e) e of
             Inl f \<Rightarrow> Inl f
           | Inr e1 \<Rightarrow> if coro_count e1 \<noteq> 0 then Inl (Assertion 186) else Inr (e1\<lparr>control := Destroyed\<rparr>))"

text \<open>What the body of a coroutine does when its function has returned \<open>v\<close>, up to the jump.\<close>

definition coro_body_finish :: "addr option \<Rightarrow> addr \<Rightarrow> coro_engine \<Rightarrow> engine_result" where
  "coro_body_finish v c e =
     (let e1 = upd_coro c (\<lambda>r. r\<lparr>co_ret := v, co_func := None\<rparr>) e
      in if co_state (coros e1 c) \<noteq> CORO_STATE_RUNNING then Inl (Assertion 221)
         else let e2 = upd_coro c (co_state_update (\<lambda>_. CORO_STATE_FINISHED)) e1
              in case co_joiner (coros e2 c) of
                   None \<Rightarrow> coro_engine_resume_next In_finish e2
                 | Some j \<Rightarrow>
                     (case coro_engine_wakeup j e2 of
                        Inl f \<Rightarrow> Inl f
                      | Inr e3 \<Rightarrow> coro_engine_resume_next In_finish e3))"

text \<open>The same body when it is resumed: the function of the coroutine is called next.\<close>

definition coro_body_restart :: "addr \<Rightarrow> coro_engine \<Rightarrow> engine_result" where
  "coro_body_restart c e =
     (if co_state (coros e c) \<noteq> CORO_STATE_RUNNING then Inl (Assertion 230)
      else if co_func (coros e c) = None then Inl (Assertion 231)
      else Inr (e\<lparr>control := User c Void\<rparr>))"

text \<open>
  \<open>a\<close> is the address the allocator returns and \<open>ok\<close> whether all the signal calls of the
  constructor succeed: a failure ends the process. The signal handler runs \<open>coro_body\<close> up to its
  first \<open>sigsetjmp\<close> and jumps back, so that \<open>this_coro\<close> is what it was.
\<close>

definition coro_engine_spawn_new :: "addr \<Rightarrow> bool \<Rightarrow> addr \<Rightarrow> addr option \<Rightarrow> coro_engine \<Rightarrow> failure + addr \<times> coro_engine" where
  "coro_engine_spawn_new a ok func func_arg e =
     (if \<not> ok then Inl Signal_exit
      else let c = \<lparr>co_state = CORO_STATE_RUNNING, co_ret = None, co_func_arg = func_arg, co_func = Some func,
                    co_ctx = At_start, co_joiner = None\<rparr>;
               e1 = e\<lparr>coros := (coros e)(a := c), allocated := a # allocated e, coro_count := coro_count e + 1\<rparr>
           in if is_linked a e1 then Inl (Assertion 312)
              else Inr (a, e1\<lparr>coros_running_next := coros_running_next e1 @ [a]\<rparr>))"

definition coro_engine_spawn :: "addr \<Rightarrow> bool \<Rightarrow> addr \<Rightarrow> addr option \<Rightarrow> coro_engine \<Rightarrow> failure + addr \<times> coro_engine" where
  "coro_engine_spawn a ok func func_arg e =
     (case coros_pool e of
        [] \<Rightarrow> coro_engine_spawn_new a ok func func_arg e
      | c # rest \<Rightarrow>
          let e1 = upd_coro c (\<lambda>r. r\<lparr>co_func := Some func, co_func_arg := func_arg, co_state := CORO_STATE_RUNNING\<rparr>)
                     (e\<lparr>coros_pool := rest\<rparr>)
          in if is_linked c e1 then Inl (Assertion 328)
             else Inr (c, e1\<lparr>coros_running_next := coros_running_next e1 @ [c]\<rparr>))"

definition back_to_user :: "reply \<Rightarrow> coro_engine \<Rightarrow> coro_engine" where
  "back_to_user r e = e\<lparr>control := (case this_coro e of None \<Rightarrow> Main r | Some c \<Rightarrow> User c r)\<rparr>"

text \<open>The loop of \<open>coro_engine_join\<close>: every turn of it starts here, the first and those after a resumption.\<close>

definition coro_engine_join_loop :: "addr \<Rightarrow> coro_engine \<Rightarrow> engine_result" where
  "coro_engine_join_loop c e =
     (if co_state (coros e c) \<noteq> CORO_STATE_FINISHED then coro_engine_suspend (In_join c) e
      else if co_joiner (coros e c) \<noteq> this_coro e then Inl (Assertion 342)
      else let v = co_ret (coros e c);
               e1 = upd_coro c (\<lambda>r. r\<lparr>co_joiner := None, co_ret := None\<rparr>) e
           in if is_linked c e1 then Inl (Assertion 346)
              else Inr (back_to_user (Ret v) (e1\<lparr>coros_pool := c # coros_pool e1\<rparr>)))"

definition coro_engine_join :: "addr \<Rightarrow> coro_engine \<Rightarrow> engine_result" where
  "coro_engine_join c e =
     (if co_joiner (coros e c) \<noteq> None then Inl (Assertion 336)
      else coro_engine_join_loop c (upd_coro c (co_joiner_update (\<lambda>_. this_coro e)) e))"

section \<open>Steps\<close>

text \<open>Where a jump to a coroutine lands.\<close>

definition coro_land :: "addr \<Rightarrow> coro_engine \<Rightarrow> engine_result" where
  "coro_land c e =
     (case co_ctx (coros e c) of
        At_start \<Rightarrow> Inr (e\<lparr>this_coro := Some c, control := User c Void\<rparr>)
      | k \<Rightarrow>
          (case coro_engine_resumed c e of
             Inl f \<Rightarrow> Inl f
           | Inr e1 \<Rightarrow>
               (case k of
                  In_join t \<Rightarrow> coro_engine_join_loop t e1
                | In_finish \<Rightarrow> coro_body_restart c e1
                | In_run \<Rightarrow> coro_engine_run_end e1
                | _ \<Rightarrow> Inr (e1\<lparr>control := User c Void\<rparr>))))"

text \<open>The calls of the user: \<open>Return\<close> is the return of the function of a coroutine.\<close>

datatype coro_call =
    Suspend
  | Yield
  | Wakeup addr
  | New addr bool addr "addr option"
  | Join addr
  | Return "addr option"
  | Run
  | Destroy

definition coro_call_exec :: "coro_call \<Rightarrow> coro_engine \<Rightarrow> engine_result" where
  "coro_call_exec call e =
     (case call of
        Suspend \<Rightarrow> coro_engine_suspend In_suspend e
      | Yield \<Rightarrow> coro_engine_yield e
      | Wakeup c \<Rightarrow> map_sum id (back_to_user Void) (coro_engine_wakeup c e)
      | New a ok func func_arg \<Rightarrow>
          map_sum id (\<lambda>(c, e1). back_to_user (Handle c) e1) (coro_engine_spawn a ok func func_arg e)
      | Join c \<Rightarrow> coro_engine_join c e
      | Return v \<Rightarrow> (case this_coro e of None \<Rightarrow> Inl Bad_pointer | Some c \<Rightarrow> coro_body_finish v c e)
      | Run \<Rightarrow> Inr (e\<lparr>control := Loop\<rparr>)
      | Destroy \<Rightarrow> coro_engine_destroy e)"

datatype coro_label = Internal | Call coro_call

fun coro_step :: "coro_label \<Rightarrow> coro_engine \<Rightarrow> engine_result" where
  "coro_step Internal e =
     (case control e of
        Jump c \<Rightarrow> coro_land c e
      | Loop \<Rightarrow> coro_engine_run e
      | _ \<Rightarrow> Inr e)"
| "coro_step (Call call) e = coro_call_exec call e"

text \<open>
  The rules of use: library code runs when it has the processor; a coroutine is joined by one
  caller and once, the main program joins finished coroutines only, and \<open>Run\<close> and \<open>Destroy\<close>
  belong to the main program. The allocator returns an address that is not in use.
\<close>

fun coro_enabled :: "coro_label \<Rightarrow> coro_engine \<Rightarrow> bool" where
  "coro_enabled Internal e \<longleftrightarrow> (case control e of Jump c \<Rightarrow> True | Loop \<Rightarrow> True | _ \<Rightarrow> False)"
| "coro_enabled (Call call) e \<longleftrightarrow>
     (case control e of
        User c r \<Rightarrow>
          (case call of
             Suspend \<Rightarrow> True
           | Yield \<Rightarrow> True
           | Wakeup d \<Rightarrow> d \<in> set (allocated e)
           | New a ok f arg \<Rightarrow> ok \<and> a \<noteq> SCHED \<and> a \<notin> set (allocated e)
           | Join d \<Rightarrow> d \<in> set (allocated e) \<and> d \<notin> set (coros_pool e) \<and> co_joiner (coros e d) = None
           | Return v \<Rightarrow> True
           | _ \<Rightarrow> False)
      | Main r \<Rightarrow>
          (case call of
             Wakeup d \<Rightarrow> d \<in> set (allocated e)
           | New a ok f arg \<Rightarrow> ok \<and> a \<noteq> SCHED \<and> a \<notin> set (allocated e)
           | Join d \<Rightarrow> d \<in> set (allocated e) \<and> d \<notin> set (coros_pool e) \<and> co_joiner (coros e d) = None \<and>
                         co_state (coros e d) = CORO_STATE_FINISHED
           | Run \<Rightarrow> True
           | Destroy \<Rightarrow> coros_running_next e = [] \<and> set (allocated e) \<subseteq> set (coros_pool e)
           | _ \<Rightarrow> False)
      | _ \<Rightarrow> False)"

section \<open>Invariant\<close>

definition holder :: "coro_engine \<Rightarrow> addr option" where
  "holder e = (case control e of User c r \<Rightarrow> Some c | Jump c \<Rightarrow> Some c | _ \<Rightarrow> None)"

definition in_user :: "addr \<Rightarrow> coro_engine \<Rightarrow> bool" where
  "in_user c e \<longleftrightarrow> (case control e of User d r \<Rightarrow> d = c | _ \<Rightarrow> False)"

definition lists_ok :: "coro_engine \<Rightarrow> bool" where
  "lists_ok e \<longleftrightarrow>
     distinct (coros_running_now e @ coros_running_next e @ coros_pool e) \<and>
     set (coros_running_next e) \<subseteq> set (allocated e) \<and> set (coros_pool e) \<subseteq> set (allocated e) \<and>
     set (coros_running_now e) \<subseteq> insert SCHED (set (allocated e)) \<and>
     SCHED \<notin> set (allocated e) \<and> distinct (allocated e) \<and> coro_count e = length (allocated e)"

definition round_open :: "coro_engine \<Rightarrow> bool" where
  "round_open e \<longleftrightarrow> (\<exists>cs. coros_running_now e = cs @ [SCHED]) \<and> co_ctx (coros e SCHED) = In_run"

definition control_ok :: "coro_engine \<Rightarrow> bool" where
  "control_ok e \<longleftrightarrow>
     (case control e of
        User c r \<Rightarrow> this_coro e = Some c \<and> c \<in> set (allocated e) \<and> co_state (coros e c) = CORO_STATE_RUNNING \<and>
                    \<not> is_linked c e \<and> round_open e
      | Jump c \<Rightarrow> this_coro e = None \<and> co_state (coros e c) = CORO_STATE_RUNNING \<and> \<not> is_linked c e \<and>
                  (if c = SCHED then coros_running_now e = [] \<and> co_ctx (coros e SCHED) = In_run
                   else c \<in> set (allocated e) \<and> round_open e)
      | _ \<Rightarrow> this_coro e = None \<and> coros_running_now e = []) \<and>
     co_state (coros e SCHED) = CORO_STATE_RUNNING"

definition place_ok :: "addr \<Rightarrow> coro_engine \<Rightarrow> bool" where
  "place_ok c e \<longleftrightarrow>
     (co_state (coros e c) = CORO_STATE_RUNNING \<longleftrightarrow>
        c \<in> set (coros_running_now e) \<or> c \<in> set (coros_running_next e) \<or> holder e = Some c) \<and>
     (co_state (coros e c) = CORO_STATE_FINISHED \<longleftrightarrow> co_func (coros e c) = None)"

definition ctx_ok :: "addr \<Rightarrow> coro_engine \<Rightarrow> bool" where
  "ctx_ok c e \<longleftrightarrow>
     (co_state (coros e c) = CORO_STATE_FINISHED \<longrightarrow> co_ctx (coros e c) = In_finish) \<and>
     (\<not> in_user c e \<longrightarrow>
        co_ctx (coros e c) \<noteq> In_run \<and>
        (\<forall>t. co_ctx (coros e c) = In_join t \<longrightarrow>
             t \<in> set (allocated e) \<and> t \<notin> set (coros_pool e) \<and> co_joiner (coros e t) = Some c))"

definition suspended_ok :: "addr \<Rightarrow> coro_engine \<Rightarrow> bool" where
  "suspended_ok c e \<longleftrightarrow>
     (co_state (coros e c) = CORO_STATE_SUSPENDED \<longrightarrow>
        (case co_ctx (coros e c) of
           In_suspend \<Rightarrow> True
         | In_join t \<Rightarrow> co_state (coros e t) \<noteq> CORO_STATE_FINISHED
         | _ \<Rightarrow> False))"

definition pooled_ok :: "addr \<Rightarrow> coro_engine \<Rightarrow> bool" where
  "pooled_ok c e \<longleftrightarrow>
     (c \<in> set (coros_pool e) \<longrightarrow>
        co_state (coros e c) = CORO_STATE_FINISHED \<and> co_joiner (coros e c) = None \<and> co_ret (coros e c) = None)"

definition joiner_ok :: "addr \<Rightarrow> coro_engine \<Rightarrow> bool" where
  "joiner_ok c e \<longleftrightarrow>
     (\<forall>j. co_joiner (coros e c) = Some j \<longrightarrow>
        j \<in> set (allocated e) \<and> co_ctx (coros e j) = In_join c \<and> \<not> in_user j e)"

definition coro_ok :: "addr \<Rightarrow> coro_engine \<Rightarrow> bool" where
  "coro_ok c e \<longleftrightarrow> place_ok c e \<and> ctx_ok c e \<and> suspended_ok c e \<and> pooled_ok c e \<and> joiner_ok c e"

lemmas coro_ok_defs = coro_ok_def place_ok_def ctx_ok_def suspended_ok_def pooled_ok_def joiner_ok_def
  holder_def in_user_def

definition engine_inv :: "coro_engine \<Rightarrow> bool" where
  "engine_inv e \<longleftrightarrow> lists_ok e \<and> control_ok e \<and> (\<forall>c\<in>set (allocated e). coro_ok c e)"

lemma create_inv: "engine_inv coro_engine_create"
  by (simp add: engine_inv_def lists_ok_def control_ok_def coro_engine_create_def zero_coro_def)

lemma upd_coro_simps [simp]:
  "coros (upd_coro c f e) = (coros e)(c := f (coros e c))"
  "allocated (upd_coro c f e) = allocated e" "this_coro (upd_coro c f e) = this_coro e"
  "coros_running_now (upd_coro c f e) = coros_running_now e" "coros_running_next (upd_coro c f e) = coros_running_next e"
  "coros_pool (upd_coro c f e) = coros_pool e" "coro_count (upd_coro c f e) = coro_count e"
  "control (upd_coro c f e) = control e"
  by (simp_all add: upd_coro_def)


definition parked :: "coro_engine \<Rightarrow> bool" where
  "parked e \<longleftrightarrow> lists_ok e \<and> round_open e \<and> co_state (coros e SCHED) = CORO_STATE_RUNNING \<and>
     (\<forall>c\<in>set (allocated e). coro_ok c (e\<lparr>control := Loop\<rparr>))"

lemma coro_ok_running:
  "coro_ok d e \<Longrightarrow> d \<in> set (coros_running_now e) \<or> d \<in> set (coros_running_next e) \<Longrightarrow>
     co_state (coros e d) = CORO_STATE_RUNNING"
  unfolding coro_ok_def place_ok_def by blast

lemma coro_okI:
  "place_ok c e \<Longrightarrow> ctx_ok c e \<Longrightarrow> suspended_ok c e \<Longrightarrow> pooled_ok c e \<Longrightarrow> joiner_ok c e \<Longrightarrow> coro_ok c e"
  by (simp add: coro_ok_def)

lemma in_user_simps [simp]:
  "in_user c (e\<lparr>control := Loop\<rparr>) = False" "in_user c (e\<lparr>control := Jump d\<rparr>) = False"
  "in_user c (e\<lparr>control := User d r\<rparr>) = (d = c)" "in_user c (e\<lparr>control := Main r\<rparr>) = False"
  by (simp_all add: in_user_def)

lemma coro_ok_control_irrel:
  assumes "coro_ok d (e\<lparr>control := Loop\<rparr>)" "coros_running_now e = c # cs"
  shows "coro_ok d (e\<lparr>coros_running_now := cs, this_coro := None, control := Jump c\<rparr>)"
proof (rule coro_okI)
  note a = assms(1) [unfolded coro_ok_def]
  show "place_ok d (e\<lparr>coros_running_now := cs, this_coro := None, control := Jump c\<rparr>)"
    using a assms(2) by (auto simp: place_ok_def holder_def)
  show "ctx_ok d (e\<lparr>coros_running_now := cs, this_coro := None, control := Jump c\<rparr>)"
    using a by (simp add: ctx_ok_def in_user_def)
  show "suspended_ok d (e\<lparr>coros_running_now := cs, this_coro := None, control := Jump c\<rparr>)"
    using a by (auto simp: suspended_ok_def split: coro_ctx.splits if_splits)
  show "pooled_ok d (e\<lparr>coros_running_now := cs, this_coro := None, control := Jump c\<rparr>)"
    using a by (simp add: pooled_ok_def)
  show "joiner_ok d (e\<lparr>coros_running_now := cs, this_coro := None, control := Jump c\<rparr>)"
    using a by (simp add: joiner_ok_def in_user_def)
qed

lemma resume_next_safe:
  assumes p: "parked (upd_coro from (co_ctx_update (\<lambda>_. k)) e)" and th: "this_coro e = Some from"
  shows "\<exists>e'. coro_engine_resume_next k e = Inr e' \<and> engine_inv e'"
proof -
  let ?u = "upd_coro from (co_ctx_update (\<lambda>_. k)) e"
  obtain cs where "coros_running_now e = cs @ [SCHED]" using p by (auto simp: parked_def round_open_def)
  then obtain to rest where now: "coros_running_now e = to # rest" by (cases cs) auto
  let ?e = "?u\<lparr>coros_running_now := rest, this_coro := None, control := Jump to\<rparr>"
  have res: "coro_engine_resume_next k e = Inr ?e"
    using now th by (simp add: coro_engine_resume_next_def upd_coro_def)
  have "to \<noteq> SCHED \<Longrightarrow> to \<in> set (allocated e)" "to = SCHED \<Longrightarrow> rest = []" "to \<noteq> SCHED \<Longrightarrow> \<exists>cs. rest = cs @ [SCHED]"
    using p now by (auto simp: parked_def lists_ok_def round_open_def append_eq_Cons_conv Cons_eq_append_conv)
  moreover have "co_state (coros ?u to) = CORO_STATE_RUNNING"
  proof (cases "to = SCHED")
    case False
    then show ?thesis using p now coro_ok_running[of to "?u\<lparr>control := Loop\<rparr>"] calculation(1) by (simp add: parked_def)
  qed (use p in \<open>simp add: parked_def\<close>)
  moreover have "lists_ok ?e" "\<not> is_linked to ?e"
    using p now by (auto simp: parked_def lists_ok_def is_linked_def)
  moreover have "\<forall>d\<in>set (allocated e). coro_ok d ?e"
    using p now coro_ok_control_irrel[of _ ?u] by (simp add: parked_def)
  ultimately have "engine_inv ?e"
    using p by (auto simp: engine_inv_def control_ok_def parked_def round_open_def)
  with res show ?thesis by simp
qed

definition leaving :: "addr \<Rightarrow> coro_ctx \<Rightarrow> coro_engine \<Rightarrow> coro_engine" where
  "leaving c k e = (upd_coro c (co_ctx_update (\<lambda>_. k)) e)\<lparr>this_coro := None, control := Jump c\<rparr>"

lemma leaving_simps [simp]:
  "coros (leaving c k e) = (coros e)(c := (coros e c)\<lparr>co_ctx := k\<rparr>)"
  "allocated (leaving c k e) = allocated e" "this_coro (leaving c k e) = None"
  "coros_running_now (leaving c k e) = coros_running_now e" "coros_running_next (leaving c k e) = coros_running_next e"
  "coros_pool (leaving c k e) = coros_pool e" "coro_count (leaving c k e) = coro_count e"
  "control (leaving c k e) = Jump c"
  by (simp_all add: leaving_def)

lemma user_leaving_ok:
  assumes "coro_ok d e" and u: "control e = User c r" and "coro_ok c e"
    and k: "k \<in> {At_start, In_suspend, In_yield, In_finish}"
    and run: "co_state (coros e c) = CORO_STATE_RUNNING"
  shows "coro_ok d (leaving c k e)"
proof (rule coro_okI)
  note a = assms(1) [unfolded coro_ok_def]
  show "place_ok d (leaving c k e)" using a u by (auto simp: place_ok_def holder_def)
  show "ctx_ok d (leaving c k e)" using a k u run by (auto simp: ctx_ok_def in_user_def)
  show "suspended_ok d (leaving c k e)" using a run by (auto simp: suspended_ok_def split: coro_ctx.splits)
  show "pooled_ok d (leaving c k e)" using a by (auto simp: pooled_ok_def)
  show "joiner_ok d (leaving c k e)" using a u by (auto simp: joiner_ok_def in_user_def)
qed

lemma user_leaving:
  assumes "engine_inv e" "control e = User c r" "k \<in> {At_start, In_suspend, In_yield, In_finish}"
  shows "engine_inv (leaving c k e)"
proof -
  have c: "c \<in> set (allocated e)" "co_state (coros e c) = CORO_STATE_RUNNING" "SCHED \<notin> set (allocated e)"
    using assms by (auto simp: engine_inv_def control_ok_def lists_ok_def)
  have "\<forall>d\<in>set (allocated e). coro_ok d (leaving c k e)"
    using assms c user_leaving_ok[of _ e c r k] by (auto simp: engine_inv_def)
  moreover have "lists_ok (leaving c k e)" using assms by (auto simp: engine_inv_def lists_ok_def)
  moreover have "control_ok (leaving c k e)" using assms c
    by (auto simp: engine_inv_def control_ok_def round_open_def is_linked_def)
  ultimately show ?thesis by (simp add: engine_inv_def)
qed

lemma suspend_ok:
  assumes "coro_ok d (leaving c k e)"
    and k: "k = In_suspend \<or> k = In_join t \<and> co_state (coros e t) \<noteq> CORO_STATE_FINISHED"
    and nl: "\<not> is_linked c e" and run: "co_state (coros e c) = CORO_STATE_RUNNING" and cok: "coro_ok c (leaving c k e)"
  shows "coro_ok d (e\<lparr>coros := (coros e)(c := (coros e c)\<lparr>co_state := CORO_STATE_SUSPENDED, co_ctx := k\<rparr>), control := Loop\<rparr>)"
    (is "coro_ok d ?e")
proof (rule coro_okI)
  note a = assms(1) [unfolded coro_ok_def] and c = cok [unfolded coro_ok_def]
  show "place_ok d ?e" using a nl run by (auto simp: place_ok_def holder_def is_linked_def)
  show "ctx_ok d ?e" using a run by (auto simp: ctx_ok_def in_user_def)
  show "suspended_ok d ?e"
    using a k by (cases "d = c") (auto simp: suspended_ok_def split: coro_ctx.splits)
  show "pooled_ok d ?e" using a nl by (auto simp: pooled_ok_def is_linked_def)
  show "joiner_ok d ?e" using a by (auto simp: joiner_ok_def in_user_def)
qed

lemma leavingD:
  assumes "engine_inv (leaving c k e)" "c \<noteq> SCHED"
  shows "lists_ok e" "round_open e" "co_state (coros e SCHED) = CORO_STATE_RUNNING" "\<not> is_linked c e"
    "co_state (coros e c) = CORO_STATE_RUNNING" "c \<in> set (allocated e)"
    "d \<in> set (allocated e) \<Longrightarrow> coro_ok d (leaving c k e)"
  using assms by (auto simp: engine_inv_def control_ok_def lists_ok_def round_open_def is_linked_def)

lemma parkedI:
  assumes "engine_inv (leaving c k e)" "c \<noteq> SCHED"
    and "lists_ok e'" "coros_running_now e' = coros_running_now e" "coros e' SCHED = coros e SCHED"
    and "\<And>d. d \<in> set (allocated e') \<Longrightarrow> coro_ok d (e'\<lparr>control := Loop\<rparr>)"
  shows "parked e'"
  using leavingD [OF assms(1,2)] assms(3-) by (simp add: parked_def round_open_def)

lemma suspend_safe:
  assumes inv: "engine_inv (leaving c k e)" and this_c: "this_coro e = Some c" and cs: "c \<noteq> SCHED"
    and k: "k = In_suspend \<or> k = In_join t \<and> co_state (coros e t) \<noteq> CORO_STATE_FINISHED"
  shows "\<exists>e'. coro_engine_suspend k e = Inr e' \<and> engine_inv e'"
proof -
  note l = leavingD [OF inv cs]
  let ?e = "upd_coro c (co_state_update (\<lambda>_. CORO_STATE_SUSPENDED)) e"
  have "parked (upd_coro c (co_ctx_update (\<lambda>_. k)) ?e)"
  proof (rule parkedI [OF inv cs])
    fix d assume "d \<in> set (allocated (upd_coro c (co_ctx_update (\<lambda>_. k)) ?e))"
    then show "coro_ok d ((upd_coro c (co_ctx_update (\<lambda>_. k)) ?e)\<lparr>control := Loop\<rparr>)"
      using suspend_ok [OF l(7) k l(4,5) l(7) [OF l(6)], of d] by (simp add: upd_coro_def)
  qed (use l(1) cs in \<open>simp_all add: lists_ok_def\<close>)
  from resume_next_safe [OF this] l(4,5) this_c show ?thesis
    by (simp add: coro_engine_suspend_def)
qed

lemma yield_ok:
  assumes "coro_ok d (leaving c In_yield e)"
  shows "coro_ok d (e\<lparr>coros_running_next := coros_running_next e @ [c],
                       coros := (coros e)(c := (coros e c)\<lparr>co_ctx := In_yield\<rparr>), control := Loop\<rparr>)"
    (is "coro_ok d ?e")
proof (rule coro_okI)
  note a = assms [unfolded coro_ok_def]
  show "place_ok d ?e" using a by (auto simp: place_ok_def holder_def)
  show "ctx_ok d ?e" using a by (simp add: ctx_ok_def in_user_def)
  show "suspended_ok d ?e" using a by (auto simp: suspended_ok_def split: coro_ctx.splits if_splits)
  show "pooled_ok d ?e" using a by (simp add: pooled_ok_def)
  show "joiner_ok d ?e" using a by (simp add: joiner_ok_def in_user_def)
qed

lemma lists_ok_next:
  "lists_ok e \<Longrightarrow> \<not> is_linked c e \<Longrightarrow> c \<in> set (allocated e) \<Longrightarrow>
     lists_ok (e\<lparr>coros_running_next := coros_running_next e @ [c]\<rparr>)"
  by (auto simp: lists_ok_def is_linked_def)

lemma lists_ok_upd [simp]:
  "lists_ok (upd_coro c f e) = lists_ok e" "lists_ok (e\<lparr>control := x\<rparr>) = lists_ok e" "lists_ok (e\<lparr>this_coro := y\<rparr>) = lists_ok e"
  by (simp_all add: lists_ok_def)

lemma is_linked_upd [simp]:
  "is_linked d (upd_coro c f e) = is_linked d e" "is_linked d (e\<lparr>control := x\<rparr>) = is_linked d e"
  "is_linked d (e\<lparr>this_coro := y\<rparr>) = is_linked d e"
  by (simp_all add: is_linked_def)

lemma yield_safe:
  assumes inv: "engine_inv e" and u: "control e = User c r"
  shows "\<exists>e'. coro_engine_yield e = Inr e' \<and> engine_inv e'"
proof -
  have J: "engine_inv (leaving c In_yield e)" and cs: "c \<noteq> SCHED" and this_c: "this_coro e = Some c"
    using user_leaving [OF inv u, of In_yield] inv u by (auto simp: engine_inv_def control_ok_def lists_ok_def)
  note l = leavingD [OF J cs]
  let ?e = "e\<lparr>coros_running_next := coros_running_next e @ [c]\<rparr>"
  have "parked (upd_coro c (co_ctx_update (\<lambda>_. In_yield)) ?e)"
  proof (rule parkedI [OF J cs])
    fix d assume "d \<in> set (allocated (upd_coro c (co_ctx_update (\<lambda>_. In_yield)) ?e))"
    then show "coro_ok d ((upd_coro c (co_ctx_update (\<lambda>_. In_yield)) ?e)\<lparr>control := Loop\<rparr>)"
      using yield_ok [OF l(7), of d] by (simp add: upd_coro_def)
  qed (use lists_ok_next [OF l(1,4,6)] cs in simp_all)
  from resume_next_safe [OF this] l(4,5) this_c show ?thesis
    by (simp add: coro_engine_yield_def)
qed

definition woken :: "addr \<Rightarrow> coro_engine \<Rightarrow> coro_engine" where
  "woken c e = upd_coro c (co_state_update (\<lambda>_. CORO_STATE_RUNNING)) (e\<lparr>coros_running_next := coros_running_next e @ [c]\<rparr>)"

lemma woken_simps [simp]:
  "coros (woken c e) = (coros e)(c := (coros e c)\<lparr>co_state := CORO_STATE_RUNNING\<rparr>)"
  "allocated (woken c e) = allocated e" "this_coro (woken c e) = this_coro e"
  "coros_running_now (woken c e) = coros_running_now e" "coros_running_next (woken c e) = coros_running_next e @ [c]"
  "coros_pool (woken c e) = coros_pool e" "coro_count (woken c e) = coro_count e" "control (woken c e) = control e"
  by (simp_all add: woken_def)

lemma woken_ok:
  assumes d: "coro_ok d e" and c: "coro_ok c e" "co_state (coros e c) = CORO_STATE_SUSPENDED"
  shows "coro_ok d (woken c e)"
proof (rule coro_okI)
  note a = d [unfolded coro_ok_def] c [unfolded coro_ok_def]
  show "place_ok d (woken c e)" using a by (auto simp: place_ok_def holder_def)
  show "ctx_ok d (woken c e)" using a by (auto simp: ctx_ok_def in_user_def)
  show "suspended_ok d (woken c e)" using a(1) by (auto simp: suspended_ok_def split: coro_ctx.splits)
  show "pooled_ok d (woken c e)" using a by (auto simp: pooled_ok_def)
  show "joiner_ok d (woken c e)" using a(1) by (auto simp: joiner_ok_def in_user_def)
qed

lemma suspended_not_linked:
  "coro_ok c e \<Longrightarrow> co_state (coros e c) = CORO_STATE_SUSPENDED \<Longrightarrow> \<not> is_linked c e"
  by (auto simp: coro_ok_def place_ok_def pooled_ok_def is_linked_def)

lemma wakeup_eq:
  assumes "coro_ok c e"
  shows "coro_engine_wakeup c e = Inr (if co_state (coros e c) = CORO_STATE_SUSPENDED then woken c e else e)"
  using suspended_not_linked [OF assms]
  by (cases "co_state (coros e c)") (simp_all add: coro_engine_wakeup_def woken_def)

lemma woken_inv:
  assumes inv: "engine_inv e" and c: "c \<in> set (allocated e)" "co_state (coros e c) = CORO_STATE_SUSPENDED"
  shows "engine_inv (woken c e)"
proof -
  have cok: "coro_ok c e" using inv c by (simp add: engine_inv_def)
  have "lists_ok (woken c e)"
    using lists_ok_next [of e c] suspended_not_linked [OF cok c(2)] inv c(1) by (simp add: engine_inv_def woken_def)
  moreover have "control_ok (woken c e)"
    using inv c by (auto simp: engine_inv_def control_ok_def is_linked_def round_open_def split: control.splits)
  moreover have "\<forall>d\<in>set (allocated e). coro_ok d (woken c e)"
    using woken_ok [OF _ cok c(2)] inv by (simp add: engine_inv_def)
  ultimately show ?thesis by (simp add: engine_inv_def)
qed


lemma wakeup_safe:
  assumes "engine_inv e" "c \<in> set (allocated e)"
  obtains e' where "coro_engine_wakeup c e = Inr e'" "engine_inv e'" "control e' = control e"
    "e' = (if co_state (coros e c) = CORO_STATE_SUSPENDED then woken c e else e)"
  using that wakeup_eq [of c e] woken_inv assms by (simp add: engine_inv_def)

lemma wakeup_upd:
  "j \<noteq> c \<Longrightarrow> coro_engine_wakeup j (upd_coro c f e) = map_sum id (upd_coro c f) (coro_engine_wakeup j e)"
  by (cases "co_state (coros e j)") (simp_all add: coro_engine_wakeup_def upd_coro_def is_linked_def fun_upd_twist)

definition finished :: "addr \<Rightarrow> addr option \<Rightarrow> coro_engine \<Rightarrow> coro_engine" where
  "finished c v e = upd_coro c (\<lambda>r. r\<lparr>co_ret := v, co_func := None, co_state := CORO_STATE_FINISHED\<rparr>) e"

lemma finished_ok:
  assumes dok: "coro_ok d (leaving c In_finish e)" and cok: "coro_ok c (leaving c In_finish e)"
    and nl: "\<not> is_linked c e"
    and j: "\<And>j. co_joiner (coros e c) = Some j \<Longrightarrow> co_state (coros e j) \<noteq> CORO_STATE_SUSPENDED"
  shows "coro_ok d (upd_coro c (co_ctx_update (\<lambda>_. In_finish)) (finished c v e)\<lparr>control := Loop\<rparr>)" (is "coro_ok d ?e")
proof (rule coro_okI)
  note a = dok [unfolded coro_ok_def] cok [unfolded coro_ok_def]
  show "place_ok d ?e" using a nl by (auto simp: place_ok_def holder_def is_linked_def finished_def)
  show "ctx_ok d ?e" using a(1) by (auto simp: ctx_ok_def in_user_def finished_def)
  have "ctx_ok d (leaving c In_finish e)" "suspended_ok d (leaving c In_finish e)" using a(1) by simp_all
  then show "suspended_ok d ?e"
    using j by (cases "d = c") (auto simp: suspended_ok_def ctx_ok_def in_user_def finished_def split: if_splits coro_ctx.splits)
  show "pooled_ok d ?e" using a(1) nl by (auto simp: pooled_ok_def is_linked_def finished_def)
  show "joiner_ok d ?e" using a(1) by (auto simp: joiner_ok_def in_user_def finished_def)
qed

lemma finish_resume:
  assumes inv: "engine_inv e" and u: "control e = User c r"
    and j: "\<And>j. co_joiner (coros e c) = Some j \<Longrightarrow> co_state (coros e j) \<noteq> CORO_STATE_SUSPENDED"
  shows "\<exists>e'. coro_engine_resume_next In_finish (finished c v e) = Inr e' \<and> engine_inv e'"
proof -
  have J: "engine_inv (leaving c In_finish e)" and cs: "c \<noteq> SCHED" and this_c: "this_coro e = Some c"
    using user_leaving [OF inv u, of In_finish] inv u by (auto simp: engine_inv_def control_ok_def lists_ok_def)
  note l = leavingD [OF J cs]
  have "parked (upd_coro c (co_ctx_update (\<lambda>_. In_finish)) (finished c v e))"
  proof (rule parkedI [OF J cs])
    fix d assume "d \<in> set (allocated (upd_coro c (co_ctx_update (\<lambda>_. In_finish)) (finished c v e)))"
    then show "coro_ok d ((upd_coro c (co_ctx_update (\<lambda>_. In_finish)) (finished c v e))\<lparr>control := Loop\<rparr>)"
      using finished_ok [OF l(7) l(7) [OF l(6)] l(4) j, of d] by (simp add: finished_def)
  qed (use l(1) cs in \<open>simp_all add: finished_def\<close>)
  from resume_next_safe [OF this] this_c show ?thesis by (simp add: finished_def)
qed

lemma finish_safe:
  assumes inv: "engine_inv e" and u: "control e = User c r"
  shows "\<exists>e'. coro_body_finish v c e = Inr e' \<and> engine_inv e'"
proof -
  have run: "co_state (coros e c) = CORO_STATE_RUNNING" and cok: "coro_ok c e"
    using inv u by (auto simp: engine_inv_def control_ok_def)
  have f: "upd_coro c (co_state_update (\<lambda>_. CORO_STATE_FINISHED)) (upd_coro c (\<lambda>r. r\<lparr>co_ret := v, co_func := None\<rparr>) e)
           = finished c v e"
    by (simp add: finished_def upd_coro_def)
  show ?thesis
  proof (cases "co_joiner (coros e c)")
    case None
    then show ?thesis using run f finish_resume [OF inv u, of v]
      by (simp add: coro_body_finish_def Let_def) (simp add: finished_def)
  next
    case (Some j)
    then have j: "j \<in> set (allocated e)" "j \<noteq> c"
      using cok u by (auto simp: coro_ok_def joiner_ok_def in_user_def)
    obtain w where w: "coro_engine_wakeup j e = Inr w" "engine_inv w" "control w = control e"
      "w = (if co_state (coros e j) = CORO_STATE_SUSPENDED then woken j e else e)"
      using wakeup_safe [OF inv j(1)] .
    have "coro_engine_wakeup j (finished c v e) = Inr (finished c v w)"
      using w(1) j(2) by (simp add: finished_def wakeup_upd)
    moreover have "\<exists>e'. coro_engine_resume_next In_finish (finished c v w) = Inr e' \<and> engine_inv e'"
      using w u j Some by (intro finish_resume [of w c r]) (auto split: if_splits)
    ultimately show ?thesis using run f Some by (simp add: coro_body_finish_def Let_def) (simp add: finished_def)
  qed
qed

subsection \<open>Replies\<close>

lemma coro_ok_reply: "coro_ok d (e\<lparr>control := User c r\<rparr>) = coro_ok d (e\<lparr>control := User c r'\<rparr>)"
  "coro_ok d (e\<lparr>control := Main r\<rparr>) = coro_ok d (e\<lparr>control := Main r'\<rparr>)"
  by (simp_all add: coro_ok_def place_ok_def ctx_ok_def suspended_ok_def pooled_ok_def joiner_ok_def holder_def in_user_def cong: coro_ctx.case_cong)

lemma round_open_upd [simp]:
  "round_open (e\<lparr>control := x\<rparr>) = round_open e" "round_open (e\<lparr>this_coro := y\<rparr>) = round_open e"
  by (simp_all add: round_open_def)

lemma back_to_user_inv:
  assumes inv: "engine_inv e" and u: "(\<exists>c r. control e = User c r) \<or> (\<exists>r. control e = Main r)"
  shows "engine_inv (back_to_user r' e)"
  using u
proof (elim disjE exE)
  fix c r assume c: "control e = User c r"
  then have e: "e = e\<lparr>control := User c r\<rparr>" by simp
  have "this_coro e = Some c" using inv c by (simp add: engine_inv_def control_ok_def)
  then have "back_to_user r' e = e\<lparr>control := User c r'\<rparr>" by (simp add: back_to_user_def)
  moreover have "control_ok (e\<lparr>control := User c r'\<rparr>)"
    using inv c by (simp add: engine_inv_def control_ok_def)
  moreover have "\<forall>d\<in>set (allocated e). coro_ok d (e\<lparr>control := User c r'\<rparr>)"
    using inv e coro_ok_reply(1) [of _ c r e r'] by (simp add: engine_inv_def)
  ultimately show ?thesis using inv by (simp add: engine_inv_def)
next
  fix r assume c: "control e = Main r"
  then have e: "e = e\<lparr>control := Main r\<rparr>" by simp
  have "this_coro e = None" using inv c by (simp add: engine_inv_def control_ok_def)
  then have "back_to_user r' e = e\<lparr>control := Main r'\<rparr>" by (simp add: back_to_user_def)
  moreover have "control_ok (e\<lparr>control := Main r'\<rparr>)"
    using inv c by (simp add: engine_inv_def control_ok_def)
  moreover have "\<forall>d\<in>set (allocated e). coro_ok d (e\<lparr>control := Main r'\<rparr>)"
    using inv e coro_ok_reply(2) [of _ r e r'] by (simp add: engine_inv_def)
  ultimately show ?thesis using inv by (simp add: engine_inv_def)
qed

subsection \<open>Creation\<close>

definition spawned :: "addr \<Rightarrow> coro \<Rightarrow> coro_engine \<Rightarrow> coro_engine" where
  "spawned a x e = e\<lparr>coros := (coros e)(a := x), coros_running_next := coros_running_next e @ [a]\<rparr>"

lemma spawned_simps [simp]:
  "coros (spawned c x e) = (coros e)(c := x)"
  "allocated (spawned c x e) = allocated e" "this_coro (spawned c x e) = this_coro e"
  "coros_running_now (spawned c x e) = coros_running_now e" "coros_running_next (spawned c x e) = coros_running_next e @ [c]"
  "coros_pool (spawned c x e) = coros_pool e" "coro_count (spawned c x e) = coro_count e" "control (spawned c x e) = control e"
  by (simp_all add: spawned_def)

lemma spawned_control_ok:
  assumes "control_ok e" "a \<noteq> SCHED" "holder e \<noteq> Some a" "set (coros_pool e') \<subseteq> set (coros_pool e)" 
   "coros_running_now e' = coros_running_now e" "coros_running_next e' = coros_running_next e" "coros e' = coros e"
   "this_coro e' = this_coro e" "control e' = control e" "set (allocated e) \<subseteq> set (allocated e')"
  shows "control_ok (spawned a x e')"
  using assms by (auto simp: control_ok_def is_linked_def round_open_def holder_def split: control.splits)

lemma spawn_new_ok:
  assumes d: "coro_ok d e" "d \<noteq> a" "a \<notin> set (allocated e)"
    "co_state x = CORO_STATE_RUNNING"
  shows "coro_ok d (spawned a x (e\<lparr>allocated := a # allocated e, coro_count := n\<rparr>))" (is "coro_ok d ?e")
proof (rule coro_okI)
  note a = d [unfolded coro_ok_def]
  show "place_ok d ?e" using a by (auto simp: place_ok_def holder_def)
  show "ctx_ok d ?e" using a by (auto simp: ctx_ok_def in_user_def)
  show "suspended_ok d ?e" using a by (auto simp: suspended_ok_def split: coro_ctx.splits if_splits)
  show "pooled_ok d ?e" using a by (auto simp: pooled_ok_def)
  show "joiner_ok d ?e" using a by (auto simp: joiner_ok_def in_user_def)
qed

lemma spawn_new_safe:
  assumes inv: "engine_inv e" and a: "a \<noteq> SCHED" "a \<notin> set (allocated e)"
  shows "\<exists>e'. coro_engine_spawn_new a True f arg e = Inr (a, e') \<and> engine_inv e' \<and> control e' = control e"
proof -
  define x where "x = \<lparr>co_state = CORO_STATE_RUNNING, co_ret = None, co_func_arg = arg, co_func = Some f,
                    co_ctx = At_start, co_joiner = None\<rparr>"
  let ?e = "spawned a x (e\<lparr>allocated := a # allocated e, coro_count := coro_count e + 1\<rparr>)"
  have h: "holder e \<noteq> Some a" using inv a by (auto simp: engine_inv_def control_ok_def holder_def split: control.splits if_splits)
  have nl: "\<not> is_linked a e" using inv a by (auto simp: engine_inv_def lists_ok_def is_linked_def)
  have "coro_engine_spawn_new a True f arg e = Inr (a, ?e)"
    using nl by (simp add: coro_engine_spawn_new_def Let_def x_def is_linked_def spawned_def)
  moreover have "lists_ok ?e" using inv a nl by (auto simp: engine_inv_def lists_ok_def is_linked_def)
  moreover have "control_ok ?e" using inv a h by (intro spawned_control_ok [of e]) (auto simp: engine_inv_def)
  moreover have "coro_ok a ?e"
    using nl h by (auto simp: coro_ok_def place_ok_def ctx_ok_def suspended_ok_def pooled_ok_def joiner_ok_def is_linked_def x_def)
  moreover have "\<forall>d\<in>set (allocated e). coro_ok d ?e"
    using spawn_new_ok [of _ e a x] inv a by (auto simp: engine_inv_def x_def)
  ultimately show ?thesis by (simp add: engine_inv_def)
qed

lemma spawn_pool_ok:
  assumes d: "coro_ok d e" and c: "coro_ok c e" and p: "coros_pool e = c # cs" "c \<notin> set cs"
    and x: "x = (coros e c)\<lparr>co_func := Some f, co_func_arg := arg, co_state := CORO_STATE_RUNNING\<rparr>"
  shows "coro_ok d (spawned c x (e\<lparr>coros_pool := cs\<rparr>))" (is "coro_ok d ?e")
proof (rule coro_okI)
  note a = d [unfolded coro_ok_def]
  have fin: "co_state (coros e c) = CORO_STATE_FINISHED" "co_ctx (coros e c) = In_finish" "co_joiner (coros e c) = None"
    using c p by (auto simp: coro_ok_def pooled_ok_def ctx_ok_def)
  show "place_ok d ?e" using a x by (auto simp: place_ok_def holder_def)
  show "ctx_ok d ?e" using a x p fin by (auto simp: ctx_ok_def in_user_def)
  show "suspended_ok d ?e" using a x by (auto simp: suspended_ok_def split: coro_ctx.splits if_splits)
  show "pooled_ok d ?e" using a x p by (auto simp: pooled_ok_def)
  show "joiner_ok d ?e" using a x by (auto simp: joiner_ok_def in_user_def)
qed

lemma spawn_safe:
  assumes inv: "engine_inv e" and a: "a \<noteq> SCHED" "a \<notin> set (allocated e)"
  shows "\<exists>c e'. coro_engine_spawn a True f arg e = Inr (c, e') \<and> engine_inv e' \<and> control e' = control e"
proof (cases "coros_pool e")
  case Nil
  then show ?thesis using spawn_new_safe [OF assms, of f arg] by (auto simp: coro_engine_spawn_def)
next
  case (Cons c cs)
  define x where "x = (coros e c)\<lparr>co_func := Some f, co_func_arg := arg, co_state := CORO_STATE_RUNNING\<rparr>"
  have c: "c \<in> set (allocated e)" "c \<noteq> SCHED" "c \<notin> set cs" "c \<notin> set (coros_running_now e)" "c \<notin> set (coros_running_next e)"
    using inv Cons by (auto simp: engine_inv_def lists_ok_def)
  then have cok: "coro_ok c e" using inv by (simp add: engine_inv_def)
  have h: "holder e \<noteq> Some c"
    using cok Cons by (auto simp: coro_ok_def place_ok_def pooled_ok_def)
  let ?e = "spawned c x (e\<lparr>coros_pool := cs\<rparr>)"
  have "coro_engine_spawn a True f arg e = Inr (c, ?e)"
    using Cons c by (simp add: coro_engine_spawn_def Let_def x_def is_linked_def spawned_def upd_coro_def)
  moreover have "lists_ok ?e" using inv Cons c by (auto simp: engine_inv_def lists_ok_def)
  moreover have "control_ok ?e" using inv Cons h c by (intro spawned_control_ok [of e]) (auto simp: engine_inv_def)
  moreover have "\<forall>d\<in>set (allocated e). coro_ok d ?e"
    using spawn_pool_ok [OF _ cok Cons c(3) x_def] inv by (auto simp: engine_inv_def)
  ultimately show ?thesis by (simp add: engine_inv_def)
qed


subsection \<open>Joining\<close>

lemma join_start_ok:
  assumes d: "coro_ok d e" and u: "control e = User c r" and run: "co_state (coros e c) = CORO_STATE_RUNNING"
    and t: "t \<in> set (allocated e)" "t \<notin> set (coros_pool e)" "co_joiner (coros e t) = None" and c: "c \<in> set (allocated e)"
  shows "coro_ok d (leaving c (In_join t) (upd_coro t (co_joiner_update (\<lambda>_. Some c)) e))" (is "coro_ok d ?e")
proof (rule coro_okI)
  note a = d [unfolded coro_ok_def]
  show "place_ok d ?e" using a u by (auto simp: place_ok_def holder_def)
  show "ctx_ok d ?e" using a u run t by (auto simp: ctx_ok_def in_user_def)
  have "suspended_ok d e" using a by simp
  then show "suspended_ok d ?e" using run by (cases "d = c") (auto simp: suspended_ok_def split: coro_ctx.splits if_splits)
  show "pooled_ok d ?e" using a t by (auto simp: pooled_ok_def)
  show "joiner_ok d ?e" using a u t c by (auto simp: joiner_ok_def in_user_def)
qed

lemma join_start:
  assumes inv: "engine_inv e" and u: "control e = User c r"
    and t: "t \<in> set (allocated e)" "t \<notin> set (coros_pool e)" "co_joiner (coros e t) = None"
  shows "engine_inv (leaving c (In_join t) (upd_coro t (co_joiner_update (\<lambda>_. Some c)) e))" (is "engine_inv ?e")
proof -
  have c: "c \<in> set (allocated e)" "co_state (coros e c) = CORO_STATE_RUNNING" "SCHED \<notin> set (allocated e)"
    using inv u by (auto simp: engine_inv_def control_ok_def lists_ok_def)
  have "\<forall>d\<in>set (allocated e). coro_ok d ?e"
    using join_start_ok [OF _ u c(2) t c(1)] inv by (auto simp: engine_inv_def)
  moreover have "lists_ok ?e" using inv by (auto simp: engine_inv_def lists_ok_def)
  moreover have "control_ok ?e" using inv u c t(1)
    by (auto simp: engine_inv_def control_ok_def round_open_def is_linked_def)
  ultimately show ?thesis by (simp add: engine_inv_def)
qed

definition joined :: "addr \<Rightarrow> coro_engine \<Rightarrow> coro_engine" where
  "joined t e = upd_coro t (\<lambda>r. r\<lparr>co_joiner := None, co_ret := None\<rparr>) e\<lparr>coros_pool := t # coros_pool e\<rparr>"

lemma joined_simps [simp]:
  "coros (joined t e) = (coros e)(t := (coros e t)\<lparr>co_joiner := None, co_ret := None\<rparr>)"
  "allocated (joined t e) = allocated e" "this_coro (joined t e) = this_coro e"
  "coros_running_now (joined t e) = coros_running_now e" "coros_running_next (joined t e) = coros_running_next e"
  "coros_pool (joined t e) = t # coros_pool e" "coro_count (joined t e) = coro_count e" "control (joined t e) = control e"
  by (simp_all add: joined_def)

lemma joined_user_ok:
  assumes d: "coro_ok d (leaving c (In_join t) e)" and c: "coro_ok c (leaving c (In_join t) e)"
    and fin: "co_state (coros e t) = CORO_STATE_FINISHED" and run: "co_state (coros e c) = CORO_STATE_RUNNING"
  shows "coro_ok d ((joined t e)\<lparr>control := User c r\<rparr>)" (is "coro_ok d ?e")
proof (rule coro_okI)
  note a = d [unfolded coro_ok_def]
  have tc: "t \<noteq> c" using fin run by auto
  have j: "co_joiner (coros e t) = Some c" using c tc by (auto simp: coro_ok_def ctx_ok_def in_user_def)
  show "place_ok d ?e" using a by (cases "d = c") (auto simp: place_ok_def holder_def)
  show "ctx_ok d ?e" using a run j tc by (cases "d = c") (auto simp: ctx_ok_def in_user_def split: if_splits)
  have "suspended_ok d (leaving c (In_join t) e)" using a by simp
  then show "suspended_ok d ?e" using run tc by (cases "d = c") (auto simp: suspended_ok_def split: coro_ctx.splits if_splits)
  show "pooled_ok d ?e" using a fin tc by (cases "d = c") (auto simp: pooled_ok_def)
  have jok: "joiner_ok d (leaving c (In_join t) e)" using a by simp
  have "co_joiner (coros (leaving c (In_join t) e) d) = co_joiner (coros e d)" by simp
  with jok have "co_joiner (coros e d) = Some j \<Longrightarrow>
      j \<in> set (allocated e) \<and> (if j = c then In_join t else co_ctx (coros e j)) = In_join d" for j
    unfolding joiner_ok_def by (auto split: if_splits)
  then show "joiner_ok d ?e" unfolding joiner_ok_def in_user_def by (auto split: if_splits)
qed

lemma joined_main_ok:
  assumes d: "coro_ok d e" and m: "control e = Main r"
    and fin: "co_state (coros e t) = CORO_STATE_FINISHED" and j: "co_joiner (coros e t) = None"
  shows "coro_ok d ((joined t e)\<lparr>control := Main r'\<rparr>)" (is "coro_ok d ?e")
proof (rule coro_okI)
  note a = d [unfolded coro_ok_def]
  show "place_ok d ?e" using a m by (auto simp: place_ok_def holder_def)
  show "ctx_ok d ?e" using a m j by (auto simp: ctx_ok_def in_user_def)
  show "suspended_ok d ?e" using a by (auto simp: suspended_ok_def split: coro_ctx.splits if_splits)
  show "pooled_ok d ?e" using a fin by (auto simp: pooled_ok_def)
  show "joiner_ok d ?e" using a by (auto simp: joiner_ok_def in_user_def split: if_splits)
qed

lemma finished_not_linked:
  "coro_ok t e \<Longrightarrow> co_state (coros e t) = CORO_STATE_FINISHED \<Longrightarrow> t \<notin> set (coros_pool e) \<Longrightarrow> \<not> is_linked t e"
  by (auto simp: coro_ok_def place_ok_def is_linked_def)

lemma lists_ok_joined:
  "lists_ok e \<Longrightarrow> t \<in> set (allocated e) \<Longrightarrow> \<not> is_linked t e \<Longrightarrow> lists_ok (joined t e)"
  by (auto simp: lists_ok_def is_linked_def)

lemma join_loop_done:
  "co_state (coros e t) = CORO_STATE_FINISHED \<Longrightarrow> co_joiner (coros e t) = this_coro e \<Longrightarrow> \<not> is_linked t e \<Longrightarrow>
     coro_engine_join_loop t e = Inr (back_to_user (Ret (co_ret (coros e t))) (joined t e))"
  by (simp add: coro_engine_join_loop_def Let_def joined_def)

lemma join_loop_safe:
  assumes inv: "engine_inv (leaving c (In_join t) e)" and this_c: "this_coro e = Some c" and cs: "c \<noteq> SCHED"
  shows "\<exists>e'. coro_engine_join_loop t e = Inr e' \<and> engine_inv e'"
proof (cases "co_state (coros e t) = CORO_STATE_FINISHED")
  case False
  then show ?thesis
    using suspend_safe [OF inv this_c cs] by (auto simp: coro_engine_join_loop_def)
next
  case True
  note l = leavingD [OF inv cs]
  have tc: "t \<noteq> c" using True l(5) by auto
  have t: "t \<in> set (allocated e)" "t \<notin> set (coros_pool e)" "co_joiner (coros e t) = Some c"
    using l(7) [OF l(6)] tc by (auto simp: coro_ok_def ctx_ok_def in_user_def)
  have nl: "\<not> is_linked t e"
    using finished_not_linked [OF l(7) [OF t(1)]] True t(2) tc by (simp add: is_linked_def)
  let ?e = "(joined t e)\<lparr>control := User c (Ret (co_ret (coros e t)))\<rparr>"
  have "coro_engine_join_loop t e = Inr ?e"
    using join_loop_done [OF True _ nl] t(3) this_c by (simp add: back_to_user_def)
  moreover have "lists_ok ?e" using lists_ok_joined [OF l(1) t(1) nl] by simp
  moreover have "control_ok ?e"
    using l(2-6) this_c tc t(1) inv by (auto simp: control_ok_def round_open_def is_linked_def engine_inv_def lists_ok_def)
  moreover have "\<forall>d\<in>set (allocated e). coro_ok d ?e"
    using joined_user_ok [OF l(7) l(7) [OF l(6)] True l(5)] by simp
  ultimately show ?thesis by (simp add: engine_inv_def)
qed

lemma join_user_safe:
  assumes inv: "engine_inv e" and u: "control e = User c r"
    and t: "t \<in> set (allocated e)" "t \<notin> set (coros_pool e)" "co_joiner (coros e t) = None"
  shows "\<exists>e'. coro_engine_join t e = Inr e' \<and> engine_inv e'"
proof -
  have "this_coro e = Some c" "c \<noteq> SCHED" using inv u by (auto simp: engine_inv_def control_ok_def lists_ok_def)
  with join_loop_safe [OF join_start [OF assms]] t(3) show ?thesis by (simp add: coro_engine_join_def)
qed

lemma join_main_safe:
  assumes inv: "engine_inv e" and m: "control e = Main r"
    and t: "t \<in> set (allocated e)" "t \<notin> set (coros_pool e)" "co_joiner (coros e t) = None" 
      "co_state (coros e t) = CORO_STATE_FINISHED"
  shows "\<exists>e'. coro_engine_join t e = Inr e' \<and> engine_inv e'"
proof -
  have this_n: "this_coro e = None" using inv m by (simp add: engine_inv_def control_ok_def)
  have nl: "\<not> is_linked t e" using finished_not_linked [of t e] inv t by (simp add: engine_inv_def)
  have "(coros e t)\<lparr>co_joiner := None\<rparr> = coros e t" using t(3) by simp
  then have "upd_coro t (co_joiner_update (\<lambda>_. None)) e = e" by (simp add: upd_coro_def)
  then have "coro_engine_join t e = Inr ((joined t e)\<lparr>control := Main (Ret (co_ret (coros e t)))\<rparr>)"
    using join_loop_done [OF t(4) _ nl] t(3) this_n by (simp add: coro_engine_join_def back_to_user_def)
  moreover have "engine_inv ((joined t e)\<lparr>control := Main (Ret (co_ret (coros e t)))\<rparr>)"
    using inv m joined_main_ok [OF _ m t(4,3)] lists_ok_joined [OF _ t(1) nl]
    by (auto simp: engine_inv_def control_ok_def lists_ok_def)
  ultimately show ?thesis by simp
qed

subsection \<open>The scheduler loop and the landing of a jump\<close>

lemma round_start_ok:
  assumes "coro_ok d e" "control e = Loop" "coros_running_now e = []" "d \<noteq> SCHED" "d \<in> set (allocated e)" "SCHED \<notin> set (allocated e)"
  shows "coro_ok d (upd_coro SCHED (co_ctx_update (\<lambda>_. In_run))
           (e\<lparr>coros_running_next := [], this_coro := Some SCHED, coros_running_now := coros_running_next e @ [SCHED]\<rparr>)\<lparr>control := Loop\<rparr>)"
    (is "coro_ok d ?e")
proof (rule coro_okI)
  note a = assms(1) [unfolded coro_ok_def]
  show "place_ok d ?e" using a assms by (auto simp: place_ok_def holder_def)
  show "ctx_ok d ?e" using a assms by (auto simp: ctx_ok_def in_user_def)
  show "suspended_ok d ?e" using a assms by (auto simp: suspended_ok_def split: coro_ctx.splits)
  show "pooled_ok d ?e" using a assms by (auto simp: pooled_ok_def)
  show "joiner_ok d ?e" using a assms by (auto simp: joiner_ok_def in_user_def)
qed

lemma run_end_ok:
  "coro_ok d (e\<lparr>control := Main r\<rparr>) = coro_ok d (e\<lparr>control := Loop\<rparr>)"
  by (simp add: coro_ok_def place_ok_def ctx_ok_def suspended_ok_def pooled_ok_def joiner_ok_def holder_def in_user_def
        cong: coro_ctx.case_cong)

lemma round_safe:
  assumes inv: "engine_inv e" and l: "control e = Loop"
  shows "\<exists>e'. coro_engine_run e = Inr e' \<and> engine_inv e'"
proof -
  have k: "this_coro e = None" "coros_running_now e = []" "co_state (coros e SCHED) = CORO_STATE_RUNNING" "lists_ok e"
    using inv l by (auto simp: engine_inv_def control_ok_def)
  show ?thesis
  proof (cases "coros_running_next e = []")
    case True
    then have "coro_engine_run e = Inr (e\<lparr>control := Main Void\<rparr>)"
      using k by (simp add: coro_engine_run_def)
    moreover have "coro_ok d (e\<lparr>control := Main Void\<rparr>)" if "d \<in> set (allocated e)" for d
    proof -
      have "e\<lparr>control := Loop\<rparr> = e" using l by simp
      then have "coro_ok d (e\<lparr>control := Loop\<rparr>)" using inv that by (simp add: engine_inv_def)
      then show ?thesis by (simp add: run_end_ok)
    qed
    ultimately show ?thesis using inv k by (simp add: engine_inv_def control_ok_def)
  next
    case False
    let ?e = "e\<lparr>coros_running_next := [], this_coro := Some SCHED, coros_running_now := coros_running_next e @ [SCHED]\<rparr>"
    have s: "SCHED \<notin> set (allocated e)" "SCHED \<notin> set (coros_running_next e)" "SCHED \<notin> set (coros_pool e)"
      using k(4) by (auto simp: lists_ok_def)
    have run: "coro_engine_run e = coro_engine_resume_next In_run ?e"
      using k False s by (simp add: coro_engine_run_def is_linked_def)
    have "parked (upd_coro SCHED (co_ctx_update (\<lambda>_. In_run)) ?e)"
      unfolding parked_def
    proof (intro conjI ballI)
      show "lists_ok (upd_coro SCHED (co_ctx_update (\<lambda>_. In_run)) ?e)"
        using k(2,4) s by (auto simp: lists_ok_def)
      fix d assume "d \<in> set (allocated (upd_coro SCHED (co_ctx_update (\<lambda>_. In_run)) ?e))"
      then have d: "d \<in> set (allocated e)" "d \<noteq> SCHED" using s by auto
      with inv have "coro_ok d e" by (simp add: engine_inv_def)
      from round_start_ok [OF this l k(2) d(2,1) s(1)]
      show "coro_ok d (upd_coro SCHED (co_ctx_update (\<lambda>_. In_run)) ?e\<lparr>control := Loop\<rparr>)" .
    qed (use k(3) in \<open>simp_all add: round_open_def\<close>)
    from resume_next_safe [OF this] run show ?thesis by simp
  qed
qed

lemma enter_ok:
  assumes d: "coro_ok d e" and j: "control e = Jump c" and k: "\<And>t. co_ctx (coros e c) \<noteq> In_join t"
  shows "coro_ok d (e\<lparr>this_coro := x, control := User c Void\<rparr>)" (is "coro_ok d ?e")
proof (rule coro_okI)
  note a = d [unfolded coro_ok_def]
  show "place_ok d ?e" using a j by (auto simp: place_ok_def holder_def)
  show "ctx_ok d ?e" using a j by (auto simp: ctx_ok_def in_user_def)
  show "suspended_ok d ?e" using a by (auto simp: suspended_ok_def split: coro_ctx.splits)
  show "pooled_ok d ?e" using a by (auto simp: pooled_ok_def)
  show "joiner_ok d ?e" using a j k by (auto simp: joiner_ok_def in_user_def)
qed

lemma enter_inv:
  assumes inv: "engine_inv e" and j: "control e = Jump c" "c \<noteq> SCHED" and k: "\<And>t. co_ctx (coros e c) \<noteq> In_join t"
  shows "engine_inv (e\<lparr>this_coro := Some c, control := User c Void\<rparr>)"
proof -
  have "\<forall>d\<in>set (allocated e). coro_ok d (e\<lparr>this_coro := Some c, control := User c Void\<rparr>)"
    using enter_ok [OF _ j(1) k] inv by (simp add: engine_inv_def)
  then show ?thesis using inv j by (simp add: engine_inv_def control_ok_def)
qed

lemma jump_resumed:
  "engine_inv e \<Longrightarrow> control e = Jump c \<Longrightarrow> coro_engine_resumed c e = Inr (e\<lparr>this_coro := Some c\<rparr>)"
  by (simp add: engine_inv_def control_ok_def coro_engine_resumed_def)

lemma sched_leaves_ok:
  assumes "coro_ok d e" and j: "control e = Jump SCHED" "d \<noteq> SCHED"
  shows "coro_ok d (e\<lparr>control := Loop\<rparr>)" (is "coro_ok d ?e")
proof (rule coro_okI)
  note a = assms(1) [unfolded coro_ok_def]
  show "place_ok d ?e" using a j by (auto simp: place_ok_def holder_def)
  show "ctx_ok d ?e" using a j by (auto simp: ctx_ok_def in_user_def)
  show "suspended_ok d ?e" using a by (auto simp: suspended_ok_def split: coro_ctx.splits)
  show "pooled_ok d ?e" using a by (auto simp: pooled_ok_def)
  show "joiner_ok d ?e" using a j by (auto simp: joiner_ok_def in_user_def)
qed

lemma land_sched_safe:
  assumes inv: "engine_inv e" and j: "control e = Jump SCHED"
  shows "\<exists>e'. coro_land SCHED e = Inr e' \<and> engine_inv e'"
proof -
  have k: "co_ctx (coros e SCHED) = In_run" "coros_running_now e = []" "this_coro e = None"
    using inv j by (simp_all add: engine_inv_def control_ok_def)
  have e: "e\<lparr>this_coro := Some SCHED, this_coro := None, control := Loop\<rparr> = e\<lparr>control := Loop\<rparr>" using k by simp
  have "coro_land SCHED e = Inr (e\<lparr>control := Loop\<rparr>)"
    using k jump_resumed [OF inv j] e by (simp add: coro_land_def coro_engine_run_end_def)
  moreover have "coro_ok d (e\<lparr>control := Loop\<rparr>)" if d: "d \<in> set (allocated e)" for d
  proof -
    have "coro_ok d e" "d \<noteq> SCHED" using inv d by (auto simp: engine_inv_def lists_ok_def)
    then show ?thesis using j by (auto intro: sched_leaves_ok)
  qed
  ultimately show ?thesis using inv k by (simp add: engine_inv_def control_ok_def)
qed

lemma land_safe:
  assumes inv: "engine_inv e" and j: "control e = Jump c"
  shows "\<exists>e'. coro_land c e = Inr e' \<and> engine_inv e'"
proof (cases "c = SCHED")
  case True
  then show ?thesis using land_sched_safe [OF inv] j by simp
next
  case False
  have c: "coro_ok c e" "this_coro e = None" "co_state (coros e c) = CORO_STATE_RUNNING" "\<not> in_user c e" "co_func (coros e c) \<noteq> None"
    using inv j False by (auto simp: engine_inv_def control_ok_def in_user_def coro_ok_def place_ok_def)
  have res: "coro_engine_resumed c e = Inr (e\<lparr>this_coro := Some c\<rparr>)" using jump_resumed [OF inv j] .
  have entered: "(\<And>t. co_ctx (coros e c) \<noteq> In_join t) \<Longrightarrow> ?thesis" if "coro_land c e = Inr (e\<lparr>this_coro := Some c, control := User c Void\<rparr>)"
    using enter_inv [OF inv j False] that by simp
  show ?thesis
  proof (cases "co_ctx (coros e c)")
    case (In_join t)
    have "(coros e c)\<lparr>co_ctx := In_join t\<rparr> = coros e c" using In_join by simp
    then have "leaving c (In_join t) (e\<lparr>this_coro := Some c\<rparr>) = e"
      using j c(2) by (simp add: leaving_def upd_coro_def)
    then show ?thesis
      using join_loop_safe [of c t "e\<lparr>this_coro := Some c\<rparr>"] inv False In_join res by (simp add: coro_land_def)
  next
    case In_run
    then show ?thesis using c by (simp add: coro_ok_def ctx_ok_def)
  qed (intro entered; use c(3,5) res in \<open>simp add: coro_land_def coro_body_restart_def\<close>)+
qed

lemma destroy_pool_eq:
  "length cs \<le> coro_count e \<Longrightarrow>
     destroy_pool cs e = Inr (e\<lparr>allocated := fold remove1 cs (allocated e), coro_count := coro_count e - length cs, coros_pool := []\<rparr>)"
  by (induction cs arbitrary: e) auto

lemma fold_remove1_all: "distinct xs \<Longrightarrow> set (fold remove1 cs xs) = set xs - set cs \<and> distinct (fold remove1 cs xs)"
  by (induction cs arbitrary: xs) auto

lemma destroy_safe:
  assumes inv: "engine_inv e" and m: "control e = Main r" and "coros_running_next e = []" and all: "set (allocated e) \<subseteq> set (coros_pool e)"
  shows "\<exists>e'. coro_engine_destroy e = Inr e' \<and> engine_inv e'"
proof -
  have k: "this_coro e = None" "coros_running_now e = []" "lists_ok e" "co_state (coros e SCHED) = CORO_STATE_RUNNING"
    using inv m by (auto simp: engine_inv_def control_ok_def)
  have eq: "set (coros_pool e) = set (allocated e)" "distinct (coros_pool e)" "distinct (allocated e)"
    using k(3) all by (auto simp: lists_ok_def)
  then have len: "coro_count e = length (coros_pool e)"
    using k(3) by (simp add: lists_ok_def) (metis distinct_card)
  have nil: "fold remove1 (coros_pool e) (allocated e) = []"
    using fold_remove1_all [OF eq(3), of "coros_pool e"] eq(1) by simp
  have "coro_engine_destroy e = Inr (e\<lparr>allocated := [], coro_count := 0, coros_pool := [], control := Destroyed\<rparr>)"
    using k len nil destroy_pool_eq [of "coros_pool e" e] assms(3) by (simp add: coro_engine_destroy_def)
  moreover have "engine_inv (e\<lparr>allocated := [], coro_count := 0, coros_pool := [], control := Destroyed\<rparr>)"
    using k assms(3) by (simp add: engine_inv_def lists_ok_def control_ok_def)
  ultimately show ?thesis by blast
qed

section \<open>The library as a transition system\<close>

lemma call_user_safe:
  assumes inv: "engine_inv e" and u: "control e = User c r" and en: "coro_enabled (Call call) e"
  shows "\<exists>e'. coro_call_exec call e = Inr e' \<and> engine_inv e'"
proof -
  have this_c: "this_coro e = Some c" "c \<noteq> SCHED" using inv u by (auto simp: engine_inv_def control_ok_def lists_ok_def)
  show ?thesis
  proof (cases call)
    case Suspend
    then show ?thesis
      using suspend_safe [OF user_leaving [OF inv u] this_c, of In_suspend] by (simp add: coro_call_exec_def)
  next
    case (Wakeup d)
    then have "d \<in> set (allocated e)" using en u by simp
    then obtain e' where "coro_engine_wakeup d e = Inr e'" "engine_inv e'" "control e' = control e"
      using wakeup_safe [OF inv] by blast
    then show ?thesis using Wakeup u back_to_user_inv [of e'] by (simp add: coro_call_exec_def)
  next
    case (New a ok f arg)
    then obtain d e' where "coro_engine_spawn a True f arg e = Inr (d, e')" "engine_inv e'" "control e' = control e"
      using spawn_safe [OF inv, of a f arg] en u by auto
    then show ?thesis using New u en back_to_user_inv [of e'] by (simp add: coro_call_exec_def)
  next
    case (Return v)
    then show ?thesis using finish_safe [OF inv u] this_c by (simp add: coro_call_exec_def)
  qed (use en u yield_safe [OF inv u] join_user_safe [OF inv u] in \<open>simp_all add: coro_call_exec_def\<close>)
qed

lemma call_main_safe:
  assumes inv: "engine_inv e" and u: "control e = Main r" and en: "coro_enabled (Call call) e"
  shows "\<exists>e'. coro_call_exec call e = Inr e' \<and> engine_inv e'"
proof (cases call)
  case (Wakeup d)
  then have "d \<in> set (allocated e)" using en u by simp
  then obtain e' where "coro_engine_wakeup d e = Inr e'" "engine_inv e'" "control e' = control e"
    using wakeup_safe [OF inv] by blast
  then show ?thesis using Wakeup u back_to_user_inv [of e'] by (simp add: coro_call_exec_def)
next
  case (New a ok f arg)
  then obtain d e' where "coro_engine_spawn a True f arg e = Inr (d, e')" "engine_inv e'" "control e' = control e"
    using spawn_safe [OF inv, of a f arg] en u by auto
  then show ?thesis using New u en back_to_user_inv [of e'] by (simp add: coro_call_exec_def)
next
  case Run
  have "e = e\<lparr>control := Main r\<rparr>" using u by simp
  then have "\<forall>d\<in>set (allocated e). coro_ok d (e\<lparr>control := Loop\<rparr>)"
    using inv run_end_ok [of _ r e] by (simp add: engine_inv_def)
  then show ?thesis using Run inv u by (simp add: coro_call_exec_def engine_inv_def control_ok_def)
qed (use en u join_main_safe [OF inv u] destroy_safe [OF inv u] in \<open>simp_all add: coro_call_exec_def\<close>)

lemma coro_step_safe:
  assumes inv: "engine_inv e" and en: "coro_enabled l e"
  shows "\<exists>e'. coro_step l e = Inr e' \<and> engine_inv e'"
proof (cases l)
  case Internal
  then show ?thesis using en land_safe [OF inv] round_safe [OF inv] by (auto split: control.splits)
next
  case (Call call)
  then show ?thesis
    using en call_user_safe [OF inv] call_main_safe [OF inv] by (cases "control e") simp_all
qed

interpretation coro: safe_system coro_step coro_enabled engine_inv
  by unfold_locales (rule coro_step_safe)

end
