(* ===== verification/Libcoro_Links.thy ===== *)
theory Libcoro_Links
  imports Libcoro
begin

text \<open>
  The queues of the coroutine engine in memory: families of disjoint intrusive lists and how the
  operations of \<open>rlist.h\<close> act on them, then the engine of \<open>1/libcoro.cpp\<close> as such a family.
\<close>

section \<open>Families of lists\<close>










section \<open>The memory of the engine\<close>

text \<open>
  The memory of the engine: \<open>hd\<close> gives the addresses of its three list heads, a coroutine is
  identified with its link.
\<close>

datatype engine_list = Now | Next | Pool


definition set_list :: "engine_list \<Rightarrow> addr list \<Rightarrow> coro_engine \<Rightarrow> coro_engine" where
  "set_list k xs e =
     (case k of Now \<Rightarrow> e\<lparr>coros_running_now := xs\<rparr> | Next \<Rightarrow> e\<lparr>coros_running_next := xs\<rparr> | Pool \<Rightarrow> e\<lparr>coros_pool := xs\<rparr>)"




lemma set_list_allocated [simp]: "allocated (set_list k xs e) = allocated e"
  by (cases k) (simp_all add: set_list_def)















end
