(* ===== verification/Libcoro_Runs.thy ===== *)
theory Libcoro_Runs
  imports Libcoro "HOL-Library.Sublist"
begin

text \<open>
  What whole runs of programs with coroutines have in common: the order of the rounds, the
  results of joins, that no assertion of the library fails and that the library gives the processor
  back. The facts rest on the interpretation of \<open>safe_system\<close> for \<open>1/libcoro.cpp\<close>.
\<close>

section \<open>Rounds are first in, first out\<close>

definition lands :: "coro_label \<Rightarrow> coro_engine \<Rightarrow> coro_engine \<Rightarrow> addr list" where
  "lands l e e' = (case l of Internal \<Rightarrow> (case control e of Jump c \<Rightarrow> [c] | _ \<Rightarrow> []) | _ \<Rightarrow> [])"

definition jumping :: "coro_engine \<Rightarrow> addr list" where
  "jumping e = (case control e of Jump c \<Rightarrow> [c] | _ \<Rightarrow> [])"

definition in_round :: "coro_engine \<Rightarrow> bool" where
  "in_round e \<longleftrightarrow> (case control e of User c r \<Rightarrow> True | Jump c \<Rightarrow> True | _ \<Rightarrow> False)"

definition to_run :: "coro_engine \<Rightarrow> addr list" where
  "to_run e = jumping e @ coros_running_now e"

lemma resume_next_round:
  "coro_engine_resume_next k e = Inr e' \<Longrightarrow> in_round e' \<and> to_run e' = coros_running_now e"
  by (auto simp: coro_engine_resume_next_def in_round_def to_run_def jumping_def split: list.splits option.splits)

lemma suspend_round: "coro_engine_suspend k e = Inr e' \<Longrightarrow> in_round e' \<and> to_run e' = coros_running_now e"
  by (auto simp: coro_engine_suspend_def dest: resume_next_round split: option.splits if_splits)

lemma yield_round: "coro_engine_yield e = Inr e' \<Longrightarrow> in_round e' \<and> to_run e' = coros_running_now e"
  by (auto simp: coro_engine_yield_def dest: resume_next_round split: option.splits if_splits)

lemma wakeup_round:
  "coro_engine_wakeup c e = Inr e' \<Longrightarrow>
     coros_running_now e' = coros_running_now e \<and> this_coro e' = this_coro e \<and> control e' = control e"
  by (auto simp: coro_engine_wakeup_def split: coro_state.splits if_splits)

lemma finish_round: "coro_body_finish v c e = Inr e' \<Longrightarrow> in_round e' \<and> to_run e' = coros_running_now e"
  by (auto simp: coro_body_finish_def Let_def dest!: resume_next_round wakeup_round split: option.splits if_splits sum.splits)

lemma spawn_round:
  "coro_engine_spawn a ok f arg e = Inr (c, e') \<Longrightarrow>
     coros_running_now e' = coros_running_now e \<and> this_coro e' = this_coro e \<and> control e' = control e"
  by (auto simp: coro_engine_spawn_def coro_engine_spawn_new_def Let_def split: list.splits if_splits)

lemma back_to_user_round: "this_coro e = Some c \<Longrightarrow> in_round (back_to_user r e) \<and> to_run (back_to_user r e) = coros_running_now e"
  by (simp add: back_to_user_def in_round_def to_run_def jumping_def)

lemma join_loop_round:
  "coro_engine_join_loop t e = Inr e' \<Longrightarrow> this_coro e = Some c \<Longrightarrow> in_round e' \<and> to_run e' = coros_running_now e"
  by (auto simp: coro_engine_join_loop_def Let_def back_to_user_def in_round_def to_run_def jumping_def
      dest: suspend_round split: if_splits)

lemma call_round:
  assumes inv: "engine_inv e" and u: "control e = User c r" and en: "coro_enabled (Call call) e" and ex: "coro_call_exec call e = Inr e'"
  shows "in_round e' \<and> to_run e' = coros_running_now e"
proof -
  have t: "this_coro e = Some c" using inv u by (simp add: engine_inv_def control_ok_def)
  show ?thesis
  proof (cases call)
    case (Join d)
    then show ?thesis using ex t
      by (auto simp: coro_call_exec_def coro_engine_join_def dest: join_loop_round split: if_splits)
  next
    case (Wakeup d)
    with ex obtain e1 where "coro_engine_wakeup d e = Inr e1" "e' = back_to_user Void e1"
      by (auto simp: coro_call_exec_def map_sum_eq_Inr)
    then show ?thesis using wakeup_round [of d e e1] t back_to_user_round [of e1 c] by simp
  next
    case (New a ok f arg)
    with ex obtain d e1 where "coro_engine_spawn a ok f arg e = Inr (d, e1)" "e' = back_to_user (Handle d) e1"
      by (auto simp: coro_call_exec_def map_sum_eq_Inr)
    then show ?thesis using spawn_round [of a ok f arg e d e1] t back_to_user_round [of e1 c] by simp
  qed (use ex en u t in \<open>auto simp: coro_call_exec_def dest: suspend_round yield_round finish_round\<close>)
qed

lemma land_round:
  assumes inv: "engine_inv e" and j: "control e = Jump c" "c \<noteq> SCHED" and ex: "coro_land c e = Inr e'"
  shows "in_round e' \<and> to_run e' = coros_running_now e"
proof -
  have res: "coro_engine_resumed c e = Inr (e\<lparr>this_coro := Some c\<rparr>)" using jump_resumed [OF inv j(1)] .
  have k: "co_ctx (coros e c) \<noteq> In_run"
    using inv j by (auto simp: engine_inv_def control_ok_def coro_ok_def ctx_ok_def in_user_def)
  show ?thesis using ex res k
    by (auto simp: coro_land_def coro_body_restart_def in_round_def to_run_def jumping_def
        split: coro_ctx.splits if_splits dest: join_loop_round)
qed


definition round_history :: "addr list \<Rightarrow> coro_engine \<Rightarrow> addr list \<Rightarrow> bool" where
  "round_history cs e h \<longleftrightarrow>
     (if SCHED \<in> set h then takeWhile (\<lambda>c. c \<noteq> SCHED) h = cs else in_round e \<and> h @ to_run e = cs @ [SCHED])"

lemma round_history_step:
  assumes inv: "engine_inv e" and en: "coro_enabled l e" and st: "coro_step l e = Inr e'"
    and h: "round_history cs e h"
  shows "round_history cs e' (h @ lands l e e')"
proof (cases "SCHED \<in> set h")
  case True
  then show ?thesis using h by (auto simp: round_history_def takeWhile_append1)
next
  case False
  then have r: "in_round e" "h @ to_run e = cs @ [SCHED]" using h by (auto simp: round_history_def)
  show ?thesis
  proof (cases "control e")
    case (User c x)
    then obtain call where l: "l = Call call" using en by (cases l) auto
    then have "in_round e' \<and> to_run e' = coros_running_now e" using call_round [OF inv User] en st by simp
    then show ?thesis using False r l User by (auto simp: round_history_def lands_def to_run_def jumping_def)
  next
    case (Jump c)
    then have l: "l = Internal" using en by (cases l) auto
    show ?thesis
    proof (cases "c = SCHED")
      case True
      then have "coros_running_now e = []" using inv Jump by (simp add: engine_inv_def control_ok_def)
      then have "h = cs" using r(2) Jump True by (simp add: to_run_def jumping_def)
      moreover have "takeWhile (\<lambda>c. c \<noteq> SCHED) (cs @ [SCHED]) = cs"
        using False calculation by (subst takeWhile_append2) auto
      ultimately show ?thesis using True Jump l by (simp add: round_history_def lands_def)
    next
      case c: False
      then have "in_round e' \<and> to_run e' = coros_running_now e" using land_round [OF inv Jump c] st l Jump by simp
      then show ?thesis using False r l Jump c by (auto simp: round_history_def lands_def to_run_def jumping_def)
    qed
  qed (use r in \<open>auto simp: in_round_def\<close>)
qed

text \<open>
  C23. A round of the scheduler is fair and in order: from the head of the scheduler loop on, the
  coroutines that get the processor are exactly those that were in \<open>coros_running_next\<close> when the
  round started, each once and in that order, whatever the coroutines do meanwhile (yield, wake each
  other up, create new coroutines); then the scheduler has the control again.
\<close>

theorem coro_round_fifo:
  assumes "engine_inv e" and "control e = Loop" and "coros_running_next e \<noteq> []"
    and "legal coro_step coro_enabled (Internal # ls) e"
  defines "h \<equiv> events lands coro_step (Internal # ls) e"
  shows "prefix (takeWhile (\<lambda>c. c \<noteq> SCHED) h) (coros_running_next e) \<and>
         (SCHED \<in> set h \<longrightarrow> takeWhile (\<lambda>c. c \<noteq> SCHED) h = coros_running_next e)"
proof -
  obtain e1 where e1: "coro_step Internal e = Inr e1" "engine_inv e1"
    using coro_step_safe [OF assms(1), of Internal] assms(2) by auto
  have k: "this_coro e = None" "coros_running_now e = []"
    using assms(1,2) by (auto simp: engine_inv_def control_ok_def)
  have "in_round e1 \<and> to_run e1 = coros_running_next e @ [SCHED]"
    using e1(1) assms(2,3) k by (auto simp: coro_engine_run_def Let_def dest: resume_next_round split: if_splits)
  then have J: "round_history (coros_running_next e) e1 []" by (simp add: round_history_def)
  have "legal coro_step coro_enabled ls e1" using assms(4) e1(1) by simp
  then obtain e' where run: "legal coro_step coro_enabled ls e1" "run_labels coro_step ls e1 = Inr e'"
    using coro.run_safe [OF e1(2)] by blast
  have "round_history (coros_running_next e) e' ([] @ events lands coro_step ls e1)"
    by (rule coro.history_inv [where J = "round_history (coros_running_next e)", OF e1(2) run J]) (rule round_history_step)
  then have *: "if SCHED \<in> set h then takeWhile (\<lambda>c. c \<noteq> SCHED) h = coros_running_next e
      else in_round e' \<and> h @ to_run e' = coros_running_next e @ [SCHED]"
    using e1(1) assms(2) by (simp add: round_history_def h_def lands_def)
  show ?thesis
  proof (cases "SCHED \<in> set h")
    case False
    then have "h @ to_run e' = coros_running_next e @ [SCHED]" using * by simp
    then have "prefix h (coros_running_next e @ [SCHED])" by (rule prefixI [OF sym])
    then have "prefix h (coros_running_next e)" using False unfolding prefix_snoc by auto
    then have "prefix (takeWhile (\<lambda>c. c \<noteq> SCHED) h) (coros_running_next e)"
      using takeWhile_is_prefix prefix_order.trans by blast
    then show ?thesis using False by simp
  qed (use * in simp)
qed


text \<open>Two coroutines; the first creates a third one and yields, the second finishes: the third waits for the next round.\<close>

definition two_coros :: coro_engine where
  "two_coros = projr (run_labels coro_step [Call (New 1 True 50 None), Call (New 2 True 50 None), Call Run] coro_engine_create)"

definition round_labels :: "coro_label list" where
  "round_labels = [Internal, Call (New 3 True 50 None), Call Yield, Internal, Call (Return None), Internal]"

lemmas coro_eval = two_coros_def round_labels_def coro_engine_create_def zero_coro_def coro_call_exec_def
  coro_engine_spawn_def coro_engine_spawn_new_def is_linked_def back_to_user_def SCHED_def Let_def
  coro_engine_run_def coro_engine_resume_next_def coro_land_def coro_engine_yield_def coro_body_finish_def
  coro_engine_resumed_def coro_engine_run_end_def upd_coro_def lands_def coro_engine_suspend_def coro_engine_join_def
  coro_engine_join_loop_def coro_engine_wakeup_def

lemma two_coros_inv: "engine_inv two_coros"
proof -
  let ?ls = "[Call (New 1 True 50 None), Call (New 2 True 50 None), Call Run]"
  have l: "legal coro_step coro_enabled ?ls coro_engine_create" by (simp add: coro_eval)
  obtain e where e: "run_labels coro_step ?ls coro_engine_create = Inr e" "engine_inv e"
    using coro.run_safe [OF create_inv l] by blast
  then show ?thesis by (simp only: two_coros_def e(1) sum.sel)
qed

theorem coro_round_fifo_witness:
  "events lands coro_step (Internal # round_labels) two_coros = [1, 2, SCHED] \<and>
   takeWhile (\<lambda>c. c \<noteq> SCHED) [1, 2, SCHED] = coros_running_next two_coros"
proof -
  have ev: "events lands coro_step (Internal # round_labels) two_coros = [1, 2, SCHED]" by (simp add: coro_eval)
  have "control two_coros = Loop" "coros_running_next two_coros \<noteq> []"
    "legal coro_step coro_enabled (Internal # round_labels) two_coros" by (simp_all add: coro_eval)
  from coro_round_fifo [OF two_coros_inv this] ev show ?thesis by (simp only: ev list.set insert_iff simp_thms)
qed

section \<open>Results of joins\<close>

datatype coro_event = Returned addr "addr option" | Joined addr "addr option"

definition joined_event :: "addr \<Rightarrow> coro_engine \<Rightarrow> coro_event list" where
  "joined_event t e' =
     (case control e' of User c (Ret v) \<Rightarrow> [Joined t v] | Main (Ret v) \<Rightarrow> [Joined t v] | _ \<Rightarrow> [])"

text \<open>Observed: the return of the function of a coroutine, and the end of a join with its result.\<close>

definition join_events :: "coro_label \<Rightarrow> coro_engine \<Rightarrow> coro_engine \<Rightarrow> coro_event list" where
  "join_events l e e' =
     (case l of
        Call (Return v) \<Rightarrow> (case this_coro e of Some c \<Rightarrow> [Returned c v] | None \<Rightarrow> [])
      | Call (Join t) \<Rightarrow> joined_event t e'
      | Internal \<Rightarrow>
          (case control e of
             Jump c \<Rightarrow> (case co_ctx (coros e c) of In_join t \<Rightarrow> joined_event t e' | _ \<Rightarrow> [])
           | _ \<Rightarrow> [])
      | _ \<Rightarrow> [])"

text \<open>
  The events of one coroutine must alternate, each join with the value of the return before it;
  the value of a return that was not joined is carried along.
\<close>

fun results_match :: "addr \<Rightarrow> addr option option \<Rightarrow> coro_event list \<Rightarrow> addr option option option" where
  "results_match c st [] = Some st"
| "results_match c st (Returned d v # h) =
     (if d \<noteq> c then results_match c st h else if st = None then results_match c (Some v) h else None)"
| "results_match c st (Joined d v # h) =
     (if d \<noteq> c then results_match c st h else if st = Some v then results_match c None h else None)"

definition outcome :: "coro_engine \<Rightarrow> addr \<Rightarrow> addr option option" where
  "outcome e c =
     (if c \<in> set (allocated e) \<and> co_state (coros e c) = CORO_STATE_FINISHED \<and> c \<notin> set (coros_pool e)
      then Some (co_ret (coros e c)) else None)"

lemma results_match_append:
  "results_match c st (h @ g) = Option.bind (results_match c st h) (\<lambda>st'. results_match c st' g)"
  by (induction c st h rule: results_match.induct) auto

lemma outcome_cong:
  "coros e' = coros e \<Longrightarrow> allocated e' = allocated e \<Longrightarrow> coros_pool e' = coros_pool e \<Longrightarrow> outcome e' = outcome e"
  by (simp add: outcome_def fun_eq_iff)

lemma outcome_upd:
  "(co_state (f (coros e c)) = CORO_STATE_FINISHED) = (co_state (coros e c) = CORO_STATE_FINISHED) \<Longrightarrow>
   (co_state (coros e c) = CORO_STATE_FINISHED \<Longrightarrow> co_ret (f (coros e c)) = co_ret (coros e c)) \<Longrightarrow>
   outcome (upd_coro c f e) = outcome e"
  by (auto simp: outcome_def fun_eq_iff)

lemma outcome_lists [simp]:
  "outcome (e\<lparr>coros_running_now := xs\<rparr>) = outcome e" "outcome (e\<lparr>coros_running_next := xs\<rparr>) = outcome e"
  "outcome (e\<lparr>this_coro := y\<rparr>) = outcome e" "outcome (e\<lparr>control := z\<rparr>) = outcome e"
  by (rule outcome_cong; simp)+

lemma resume_next_outcome:
  "coro_engine_resume_next k e = Inr e' \<Longrightarrow> outcome e' = outcome e \<and> (\<exists>c. control e' = Jump c)"
  by (auto simp: coro_engine_resume_next_def outcome_upd split: list.splits option.splits)

lemma suspend_outcome:
  "coro_engine_suspend k e = Inr e' \<Longrightarrow> outcome e' = outcome e \<and> (\<exists>c. control e' = Jump c)"
  by (auto simp: coro_engine_suspend_def outcome_upd dest!: resume_next_outcome split: option.splits if_splits)

lemma yield_outcome:
  "coro_engine_yield e = Inr e' \<Longrightarrow> outcome e' = outcome e"
  by (auto simp: coro_engine_yield_def dest!: resume_next_outcome split: option.splits if_splits)

lemma wakeup_outcome:
  "coro_engine_wakeup c e = Inr e' \<Longrightarrow> outcome e' = outcome e"
  by (auto simp: coro_engine_wakeup_def outcome_def fun_eq_iff split: coro_state.splits if_splits)

lemma finish_outcome:
  assumes "coro_body_finish v c e = Inr e'" "c \<in> set (allocated e)" "c \<notin> set (coros_pool e)"
  shows "outcome e' = (outcome e)(c := Some v)" "outcome e c = None"
proof -
  have "outcome (upd_coro c (co_state_update (\<lambda>_. CORO_STATE_FINISHED)) (upd_coro c (\<lambda>r. r\<lparr>co_ret := v, co_func := None\<rparr>) e))
        = (outcome e)(c := Some v)"
    using assms(2,3) by (simp add: outcome_def fun_eq_iff)
  then show "outcome e' = (outcome e)(c := Some v)" using assms(1)
    by (auto simp: coro_body_finish_def Let_def dest!: resume_next_outcome wakeup_outcome split: option.splits if_splits sum.splits)
  show "outcome e c = None" using assms(1) by (auto simp: coro_body_finish_def Let_def outcome_def split: if_splits)
qed

lemma spawn_outcome:
  assumes "coro_engine_spawn a ok f arg e = Inr (c, e')" "engine_inv e" "a \<notin> set (allocated e)"
  shows "outcome e' = outcome e"
  using assms by (auto simp: coro_engine_spawn_def coro_engine_spawn_new_def Let_def outcome_def fun_eq_iff
      engine_inv_def lists_ok_def split: list.splits if_splits)

lemma back_to_user_outcome [simp]: "outcome (back_to_user r e) = outcome e"
  by (rule outcome_cong) (simp_all add: back_to_user_def)

lemma join_loop_outcome:
  assumes "coro_engine_join_loop t e = Inr e'" "t \<in> set (allocated e)"
  shows "joined_event t e' = [] \<and> outcome e' = outcome e \<or>
         (\<exists>v. joined_event t e' = [Joined t v] \<and> outcome e t = Some v \<and> outcome e' = (outcome e)(t := None))"
proof (cases "co_state (coros e t) = CORO_STATE_FINISHED")
  case False
  then show ?thesis using assms by (auto simp: coro_engine_join_loop_def joined_event_def dest!: suspend_outcome)
next
  case True
  then have e': "e' = back_to_user (Ret (co_ret (coros e t))) (joined t e)" "\<not> is_linked t e"
    using assms(1) by (auto simp: coro_engine_join_loop_def Let_def joined_def split: if_splits)
  have "joined_event t e' = [Joined t (co_ret (coros e t))]"
    by (simp add: e' joined_event_def back_to_user_def split: option.split)
  moreover have "outcome e t = Some (co_ret (coros e t))" "outcome (joined t e) = (outcome e)(t := None)"
    using True e'(2) assms(2) by (auto simp: outcome_def is_linked_def fun_eq_iff)
  ultimately show ?thesis by (simp add: e')
qed

lemma destroy_allocated:
  assumes "coro_engine_destroy e = Inr e'" "engine_inv e" "set (allocated e) \<subseteq> set (coros_pool e)"
  shows "allocated e' = []"
proof -
  have "lists_ok e" using assms(2) by (simp add: engine_inv_def)
  then have len: "coro_count e = length (coros_pool e)" "fold remove1 (coros_pool e) (allocated e) = []"
    using assms(3) fold_remove1_all [of "allocated e" "coros_pool e"]
    by (auto simp: lists_ok_def) (metis distinct_card subset_antisym)
  then show ?thesis
    using assms(1) destroy_pool_eq [of "coros_pool e" e] by (auto simp: coro_engine_destroy_def split: if_splits)
qed

lemma run_outcome: "coro_engine_run e = Inr e' \<Longrightarrow> outcome e' = outcome e"
  by (auto simp: coro_engine_run_def Let_def dest!: resume_next_outcome split: if_splits)


definition results_history :: "coro_engine \<Rightarrow> coro_event list \<Rightarrow> bool" where
  "results_history e h \<longleftrightarrow> (\<forall>c. results_match c None h = Some (outcome e c))"

lemma results_history_keep: "results_history e h \<Longrightarrow> outcome e' = outcome e \<Longrightarrow> results_history e' (h @ [])"
  by (simp add: results_history_def)

lemma results_history_join:
  assumes "results_history e h"
    and "ev = [] \<and> outcome e' = outcome e \<or> (\<exists>v. ev = [Joined t v] \<and> outcome e t = Some v \<and> outcome e' = (outcome e)(t := None))"
  shows "results_history e' (h @ ev)"
  using assms by (auto simp: results_history_def results_match_append)

lemma results_call:
  assumes inv: "engine_inv e" and en: "coro_enabled (Call call) e" and st: "coro_call_exec call e = Inr e'"
    and h: "results_history e h"
  shows "results_history e' (h @ join_events (Call call) e e')"
proof (cases call)
  case (Join t)
  let ?e = "upd_coro t (co_joiner_update (\<lambda>_. this_coro e)) e"
  have t: "t \<in> set (allocated e)" using en Join by (auto split: control.splits)
  have o: "outcome ?e = outcome e" by (rule outcome_upd) simp_all
  have "coro_engine_join_loop t ?e = Inr e'" using st Join by (simp add: coro_call_exec_def coro_engine_join_def split: if_splits)
  from join_loop_outcome [OF this] t have
    "joined_event t e' = [] \<and> outcome e' = outcome e \<or>
     (\<exists>v. joined_event t e' = [Joined t v] \<and> outcome e t = Some v \<and> outcome e' = (outcome e)(t := None))" by (simp add: o)
  from results_history_join [OF h this] show ?thesis using Join by (simp add: join_events_def)
next
  case (Return v)
  obtain c where c: "this_coro e = Some c" "coro_body_finish v c e = Inr e'"
    using st Return by (auto simp: coro_call_exec_def split: option.splits)
  then have "c \<in> set (allocated e)" "c \<notin> set (coros_pool e)"
    using inv en Return by (auto simp: engine_inv_def control_ok_def is_linked_def split: control.splits)
  from finish_outcome [OF c(2) this] show ?thesis
    using h c(1) Return by (simp add: results_history_def join_events_def results_match_append)
next
  case (New a ok f arg)
  then have "a \<notin> set (allocated e)" using en by (auto split: control.splits)
  then have "outcome e' = outcome e" using st New inv
    by (auto simp: coro_call_exec_def map_sum_eq_Inr spawn_outcome)
  from results_history_keep [OF h this] show ?thesis using New by (simp add: join_events_def)
next
  case Destroy
  then have d: "coros_running_next e = []" "set (allocated e) \<subseteq> set (coros_pool e)"
    using en by (auto split: control.splits)
  then have n: "outcome e = (\<lambda>_. None)" by (auto simp: outcome_def fun_eq_iff)
  have "outcome e' = (\<lambda>_. None)"
    using destroy_allocated st Destroy d(2) inv by (auto simp: coro_call_exec_def outcome_def fun_eq_iff)
  with n have "outcome e' = outcome e" by simp
  from results_history_keep [OF h this] show ?thesis using Destroy by (simp add: join_events_def)
next
  case (Wakeup d)
  then have "outcome e' = outcome e" using st by (auto simp: coro_call_exec_def map_sum_eq_Inr dest: wakeup_outcome)
  from results_history_keep [OF h this] show ?thesis using Wakeup by (simp add: join_events_def)
next
  case Suspend
  then have "outcome e' = outcome e" using st by (auto simp: coro_call_exec_def dest: suspend_outcome)
  from results_history_keep [OF h this] show ?thesis using Suspend by (simp add: join_events_def)
next
  case Yield
  then have "outcome e' = outcome e" using st by (auto simp: coro_call_exec_def dest: yield_outcome)
  from results_history_keep [OF h this] show ?thesis using Yield by (simp add: join_events_def)
next
  case Run
  then have "outcome e' = outcome e" using st by (auto simp: coro_call_exec_def)
  from results_history_keep [OF h this] show ?thesis using Run by (simp add: join_events_def)
qed

lemma land_outcome:
  assumes inv: "engine_inv e" and j: "control e = Jump c" and st: "coro_land c e = Inr e'" and h: "results_history e h"
  shows "results_history e' (h @ join_events Internal e e')"
proof -
  have res: "coro_engine_resumed c e = Inr (e\<lparr>this_coro := Some c\<rparr>)" using jump_resumed [OF inv j] .
  show ?thesis
  proof (cases "\<exists>t. co_ctx (coros e c) = In_join t")
    case True
    then obtain t where t: "co_ctx (coros e c) = In_join t" by blast
    then have "c \<noteq> SCHED" using inv j by (auto simp: engine_inv_def control_ok_def)
    then have "t \<in> set (allocated e)" using inv j t
      by (auto simp: engine_inv_def control_ok_def coro_ok_def ctx_ok_def in_user_def)
    moreover have "coro_engine_join_loop t (e\<lparr>this_coro := Some c\<rparr>) = Inr e'" using st t res by (simp add: coro_land_def)
    ultimately show ?thesis using join_loop_outcome [of t "e\<lparr>this_coro := Some c\<rparr>" e'] results_history_join [OF h] j t
      by (simp add: join_events_def)
  next
    case False
    then have "outcome e' = outcome e" using st res
      by (auto simp: coro_land_def coro_body_restart_def coro_engine_run_end_def split: coro_ctx.splits if_splits)
    from results_history_keep [OF h this] show ?thesis using j False by (auto simp: join_events_def split: coro_ctx.splits)
  qed
qed

lemma results_step:
  assumes "engine_inv e" and "coro_enabled l e" and "coro_step l e = Inr e'" and h: "results_history e h"
  shows "results_history e' (h @ join_events l e e')"
proof (cases l)
  case (Call call)
  then show ?thesis using results_call [OF assms(1) _ _ h] assms by simp
next
  case Internal
  show ?thesis
  proof (cases "control e")
    case (Jump c)
    then show ?thesis using land_outcome [OF assms(1) Jump _ h] Internal assms(3) by simp
  next
    case Loop
    then show ?thesis using Internal assms(3) results_history_keep [OF h, of e'] run_outcome
      by (simp add: join_events_def)
  qed (use Internal assms(2) in auto)
qed

text \<open>
  C24. Joins return results: in every run of a program that keeps the rules, the returns and the
  joins of each coroutine object alternate, and each join delivers exactly the value that the
  function of the coroutine returned last, also when the object is reused for other functions.
\<close>

theorem coro_join_results:
  assumes "legal coro_step coro_enabled ls coro_engine_create"
  shows "results_match c None (events join_events coro_step ls coro_engine_create) \<noteq> None"
proof -
  have J: "results_history coro_engine_create []"
    by (simp add: results_history_def outcome_def coro_engine_create_def)
  obtain e where run: "run_labels coro_step ls coro_engine_create = Inr e"
    using coro.run_safe [OF create_inv assms] by blast
  have "results_history e ([] @ events join_events coro_step ls coro_engine_create)"
    by (rule coro.history_inv [where J = results_history, OF create_inv assms run J]) (rule results_step)
  then show ?thesis by (simp add: results_history_def)
qed


text \<open>Coroutine 1 creates coroutine 2 and joins it; 2 returns the pointer 7.\<close>

definition join_labels :: "coro_label list" where
  "join_labels = [Call (New 1 True 50 None), Call Run, Internal, Internal, Call (New 2 True 51 None), Call (Join 2),
     Internal, Internal, Internal, Call (Return (Some 7)), Internal, Internal, Internal]"

lemma join_labels_legal: "legal coro_step coro_enabled join_labels coro_engine_create"
  by (simp add: coro_eval join_labels_def)

theorem coro_join_results_witness:
  "legal coro_step coro_enabled join_labels coro_engine_create \<and>
   events join_events coro_step join_labels coro_engine_create = [Returned 2 (Some 7), Joined 2 (Some 7)] \<and>
   results_match 2 None (events join_events coro_step join_labels coro_engine_create) \<noteq> None"
proof -
  have ev: "events join_events coro_step join_labels coro_engine_create = [Returned 2 (Some 7), Joined 2 (Some 7)]"
    by (simp add: coro_eval join_labels_def join_events_def joined_event_def)
  from coro_join_results [OF join_labels_legal, of 2] join_labels_legal ev show ?thesis by (simp only: simp_thms)
qed

section \<open>Safety\<close>

text \<open>
  C20. No assertion of the library can fail, and neither its deadlock exit nor an invalid
  pointer is reached, in any run of a program that keeps the rules of use, whatever the
  interleaving of its coroutines; every state of the run is well formed.
\<close>

theorem coro_assertions_hold:
  assumes "legal coro_step coro_enabled ls coro_engine_create"
  shows "\<exists>e. run_labels coro_step ls coro_engine_create = Inr e \<and> engine_inv e"
  by (rule coro.run_safe [OF create_inv assms])

definition pingpong_labels :: "coro_label list" where
  "pingpong_labels = [Call (New 1 True 50 None), Call (New 2 True 51 None), Call Run, Internal, Internal, Call Suspend,
     Internal, Call (Wakeup 1), Call Yield, Internal, Internal, Internal, Call (Return None), Internal, Call (Return None),
     Internal, Internal, Call (Join 1), Call (Join 2), Call Destroy]"

theorem coro_assertions_hold_witness:
  "legal coro_step coro_enabled pingpong_labels coro_engine_create \<and>
   (\<exists>e. run_labels coro_step pingpong_labels coro_engine_create = Inr e \<and> engine_inv e)"
proof -
  have "legal coro_step coro_enabled pingpong_labels coro_engine_create"
    by (simp add: coro_eval pingpong_labels_def coro_engine_destroy_def)
  then show ?thesis using coro_assertions_hold by blast
qed

text \<open>
  C33. No wake-up of a joiner is lost: whenever a coroutine is suspended inside \<open>coro_join\<close>, the
  coroutine it waits for has not finished yet, and it has the waiting one recorded as its joiner, to
  be woken up when it finishes.
\<close>

theorem coro_join_wakeup_not_lost:
  assumes "legal coro_step coro_enabled ls coro_engine_create" and "run_labels coro_step ls coro_engine_create = Inr e"
    and "c \<in> set (allocated e)" and "co_state (coros e c) = CORO_STATE_SUSPENDED" and "co_ctx (coros e c) = In_join t"
  shows "co_state (coros e t) \<noteq> CORO_STATE_FINISHED \<and> co_joiner (coros e t) = Some c \<and> \<not> is_linked c e"
proof -
  have inv: "engine_inv e" by (rule coro.run_inv [OF create_inv assms(1,2)])
  have c: "coro_ok c e" using inv assms(3) by (simp add: engine_inv_def)
  have "\<not> in_user c e" using inv assms(4) by (auto simp: in_user_def engine_inv_def control_ok_def split: control.splits)
  with c assms(4,5) show ?thesis
    using suspended_not_linked [OF c assms(4)] by (simp add: coro_ok_def suspended_ok_def ctx_ok_def)
qed

theorem coro_join_wakeup_not_lost_witness:
  "let e = projr (run_labels coro_step (take 6 join_labels) coro_engine_create) in
     co_ctx (coros e 1) = In_join 2 \<and> co_joiner (coros e 2) = Some 1"
proof -
  let ?e = "projr (run_labels coro_step (take 6 join_labels) coro_engine_create)"
  have l: "legal coro_step coro_enabled (take 6 join_labels) coro_engine_create"
    and r: "run_labels coro_step (take 6 join_labels) coro_engine_create = Inr ?e"
    and c: "1 \<in> set (allocated ?e)" "co_state (coros ?e 1) = CORO_STATE_SUSPENDED" "co_ctx (coros ?e 1) = In_join 2"
    by (simp_all add: coro_eval join_labels_def)
  from coro_join_wakeup_not_lost [OF l r c] c(3) show ?thesis unfolding Let_def by blast
qed

section \<open>The library gives the processor back\<close>

definition in_library :: "coro_engine \<Rightarrow> bool" where
  "in_library e \<longleftrightarrow> (case control e of Jump c \<Rightarrow> True | Loop \<Rightarrow> True | _ \<Rightarrow> False)"

definition queued :: "coro_engine \<Rightarrow> nat" where
  "queued e = length (filter (\<lambda>c. c \<noteq> SCHED) (to_run e @ coros_running_next e))"

definition library_work :: "coro_engine \<Rightarrow> nat" where
  "library_work e = 3 * queued e + (case control e of Loop \<Rightarrow> 1 | Jump c \<Rightarrow> if c = SCHED then 2 else 0 | _ \<Rightarrow> 0)"

lemma resume_next_next: "coro_engine_resume_next k e = Inr e' \<Longrightarrow> coros_running_next e' = coros_running_next e"
  by (auto simp: coro_engine_resume_next_def split: list.splits option.splits)

lemma suspend_next: "coro_engine_suspend k e = Inr e' \<Longrightarrow> coros_running_next e' = coros_running_next e"
  by (auto simp: coro_engine_suspend_def dest: resume_next_next split: option.splits if_splits)

lemma land_next:
  assumes "coro_land c e = Inr e'" "in_library e'"
  shows "coros_running_next e' = coros_running_next e"
  using assms
  by (auto simp: coro_land_def coro_engine_resumed_def coro_engine_join_loop_def Let_def back_to_user_def
      coro_body_restart_def coro_engine_run_end_def in_library_def dest: suspend_next
      split: coro_ctx.splits if_splits option.splits)

lemma library_work_decreases:
  assumes inv: "engine_inv e" and lib: "in_library e" and st: "coro_step Internal e = Inr e'" and lib': "in_library e'"
  shows "library_work e' < library_work e"
proof (cases "control e")
  case (Jump c)
  have next_eq: "coros_running_next e' = coros_running_next e" using land_next [OF _ lib'] st Jump by simp
  show ?thesis
  proof (cases "c = SCHED")
    case True
    then have k: "co_ctx (coros e SCHED) = In_run" "coros_running_now e = []" using inv Jump by (auto simp: engine_inv_def control_ok_def)
    have "control e' = Loop \<and> coros_running_now e' = []"
      using st Jump True k jump_resumed [OF inv Jump] by (auto simp: coro_land_def coro_engine_run_end_def)
    then show ?thesis using next_eq Jump True k by (simp add: library_work_def queued_def to_run_def jumping_def)
  next
    case False
    have "to_run e' = coros_running_now e" using land_round [OF inv Jump False] st Jump by simp
    then have "queued e = Suc (queued e')" using next_eq Jump False by (simp add: queued_def to_run_def jumping_def)
    then show ?thesis by (simp add: library_work_def split: control.splits)
  qed
next
  case Loop
  then have k: "coros_running_now e = []" "this_coro e = None" using inv by (auto simp: engine_inv_def control_ok_def)
  have run: "coro_engine_run e = Inr e'" using st Loop by simp
  have ne: "coros_running_next e \<noteq> []" using run k lib' by (auto simp: coro_engine_run_def in_library_def)
  obtain c cs where n: "coros_running_next e = c # cs" using ne by (cases "coros_running_next e") auto
  have cS: "c \<noteq> SCHED" using inv n by (auto simp: engine_inv_def lists_ok_def)
  have "control e' = Jump c" "coros_running_now e' = cs @ [SCHED]" "coros_running_next e' = []"
    using run k n by (auto simp: coro_engine_run_def coro_engine_resume_next_def Let_def split: if_splits)
  then show ?thesis using Loop cS k n by (simp add: library_work_def queued_def to_run_def jumping_def)
qed (use lib in \<open>simp_all add: in_library_def\<close>)

lemma internal_not_destroyed:
  assumes st: "coro_step Internal e = Inr e'" and inv: "engine_inv e" and lib: "in_library e"
  shows "control e' \<noteq> Destroyed"
proof (cases "control e")
  case (Jump c)
  show ?thesis
  proof (cases "c = SCHED")
    case True
    then have "co_ctx (coros e SCHED) = In_run" using inv Jump by (auto simp: engine_inv_def control_ok_def)
    then show ?thesis using st Jump True jump_resumed [OF inv Jump] by (auto simp: coro_land_def coro_engine_run_end_def split: if_splits)
  next
    case False
    then show ?thesis using land_round [OF inv Jump False] st Jump by (auto simp: in_round_def)
  qed
next
  case Loop
  then show ?thesis using st
    by (auto simp: coro_engine_run_def Let_def in_round_def dest!: resume_next_round split: if_splits)
qed (use lib in \<open>simp_all add: in_library_def\<close>)

text \<open>
  C25. Progress: whenever the library has the processor it gives it back, to the code of a coroutine
  or, when no coroutine can run, to the main program, after at most three steps per runnable
  coroutine. Spurious wake-ups of joiners and rounds in which nobody runs user code do not make it spin.
\<close>

theorem coro_library_returns:
  assumes "engine_inv e" and "in_library e"
  shows "\<exists>n e'. n \<le> Suc (library_work e) \<and> run_labels coro_step (replicate n Internal) e = Inr e' \<and>
           ((\<exists>c r. control e' = User c r) \<or> (\<exists>r. control e' = Main r))"
  using assms
proof (induction "library_work e" arbitrary: e rule: less_induct)
  case less
  have "coro_enabled Internal e" using less.prems(2) by (auto simp: in_library_def split: control.splits)
  then obtain e1 where e1: "coro_step Internal e = Inr e1" "engine_inv e1" using coro_step_safe [OF less.prems(1)] by blast
  show ?case
  proof (cases "in_library e1")
    case True
    have lt: "library_work e1 < library_work e" using library_work_decreases [OF less.prems e1(1) True] .
    from less.hyps [OF this e1(2) True] obtain n e' where
      "n \<le> Suc (library_work e1)" "run_labels coro_step (replicate n Internal) e1 = Inr e'"
      "(\<exists>c r. control e' = User c r) \<or> (\<exists>r. control e' = Main r)" by blast
    then show ?thesis using e1(1) lt by (intro exI [of _ "Suc n"] exI [of _ e']) simp
  next
    case False
    have "control e1 \<noteq> Destroyed" using internal_not_destroyed [OF e1(1) less.prems] .
    then have "(\<exists>c r. control e1 = User c r) \<or> (\<exists>r. control e1 = Main r)"
      using False by (cases "control e1") (auto simp: in_library_def)
    then show ?thesis using e1(1) by (intro exI [of _ 1] exI [of _ e1]) simp
  qed
qed


theorem coro_library_returns_witness:
  "\<exists>n e'. n \<le> Suc (library_work two_coros) \<and> run_labels coro_step (replicate n Internal) two_coros = Inr e' \<and>
           ((\<exists>c r. control e' = User c r) \<or> (\<exists>r. control e' = Main r))"
proof -
  have "in_library two_coros" by (simp add: coro_eval in_library_def)
  from coro_library_returns [OF two_coros_inv this] show ?thesis .
qed

text \<open>
  C37. \<open>coro_sched_destroy\<close> in a program whose scheduler has returned: it succeeds exactly when every
  coroutine was joined; otherwise its last assertion stops the process.
\<close>

theorem coro_destroy_needs_joins:
  assumes "engine_inv e" and "control e = Main r" and "coros_running_next e = []"
  shows "if set (allocated e) \<subseteq> set (coros_pool e) then \<exists>e'. coro_engine_destroy e = Inr e' \<and> allocated e' = []
         else coro_engine_destroy e = Inl (Assertion 186)"
proof (cases "set (allocated e) \<subseteq> set (coros_pool e)")
  case True
  then show ?thesis using destroy_safe [OF assms(1,2,3)] destroy_allocated [OF _ assms(1)] by auto
next
  case False
  have k: "this_coro e = None" "coros_running_now e = []" "lists_ok e"
    using assms(1,2) by (auto simp: engine_inv_def control_ok_def)
  have ps: "set (coros_pool e) \<subset> set (allocated e)" "distinct (coros_pool e)" "distinct (allocated e)"
    using k(3) False by (auto simp: lists_ok_def)
  then have "length (coros_pool e) < coro_count e"
    using k(3) psubset_card_mono [OF _ ps(1)] by (simp add: lists_ok_def distinct_card)
  then have "coro_engine_destroy e = Inl (Assertion 186)"
    using k destroy_pool_eq [of "coros_pool e" e] assms(3) by (simp add: coro_engine_destroy_def)
  then show ?thesis using False by (simp only: if_False)
qed

theorem coro_destroy_needs_joins_witness:
  "let e = projr (run_labels coro_step [Call (New 1 True 50 None), Call Run, Internal, Internal, Call (Return None),
       Internal, Internal] coro_engine_create)
   in coro_engine_destroy e = Inl (Assertion 186)"
proof -
  let ?ls = "[Call (New 1 True 50 None), Call Run, Internal, Internal, Call (Return None), Internal, Internal]"
  let ?e = "projr (run_labels coro_step ?ls coro_engine_create)"
  have l: "legal coro_step coro_enabled ?ls coro_engine_create" by (simp add: coro_eval)
  have r: "run_labels coro_step ?ls coro_engine_create = Inr ?e" by (simp add: coro_eval)
  have k: "control ?e = Main Void" "coros_running_next ?e = []" "\<not> set (allocated ?e) \<subseteq> set (coros_pool ?e)"
    by (simp_all add: coro_eval)
  from coro_destroy_needs_joins [OF coro.run_inv [OF create_inv l r] k(1,2)] k(3) show ?thesis
    unfolding Let_def by (simp only: if_False)
qed

end
