(* ===== verification/Libcoro_View.thy ===== *)
theory Libcoro_View
  imports Libcoro_Runs
begin

text \<open>
  What clients of the coroutine engine rely on: the schedule is a queue that nobody jumps, and a
  coroutine that waits is at most woken up by what the others do.
\<close>

section \<open>The schedule\<close>

text \<open>Who has the processor and, in order, who gets it next.\<close>

definition ready :: "coro_engine \<Rightarrow> addr list" where
  "ready e = filter (\<lambda>c. c \<noteq> SCHED) (coros_running_now e @ coros_running_next e)"

definition schedule :: "coro_engine \<Rightarrow> addr list" where
  "schedule e = filter (\<lambda>c. c \<noteq> SCHED) (case holder e of None \<Rightarrow> [] | Some c \<Rightarrow> [c]) @ ready e"

lemma schedule_User: "control e = User c r \<Longrightarrow> c \<noteq> SCHED \<Longrightarrow> schedule e = c # ready e"
  by (simp add: schedule_def holder_def)

lemma schedule_cong:
  "control e' = control e \<Longrightarrow> coros_running_now e' = coros_running_now e \<Longrightarrow>
   coros_running_next e' = coros_running_next e \<Longrightarrow> schedule e' = schedule e"
  by (simp add: schedule_def holder_def ready_def)

lemma running_in_schedule:
  assumes "engine_inv e" "c \<in> set (allocated e)"
  shows "co_state (coros e c) = CORO_STATE_RUNNING \<longleftrightarrow> c \<in> set (schedule e)"
proof -
  have "coro_ok c e" "c \<noteq> SCHED" using assms by (auto simp: engine_inv_def lists_ok_def)
  then show ?thesis
    unfolding coro_ok_def place_ok_def schedule_def ready_def by (auto split: option.splits)
qed

lemma schedule_distinct:
  assumes "engine_inv e"
  shows "distinct (schedule e)"
  using assms unfolding engine_inv_def lists_ok_def control_ok_def schedule_def ready_def holder_def is_linked_def
  by (auto split: control.splits)

lemma resume_next_schedule: "coro_engine_resume_next k e = Inr e' \<Longrightarrow> schedule e' = ready e"
  by (auto simp: coro_engine_resume_next_def schedule_def ready_def holder_def split: list.splits option.splits)

lemma suspend_schedule: "coro_engine_suspend k e = Inr e' \<Longrightarrow> schedule e' = ready e"
  by (auto simp: coro_engine_suspend_def ready_def dest!: resume_next_schedule split: option.splits if_splits)

lemma yield_schedule: "coro_engine_yield e = Inr e' \<Longrightarrow> this_coro e = Some c \<Longrightarrow> c \<noteq> SCHED \<Longrightarrow> schedule e' = ready e @ [c]"
  by (auto simp: coro_engine_yield_def ready_def dest!: resume_next_schedule split: option.splits if_splits)

lemma wakeup_schedule:
  "coro_engine_wakeup c e = Inr e' \<Longrightarrow>
     (\<exists>xs. ready e' = ready e @ xs \<and> schedule e' = schedule e @ xs) \<and> this_coro e' = this_coro e \<and> control e' = control e"
  by (auto simp: coro_engine_wakeup_def ready_def schedule_def holder_def split: coro_state.splits if_splits)

lemma finish_schedule:
  assumes "coro_body_finish v c e = Inr e'"
  shows "\<exists>xs. schedule e' = ready e @ xs"
proof -
  let ?e = "upd_coro c (co_state_update (\<lambda>_. CORO_STATE_FINISHED)) (upd_coro c (\<lambda>r. r\<lparr>co_ret := v, co_func := None\<rparr>) e)"
  have "ready ?e = ready e" by (simp add: ready_def)
  then show ?thesis using assms
    by (auto simp: coro_body_finish_def Let_def dest!: resume_next_schedule wakeup_schedule split: option.splits if_splits sum.splits)
qed

lemma spawn_schedule:
  "coro_engine_spawn a ok f arg e = Inr (c, e') \<Longrightarrow> \<exists>xs. schedule e' = schedule e @ xs"
  by (auto simp: coro_engine_spawn_def coro_engine_spawn_new_def Let_def schedule_def ready_def holder_def
      split: list.splits if_splits)

lemma back_to_user_schedule:
  "this_coro e = holder e \<Longrightarrow> schedule (back_to_user r e) = schedule e"
  by (auto simp: back_to_user_def schedule_def ready_def holder_def split: option.split)

lemma join_loop_schedule:
  assumes "coro_engine_join_loop t e = Inr e'" "this_coro e = holder e"
  shows "schedule e' = schedule e \<or> schedule e' = ready e"
proof (cases "co_state (coros e t) = CORO_STATE_FINISHED")
  case True
  then obtain v e1 where "e' = back_to_user (Ret v) e1" "this_coro e1 = this_coro e" "holder e1 = holder e" "ready e1 = ready e"
    using assms(1) by (auto simp: coro_engine_join_loop_def Let_def ready_def holder_def split: if_splits)
  then show ?thesis using assms(2) back_to_user_schedule [of e1] by (simp add: schedule_def)
qed (use assms in \<open>auto simp: coro_engine_join_loop_def dest: suspend_schedule\<close>)

lemma run_schedule:
  assumes "coro_engine_run e = Inr e'" "control e = Loop" "coros_running_now e = []"
  shows "schedule e' = schedule e"
proof -
  have "schedule e' = filter (\<lambda>c. c \<noteq> SCHED) (coros_running_next e)"
    using assms(1,3) by (auto simp: coro_engine_run_def Let_def schedule_def ready_def holder_def dest!: resume_next_schedule split: if_splits)
  then show ?thesis using assms(2,3) by (simp add: schedule_def ready_def holder_def)
qed

definition schedule_moves :: "coro_engine \<Rightarrow> coro_engine \<Rightarrow> bool" where
  "schedule_moves e e' \<longleftrightarrow>
     (\<exists>xs. schedule e' = schedule e @ xs) \<or>
     (\<exists>x rest xs. schedule e = x # rest \<and> schedule e' = rest @ xs \<and> holder e = Some x \<and>
        (in_user x e \<or> (\<exists>t. co_ctx (coros e x) = In_join t)))"

lemma call_user_schedule:
  assumes inv: "engine_inv e" and u: "control e = User c r" and en: "coro_enabled (Call call) e"
    and ex: "coro_call_exec call e = Inr e'"
  shows "schedule_moves e e'"
proof -
  have t: "this_coro e = Some c" "c \<noteq> SCHED" "holder e = Some c" "in_user c e"
    using inv u by (auto simp: engine_inv_def control_ok_def lists_ok_def holder_def in_user_def)
  note s = schedule_User [OF u t(2)]
  have ok: "schedule e' = schedule e @ xs \<or> schedule e' = ready e @ xs \<Longrightarrow> schedule_moves e e'" for xs
    using s t unfolding schedule_moves_def by blast
  show ?thesis
  proof (cases call)
    case Suspend
    then show ?thesis using ok [of "[]"] ex by (auto simp: coro_call_exec_def dest: suspend_schedule)
  next
    case Yield
    then show ?thesis using ok [of "[c]"] ex yield_schedule [OF _ t(1,2)] by (simp add: coro_call_exec_def)
  next
    case (Wakeup d)
    then obtain e1 where e1: "coro_engine_wakeup d e = Inr e1" "e' = back_to_user Void e1"
      using ex by (auto simp: coro_call_exec_def map_sum_eq_Inr)
    with wakeup_schedule [OF e1(1)] t have "\<exists>xs. schedule e' = schedule e @ xs"
      using back_to_user_schedule [of e1 Void] by (auto simp: holder_def)
    then show ?thesis using ok by blast
  next
    case (New a b f arg)
    then obtain d e1 where e1: "coro_engine_spawn a b f arg e = Inr (d, e1)" "e' = back_to_user (Handle d) e1"
      using ex by (auto simp: coro_call_exec_def map_sum_eq_Inr)
    with spawn_schedule [OF e1(1)] spawn_round [OF e1(1)] t have "\<exists>xs. schedule e' = schedule e @ xs"
      using back_to_user_schedule [of e1 "Handle d"] by (simp add: holder_def)
    then show ?thesis using ok by blast
  next
    case (Join d)
    let ?e = "upd_coro d (co_joiner_update (\<lambda>_. this_coro e)) e"
    have "coro_engine_join_loop d ?e = Inr e'" using ex Join by (simp add: coro_call_exec_def coro_engine_join_def split: if_splits)
    from join_loop_schedule [OF this] t have "schedule e' = schedule e \<or> schedule e' = ready e"
      by (simp add: schedule_def ready_def holder_def)
    then show ?thesis using ok [of "[]"] by simp
  next
    case (Return v)
    then have "\<exists>xs. schedule e' = ready e @ xs" using ex t(1) finish_schedule by (simp add: coro_call_exec_def)
    then show ?thesis using ok by blast
  qed (use en u in simp_all)
qed

lemma call_main_schedule:
  assumes inv: "engine_inv e" and u: "control e = Main r" and en: "coro_enabled (Call call) e"
    and ex: "coro_call_exec call e = Inr e'"
  shows "\<exists>xs. schedule e' = schedule e @ xs"
proof -
  have t: "this_coro e = None" "holder e = None" "coros_running_now e = []"
    using inv u by (auto simp: engine_inv_def control_ok_def holder_def)
  show ?thesis
  proof (cases call)
    case (Wakeup d)
    then obtain e1 where e1: "coro_engine_wakeup d e = Inr e1" "e' = back_to_user Void e1"
      using ex by (auto simp: coro_call_exec_def map_sum_eq_Inr)
    with wakeup_schedule [OF e1(1)] t show ?thesis using back_to_user_schedule [of e1 Void] u by (auto simp: holder_def)
  next
    case (New a b f arg)
    then obtain d e1 where e1: "coro_engine_spawn a b f arg e = Inr (d, e1)" "e' = back_to_user (Handle d) e1"
      using ex by (auto simp: coro_call_exec_def map_sum_eq_Inr)
    with spawn_schedule [OF e1(1)] spawn_round [OF e1(1)] t show ?thesis
      using back_to_user_schedule [of e1 "Handle d"] u by (simp add: holder_def)
  next
    case (Join d)
    let ?e = "upd_coro d (co_joiner_update (\<lambda>_. this_coro e)) e"
    have "coro_engine_join_loop d ?e = Inr e'" using ex Join by (simp add: coro_call_exec_def coro_engine_join_def split: if_splits)
    moreover have "co_state (coros ?e d) = CORO_STATE_FINISHED" using en u Join by simp
    ultimately show ?thesis using join_loop_schedule [of d ?e e'] t
      by (auto simp: schedule_def ready_def holder_def)
  next
    case Destroy
    have "destroy_pool cs e0 = Inr e1 \<Longrightarrow> coros_running_now e1 = coros_running_now e0 \<and> coros_running_next e1 = coros_running_next e0" for cs e0 e1
      by (induction cs arbitrary: e0) (auto split: if_splits)
    then show ?thesis using ex Destroy t
      by (auto simp: coro_call_exec_def coro_engine_destroy_def schedule_def ready_def holder_def split: sum.splits if_splits)
  qed (use en u ex t in \<open>auto simp: coro_call_exec_def schedule_def ready_def holder_def\<close>)
qed

lemma land_schedule:
  assumes inv: "engine_inv e" and j: "control e = Jump c" and ex: "coro_land c e = Inr e'"
  shows "schedule_moves e e'"
proof -
  have res: "coro_engine_resumed c e = Inr (e\<lparr>this_coro := Some c\<rparr>)" using jump_resumed [OF inv j] .
  have h: "holder e = Some c" using j by (simp add: holder_def)
  show ?thesis
  proof (cases "\<exists>t. co_ctx (coros e c) = In_join t")
    case True
    then obtain t where t: "co_ctx (coros e c) = In_join t" by blast
    then have cs: "c \<noteq> SCHED" using inv j by (auto simp: engine_inv_def control_ok_def)
    have "coro_engine_join_loop t (e\<lparr>this_coro := Some c\<rparr>) = Inr e'" using ex t res by (simp add: coro_land_def)
    from join_loop_schedule [OF this] h have "schedule e' = schedule e \<or> schedule e' = ready e"
      by (simp add: holder_def schedule_def ready_def)
    moreover have "schedule e = c # ready e" using h cs by (simp add: schedule_def)
    ultimately show ?thesis using h t unfolding schedule_moves_def by (metis append_Nil2)
  next
    case False
    have "schedule e' = schedule e"
      using ex res j False by (auto simp: coro_land_def coro_body_restart_def coro_engine_run_end_def schedule_def ready_def holder_def
          split: coro_ctx.splits if_splits)
    then show ?thesis by (auto simp: schedule_moves_def)
  qed
qed

lemma step_schedule:
  assumes inv: "engine_inv e" and en: "coro_enabled l e" and st: "coro_step l e = Inr e'"
  shows "schedule_moves e e'"
proof (cases l)
  case Internal
  show ?thesis
  proof (cases "control e")
    case Loop
    then have "schedule e' = schedule e" using run_schedule [of e e'] st Internal inv by (simp add: engine_inv_def control_ok_def)
    then show ?thesis by (simp add: schedule_moves_def)
  qed (use Internal en st land_schedule [OF inv] in auto)
next
  case (Call call)
  show ?thesis
  proof (cases "control e")
    case (Main r)
    then show ?thesis using call_main_schedule [OF inv Main] en st Call by (simp add: schedule_moves_def)
  qed (use Call en st call_user_schedule [OF inv] in auto)
qed


section \<open>What a step leaves of the other coroutines\<close>

definition calm :: "addr \<Rightarrow> coro_engine \<Rightarrow> coro_engine \<Rightarrow> bool" where
  "calm c e e' \<longleftrightarrow>
     co_ctx (coros e' c) = co_ctx (coros e c) \<and>
     (co_state (coros e' c) = co_state (coros e c) \<or>
      co_state (coros e c) = CORO_STATE_SUSPENDED \<and> co_state (coros e' c) = CORO_STATE_RUNNING)"

lemma calm_refl [simp]: "coros e' c = coros e c \<Longrightarrow> calm c e e'"
  by (simp add: calm_def)

lemma calm_trans: "calm c e e1 \<Longrightarrow> calm c e1 e2 \<Longrightarrow> calm c e e2"
  by (auto simp: calm_def)

lemma resume_next_calm:
  "coro_engine_resume_next k e = Inr e' \<Longrightarrow> this_coro e \<noteq> Some c \<Longrightarrow> calm c e e' \<and> allocated e' = allocated e"
  by (auto simp: coro_engine_resume_next_def split: list.splits option.splits)

lemma suspend_calm:
  "coro_engine_suspend k e = Inr e' \<Longrightarrow> this_coro e \<noteq> Some c \<Longrightarrow> calm c e e' \<and> allocated e' = allocated e"
  by (auto simp: coro_engine_suspend_def calm_def dest!: resume_next_calm [of k _ e' c] split: option.splits if_splits)

lemma yield_calm:
  "coro_engine_yield e = Inr e' \<Longrightarrow> this_coro e \<noteq> Some c \<Longrightarrow> calm c e e' \<and> allocated e' = allocated e"
  by (auto simp: coro_engine_yield_def calm_def dest!: resume_next_calm [of _ _ e' c] split: option.splits if_splits)

lemma wakeup_calm:
  "coro_engine_wakeup d e = Inr e' \<Longrightarrow>
     calm c e e' \<and> allocated e' = allocated e \<and> this_coro e' = this_coro e \<and> control e' = control e"
  by (auto simp: coro_engine_wakeup_def calm_def split: coro_state.splits if_splits)

lemma finish_calm:
  assumes "coro_body_finish v d e = Inr e'" "this_coro e = Some d" "c \<noteq> d"
  shows "calm c e e' \<and> allocated e' = allocated e"
proof -
  let ?e = "upd_coro d (co_state_update (\<lambda>_. CORO_STATE_FINISHED)) (upd_coro d (\<lambda>r. r\<lparr>co_ret := v, co_func := None\<rparr>) e)"
  have 1: "calm c e ?e" using assms(3) by simp
  have run: "co_state (coros e d) = CORO_STATE_RUNNING"
    using assms(1) by (auto simp: coro_body_finish_def Let_def split: if_splits)
  obtain e3 where 3: "coro_engine_resume_next In_finish e3 = Inr e'" "calm c ?e e3" "allocated e3 = allocated e" "this_coro e3 = Some d"
  proof (cases "co_joiner (coros e d)")
    case None
    then show ?thesis using that [of ?e] assms(1,2) run by (simp add: coro_body_finish_def Let_def)
  next
    case (Some j)
    then obtain e3 where e3: "coro_engine_wakeup j ?e = Inr e3" "coro_engine_resume_next In_finish e3 = Inr e'"
      using assms(1) run by (auto simp: coro_body_finish_def Let_def split: sum.splits)
    from wakeup_calm [OF e3(1), of c] that [OF e3(2)] assms(2) show ?thesis by simp
  qed
  have "calm c e3 e'" "allocated e' = allocated e3" using resume_next_calm [OF 3(1), of c] 3(4) assms(3) by simp_all
  moreover have "calm c e e3" by (rule calm_trans [OF 1 3(2)])
  ultimately show ?thesis using 3(3) calm_trans [of c e e3 e'] by simp
qed

lemma spawn_calm:
  assumes "coro_engine_spawn a ok f arg e = Inr (d, e')" "engine_inv e" "c \<in> set (allocated e)" "a \<notin> set (allocated e)"
    "co_state (coros e c) \<noteq> CORO_STATE_FINISHED"
  shows "calm c e e' \<and> c \<in> set (allocated e')"
proof (cases "coros_pool e")
  case Nil
  then show ?thesis using assms(1,3,4)
    by (auto simp: coro_engine_spawn_def coro_engine_spawn_new_def Let_def calm_def split: if_splits)
next
  case (Cons p ps)
  then have "p \<in> set (allocated e)" using assms(2) by (auto simp: engine_inv_def lists_ok_def)
  then have "coro_ok p e" using assms(2) by (simp add: engine_inv_def)
  then have "c \<noteq> p" using assms(5) Cons by (auto simp: coro_ok_def pooled_ok_def)
  then show ?thesis using assms(1,3) Cons by (auto simp: coro_engine_spawn_def Let_def calm_def split: if_splits)
qed

lemma back_to_user_calm [simp]: "calm c e (back_to_user r e') = calm c e e'" "allocated (back_to_user r e') = allocated e'"
  by (simp_all add: calm_def back_to_user_def)

lemma join_loop_calm:
  "coro_engine_join_loop t e = Inr e' \<Longrightarrow> this_coro e \<noteq> Some c \<Longrightarrow> calm c e e' \<and> allocated e' = allocated e"
  by (auto simp: coro_engine_join_loop_def Let_def dest: suspend_calm split: if_splits) (auto simp: calm_def)

lemma run_calm:
  "coro_engine_run e = Inr e' \<Longrightarrow> c \<noteq> SCHED \<Longrightarrow> calm c e e' \<and> allocated e' = allocated e"
  by (auto simp: coro_engine_run_def Let_def calm_def dest!: resume_next_calm [of _ _ e' c] split: if_splits)

lemma call_calm:
  assumes inv: "engine_inv e" and en: "coro_enabled (Call call) e" and ex: "coro_call_exec call e = Inr e'"
    and c: "c \<in> set (allocated e)" "co_state (coros e c) \<noteq> CORO_STATE_FINISHED" "this_coro e \<noteq> Some c"
  shows "calm c e e' \<and> c \<in> set (allocated e')"
proof (cases call)
  case Suspend
  then show ?thesis using ex c by (auto simp: coro_call_exec_def dest: suspend_calm)
next
  case Yield
  then show ?thesis using ex c by (auto simp: coro_call_exec_def dest: yield_calm)
next
  case (Wakeup d)
  then show ?thesis using ex c by (auto simp: coro_call_exec_def map_sum_eq_Inr dest: wakeup_calm)
next
  case (New a b f arg)
  moreover have "a \<notin> set (allocated e)" using en New by (auto split: control.splits)
  ultimately show ?thesis using ex c inv by (auto simp: coro_call_exec_def map_sum_eq_Inr dest: spawn_calm)
next
  case (Join d)
  let ?e = "upd_coro d (co_joiner_update (\<lambda>_. this_coro e)) e"
  have "coro_engine_join_loop d ?e = Inr e'" using ex Join by (simp add: coro_call_exec_def coro_engine_join_def split: if_splits)
  from join_loop_calm [OF this, of c] have "calm c ?e e'" "allocated e' = allocated e" using c(3) by simp_all
  moreover have "calm c e ?e" by (simp add: calm_def)
  ultimately show ?thesis using c(1) calm_trans by metis
next
  case (Return v)
  then obtain d where "this_coro e = Some d" "coro_body_finish v d e = Inr e'"
    using ex by (auto simp: coro_call_exec_def split: option.splits)
  then show ?thesis using finish_calm [of v d e e' c] c by auto
next
  case Destroy
  then have "c \<in> set (coros_pool e)" "coro_ok c e" using en c inv by (auto simp: engine_inv_def split: control.splits)
  then show ?thesis using c(2) by (simp add: coro_ok_def pooled_ok_def)
qed (use ex c in \<open>auto simp: coro_call_exec_def\<close>)

lemma land_calm:
  assumes inv: "engine_inv e" and j: "control e = Jump d" and ex: "coro_land d e = Inr e'"
    and k: "\<And>t. co_ctx (coros e c) \<noteq> In_join t"
  shows "calm c e e' \<and> allocated e' = allocated e"
proof -
  have res: "coro_engine_resumed d e = Inr (e\<lparr>this_coro := Some d\<rparr>)" using jump_resumed [OF inv j] .
  show ?thesis
  proof (cases "\<exists>t. co_ctx (coros e d) = In_join t")
    case True
    then obtain t where t: "co_ctx (coros e d) = In_join t" by blast
    then have "c \<noteq> d" using k by auto
    moreover have "coro_engine_join_loop t (e\<lparr>this_coro := Some d\<rparr>) = Inr e'" using ex t res by (simp add: coro_land_def)
    ultimately show ?thesis using join_loop_calm [of t "e\<lparr>this_coro := Some d\<rparr>" e' c] by (simp add: calm_def)
  next
    case False
    then show ?thesis
      using ex res by (auto simp: coro_land_def coro_body_restart_def coro_engine_run_end_def split: coro_ctx.splits if_splits)
  qed
qed

text \<open>A coroutine that is suspended or has yielded is at most woken up by the steps of the others.\<close>

lemma step_calm:
  assumes inv: "engine_inv e" and en: "coro_enabled l e" and st: "coro_step l e = Inr e'"
    and c: "c \<in> set (allocated e)" "\<not> in_user c e" "co_ctx (coros e c) \<in> {In_suspend, In_yield}"
  shows "calm c e e' \<and> c \<in> set (allocated e')"
proof -
  have cs: "c \<noteq> SCHED" and cok: "coro_ok c e" using inv c(1) by (auto simp: engine_inv_def lists_ok_def)
  have fin: "co_state (coros e c) \<noteq> CORO_STATE_FINISHED" using cok c(3) by (auto simp: coro_ok_def ctx_ok_def)
  show ?thesis
  proof (cases l)
    case Internal
    then show ?thesis using st en c cs land_calm [OF inv, of _ e' c] run_calm [of e e' c] by (auto split: control.splits)
  next
    case (Call call)
    have "this_coro e \<noteq> Some c"
      using inv c(2) en Call by (auto simp: engine_inv_def control_ok_def in_user_def split: control.splits)
    then show ?thesis using call_calm [OF inv _ _ c(1) fin] Call en st by simp
  qed
qed

end
