(* ===== verification/Corobus.thy ===== *)
theory Corobus
  imports Libcoro_View
begin

text \<open>
  The message bus between coroutines, \<open>1/corobus.cpp\<close>, on top of the coroutine engine. A function
  of the bus that suspends or yields is split there: \<open>pending\<close> records for every coroutine
  inside which bus function it waits, and \<open>bus_resume\<close> is the code after the suspension.

  A \<open>wakeup_entry\<close> lives on the stack of the waiting coroutine, which waits for one thing at a time: the
  entry is identified with the coroutine. The bus pointer of the program is \<open>bus\<close>, \<open>None\<close>
  being the null pointer; channel objects have addresses, and \<open>live\<close> lists those not deleted.
\<close>

section \<open>State\<close>

type_synonym message = "32 word"

datatype coro_bus_error_code =
    CORO_BUS_ERR_NONE
  | CORO_BUS_ERR_NO_CHANNEL
  | CORO_BUS_ERR_WOULD_BLOCK
  | CORO_BUS_ERR_NOT_IMPLEMENTED

record coro_bus_channel =
  size_limit :: nat
  closed :: bool
  send_queue :: "addr list"
  recv_queue :: "addr list"
  data :: "message list"

datatype bus_pending =
    Idle
  | In_send int message addr
  | In_recv int addr
  | In_close addr

record bus_world =
  engine :: coro_engine
  bus :: "addr option list option"
  chan :: "addr \<Rightarrow> coro_bus_channel"
  live :: "addr list"
  global_error :: coro_bus_error_code
  pending :: "addr \<Rightarrow> bus_pending"
  bus_ret :: "int \<times> message option"

datatype bus_failure = Engine failure | Bus_assertion nat | Use_after_free

type_synonym bus_result = "bus_failure + bus_world"

definition upd_chan :: "addr \<Rightarrow> (coro_bus_channel \<Rightarrow> coro_bus_channel) \<Rightarrow> bus_world \<Rightarrow> bus_world" where
  "upd_chan a f w = w\<lparr>chan := (chan w)(a := f (chan w a))\<rparr>"

definition set_pending :: "addr \<Rightarrow> bus_pending \<Rightarrow> bus_world \<Rightarrow> bus_world" where
  "set_pending c p w = w\<lparr>pending := (pending w)(c := p)\<rparr>"

text \<open>A call of the engine that runs to its end, and one that gives the processor away.\<close>

definition with_engine :: "(coro_engine \<Rightarrow> engine_result) \<Rightarrow> bus_world \<Rightarrow> bus_result" where
  "with_engine f w = map_sum Engine (\<lambda>e. w\<lparr>engine := e\<rparr>) (f (engine w))"

section \<open>Wait queues\<close>

datatype wait_queue = Send_queue | Recv_queue

definition queue_of :: "wait_queue \<Rightarrow> coro_bus_channel \<Rightarrow> addr list" where
  "queue_of q ch = (case q of Send_queue \<Rightarrow> send_queue ch | Recv_queue \<Rightarrow> recv_queue ch)"

definition set_queue :: "wait_queue \<Rightarrow> addr list \<Rightarrow> coro_bus_channel \<Rightarrow> coro_bus_channel" where
  "set_queue q xs ch = (case q of Send_queue \<Rightarrow> ch\<lparr>send_queue := xs\<rparr> | Recv_queue \<Rightarrow> ch\<lparr>recv_queue := xs\<rparr>)"

definition wakeup_queue_suspend_this :: "wait_queue \<Rightarrow> addr \<Rightarrow> bus_pending \<Rightarrow> bus_world \<Rightarrow> bus_result" where
  "wakeup_queue_suspend_this q a p w =
     (case this_coro (engine w) of
        None \<Rightarrow> Inl (Engine Deadlock_exit)
      | Some c \<Rightarrow>
          with_engine (coro_engine_suspend In_suspend)
            (set_pending c p (upd_chan a (\<lambda>ch. set_queue q (queue_of q ch @ [c]) ch) w)))"

text \<open>The end of it: the entry leaves the list it is in, if it is in one still.\<close>

definition wakeup_entry_del :: "wait_queue \<Rightarrow> addr \<Rightarrow> addr \<Rightarrow> bus_world \<Rightarrow> bus_result" where
  "wakeup_entry_del q a c w =
     (if c \<in> set (queue_of q (chan w a)) then
        if a \<notin> set (live w) then Inl Use_after_free
        else Inr (upd_chan a (\<lambda>ch. set_queue q (remove1 c (queue_of q ch)) ch) w)
      else Inr w)"

definition wakeup_queue_wakeup_first :: "wait_queue \<Rightarrow> addr \<Rightarrow> bus_world \<Rightarrow> bus_result" where
  "wakeup_queue_wakeup_first q a w =
     (case queue_of q (chan w a) of
        [] \<Rightarrow> Inr w
      | c # cs \<Rightarrow> with_engine (coro_engine_wakeup c) (upd_chan a (set_queue q cs) w))"

section \<open>Operations\<close>

definition coro_bus_errno_set :: "coro_bus_error_code \<Rightarrow> bus_world \<Rightarrow> bus_world" where
  "coro_bus_errno_set err w = w\<lparr>global_error := err\<rparr>"

definition coro_bus_errno :: "bus_world \<Rightarrow> coro_bus_error_code" where
  "coro_bus_errno w = global_error w"

definition coro_bus_new :: "bus_world \<Rightarrow> bus_world" where
  "coro_bus_new w = coro_bus_errno_set CORO_BUS_ERR_NONE (w\<lparr>bus := Some []\<rparr>)"

definition coro_bus_delete :: "bus_world \<Rightarrow> bus_world" where
  "coro_bus_delete w =
     (case bus w of
        None \<Rightarrow> w
      | Some cs \<Rightarrow> w\<lparr>live := filter (\<lambda>a. Some a \<notin> set cs) (live w), bus := None\<rparr>)"

definition new_channel :: "nat \<Rightarrow> coro_bus_channel" where
  "new_channel limit = \<lparr>size_limit = limit, closed = False, send_queue = [], recv_queue = [], data = []\<rparr>"

text \<open>The first slot that holds the null pointer.\<close>

fun free_slot :: "addr option list \<Rightarrow> nat option" where
  "free_slot [] = None"
| "free_slot (s # ss) = (if s = None then Some 0 else map_option Suc (free_slot ss))"

text \<open>\<open>a\<close> is the address of the new channel; the array of slots grows by one when it is full.\<close>

definition coro_bus_channel_open :: "addr \<Rightarrow> nat \<Rightarrow> bus_world \<Rightarrow> bus_result" where
  "coro_bus_channel_open a limit w =
     (case bus w of
        None \<Rightarrow> Inl (Bus_assertion 131)
      | Some cs \<Rightarrow>
          let w1 = w\<lparr>chan := (chan w)(a := new_channel limit), live := a # live w\<rparr>
          in case free_slot cs of
               Some i \<Rightarrow>
                 Inr (coro_bus_errno_set CORO_BUS_ERR_NONE (w1\<lparr>bus := Some (cs[i := Some a]), bus_ret := (int i, None)\<rparr>))
             | None \<Rightarrow>
                 Inr (coro_bus_errno_set CORO_BUS_ERR_NONE
                        (w1\<lparr>bus := Some (cs @ [Some a]), bus_ret := (int (length cs), None)\<rparr>)))"

text \<open>\<open>None\<close>: no bus, a descriptor out of range, or an empty slot.\<close>

definition channel_at :: "int \<Rightarrow> bus_world \<Rightarrow> addr option" where
  "channel_at channel w =
     (case bus w of
        None \<Rightarrow> None
      | Some cs \<Rightarrow> if channel < 0 \<or> int (length cs) \<le> channel then None else cs ! nat channel)"

fun wakeup_all :: "addr list \<Rightarrow> coro_engine \<Rightarrow> engine_result" where
  "wakeup_all [] e = Inr e"
| "wakeup_all (c # cs) e = (case coro_engine_wakeup c e of Inl f \<Rightarrow> Inl f | Inr e1 \<Rightarrow> wakeup_all cs e1)"

definition coro_bus_channel_close :: "int \<Rightarrow> bus_world \<Rightarrow> bus_result" where
  "coro_bus_channel_close channel w =
     (case (bus w, channel_at channel w) of
        (Some cs, Some a) \<Rightarrow>
          if a \<notin> set (live w) then Inl Use_after_free
          else let ch = chan w a;
              w1 = upd_chan a (closed_update (\<lambda>_. True)) (w\<lparr>bus := Some (cs[nat channel := None])\<rparr>)
          in (case with_engine (wakeup_all (send_queue ch @ recv_queue ch)) w1 of
                Inl f \<Rightarrow> Inl f
              | Inr w2 \<Rightarrow>
                  (case this_coro (engine w2) of
                     None \<Rightarrow> Inl (Engine Bad_pointer)
                   | Some c \<Rightarrow> with_engine coro_engine_yield (set_pending c (In_close a) w2)))
      | _ \<Rightarrow> Inr w)"

definition bus_return :: "int \<Rightarrow> message option \<Rightarrow> coro_bus_error_code \<Rightarrow> bus_world \<Rightarrow> bus_world" where
  "bus_return r d err w = coro_bus_errno_set err (w\<lparr>bus_ret := (r, d)\<rparr>)"

text \<open>A message goes in and the first waiting receiver is woken up; a message comes out and the first waiting sender is.\<close>

definition push_message :: "addr \<Rightarrow> message \<Rightarrow> bus_world \<Rightarrow> bus_result" where
  "push_message a d w =
     map_sum id (bus_return 0 None CORO_BUS_ERR_NONE)
       (wakeup_queue_wakeup_first Recv_queue a (upd_chan a (\<lambda>ch. ch\<lparr>data := data ch @ [d]\<rparr>) w))"

definition pop_message :: "addr \<Rightarrow> bus_world \<Rightarrow> bus_result" where
  "pop_message a w =
     map_sum id (bus_return 0 (Some (hd (data (chan w a)))) CORO_BUS_ERR_NONE)
       (wakeup_queue_wakeup_first Send_queue a (upd_chan a (\<lambda>ch. ch\<lparr>data := tl (data ch)\<rparr>) w))"

text \<open>One turn of the loop of \<open>coro_bus_send\<close>; the turns after a suspension start from \<open>bus_resume\<close>.\<close>

definition coro_bus_send :: "int \<Rightarrow> message \<Rightarrow> bus_world \<Rightarrow> bus_result" where
  "coro_bus_send channel d w =
     (case channel_at channel w of
        None \<Rightarrow> Inr (bus_return (-1) None CORO_BUS_ERR_NO_CHANNEL w)
      | Some a \<Rightarrow>
          if a \<notin> set (live w) then Inl Use_after_free
          else if closed (chan w a) then Inr (bus_return (-1) None CORO_BUS_ERR_NO_CHANNEL w)
          else if length (data (chan w a)) < size_limit (chan w a) then push_message a d w
          else wakeup_queue_suspend_this Send_queue a (In_send channel d a) w)"

definition coro_bus_try_send :: "int \<Rightarrow> message \<Rightarrow> bus_world \<Rightarrow> bus_result" where
  "coro_bus_try_send channel d w =
     (case channel_at channel w of
        None \<Rightarrow> Inr (bus_return (-1) None CORO_BUS_ERR_NO_CHANNEL w)
      | Some a \<Rightarrow>
          if a \<notin> set (live w) then Inl Use_after_free
          else if closed (chan w a) then Inr (bus_return (-1) None CORO_BUS_ERR_NO_CHANNEL w)
          else if size_limit (chan w a) \<le> length (data (chan w a))
          then Inr (bus_return (-1) None CORO_BUS_ERR_WOULD_BLOCK w)
          else push_message a d w)"

definition coro_bus_recv :: "int \<Rightarrow> bus_world \<Rightarrow> bus_result" where
  "coro_bus_recv channel w =
     (case channel_at channel w of
        None \<Rightarrow> Inr (bus_return (-1) None CORO_BUS_ERR_NO_CHANNEL w)
      | Some a \<Rightarrow>
          if a \<notin> set (live w) then Inl Use_after_free
          else if closed (chan w a) then Inr (bus_return (-1) None CORO_BUS_ERR_NO_CHANNEL w)
          else if data (chan w a) \<noteq> [] then pop_message a w
          else wakeup_queue_suspend_this Recv_queue a (In_recv channel a) w)"

definition coro_bus_try_recv :: "int \<Rightarrow> bus_world \<Rightarrow> bus_result" where
  "coro_bus_try_recv channel w =
     (case channel_at channel w of
        None \<Rightarrow> Inr (bus_return (-1) None CORO_BUS_ERR_NO_CHANNEL w)
      | Some a \<Rightarrow>
          if a \<notin> set (live w) then Inl Use_after_free
          else if closed (chan w a) then Inr (bus_return (-1) None CORO_BUS_ERR_NO_CHANNEL w)
          else if data (chan w a) = [] then Inr (bus_return (-1) None CORO_BUS_ERR_WOULD_BLOCK w)
          else pop_message a w)"

text \<open>A coroutine inside a bus function has the processor again.\<close>

definition bus_resume :: "addr \<Rightarrow> bus_world \<Rightarrow> bus_result" where
  "bus_resume c w =
     (case pending w c of
        Idle \<Rightarrow> Inr w
      | In_send channel d a \<Rightarrow>
          (case wakeup_entry_del Send_queue a c (set_pending c Idle w) of
             Inl f \<Rightarrow> Inl f
           | Inr w1 \<Rightarrow> coro_bus_send channel d w1)
      | In_recv channel a \<Rightarrow>
          (case wakeup_entry_del Recv_queue a c (set_pending c Idle w) of
             Inl f \<Rightarrow> Inl f
           | Inr w1 \<Rightarrow> coro_bus_recv channel w1)
      | In_close a \<Rightarrow>
          if a \<notin> set (live w) then Inl Use_after_free
          else Inr (set_pending c Idle (w\<lparr>live := remove1 a (live w)\<rparr>)))"

section \<open>Steps\<close>

datatype bus_call =
    Bus_new
  | Bus_delete
  | Open addr nat
  | Close int
  | Send int message
  | Try_send int message
  | Recv int
  | Try_recv int

datatype bus_label = Library coro_label | Bus bus_call | Resume

definition bus_call_exec :: "bus_call \<Rightarrow> bus_world \<Rightarrow> bus_result" where
  "bus_call_exec call w =
     (case call of
        Bus_new \<Rightarrow> Inr (coro_bus_new w)
      | Bus_delete \<Rightarrow> Inr (coro_bus_delete w)
      | Open a limit \<Rightarrow> coro_bus_channel_open a limit w
      | Close channel \<Rightarrow> coro_bus_channel_close channel w
      | Send channel d \<Rightarrow> coro_bus_send channel d w
      | Try_send channel d \<Rightarrow> coro_bus_try_send channel d w
      | Recv channel \<Rightarrow> coro_bus_recv channel w
      | Try_recv channel \<Rightarrow> coro_bus_try_recv channel w)"

definition user_of :: "bus_world \<Rightarrow> addr option" where
  "user_of w = (case control (engine w) of User c r \<Rightarrow> Some c | _ \<Rightarrow> None)"

fun bus_step :: "bus_label \<Rightarrow> bus_world \<Rightarrow> bus_result" where
  "bus_step (Library l) w = with_engine (coro_step l) w"
| "bus_step (Bus call) w = bus_call_exec call w"
| "bus_step Resume w = (case user_of w of None \<Rightarrow> Inr w | Some c \<Rightarrow> bus_resume c w)"

text \<open>
  The rules of use: those of the coroutine library; the code of a coroutine that is inside a bus
  function is the code of that function; one bus at a time, created when there is none, its
  channels opened in it, and deleted when no coroutine waits in a send or receive; bus functions
  that may suspend are called by coroutines.
\<close>

fun bus_enabled :: "bus_label \<Rightarrow> bus_world \<Rightarrow> bool" where
  "bus_enabled (Library l) w \<longleftrightarrow>
     coro_enabled l (engine w) \<and> (case user_of w of None \<Rightarrow> True | Some c \<Rightarrow> pending w c = Idle)"
| "bus_enabled (Bus call) w \<longleftrightarrow>
     (case user_of w of None \<Rightarrow> False | Some c \<Rightarrow> pending w c = Idle) \<and>
     (case call of
        Bus_new \<Rightarrow> bus w = None
      | Bus_delete \<Rightarrow> \<forall>c \<in> set (allocated (engine w)).
          (case pending w c of Idle \<Rightarrow> True | In_close a \<Rightarrow> True | _ \<Rightarrow> False)
      | Open a limit \<Rightarrow> a \<notin> set (live w) \<and> bus w \<noteq> None
      | _ \<Rightarrow> True)"
| "bus_enabled Resume w \<longleftrightarrow> (case user_of w of None \<Rightarrow> False | Some c \<Rightarrow> pending w c \<noteq> Idle)"

definition bus_start :: bus_world where
  "bus_start = \<lparr>engine = coro_engine_create, bus = None, chan = (\<lambda>_. new_channel 0), live = [],
     global_error = CORO_BUS_ERR_NONE, pending = (\<lambda>_. Idle), bus_ret = (0, None)\<rparr>"

end
