(* ===== verification/Corobus_Inv.thy ===== *)
theory Corobus_Inv
  imports Corobus
begin

text \<open>
  The invariant of the message bus and its preservation by every step: who waits where, that a
  channel being closed outlives its waiters, and the interpretation of \<open>safe_system\<close> on the bus
  of \<open>1/corobus.cpp\<close>.
\<close>

section \<open>Invariant\<close>

fun waits_in :: "wait_queue \<Rightarrow> addr \<Rightarrow> bus_pending \<Rightarrow> bool" where
  "waits_in q a (In_send channel d b) \<longleftrightarrow> q = Send_queue \<and> b = a"
| "waits_in q a (In_recv channel b) \<longleftrightarrow> q = Recv_queue \<and> b = a"
| "waits_in q a _ \<longleftrightarrow> False"

definition queues_ok :: "bus_world \<Rightarrow> bool" where
  "queues_ok w \<longleftrightarrow>
     (\<forall>a q. distinct (queue_of q (chan w a)) \<and> (\<forall>c\<in>set (queue_of q (chan w a)). waits_in q a (pending w c)))"

definition slots_ok :: "bus_world \<Rightarrow> bool" where
  "slots_ok w \<longleftrightarrow> (\<forall>cs a. bus w = Some cs \<longrightarrow> Some a \<in> set cs \<longrightarrow> a \<in> set (live w) \<and> \<not> closed (chan w a))"

text \<open>No channel is in two slots.\<close>

definition slots_once :: "bus_world \<Rightarrow> bool" where
  "slots_once w \<longleftrightarrow> (\<forall>cs. bus w = Some cs \<longrightarrow> distinct (filter (\<lambda>s. s \<noteq> None) cs))"

definition live_ok :: "bus_world \<Rightarrow> bool" where
  "live_ok w \<longleftrightarrow>
     distinct (live w) \<and>
     (\<forall>a\<in>set (live w). length (data (chan w a)) \<le> size_limit (chan w a)) \<and>
     (\<forall>a c q. waits_in q a (pending w c) \<longrightarrow> a \<in> set (live w)) \<and>
     (\<forall>a c. pending w c = In_close a \<longrightarrow> a \<in> set (live w) \<and> closed (chan w a))"

definition one_closer :: "bus_world \<Rightarrow> bool" where
  "one_closer w \<longleftrightarrow> (\<forall>a c d. pending w c = In_close a \<longrightarrow> pending w d = In_close a \<longrightarrow> c = d)"

definition waiting_ok :: "addr \<Rightarrow> bus_world \<Rightarrow> bool" where
  "waiting_ok c w \<longleftrightarrow>
     (pending w c \<noteq> Idle \<longrightarrow>
        c \<in> set (allocated (engine w)) \<and>
        (in_user c (engine w) \<or> co_ctx (coros (engine w) c) \<in> {In_suspend, In_yield})) \<and>
     (\<forall>q a. waits_in q a (pending w c) \<longrightarrow> co_state (coros (engine w) c) = CORO_STATE_SUSPENDED \<longrightarrow>
        c \<in> set (queue_of q (chan w a)))"

definition closing_ok :: "addr \<Rightarrow> bus_world \<Rightarrow> bool" where
  "closing_ok c w \<longleftrightarrow>
     (\<forall>a. pending w c = In_close a \<longrightarrow>
        c \<in> set (schedule (engine w)) \<and>
        (\<forall>d q. waits_in q a (pending w d) \<longrightarrow> d \<in> set (takeWhile (\<lambda>x. x \<noteq> c) (schedule (engine w)))))"

definition bus_inv :: "bus_world \<Rightarrow> bool" where
  "bus_inv w \<longleftrightarrow> engine_inv (engine w) \<and> queues_ok w \<and> slots_ok w \<and> slots_once w \<and> live_ok w \<and> one_closer w \<and>
     (\<forall>c. waiting_ok c w) \<and> (\<forall>c. closing_ok c w)"

lemma bus_start_inv: "bus_inv bus_start"
  using create_inv by (simp add: bus_inv_def bus_start_def queues_ok_def slots_ok_def slots_once_def live_ok_def one_closer_def waiting_ok_def
      closing_ok_def queue_of_def new_channel_def split: wait_queue.split)

lemma world_simps [simp]:
  "engine (upd_chan a f w) = engine w" "bus (upd_chan a f w) = bus w" "chan (upd_chan a f w) = (chan w)(a := f (chan w a))"
  "live (upd_chan a f w) = live w" "pending (upd_chan a f w) = pending w"
  "engine (set_pending c p w) = engine w" "bus (set_pending c p w) = bus w" "chan (set_pending c p w) = chan w"
  "live (set_pending c p w) = live w" "pending (set_pending c p w) = (pending w)(c := p)"
  by (simp_all add: upd_chan_def set_pending_def)

lemma return_simps [simp]:
  "engine (bus_return r d err w) = engine w" "bus (bus_return r d err w) = bus w" "chan (bus_return r d err w) = chan w"
  "live (bus_return r d err w) = live w" "pending (bus_return r d err w) = pending w"
  "engine (coro_bus_errno_set err w) = engine w" "bus (coro_bus_errno_set err w) = bus w" "chan (coro_bus_errno_set err w) = chan w"
  "live (coro_bus_errno_set err w) = live w" "pending (coro_bus_errno_set err w) = pending w"
  by (simp_all add: bus_return_def coro_bus_errno_set_def)

lemma queue_simps [simp]:
  "queue_of q (set_queue p xs ch) = (if p = q then xs else queue_of q ch)"
  "closed (set_queue p xs ch) = closed ch" "data (set_queue p xs ch) = data ch" "size_limit (set_queue p xs ch) = size_limit ch"
  "queue_of q (ch\<lparr>data := ds\<rparr>) = queue_of q ch" "queue_of q (ch\<lparr>closed := b\<rparr>) = queue_of q ch"
  "queue_of q (new_channel n) = []"
  by (cases p; cases q; simp add: queue_of_def set_queue_def new_channel_def)+

text \<open>The invariant reads these fields only.\<close>

lemma bus_inv_cong:
  assumes "bus_inv w" "engine w' = engine w" "bus w' = bus w" "chan w' = chan w" "live w' = live w" "pending w' = pending w"
  shows "bus_inv w'"
  using assms(1) unfolding bus_inv_def queues_ok_def slots_ok_def slots_once_def live_ok_def one_closer_def waiting_ok_def closing_ok_def assms(2-) .

lemma bus_part_engine [simp]:
  "queues_ok (w\<lparr>engine := e\<rparr>) = queues_ok w" "slots_ok (w\<lparr>engine := e\<rparr>) = slots_ok w" "live_ok (w\<lparr>engine := e\<rparr>) = live_ok w"
  "one_closer (w\<lparr>engine := e\<rparr>) = one_closer w" "slots_once (w\<lparr>engine := e\<rparr>) = slots_once w"
  by (simp_all add: slots_once_def queues_ok_def slots_ok_def live_ok_def one_closer_def)

lemma bus_return_inv [simp]: "bus_inv (bus_return r d err w) = bus_inv w"
  by (rule iffI; erule bus_inv_cong; simp)

section \<open>Steps of the engine\<close>

lemma takeWhile_kept:
  assumes "c \<in> set xs"
  shows "takeWhile (\<lambda>x. x \<noteq> c) (xs @ ys) = takeWhile (\<lambda>x. x \<noteq> c) xs"
  using assms by (induction xs) auto

text \<open>
  A step of the engine keeps the invariant of the bus when it keeps the waiting coroutines calm
  and none of them is dropped from the schedule.
\<close>

lemma engine_change_inv:
  assumes inv: "bus_inv w" and e': "engine_inv e'"
    and calm: "\<And>c. pending w c \<noteq> Idle \<Longrightarrow> c \<in> set (allocated e') \<and> calm c (engine w) e' \<and>
                 (in_user c (engine w) \<longrightarrow> in_user c e')"
    and moves: "(\<exists>xs. schedule e' = schedule (engine w) @ xs) \<or>
      (\<exists>x rest xs. schedule (engine w) = x # rest \<and> schedule e' = rest @ xs \<and> pending w x = Idle)"
  shows "bus_inv (w\<lparr>engine := e'\<rparr>)"
proof -
  have 1: "waiting_ok c (w\<lparr>engine := e'\<rparr>)" for c
  proof (cases "pending w c = Idle")
    case False
    then have "calm c (engine w) e'" "c \<in> set (allocated e')" "waiting_ok c w" "in_user c (engine w) \<longrightarrow> in_user c e'"
      using calm [of c] inv by (auto simp: bus_inv_def)
    then show ?thesis by (auto simp: waiting_ok_def calm_def)
  qed (simp add: waiting_ok_def)
  have closing: "closing_ok c w" for c using inv by (simp add: bus_inv_def)
  have 2: "closing_ok c (w\<lparr>engine := e'\<rparr>)" for c
    unfolding closing_ok_def
  proof (intro allI impI)
    fix a assume "pending (w\<lparr>engine := e'\<rparr>) c = In_close a"
    then have p: "pending w c = In_close a" by simp
    then have c: "c \<in> set (schedule (engine w))"
      and d: "waits_in q a (pending w d) \<Longrightarrow> d \<in> set (takeWhile (\<lambda>x. x \<noteq> c) (schedule (engine w)))" for d q
      using closing [of c] unfolding closing_ok_def by blast+
    show "c \<in> set (schedule (engine (w\<lparr>engine := e'\<rparr>))) \<and>
        (\<forall>d q. waits_in q a (pending (w\<lparr>engine := e'\<rparr>) d) \<longrightarrow>
          d \<in> set (takeWhile (\<lambda>x. x \<noteq> c) (schedule (engine (w\<lparr>engine := e'\<rparr>)))))"
      using moves
    proof (elim disjE exE conjE)
      fix xs assume "schedule e' = schedule (engine w) @ xs"
      then show ?thesis using c d by (auto simp: takeWhile_kept)
    next
      fix x rest xs assume s: "schedule (engine w) = x # rest" "schedule e' = rest @ xs" "pending w x = Idle"
      have cx: "c \<noteq> x" using p s(3) by auto
      then have cr: "c \<in> set rest" using c s(1) by simp
      have "d \<in> set (takeWhile (\<lambda>x. x \<noteq> c) rest)" if w: "waits_in q a (pending w d)" for d q
      proof -
        have "d \<noteq> x" using w s(3) by auto
        then show ?thesis using d [OF w] s(1) cx by simp
      qed
      then show ?thesis using cr s(2) by (auto simp: takeWhile_kept)
    qed
  qed
  show ?thesis using inv e' 1 2 by (simp add: bus_inv_def)
qed

lemma in_user_user_of: "in_user c (engine w) \<longleftrightarrow> user_of w = Some c"
  by (auto simp: in_user_def user_of_def split: control.splits)

lemma library_step_inv:
  assumes inv: "bus_inv w" and en: "bus_enabled (Library l) w"
  shows "\<exists>w'. bus_step (Library l) w = Inr w' \<and> bus_inv w'"
proof -
  have ei: "engine_inv (engine w)" and el: "coro_enabled l (engine w)"
    and idle: "\<And>c. user_of w = Some c \<Longrightarrow> pending w c = Idle" using inv en by (auto simp: bus_inv_def split: option.splits)
  obtain e' where e': "coro_step l (engine w) = Inr e'" "engine_inv e'" using coro_step_safe [OF ei el] by blast
  have "bus_inv (w\<lparr>engine := e'\<rparr>)"
  proof (rule engine_change_inv [OF inv e'(2)])
    fix c assume p: "pending w c \<noteq> Idle"
    then have nu: "\<not> in_user c (engine w)" using idle by (auto simp: in_user_user_of)
    then show "c \<in> set (allocated e') \<and> calm c (engine w) e' \<and> (in_user c (engine w) \<longrightarrow> in_user c e')"
      using step_calm [OF ei el e'(1), of c] inv p by (auto simp: bus_inv_def waiting_ok_def)
  next
    have "pending w x = Idle" if x: "in_user x (engine w) \<or> (\<exists>t. co_ctx (coros (engine w) x) = In_join t)" for x
    proof (rule ccontr)
      assume p: "pending w x \<noteq> Idle"
      then have "\<not> in_user x (engine w)" using idle by (auto simp: in_user_user_of)
      moreover have "waiting_ok x w" using inv by (simp add: bus_inv_def)
      ultimately show False using x p by (auto simp: waiting_ok_def)
    qed
    then show "(\<exists>xs. schedule e' = schedule (engine w) @ xs) \<or>
      (\<exists>x rest xs. schedule (engine w) = x # rest \<and> schedule e' = rest @ xs \<and> pending w x = Idle)"
      using step_schedule [OF ei el e'(1)] unfolding schedule_moves_def by blast
  qed
  then show ?thesis using e'(1) by (simp add: with_engine_def)
qed

lemma one_closerI: "(\<And>a c d. pending w c = In_close a \<Longrightarrow> pending w d = In_close a \<Longrightarrow> c = d) \<Longrightarrow> one_closer w"
  unfolding one_closer_def by blast

lemma one_closerD: "one_closer w \<Longrightarrow> pending w c = In_close a \<Longrightarrow> pending w d = In_close a \<Longrightarrow> c = d"
  unfolding one_closer_def by blast

section \<open>Changes of the bus\<close>

lemma queueD:
  assumes "bus_inv w" "c \<in> set (queue_of q (chan w a))"
  shows "waits_in q a (pending w c)" "pending w c \<noteq> Idle" "c \<in> set (allocated (engine w))" "a \<in> set (live w)"
proof -
  show 1: "waits_in q a (pending w c)" using assms by (auto simp: bus_inv_def queues_ok_def)
  then show 2: "pending w c \<noteq> Idle" by auto
  show "c \<in> set (allocated (engine w))" using assms(1) 2 by (auto simp: bus_inv_def waiting_ok_def)
  show "a \<in> set (live w)" using assms(1) 1 unfolding bus_inv_def live_ok_def by blast
qed

lemma waits_in_queue: "waits_in q a p \<Longrightarrow> waits_in q' a' p \<longleftrightarrow> q' = q \<and> a' = a"
  by (cases p) auto

lemma waits_live: "bus_inv w \<Longrightarrow> waits_in q a (pending w c) \<Longrightarrow> a \<in> set (live w)"
  unfolding bus_inv_def live_ok_def by blast

lemma chan_change_inv:
  assumes inv: "bus_inv w"
    and cl: "closed ch = closed (chan w a)" and len: "a \<in> set (live w) \<Longrightarrow> length (data ch) \<le> size_limit ch"
    and qs: "\<And>q. distinct (queue_of q ch) \<and> set (queue_of q ch) \<subseteq> set (queue_of q (chan w a))"
    and out: "\<And>q c. c \<in> set (queue_of q (chan w a)) \<Longrightarrow> c \<notin> set (queue_of q ch) \<Longrightarrow>
                co_state (coros (engine w) c) \<noteq> CORO_STATE_SUSPENDED"
  shows "bus_inv (w\<lparr>chan := (chan w)(a := ch)\<rparr>)" (is "bus_inv ?w")
proof -
  have "waits_in q a (pending w c)" if "c \<in> set (queue_of q ch)" for q c using queueD(1) [OF inv] qs [of q] that by blast
  then have "queues_ok ?w" using inv qs unfolding bus_inv_def queues_ok_def by auto
  moreover have "slots_ok ?w" using inv cl unfolding bus_inv_def slots_ok_def by auto
  moreover have "live_ok ?w" using inv cl len unfolding bus_inv_def live_ok_def by auto
  moreover have "one_closer ?w = one_closer w" "slots_once ?w = slots_once w" by (simp_all add: one_closer_def slots_once_def)
  moreover have "waiting_ok c ?w" for c
  proof -
    have "waiting_ok c w" using inv by (simp add: bus_inv_def)
    then show ?thesis using out [of c] by (auto simp: waiting_ok_def)
  qed
  moreover have "closing_ok c ?w" for c using inv by (simp add: bus_inv_def closing_ok_def)
  ultimately show ?thesis using inv by (simp add: bus_inv_def)
qed

lemma set_idle_inv:
  assumes inv: "bus_inv w" and out: "\<And>q a. c \<notin> set (queue_of q (chan w a))"
  shows "bus_inv (set_pending c Idle w)" (is "bus_inv ?w")
proof -
  have "queues_ok ?w" using inv out unfolding bus_inv_def queues_ok_def by auto
  moreover have "slots_ok ?w = slots_ok w" "slots_once ?w = slots_once w" by (simp_all add: slots_ok_def slots_once_def)
  moreover have "live_ok ?w" using inv unfolding bus_inv_def live_ok_def by (auto split: if_splits)
  moreover have "one_closer ?w" by (rule one_closerI) (use one_closerD [of w] inv in \<open>auto simp: bus_inv_def split: if_splits\<close>)
  moreover have "waiting_ok d ?w" "closing_ok d ?w" for d
  proof -
    have "waiting_ok d w" "closing_ok d w" using inv by (simp_all add: bus_inv_def)
    then show "waiting_ok d ?w" "closing_ok d ?w" by (auto simp: waiting_ok_def closing_ok_def split: if_splits)
  qed
  ultimately show ?thesis using inv by (simp add: bus_inv_def)
qed

lemma wake_inv:
  assumes inv: "bus_inv w" and c: "c \<in> set (allocated (engine w))"
  obtains e' where "coro_engine_wakeup c (engine w) = Inr e'" "bus_inv (w\<lparr>engine := e'\<rparr>)"
    "control e' = control (engine w)" "this_coro e' = this_coro (engine w)" "allocated e' = allocated (engine w)"
    "co_state (coros e' c) \<noteq> CORO_STATE_SUSPENDED" "\<And>d. calm d (engine w) e'"
proof -
  have ei: "engine_inv (engine w)" using inv by (simp add: bus_inv_def)
  obtain e' where e': "coro_engine_wakeup c (engine w) = Inr e'" "engine_inv e'" "control e' = control (engine w)"
    "e' = (if co_state (coros (engine w) c) = CORO_STATE_SUSPENDED then woken c (engine w) else engine w)"
    using wakeup_safe [OF ei c] .
  note k = wakeup_calm [OF e'(1)] and s = wakeup_schedule [OF e'(1)]
  have "bus_inv (w\<lparr>engine := e'\<rparr>)"
  proof (rule engine_change_inv [OF inv e'(2)])
    fix d assume "pending w d \<noteq> Idle"
    then have "d \<in> set (allocated (engine w))" using inv by (auto simp: bus_inv_def waiting_ok_def)
    then show "d \<in> set (allocated e') \<and> calm d (engine w) e' \<and> (in_user d (engine w) \<longrightarrow> in_user d e')"
      using k [of d] e'(3) by (simp add: in_user_def)
  qed (use s in blast)
  moreover have "co_state (coros e' c) \<noteq> CORO_STATE_SUSPENDED" using e'(4) by auto
  ultimately show ?thesis using that e' k by blast
qed

lemma dequeue_inv:
  assumes inv: "bus_inv w" and sub: "distinct xs" "set xs \<subseteq> set (queue_of q (chan w a))"
    and out: "\<And>c. c \<in> set (queue_of q (chan w a)) \<Longrightarrow> c \<notin> set xs \<Longrightarrow> co_state (coros (engine w) c) \<noteq> CORO_STATE_SUSPENDED"
  shows "bus_inv (upd_chan a (set_queue q xs) w)"
  unfolding upd_chan_def
proof (rule chan_change_inv [OF inv])
  show "a \<in> set (live w) \<Longrightarrow> length (data (set_queue q xs (chan w a))) \<le> size_limit (set_queue q xs (chan w a))"
    using inv by (simp add: bus_inv_def live_ok_def)
  show "distinct (queue_of p (set_queue q xs (chan w a))) \<and> set (queue_of p (set_queue q xs (chan w a))) \<subseteq> set (queue_of p (chan w a))" for p
    using inv sub by (auto simp: bus_inv_def queues_ok_def)
qed (use out in \<open>auto split: if_splits\<close>)

lemma wakeup_first_inv:
  assumes inv: "bus_inv w"
  obtains w' where "wakeup_queue_wakeup_first q a w = Inr w'" "bus_inv w'" "pending w' = pending w" "bus w' = bus w" "live w' = live w"
    "control (engine w') = control (engine w)" "allocated (engine w') = allocated (engine w)"
    "chan w' = (chan w)(a := set_queue q (tl (queue_of q (chan w a))) (chan w a))"
    "\<And>d. calm d (engine w) (engine w')"
    "\<And>c cs. queue_of q (chan w a) = c # cs \<Longrightarrow> co_state (coros (engine w') c) \<noteq> CORO_STATE_SUSPENDED"
proof (cases "queue_of q (chan w a)")
  case Nil
  then have "set_queue q [] (chan w a) = chan w a" by (cases q) (simp_all add: set_queue_def queue_of_def)
  then show ?thesis using that [of w] Nil inv by (simp add: wakeup_queue_wakeup_first_def)
next
  case (Cons c cs)
  have c: "c \<in> set (allocated (engine w))" using queueD(3) [OF inv, of c q a] Cons by simp
  obtain e' where e': "coro_engine_wakeup c (engine w) = Inr e'" "bus_inv (w\<lparr>engine := e'\<rparr>)"
    "control e' = control (engine w)" "allocated e' = allocated (engine w)"
    "co_state (coros e' c) \<noteq> CORO_STATE_SUSPENDED" "\<And>d. calm d (engine w) e'" using wake_inv [OF inv c] by metis
  have "distinct (queue_of q (chan w a))" using inv by (simp add: bus_inv_def queues_ok_def)
  then have d: "distinct cs" "c \<notin> set cs" using Cons by auto
  let ?w = "upd_chan a (set_queue q cs) w\<lparr>engine := e'\<rparr>"
  have "wakeup_queue_wakeup_first q a w = Inr ?w"
    using Cons e'(1) by (simp add: wakeup_queue_wakeup_first_def with_engine_def)
  moreover have "bus_inv (upd_chan a (set_queue q cs) (w\<lparr>engine := e'\<rparr>))"
    using dequeue_inv [OF e'(2) d(1), of q a] Cons e'(5) by auto
  then have "bus_inv ?w" by (rule bus_inv_cong) simp_all
  ultimately show ?thesis using that [of ?w] e' Cons by simp
qed

section \<open>Operations keep the invariant\<close>

lemma data_inv:
  assumes "bus_inv w" "length ds \<le> size_limit (chan w a)"
  shows "bus_inv (upd_chan a (\<lambda>ch. ch\<lparr>data := ds\<rparr>) w)"
  unfolding upd_chan_def
  by (rule chan_change_inv [OF assms(1)]) (use assms in \<open>auto simp: bus_inv_def queues_ok_def\<close>)

lemma push_message_inv:
  assumes inv: "bus_inv w" and len: "length (data (chan w a)) < size_limit (chan w a)"
  shows "\<exists>w'. push_message a d w = Inr w' \<and> bus_inv w'"
proof -
  have "upd_chan a (\<lambda>ch. ch\<lparr>data := data ch @ [d]\<rparr>) w = upd_chan a (\<lambda>ch. ch\<lparr>data := data (chan w a) @ [d]\<rparr>) w"
    by (simp add: upd_chan_def)
  then have i: "bus_inv (upd_chan a (\<lambda>ch. ch\<lparr>data := data ch @ [d]\<rparr>) w)"
    using data_inv [OF inv, of "data (chan w a) @ [d]" a] len by simp
  obtain w' where "wakeup_queue_wakeup_first Recv_queue a (upd_chan a (\<lambda>ch. ch\<lparr>data := data ch @ [d]\<rparr>) w) = Inr w'" "bus_inv w'"
    by (rule wakeup_first_inv [OF i])
  then show ?thesis by (simp add: push_message_def)
qed

lemma pop_message_inv:
  assumes inv: "bus_inv w" and a: "a \<in> set (live w)"
  shows "\<exists>w'. pop_message a w = Inr w' \<and> bus_inv w'"
proof -
  have "upd_chan a (\<lambda>ch. ch\<lparr>data := tl (data ch)\<rparr>) w = upd_chan a (\<lambda>ch. ch\<lparr>data := tl (data (chan w a))\<rparr>) w"
    by (simp add: upd_chan_def)
  moreover have "length (data (chan w a)) \<le> size_limit (chan w a)" using inv a by (auto simp: bus_inv_def live_ok_def)
  ultimately have i: "bus_inv (upd_chan a (\<lambda>ch. ch\<lparr>data := tl (data ch)\<rparr>) w)"
    using data_inv [OF inv, of "tl (data (chan w a))" a] by simp
  obtain w' where "wakeup_queue_wakeup_first Send_queue a (upd_chan a (\<lambda>ch. ch\<lparr>data := tl (data ch)\<rparr>) w) = Inr w'" "bus_inv w'"
    by (rule wakeup_first_inv [OF i])
  then show ?thesis by (simp add: pop_message_def)
qed

text \<open>A coroutine outside the bus functions suspends itself, or yields.\<close>

lemma user_facts:
  assumes "bus_inv w" "user_of w = Some c"
  obtains r where "control (engine w) = User c r" "this_coro (engine w) = Some c" "c \<noteq> SCHED" "c \<in> set (allocated (engine w))"
    "schedule (engine w) = c # ready (engine w)" "engine_inv (engine w)"
proof -
  obtain r where r: "control (engine w) = User c r" using assms(2) by (auto simp: user_of_def split: control.splits)
  have i: "engine_inv (engine w)" using assms(1) by (simp add: bus_inv_def)
  have "this_coro (engine w) = Some c" "c \<noteq> SCHED" "c \<in> set (allocated (engine w))"
    using i r by (auto simp: engine_inv_def control_ok_def lists_ok_def)
  then show ?thesis using that r i schedule_User [OF r] by blast
qed

lemma engine_leaves_inv:
  assumes inv: "bus_inv w" and u: "user_of w = Some c" "pending w c = Idle"
    and e': "engine_inv e'" "schedule e' = ready (engine w) @ xs"
    and k: "\<And>d. d \<noteq> c \<Longrightarrow> calm d (engine w) e' \<and> allocated e' = allocated (engine w)"
  shows "bus_inv (w\<lparr>engine := e'\<rparr>)"
proof (rule engine_change_inv [OF inv e'(1)])
  fix d assume p: "pending w d \<noteq> Idle"
  then have "d \<noteq> c" "d \<in> set (allocated (engine w))" using u inv by (auto simp: bus_inv_def waiting_ok_def)
  then show "d \<in> set (allocated e') \<and> calm d (engine w) e' \<and> (in_user d (engine w) \<longrightarrow> in_user d e')"
    using k u(1) by (simp add: in_user_user_of)
next
  show "(\<exists>xs. schedule e' = schedule (engine w) @ xs) \<or>
    (\<exists>x rest xs. schedule (engine w) = x # rest \<and> schedule e' = rest @ xs \<and> pending w x = Idle)"
    using user_facts [OF inv u(1)] e'(2) u(2) by metis
qed

lemma suspend_result:
  "coro_engine_suspend k e = Inr e' \<Longrightarrow> this_coro e = Some c \<Longrightarrow>
     co_ctx (coros e' c) = k \<and> co_state (coros e' c) = CORO_STATE_SUSPENDED"
  by (auto simp: coro_engine_suspend_def coro_engine_resume_next_def split: if_splits list.splits)

lemma yield_result:
  "coro_engine_yield e = Inr e' \<Longrightarrow> this_coro e = Some c \<Longrightarrow>
     co_ctx (coros e' c) = In_yield \<and> co_state (coros e' c) = CORO_STATE_RUNNING"
  by (auto simp: coro_engine_yield_def coro_engine_resume_next_def split: if_splits list.splits)

lemma suspend_world:
  assumes inv: "bus_inv w" and u: "user_of w = Some c" "pending w c = Idle"
  obtains e' where "coro_engine_suspend In_suspend (engine w) = Inr e'" "bus_inv (w\<lparr>engine := e'\<rparr>)"
    "co_ctx (coros e' c) = In_suspend" "co_state (coros e' c) = CORO_STATE_SUSPENDED" "c \<in> set (allocated e')"
proof -
  obtain r where r: "control (engine w) = User c r" "this_coro (engine w) = Some c" "c \<noteq> SCHED" "c \<in> set (allocated (engine w))"
    "engine_inv (engine w)" using user_facts [OF inv u(1)] by metis
  obtain e' where e': "coro_engine_suspend In_suspend (engine w) = Inr e'" "engine_inv e'"
    using suspend_safe [OF user_leaving [OF r(5,1)] r(2,3), of In_suspend] by auto
  have k: "calm d (engine w) e' \<and> allocated e' = allocated (engine w)" if "d \<noteq> c" for d
    using suspend_calm [OF e'(1), of d] r(2) that by simp
  have "bus_inv (w\<lparr>engine := e'\<rparr>)"
    using engine_leaves_inv [OF inv u e'(2) _ k, of "[]"] suspend_schedule [OF e'(1)] by simp
  moreover have "c \<in> set (allocated e')" using r(4) k [of SCHED] r(3) by auto
  ultimately show ?thesis using that e'(1) suspend_result [OF e'(1) r(2)] by blast
qed

lemma yield_world:
  assumes inv: "bus_inv w" and u: "user_of w = Some c" "pending w c = Idle"
  obtains e' where "coro_engine_yield (engine w) = Inr e'" "bus_inv (w\<lparr>engine := e'\<rparr>)"
    "co_ctx (coros e' c) = In_yield" "co_state (coros e' c) = CORO_STATE_RUNNING" "c \<in> set (allocated e')"
    "schedule e' = ready (engine w) @ [c]" "\<And>d. d \<noteq> c \<Longrightarrow> calm d (engine w) e'"
proof -
  obtain r where r: "control (engine w) = User c r" "this_coro (engine w) = Some c" "c \<noteq> SCHED" "c \<in> set (allocated (engine w))"
    "engine_inv (engine w)" using user_facts [OF inv u(1)] by metis
  obtain e' where e': "coro_engine_yield (engine w) = Inr e'" "engine_inv e'"
    using yield_safe [OF r(5,1)] by auto
  have k: "calm d (engine w) e' \<and> allocated e' = allocated (engine w)" if "d \<noteq> c" for d
    using yield_calm [OF e'(1), of d] r(2) that by simp
  have s: "schedule e' = ready (engine w) @ [c]" using yield_schedule [OF e'(1) r(2,3)] .
  have "bus_inv (w\<lparr>engine := e'\<rparr>)" using engine_leaves_inv [OF inv u e'(2) s k] .
  moreover have "c \<in> set (allocated e')" using r(4) k [of SCHED] r(3) by auto
  ultimately show ?thesis using that e'(1) yield_result [OF e'(1) r(2)] s k by blast
qed

lemma enqueue_inv:
  assumes inv: "bus_inv w" and p: "pending w c = Idle" "waits_in q a p" and a: "a \<in> set (live w)" "\<not> closed (chan w a)"
    and c: "c \<in> set (allocated (engine w))" "co_ctx (coros (engine w) c) = In_suspend"
  shows "bus_inv (set_pending c p (upd_chan a (\<lambda>ch. set_queue q (queue_of q ch @ [c]) ch) w))" (is "bus_inv ?w")
proof -
  have nc: "c \<notin> set (queue_of q' (chan w b))" for q' b using queueD(2) [OF inv] p(1) by blast
  have np: "p \<noteq> In_close b" for b using p(2) by auto
  have na: "pending w d \<noteq> In_close a" for d using inv a(2) unfolding bus_inv_def live_ok_def by blast
  have "queues_ok ?w" using inv nc p waits_in_queue [OF p(2)] unfolding bus_inv_def queues_ok_def by auto
  moreover have "slots_ok ?w" using inv unfolding bus_inv_def slots_ok_def by auto
  moreover have "slots_once ?w = slots_once w" by (simp add: slots_once_def)
  moreover have "live_ok ?w" unfolding live_ok_def
  proof (intro conjI)
    have l: "live_ok w" using inv by (simp add: bus_inv_def)
    show "distinct (live ?w)" "\<forall>b\<in>set (live ?w). length (data (chan ?w b)) \<le> size_limit (chan ?w b)"
      using l by (auto simp: live_ok_def)
    show "\<forall>b d q'. waits_in q' b (pending ?w d) \<longrightarrow> b \<in> set (live ?w)"
      using l a(1) waits_in_queue [OF p(2)] unfolding live_ok_def by (simp add: fun_upd_apply) blast
    show "\<forall>b d. pending ?w d = In_close b \<longrightarrow> b \<in> set (live ?w) \<and> closed (chan ?w b)"
      using l np unfolding live_ok_def by (auto simp: fun_upd_apply)
  qed
  moreover have "one_closer ?w" by (rule one_closerI) (use one_closerD [of w] inv np in \<open>auto simp: bus_inv_def split: if_splits\<close>)
  moreover have "waiting_ok d ?w" for d
  proof -
    have "waiting_ok d w" using inv by (simp add: bus_inv_def)
    then show ?thesis using c waits_in_queue [OF p(2)] by (auto simp: waiting_ok_def)
  qed
  moreover have "closing_ok d ?w" for d
  proof -
    have "closing_ok d w" using inv by (simp add: bus_inv_def)
    then show ?thesis using np na waits_in_queue [OF p(2)] unfolding closing_ok_def
      by (auto split: if_splits)
  qed
  ultimately show ?thesis using inv by (simp add: bus_inv_def)
qed

lemma suspend_this_inv:
  assumes inv: "bus_inv w" and u: "user_of w = Some c" "pending w c = Idle" and p: "waits_in q a p"
    and a: "a \<in> set (live w)" "\<not> closed (chan w a)"
  shows "\<exists>w'. wakeup_queue_suspend_this q a p w = Inr w' \<and> bus_inv w'"
proof -
  have t: "this_coro (engine w) = Some c" using user_facts [OF inv u(1)] by metis
  obtain e' where e': "coro_engine_suspend In_suspend (engine w) = Inr e'" "bus_inv (w\<lparr>engine := e'\<rparr>)"
    "co_ctx (coros e' c) = In_suspend" "c \<in> set (allocated e')" using suspend_world [OF inv u] by metis
  have "bus_inv (set_pending c p (upd_chan a (\<lambda>ch. set_queue q (queue_of q ch @ [c]) ch) (w\<lparr>engine := e'\<rparr>)))"
    using enqueue_inv [OF e'(2) _ p] u(2) a e' by simp
  then have "bus_inv (set_pending c p (upd_chan a (\<lambda>ch. set_queue q (queue_of q ch @ [c]) ch) w)\<lparr>engine := e'\<rparr>)"
    by (rule bus_inv_cong) simp_all
  then show ?thesis using t e'(1) by (simp add: wakeup_queue_suspend_this_def with_engine_def)
qed

lemma channel_atD:
  assumes "bus_inv w" "channel_at ch w = Some a"
  shows "a \<in> set (live w)" "\<not> closed (chan w a)" "\<exists>cs. bus w = Some cs \<and> 0 \<le> ch \<and> nat ch < length cs \<and> cs ! nat ch = Some a"
proof -
  show "\<exists>cs. bus w = Some cs \<and> 0 \<le> ch \<and> nat ch < length cs \<and> cs ! nat ch = Some a"
    using assms(2) by (auto simp: channel_at_def split: option.splits if_splits)
  then have "\<exists>cs. bus w = Some cs \<and> Some a \<in> set cs" by (metis nth_mem)
  then show "a \<in> set (live w)" "\<not> closed (chan w a)" using assms(1) unfolding bus_inv_def slots_ok_def by blast+
qed

lemma send_inv:
  assumes inv: "bus_inv w" and u: "user_of w = Some c" "pending w c = Idle"
  shows "\<exists>w'. coro_bus_send ch d w = Inr w' \<and> bus_inv w'" and "\<exists>w'. coro_bus_try_send ch d w = Inr w' \<and> bus_inv w'"
    and "\<exists>w'. coro_bus_recv ch w = Inr w' \<and> bus_inv w'" and "\<exists>w'. coro_bus_try_recv ch w = Inr w' \<and> bus_inv w'"
  using inv channel_atD [OF inv, of ch] push_message_inv [OF inv] pop_message_inv [OF inv] suspend_this_inv [OF inv u]
  by (auto simp: coro_bus_send_def coro_bus_try_send_def coro_bus_recv_def coro_bus_try_recv_def split: option.split)

lemma entry_del_inv:
  assumes inv: "bus_inv w" and u: "user_of w = Some c" and p: "waits_in q a (pending w c)"
  obtains w' where "wakeup_entry_del q a c (set_pending c Idle w) = Inr w'" "bus_inv w'" "user_of w' = Some c" "pending w' c = Idle"
proof -
  have run: "co_state (coros (engine w) c) \<noteq> CORO_STATE_SUSPENDED"
    using inv u by (auto simp: user_of_def bus_inv_def engine_inv_def control_ok_def split: control.splits)
  have dist: "distinct (queue_of q (chan w a))" using inv by (simp add: bus_inv_def queues_ok_def)
  let ?w = "upd_chan a (set_queue q (remove1 c (queue_of q (chan w a)))) w"
  have nq: "c \<notin> set (queue_of q' (chan ?w b))" for q' b
    using queueD(1) [OF inv, of c q' b] waits_in_queue [OF p, of q' b] dist by auto
  have "bus_inv ?w" using dist run by (intro dequeue_inv [OF inv]) (auto simp: set_remove1_subset)
  from set_idle_inv [OF this nq] have i: "bus_inv (set_pending c Idle ?w)" .
  show ?thesis
  proof (cases "c \<in> set (queue_of q (chan w a))")
    case True
    let ?v = "upd_chan a (\<lambda>ch. set_queue q (remove1 c (queue_of q ch)) ch) (set_pending c Idle w)"
    have "bus_inv ?v" using i by (rule bus_inv_cong) simp_all
    moreover have "wakeup_entry_del q a c (set_pending c Idle w) = Inr ?v"
      using True queueD(4) [OF inv True] by (simp add: wakeup_entry_del_def)
    ultimately show ?thesis using that [of ?v] u by (simp add: user_of_def)
  next
    case False
    then have "set_queue q (remove1 c (queue_of q (chan w a))) (chan w a) = chan w a"
      by (cases q) (simp_all add: set_queue_def queue_of_def remove1_idem)
    then have "bus_inv (set_pending c Idle w)" using i by (intro bus_inv_cong [OF i]) simp_all
    then show ?thesis using that [of "set_pending c Idle w"] False u by (simp add: wakeup_entry_del_def user_of_def)
  qed
qed

text \<open>When the function that closes a channel has the processor again, nobody waits in the channel any more.\<close>

lemma closer_alone:
  assumes inv: "bus_inv w" and u: "user_of w = Some c" and p: "pending w c = In_close a"
  shows "a \<in> set (live w)" "\<And>q d. \<not> waits_in q a (pending w d)"
proof -
  show "a \<in> set (live w)" using inv p unfolding bus_inv_def live_ok_def by blast
  have "schedule (engine w) = c # ready (engine w)" using user_facts [OF inv u] by metis
  moreover have "closing_ok c w" using inv by (simp add: bus_inv_def)
  ultimately show "\<not> waits_in q a (pending w d)" for q d using p unfolding closing_ok_def by fastforce
qed

lemma closer_returns_inv:
  assumes inv: "bus_inv w" and u: "user_of w = Some c" and p: "pending w c = In_close a"
  shows "bus_inv (set_pending c Idle (w\<lparr>live := remove1 a (live w)\<rparr>))" (is "bus_inv ?w")
proof -
  note alone = closer_alone [OF inv u p]
  have l: "live_ok w" "slots_ok w" "one_closer w" using inv by (simp_all add: bus_inv_def)
  have cl: "closed (chan w a)" using l(1) p unfolding live_ok_def by blast
  have oc: "\<And>d b. pending w d = In_close b \<Longrightarrow> d \<noteq> c \<Longrightarrow> b \<noteq> a" using one_closerD [OF l(3) p] by metis
  have dl: "set (remove1 a (live w)) = set (live w) - {a}" using l(1) by (simp add: live_ok_def)
  have nq: "c \<notin> set (queue_of q (chan w b))" for q b using queueD(1) [OF inv, of c q b] p by auto
  have "queues_ok ?w" using inv nq unfolding bus_inv_def queues_ok_def by auto
  moreover have "slots_ok ?w" using l(2) cl dl unfolding slots_ok_def by auto
  moreover have "slots_once ?w = slots_once w" by (simp add: slots_once_def)
  moreover have "live_ok ?w" unfolding live_ok_def
  proof (intro conjI)
    show "distinct (live ?w)" "\<forall>b\<in>set (live ?w). length (data (chan ?w b)) \<le> size_limit (chan ?w b)"
      using l(1) dl by (auto simp: live_ok_def)
    show "\<forall>b d q. waits_in q b (pending ?w d) \<longrightarrow> b \<in> set (live ?w)"
      using waits_live [OF inv] alone(2) dl by (auto split: if_splits)
    show "\<forall>b d. pending ?w d = In_close b \<longrightarrow> b \<in> set (live ?w) \<and> closed (chan ?w b)"
      using l(1) oc dl unfolding live_ok_def by (auto split: if_splits)
  qed
  moreover have "one_closer ?w"
    by (rule one_closerI) (use one_closerD [OF l(3)] in \<open>auto split: if_splits\<close>)
  moreover have "waiting_ok d ?w" "closing_ok d ?w" for d
  proof -
    have "waiting_ok d w" "closing_ok d w" using inv by (simp_all add: bus_inv_def)
    then show "waiting_ok d ?w" "closing_ok d ?w" by (auto simp: waiting_ok_def closing_ok_def split: if_splits)
  qed
  ultimately show ?thesis using inv by (simp add: bus_inv_def)
qed

lemma resume_inv:
  assumes inv: "bus_inv w" and u: "user_of w = Some c"
  shows "\<exists>w'. bus_resume c w = Inr w' \<and> bus_inv w'"
proof (cases "pending w c")
  case (In_send ch d a)
  then have "waits_in Send_queue a (pending w c)" by simp
  then obtain w' where w': "wakeup_entry_del Send_queue a c (set_pending c Idle w) = Inr w'" "bus_inv w'" "user_of w' = Some c"
    "pending w' c = Idle" using entry_del_inv [OF inv u] by metis
  then show ?thesis using In_send send_inv(1) [OF w'(2-4)] by (simp add: bus_resume_def)
next
  case (In_recv ch a)
  then have "waits_in Recv_queue a (pending w c)" by simp
  then obtain w' where w': "wakeup_entry_del Recv_queue a c (set_pending c Idle w) = Inr w'" "bus_inv w'" "user_of w' = Some c"
    "pending w' c = Idle" using entry_del_inv [OF inv u] by metis
  then show ?thesis using In_recv send_inv(3) [OF w'(2-4)] by (simp add: bus_resume_def)
next
  case (In_close a)
  then show ?thesis using closer_returns_inv [OF inv u] closer_alone(1) [OF inv u] by (simp add: bus_resume_def)
qed (use inv in \<open>simp add: bus_resume_def\<close>)

lemma free_slot_Some: "free_slot cs = Some i \<Longrightarrow> i < length cs \<and> cs ! i = None"
  by (induction cs arbitrary: i) (auto split: if_splits)

lemma free_slot_None: "free_slot cs = None \<longleftrightarrow> None \<notin> set cs"
  by (induction cs) auto

lemma filter_update_Some:
  assumes "i < length cs" "cs ! i = None" "Some a \<notin> set cs" "distinct (filter (\<lambda>s. s \<noteq> None) cs)"
  shows "distinct (filter (\<lambda>s. s \<noteq> None) (cs[i := Some a]))"
  using assms by (induction cs arbitrary: i) (auto split: nat.splits if_splits dest!: set_update_subset_insert [THEN subsetD])

lemma filter_update_None:
  "distinct (filter (\<lambda>s. s \<noteq> None) cs) \<Longrightarrow> distinct (filter (\<lambda>s. s \<noteq> None) (cs[i := None]))"
  by (induction cs arbitrary: i) (auto split: nat.splits if_splits dest!: set_update_subset_insert [THEN subsetD])

lemma open_slots_inv:
  assumes inv: "bus_inv w" and a: "a \<notin> set (live w)" and b: "bus w = Some cs"
    and cs': "set cs' \<subseteq> insert (Some a) (insert None (set cs))" "distinct (filter (\<lambda>s. s \<noteq> None) cs')"
  shows "bus_inv (w\<lparr>chan := (chan w)(a := new_channel limit), live := a # live w, bus := Some cs'\<rparr>)" (is "bus_inv ?w")
proof -
  have l: "live_ok w" "slots_ok w" "queues_ok w" "one_closer w" using inv by (simp_all add: bus_inv_def)
  have nw: "\<not> waits_in q a (pending w d)" "pending w d \<noteq> In_close a" for q d using l(1) a unfolding live_ok_def by blast+
  have "queues_ok ?w" using l(3) nw unfolding queues_ok_def by auto
  moreover have "slots_ok ?w" using l(2) b cs'(1) unfolding slots_ok_def by (auto simp: new_channel_def)
  moreover have "slots_once ?w" using cs'(2) by (simp add: slots_once_def)
  moreover have "live_ok ?w" unfolding live_ok_def
  proof (intro conjI)
    show "distinct (live ?w)" "\<forall>b\<in>set (live ?w). length (data (chan ?w b)) \<le> size_limit (chan ?w b)"
      using l(1) a by (auto simp: live_ok_def new_channel_def)
    show "\<forall>b d q. waits_in q b (pending ?w d) \<longrightarrow> b \<in> set (live ?w)" using waits_live [OF inv] by auto
    show "\<forall>b d. pending ?w d = In_close b \<longrightarrow> b \<in> set (live ?w) \<and> closed (chan ?w b)"
      using l(1) nw(2) unfolding live_ok_def by auto
  qed
  moreover have "one_closer ?w = one_closer w" by (simp add: one_closer_def)
  moreover have "waiting_ok d ?w" "closing_ok d ?w" for d
  proof -
    have "waiting_ok d w" "closing_ok d w" using inv by (simp_all add: bus_inv_def)
    then show "waiting_ok d ?w" "closing_ok d ?w" using nw(1) [of _ d] by (auto simp: waiting_ok_def closing_ok_def)
  qed
  ultimately show ?thesis using inv l by (simp add: bus_inv_def)
qed

lemma open_inv:
  assumes inv: "bus_inv w" and a: "a \<notin> set (live w)" and b: "bus w \<noteq> None"
  shows "\<exists>w'. coro_bus_channel_open a limit w = Inr w' \<and> bus_inv w'"
proof -
  obtain cs where cs: "bus w = Some cs" using b by blast
  have na: "Some a \<notin> set cs" using inv a cs unfolding bus_inv_def slots_ok_def by blast
  have d: "distinct (filter (\<lambda>s. s \<noteq> None) cs)" using inv cs by (simp add: bus_inv_def slots_once_def)
  show ?thesis
  proof (cases "free_slot cs")
    case None
    have "bus_inv (w\<lparr>chan := (chan w)(a := new_channel limit), live := a # live w, bus := Some (cs @ [Some a])\<rparr>)"
      using open_slots_inv [OF inv a cs, of "cs @ [Some a]"] d na by auto
    then show ?thesis using cs None
      by (auto simp: coro_bus_channel_open_def Let_def intro: bus_inv_cong)
  next
    case (Some i)
    have "bus_inv (w\<lparr>chan := (chan w)(a := new_channel limit), live := a # live w, bus := Some (cs[i := Some a])\<rparr>)"
      using open_slots_inv [OF inv a cs, of "cs[i := Some a]"] filter_update_Some [OF _ _ na d] free_slot_Some [OF Some]
        set_update_subset_insert [of cs i "Some a"] by auto
    then show ?thesis using cs Some
      by (auto simp: coro_bus_channel_open_def Let_def intro: bus_inv_cong)
  qed
qed

lemma new_inv:
  assumes inv: "bus_inv w"
  shows "bus_inv (coro_bus_new w)"
proof -
  let ?w = "w\<lparr>bus := Some []\<rparr>"
  have "queues_ok ?w = queues_ok w" "live_ok ?w = live_ok w" "one_closer ?w = one_closer w"
    "waiting_ok d ?w = waiting_ok d w" "closing_ok d ?w = closing_ok d w" for d
    by (simp_all add: queues_ok_def live_ok_def one_closer_def waiting_ok_def closing_ok_def)
  then have "bus_inv ?w" using inv by (simp add: bus_inv_def slots_ok_def slots_once_def)
  then show ?thesis unfolding coro_bus_new_def by (rule bus_inv_cong) simp_all
qed

lemma delete_inv:
  assumes inv: "bus_inv w" and idle: "\<And>c. c \<in> set (allocated (engine w)) \<Longrightarrow>
    (case pending w c of Idle \<Rightarrow> True | In_close a \<Rightarrow> True | _ \<Rightarrow> False)"
  shows "bus_inv (coro_bus_delete w)"
proof (cases "bus w")
  case (Some cs)
  let ?w = "w\<lparr>live := filter (\<lambda>a. Some a \<notin> set cs) (live w), bus := None\<rparr>"
  have nw: "\<not> waits_in q a (pending w d)" for q a d
  proof
    assume x: "waits_in q a (pending w d)"
    then have "pending w d \<noteq> Idle" by auto
    then have "d \<in> set (allocated (engine w))" using inv by (auto simp: bus_inv_def waiting_ok_def)
    then show False using idle [of d] x by (cases "pending w d") auto
  qed
  have l: "live_ok w" "slots_ok w" using inv by (simp_all add: bus_inv_def)
  have "queues_ok ?w = queues_ok w" "one_closer ?w = one_closer w"
    "waiting_ok d ?w = waiting_ok d w" "closing_ok d ?w = closing_ok d w" for d
    by (simp_all add: queues_ok_def one_closer_def waiting_ok_def closing_ok_def)
  moreover have "live_ok ?w" unfolding live_ok_def
  proof (intro conjI)
    show "distinct (live ?w)" "\<forall>b\<in>set (live ?w). length (data (chan ?w b)) \<le> size_limit (chan ?w b)"
      using l(1) by (auto simp: live_ok_def)
    show "\<forall>b d q. waits_in q b (pending ?w d) \<longrightarrow> b \<in> set (live ?w)" using nw by simp
    show "\<forall>b d. pending ?w d = In_close b \<longrightarrow> b \<in> set (live ?w) \<and> closed (chan ?w b)"
      using l Some unfolding live_ok_def slots_ok_def by auto
  qed
  ultimately have "bus_inv ?w" using inv by (simp add: bus_inv_def slots_ok_def slots_once_def)
  then show ?thesis using Some by (simp add: coro_bus_delete_def)
qed (use inv in \<open>simp add: coro_bus_delete_def\<close>)

lemma wake_all_inv:
  assumes "bus_inv w" and "set cs \<subseteq> set (allocated (engine w))"
  shows "\<exists>e'. wakeup_all cs (engine w) = Inr e' \<and> bus_inv (w\<lparr>engine := e'\<rparr>) \<and> control e' = control (engine w) \<and>
    this_coro e' = this_coro (engine w) \<and> allocated e' = allocated (engine w) \<and> (\<forall>d. calm d (engine w) e') \<and>
    (\<forall>c\<in>set cs. co_state (coros e' c) \<noteq> CORO_STATE_SUSPENDED)"
  using assms
proof (induction cs arbitrary: w)
  case (Cons c cs)
  obtain e1 where e1: "coro_engine_wakeup c (engine w) = Inr e1" "bus_inv (w\<lparr>engine := e1\<rparr>)" "control e1 = control (engine w)"
    "this_coro e1 = this_coro (engine w)" "allocated e1 = allocated (engine w)" "co_state (coros e1 c) \<noteq> CORO_STATE_SUSPENDED"
    "\<And>d. calm d (engine w) e1"
    using wake_inv [OF Cons.prems(1), of c] Cons.prems(2) by auto
  obtain e' where e': "wakeup_all cs e1 = Inr e'" "bus_inv (w\<lparr>engine := e'\<rparr>)" "control e' = control e1"
    "this_coro e' = this_coro e1" "allocated e' = allocated e1" "\<And>d. calm d e1 e'"
    "\<And>d. d \<in> set cs \<Longrightarrow> co_state (coros e' d) \<noteq> CORO_STATE_SUSPENDED"
    using Cons.IH [OF e1(2)] Cons.prems(2) e1(5) by auto
  have "co_state (coros e' c) \<noteq> CORO_STATE_SUSPENDED" using e1(6) e'(6) [of c] by (auto simp: calm_def)
  moreover have "calm d (engine w) e'" for d by (rule calm_trans [OF e1(7) e'(6)])
  ultimately show ?case using e1 e' by auto
qed simp

lemma cleared_slot:
  "distinct (filter (\<lambda>s. s \<noteq> None) cs) \<Longrightarrow> i < length cs \<Longrightarrow> cs ! i = Some a \<Longrightarrow> Some a \<notin> set (cs[i := None])"
  by (induction cs arbitrary: i) (auto simp: nth_Cons split: nat.splits if_splits dest: nth_mem)

lemma close_slot_inv:
  assumes inv: "bus_inv w" and cs: "bus w = Some cs" "i < length cs" "cs ! i = Some a"
  shows "bus_inv (upd_chan a (closed_update (\<lambda>_. True)) (w\<lparr>bus := Some (cs[i := None])\<rparr>))" (is "bus_inv ?w")
proof -
  have l: "live_ok w" "slots_ok w" "slots_once w" using inv by (simp_all add: bus_inv_def)
  have d: "distinct (filter (\<lambda>s. s \<noteq> None) cs)" using l(3) cs by (simp add: slots_once_def)
  have na: "Some a \<notin> set (cs[i := None])" using cleared_slot [OF d cs(2,3)] .
  have al: "a \<in> set (live w)" using l(2) cs unfolding slots_ok_def by (metis nth_mem)
  have q: "queue_of q (chan ?w b) = queue_of q (chan w b)" for q b by simp
  have "queues_ok ?w" using inv unfolding bus_inv_def queues_ok_def q by simp
  moreover have "slots_ok ?w" using l(2) na cs set_update_subset_insert [of cs i None] unfolding slots_ok_def by auto
  moreover have "slots_once ?w" using filter_update_None [OF d] by (simp add: slots_once_def)
  moreover have "live_ok ?w" using l(1) unfolding live_ok_def by auto
  moreover have "one_closer ?w = one_closer w" "waiting_ok x ?w = waiting_ok x w" "closing_ok x ?w = closing_ok x w" for x
    unfolding waiting_ok_def q by (simp_all add: one_closer_def closing_ok_def)
  ultimately show ?thesis using inv by (simp add: bus_inv_def)
qed

lemma close_pending_inv:
  assumes inv: "bus_inv w" and c: "pending w c = Idle" "c \<in> set (allocated (engine w))" "co_ctx (coros (engine w) c) = In_yield"
    "c \<in> set (schedule (engine w))"
    and a: "a \<in> set (live w)" "closed (chan w a)" "\<And>d. pending w d \<noteq> In_close a"
    and ahead: "\<And>q d. waits_in q a (pending w d) \<Longrightarrow> d \<in> set (takeWhile (\<lambda>x. x \<noteq> c) (schedule (engine w)))"
  shows "bus_inv (set_pending c (In_close a) w)" (is "bus_inv ?w")
proof -
  have l: "live_ok w" using inv by (simp add: bus_inv_def)
  have "queues_ok ?w" using inv queueD(2) [OF inv, of c] c(1) unfolding bus_inv_def queues_ok_def by auto
  moreover have "slots_ok ?w = slots_ok w" "slots_once ?w = slots_once w" by (simp_all add: slots_ok_def slots_once_def)
  moreover have "live_ok ?w" unfolding live_ok_def
  proof (intro conjI)
    show "distinct (live ?w)" "\<forall>b\<in>set (live ?w). length (data (chan ?w b)) \<le> size_limit (chan ?w b)"
      using l by (auto simp: live_ok_def)
    show "\<forall>b d q. waits_in q b (pending ?w d) \<longrightarrow> b \<in> set (live ?w)" using waits_live [OF inv] by (auto split: if_splits)
    show "\<forall>b d. pending ?w d = In_close b \<longrightarrow> b \<in> set (live ?w) \<and> closed (chan ?w b)"
      using l a(1,2) unfolding live_ok_def by (auto split: if_splits)
  qed
  moreover have "one_closer ?w"
    by (rule one_closerI) (use one_closerD [of w] inv a(3) in \<open>auto simp: bus_inv_def split: if_splits\<close>)
  moreover have "waiting_ok d ?w" "closing_ok d ?w" for d
  proof -
    have "waiting_ok d w" "closing_ok d w" using inv by (simp_all add: bus_inv_def)
    then show "waiting_ok d ?w" "closing_ok d ?w" using c a(3) ahead
      by (auto simp: waiting_ok_def closing_ok_def split: if_splits)
  qed
  ultimately show ?thesis using inv by (simp add: bus_inv_def)
qed

lemma takeWhile_snoc: "c \<notin> set xs \<Longrightarrow> ys = xs @ [c] \<Longrightarrow> takeWhile (\<lambda>x. x \<noteq> c) ys = xs"
  by (induction xs arbitrary: ys) auto

lemma close_inv:
  assumes inv: "bus_inv w" and u: "user_of w = Some c" "pending w c = Idle"
  shows "\<exists>w'. coro_bus_channel_close ch w = Inr w' \<and> bus_inv w'"
proof (cases "channel_at ch w")
  case None
  then show ?thesis using inv by (auto simp: coro_bus_channel_close_def split: option.splits)
next
  case (Some a)
  note at = channel_atD [OF inv Some]
  obtain cs where cs: "bus w = Some cs" "nat ch < length cs" "cs ! nat ch = Some a" using at(3) by blast
  let ?w1 = "upd_chan a (closed_update (\<lambda>_. True)) (w\<lparr>bus := Some (cs[nat ch := None])\<rparr>)"
  let ?qs = "send_queue (chan w a) @ recv_queue (chan w a)"
  have i1: "bus_inv ?w1" using close_slot_inv [OF inv cs] .
  have mem: "x \<in> set ?qs \<longleftrightarrow> (\<exists>q. x \<in> set (queue_of q (chan w a)))" for x
  proof
    assume "\<exists>q. x \<in> set (queue_of q (chan w a))"
    then obtain q where "x \<in> set (queue_of q (chan w a))" ..
    then show "x \<in> set ?qs" by (cases q) (simp_all add: queue_of_def)
  next
    assume "x \<in> set ?qs"
    then have "x \<in> set (queue_of Send_queue (chan w a)) \<or> x \<in> set (queue_of Recv_queue (chan w a))" by (simp add: queue_of_def)
    then show "\<exists>q. x \<in> set (queue_of q (chan w a))" by blast
  qed
  have "set ?qs \<subseteq> set (allocated (engine w))" using mem queueD(3) [OF inv] by blast
  then obtain e2 where e2: "wakeup_all ?qs (engine w) = Inr e2" "bus_inv (?w1\<lparr>engine := e2\<rparr>)" "control e2 = control (engine w)"
    "this_coro e2 = this_coro (engine w)" "\<And>x. x \<in> set ?qs \<Longrightarrow> co_state (coros e2 x) \<noteq> CORO_STATE_SUSPENDED"
    using wake_all_inv [OF i1, of ?qs] by auto
  let ?w2 = "?w1\<lparr>engine := e2\<rparr>"
  have u2: "user_of ?w2 = Some c" "pending ?w2 c = Idle" using u e2(3) by (simp_all add: user_of_def)
  have t: "this_coro e2 = Some c" using user_facts [OF e2(2) u2(1)] by (metis bus_world.select_convs(1) bus_world.surjective bus_world.update_convs(1))
  obtain e3 where e3: "coro_engine_yield e2 = Inr e3" "bus_inv (?w2\<lparr>engine := e3\<rparr>)" "co_ctx (coros e3 c) = In_yield"
    "co_state (coros e3 c) = CORO_STATE_RUNNING" "c \<in> set (allocated e3)"
    "schedule e3 = ready e2 @ [c]" "\<And>d. d \<noteq> c \<Longrightarrow> calm d e2 e3"
    using yield_world [OF e2(2) u2] by auto
  let ?w3 = "?w2\<lparr>engine := e3\<rparr>"
  have "c \<notin> set (ready e2)"
    using user_facts [OF e2(2) u2(1)] schedule_distinct [of e2] e2(2) by (metis bus_inv_def bus_world.select_convs(1) bus_world.surjective bus_world.update_convs(1) distinct.simps(2))
  then have tw: "takeWhile (\<lambda>x. x \<noteq> c) (schedule e3) = ready e2" 
    by (rule takeWhile_snoc [OF _ e3(6)])
  have ahead: "d \<in> set (ready e2)" if w: "waits_in q a (pending w d)" for q d
  proof -
    have dc: "d \<noteq> c" using w u(2) by auto
    have wo: "waiting_ok d ?w2" using e2(2) by (simp add: bus_inv_def)
    have wo3: "waiting_ok d ?w3" using e3(2) by (simp add: bus_inv_def)
    have "co_state (coros e2 d) \<noteq> CORO_STATE_SUSPENDED"
    proof
      assume s: "co_state (coros e2 d) = CORO_STATE_SUSPENDED"
      then have "waits_in q a (pending ?w2 d)" "co_state (coros (engine ?w2) d) = CORO_STATE_SUSPENDED" using w by simp_all
      then have "d \<in> set (queue_of q (chan ?w2 a))" using wo unfolding waiting_ok_def by blast
      then show False using s e2(5) mem by auto
    qed
    then have ns: "co_state (coros e3 d) \<noteq> CORO_STATE_SUSPENDED" using e3(7) [OF dc] by (auto simp: calm_def)
    have d3: "d \<in> set (allocated e3)" using wo3 w by (auto simp: waiting_ok_def)
    have ei: "engine_inv e3" using e3(2) by (simp add: bus_inv_def)
    have "co_state (coros e3 d) \<noteq> CORO_STATE_FINISHED"
    proof
      assume f: "co_state (coros e3 d) = CORO_STATE_FINISHED"
      then have "co_ctx (coros e3 d) = In_finish" "\<not> in_user d e3"
        using ei d3 by (auto simp: engine_inv_def coro_ok_def ctx_ok_def control_ok_def in_user_def split: control.splits)
      then show False using wo3 w by (auto simp: waiting_ok_def)
    qed
    with ns have "co_state (coros e3 d) = CORO_STATE_RUNNING" by (cases "co_state (coros e3 d)") auto
    then have "d \<in> set (schedule e3)" using running_in_schedule [OF ei d3] by simp
    then show ?thesis using e3(6) dc by simp
  qed
  have "live_ok w" using inv by (simp add: bus_inv_def)
  then have na: "pending w d \<noteq> In_close a" for d using at(2) unfolding live_ok_def by blast
  have "bus_inv (set_pending c (In_close a) ?w3)"
  proof (rule close_pending_inv [OF e3(2)])
    show "d \<in> set (takeWhile (\<lambda>x. x \<noteq> c) (schedule (engine ?w3)))" if "waits_in q a (pending ?w3 d)" for q d
      using ahead that tw by simp
  qed (use u2 e3 at na in simp_all)
  then have "bus_inv (set_pending c (In_close a) ?w2\<lparr>engine := e3\<rparr>)" by (rule bus_inv_cong) simp_all
  moreover have "coro_bus_channel_close ch w = Inr (set_pending c (In_close a) ?w2\<lparr>engine := e3\<rparr>)"
    using cs(1) Some at(1) e2(1) t e3(1) by (simp add: coro_bus_channel_close_def Let_def with_engine_def)
  ultimately show ?thesis by blast
qed

lemma bus_step_safe:
  assumes inv: "bus_inv w" and en: "bus_enabled l w"
  shows "\<exists>w'. bus_step l w = Inr w' \<and> bus_inv w'"
proof (cases l)
  case (Library k)
  then show ?thesis using library_step_inv [OF inv] en by simp
next
  case Resume
  then obtain c where "user_of w = Some c" using en by (auto split: option.splits)
  then show ?thesis using resume_inv [OF inv, of c] Resume by simp
next
  case (Bus call)
  then obtain c where u: "user_of w = Some c" "pending w c = Idle" using en by (auto split: option.splits)
  show ?thesis
    using Bus en send_inv [OF inv u] close_inv [OF inv u] open_inv [OF inv] new_inv [OF inv] delete_inv [OF inv]
    by (cases call) (auto simp: bus_call_exec_def)
qed

interpretation cbus: safe_system bus_step bus_enabled bus_inv
  by unfold_locales (rule bus_step_safe)

end
