(* ===== verification/Corobus_Runs.thy ===== *)
theory Corobus_Runs
  imports Corobus_Inv
begin

text \<open>
  What whole runs on the message bus have in common: memory safety, the order of messages, the
  capacity of channels, and what happens around the closing of a channel.
\<close>

section \<open>Messages\<close>

datatype bus_event = Opened addr | Sent addr message | Received addr message

text \<open>What the callers see: a call that has returned leaves its result in \<open>bus_ret\<close> and the caller running.\<close>

definition send_event :: "int \<Rightarrow> message \<Rightarrow> bus_world \<Rightarrow> bus_world \<Rightarrow> bus_event list" where
  "send_event ch d w w' =
     (if user_of w' = user_of w \<and> fst (bus_ret w') = 0
      then (case channel_at ch w of Some a \<Rightarrow> [Sent a d] | None \<Rightarrow> []) else [])"

definition recv_event :: "int \<Rightarrow> bus_world \<Rightarrow> bus_world \<Rightarrow> bus_event list" where
  "recv_event ch w w' =
     (if user_of w' = user_of w \<and> fst (bus_ret w') = 0
      then (case (channel_at ch w, snd (bus_ret w')) of (Some a, Some d) \<Rightarrow> [Received a d] | _ \<Rightarrow> []) else [])"

definition bus_events :: "bus_label \<Rightarrow> bus_world \<Rightarrow> bus_world \<Rightarrow> bus_event list" where
  "bus_events l w w' =
     (case l of
        Bus (Open a limit) \<Rightarrow> [Opened a]
      | Bus (Send ch d) \<Rightarrow> send_event ch d w w'
      | Bus (Try_send ch d) \<Rightarrow> send_event ch d w w'
      | Bus (Recv ch) \<Rightarrow> recv_event ch w w'
      | Bus (Try_recv ch) \<Rightarrow> recv_event ch w w'
      | Resume \<Rightarrow>
          (case user_of w of
             None \<Rightarrow> []
           | Some c \<Rightarrow>
               (case pending w c of
                  In_send ch d a \<Rightarrow> send_event ch d w w'
                | In_recv ch a \<Rightarrow> recv_event ch w w'
                | _ \<Rightarrow> []))
      | _ \<Rightarrow> [])"

text \<open>
  The queue a channel object should be: \<open>None\<close> when a message is received that is not the oldest one
  sent and not received yet. The state is \<open>None\<close> before the object is opened first.
\<close>

fun fifo_match :: "addr \<Rightarrow> message list option \<Rightarrow> bus_event list \<Rightarrow> message list option option" where
  "fifo_match a st [] = Some st"
| "fifo_match a st (Opened b # h) = fifo_match a (if b = a then Some [] else st) h"
| "fifo_match a st (Sent b d # h) =
     (if b \<noteq> a then fifo_match a st h
      else case st of None \<Rightarrow> None | Some q \<Rightarrow> fifo_match a (Some (q @ [d])) h)"
| "fifo_match a st (Received b d # h) =
     (if b \<noteq> a then fifo_match a st h
      else case st of Some (x # q) \<Rightarrow> if x = d then fifo_match a (Some q) h else None | _ \<Rightarrow> None)"

lemma fifo_match_append:
  "fifo_match a st (h @ g) = Option.bind (fifo_match a st h) (\<lambda>st'. fifo_match a st' g)"
  by (induction a st h rule: fifo_match.induct) (auto split: option.splits list.splits)

definition fifo_history :: "bus_world \<Rightarrow> bus_event list \<Rightarrow> bool" where
  "fifo_history w h \<longleftrightarrow>
     (\<forall>a. \<exists>st. fifo_match a None h = Some st \<and> (a \<in> set (live w) \<longrightarrow> st = Some (data (chan w a))))"

text \<open>The effect of a step on the messages of the live channels.\<close>

definition messages_kept :: "bus_world \<Rightarrow> bus_world \<Rightarrow> bool" where
  "messages_kept w w' \<longleftrightarrow> set (live w') \<subseteq> set (live w) \<and> (\<forall>a. data (chan w' a) = data (chan w a))"

lemma fifo_kept: "fifo_history w h \<Longrightarrow> messages_kept w w' \<Longrightarrow> fifo_history w' (h @ [])"
  by (auto simp: fifo_history_def messages_kept_def) (metis subsetD)

lemma fifo_sent:
  assumes "fifo_history w h" "a \<in> set (live w)" "live w' = live w"
    and "\<And>b. data (chan w' b) = (if b = a then data (chan w a) @ [d] else data (chan w b))"
  shows "fifo_history w' (h @ [Sent a d])"
  unfolding fifo_history_def
proof
  fix b
  obtain st where st: "fifo_match b None h = Some st" "b \<in> set (live w) \<Longrightarrow> st = Some (data (chan w b))"
    using assms(1) unfolding fifo_history_def by blast
  then show "\<exists>st. fifo_match b None (h @ [Sent a d]) = Some st \<and> (b \<in> set (live w') \<longrightarrow> st = Some (data (chan w' b)))"
    using assms(2-4) by (auto simp: fifo_match_append)
qed

lemma fifo_received:
  assumes "fifo_history w h" "a \<in> set (live w)" "live w' = live w" "data (chan w a) = d # ds"
    and "\<And>b. data (chan w' b) = (if b = a then ds else data (chan w b))"
  shows "fifo_history w' (h @ [Received a d])"
  unfolding fifo_history_def
proof
  fix b
  obtain st where st: "fifo_match b None h = Some st" "b \<in> set (live w) \<Longrightarrow> st = Some (data (chan w b))"
    using assms(1) unfolding fifo_history_def by blast
  then show "\<exists>st. fifo_match b None (h @ [Received a d]) = Some st \<and> (b \<in> set (live w') \<longrightarrow> st = Some (data (chan w' b)))"
    using assms(2-5) by (auto simp: fifo_match_append)
qed

lemma with_engine_kept:
  "with_engine f w = Inr w' \<Longrightarrow> chan w' = chan w \<and> live w' = live w \<and> bus w' = bus w \<and> pending w' = pending w \<and> bus_ret w' = bus_ret w"
  by (auto simp: with_engine_def map_sum_eq_Inr)

lemma wakeup_first_kept:
  assumes "wakeup_queue_wakeup_first q a w = Inr w'"
  shows "live w' = live w" "data (chan w' b) = data (chan w b)" "bus_ret w' = bus_ret w" "user_of w' = user_of w"
proof -
  have "live w' = live w \<and> data (chan w' b) = data (chan w b) \<and> bus_ret w' = bus_ret w \<and> user_of w' = user_of w"
  proof (cases "queue_of q (chan w a)")
    case (Cons c cs)
    then have e: "with_engine (coro_engine_wakeup c) (upd_chan a (set_queue q cs) w) = Inr w'"
      using assms by (simp add: wakeup_queue_wakeup_first_def)
    then obtain e1 where e1: "coro_engine_wakeup c (engine w) = Inr e1" "w' = (upd_chan a (set_queue q cs) w)\<lparr>engine := e1\<rparr>"
      by (auto simp: with_engine_def map_sum_eq_Inr)
    then show ?thesis using wakeup_round [OF e1(1)] by (auto simp: user_of_def upd_chan_def)
  qed (use assms in \<open>simp add: wakeup_queue_wakeup_first_def\<close>)
  then show "live w' = live w" "data (chan w' b) = data (chan w b)" "bus_ret w' = bus_ret w" "user_of w' = user_of w" by auto
qed

lemma return_ret [simp]: "bus_ret (bus_return r d err w) = (r, d)" "user_of (bus_return r d err w) = user_of w"
  by (simp_all add: bus_return_def coro_bus_errno_set_def user_of_def)

lemma user_of_upd [simp]: "user_of (upd_chan a f w) = user_of w" "user_of (set_pending c p w) = user_of w"
  by (simp_all add: user_of_def)

lemma push_effect:
  assumes "push_message a d w = Inr w'"
  shows "live w' = live w" "data (chan w' b) = (if b = a then data (chan w a) @ [d] else data (chan w b))"
    "bus_ret w' = (0, None)" "user_of w' = user_of w"
  using assms wakeup_first_kept by (auto simp: push_message_def map_sum_eq_Inr)

lemma pop_effect:
  assumes "pop_message a w = Inr w'"
  shows "live w' = live w" "data (chan w' b) = (if b = a then tl (data (chan w a)) else data (chan w b))"
    "bus_ret w' = (0, Some (hd (data (chan w a))))" "user_of w' = user_of w"
  using assms wakeup_first_kept by (auto simp: pop_message_def map_sum_eq_Inr)

lemma suspend_this_effect:
  assumes "wakeup_queue_suspend_this q a p w = Inr w'"
  shows "messages_kept w w'" "user_of w' = None"
proof -
  obtain c e1 where "this_coro (engine w) = Some c" and e1: "coro_engine_suspend In_suspend (engine w) = Inr e1"
    and w': "w' = (set_pending c p (upd_chan a (\<lambda>ch. set_queue q (queue_of q ch @ [c]) ch) w))\<lparr>engine := e1\<rparr>"
    using assms by (auto simp: wakeup_queue_suspend_this_def with_engine_def map_sum_eq_Inr split: option.splits)
  show "messages_kept w w'" by (simp add: w' messages_kept_def)
  show "user_of w' = None" using suspend_outcome [OF e1] by (auto simp: w' user_of_def)
qed

lemma send_fifo:
  assumes u: "user_of w = Some c" and h: "fifo_history w h"
  shows "coro_bus_send ch d w = Inr w' \<Longrightarrow> fifo_history w' (h @ send_event ch d w w')"
    and "coro_bus_try_send ch d w = Inr w' \<Longrightarrow> fifo_history w' (h @ send_event ch d w w')"
proof -
  have err: "fifo_history (bus_return (-1) None err w) (h @ send_event ch d w (bus_return (-1) None err w))" for err
    using h by (simp add: send_event_def fifo_history_def)
  have push: "fifo_history w' (h @ send_event ch d w w')"
    if "push_message a d w = Inr w'" "channel_at ch w = Some a" "a \<in> set (live w)" for a
    using fifo_sent [OF h that(3) push_effect(1,2) [OF that(1)]] push_effect(3,4) [OF that(1)] that(2)
    by (simp add: send_event_def)
  show "coro_bus_try_send ch d w = Inr w' \<Longrightarrow> fifo_history w' (h @ send_event ch d w w')"
    using err push by (auto simp: coro_bus_try_send_def split: option.splits if_splits)
  have susp: "fifo_history w' (h @ send_event ch d w w')" if "wakeup_queue_suspend_this q a p w = Inr w'" for q a p
    using fifo_kept [OF h suspend_this_effect(1) [OF that]] suspend_this_effect(2) [OF that] u by (simp add: send_event_def)
  show "coro_bus_send ch d w = Inr w' \<Longrightarrow> fifo_history w' (h @ send_event ch d w w')"
    using err push susp by (auto simp: coro_bus_send_def split: option.splits if_splits)
qed

lemma recv_fifo:
  assumes u: "user_of w = Some c" and h: "fifo_history w h"
  shows "coro_bus_recv ch w = Inr w' \<Longrightarrow> fifo_history w' (h @ recv_event ch w w')"
    and "coro_bus_try_recv ch w = Inr w' \<Longrightarrow> fifo_history w' (h @ recv_event ch w w')"
proof -
  have err: "fifo_history (bus_return (-1) None err w) (h @ recv_event ch w (bus_return (-1) None err w))" for err
    using h by (simp add: recv_event_def fifo_history_def)
  have pop: "fifo_history w' (h @ recv_event ch w w')"
    if p: "pop_message a w = Inr w'" "channel_at ch w = Some a" "a \<in> set (live w)" "data (chan w a) \<noteq> []" for a
  proof -
    have "data (chan w a) = hd (data (chan w a)) # tl (data (chan w a))" using p(4) by simp
    from fifo_received [OF h p(3) pop_effect(1) [OF p(1)] this pop_effect(2) [OF p(1)]]
    show ?thesis using pop_effect(3,4) [OF p(1)] p(2) by (simp add: recv_event_def)
  qed
  show "coro_bus_try_recv ch w = Inr w' \<Longrightarrow> fifo_history w' (h @ recv_event ch w w')"
    using err pop by (auto simp: coro_bus_try_recv_def split: option.splits if_splits)
  have susp: "fifo_history w' (h @ recv_event ch w w')" if "wakeup_queue_suspend_this q a p w = Inr w'" for q a p
    using fifo_kept [OF h suspend_this_effect(1) [OF that]] suspend_this_effect(2) [OF that] u by (simp add: recv_event_def)
  show "coro_bus_recv ch w = Inr w' \<Longrightarrow> fifo_history w' (h @ recv_event ch w w')"
    using err pop susp by (auto simp: coro_bus_recv_def split: option.splits if_splits)
qed

lemma entry_del_effect:
  assumes "wakeup_entry_del q a c (set_pending c Idle w) = Inr w'"
  shows "messages_kept w w'" "user_of w' = user_of w" "channel_at ch w' = channel_at ch w"
  using assms by (auto simp: wakeup_entry_del_def messages_kept_def channel_at_def split: if_splits)

lemma close_kept:
  assumes "coro_bus_channel_close ch w = Inr w'"
  shows "messages_kept w w'"
  using assms
  by (auto simp: coro_bus_channel_close_def messages_kept_def Let_def dest!: with_engine_kept
      split: option.splits if_splits sum.splits)

lemma open_fifo:
  assumes "coro_bus_channel_open a limit w = Inr w'" "fifo_history w h"
  shows "fifo_history w' (h @ [Opened a])"
  unfolding fifo_history_def
proof
  have w': "live w' = a # live w" "\<And>b. data (chan w' b) = (if b = a then [] else data (chan w b))"
    using assms(1) by (auto simp: coro_bus_channel_open_def Let_def new_channel_def split: option.splits)
  fix b
  obtain st where st: "fifo_match b None h = Some st" "b \<in> set (live w) \<Longrightarrow> st = Some (data (chan w b))"
    using assms(2) unfolding fifo_history_def by blast
  then show "\<exists>st. fifo_match b None (h @ [Opened a]) = Some st \<and> (b \<in> set (live w') \<longrightarrow> st = Some (data (chan w' b)))"
    using w' by (auto simp: fifo_match_append)
qed

lemma resume_fifo:
  assumes u: "user_of w = Some c" and h: "fifo_history w h" and st: "bus_resume c w = Inr w'"
  shows "fifo_history w' (h @ bus_events Resume w w')"
proof (cases "pending w c")
  case (In_send ch d a)
  then obtain w1 where w1: "wakeup_entry_del Send_queue a c (set_pending c Idle w) = Inr w1" "coro_bus_send ch d w1 = Inr w'"
    using st by (auto simp: bus_resume_def split: sum.splits)
  note e = entry_del_effect [OF w1(1)]
  have "fifo_history w1 h" using fifo_kept [OF h e(1)] by simp
  from send_fifo(1) [OF _ this w1(2)] show ?thesis using e(2,3) u In_send
    by (auto simp: bus_events_def send_event_def split: if_splits)
next
  case (In_recv ch a)
  then obtain w1 where w1: "wakeup_entry_del Recv_queue a c (set_pending c Idle w) = Inr w1" "coro_bus_recv ch w1 = Inr w'"
    using st by (auto simp: bus_resume_def split: sum.splits)
  note e = entry_del_effect [OF w1(1)]
  have "fifo_history w1 h" using fifo_kept [OF h e(1)] by simp
  from recv_fifo(1) [OF _ this w1(2)] show ?thesis using e(2,3) u In_recv
    by (auto simp: bus_events_def recv_event_def split: if_splits)
next
  case (In_close a)
  then have "messages_kept w w'" using st by (auto simp: bus_resume_def messages_kept_def set_pending_def dest: set_remove1_subset [THEN subsetD] split: if_splits)
  from fifo_kept [OF h this] show ?thesis using u In_close by (simp add: bus_events_def)
next
  case Idle
  then have "messages_kept w w'" using st by (simp add: bus_resume_def messages_kept_def)
  from fifo_kept [OF h this] show ?thesis using u Idle by (simp add: bus_events_def)
qed

lemma fifo_step:
  assumes inv: "bus_inv w" and en: "bus_enabled l w" and st: "bus_step l w = Inr w'" and h: "fifo_history w h"
  shows "fifo_history w' (h @ bus_events l w w')"
proof (cases l)
  case (Library k)
  then have "messages_kept w w'" using st by (auto simp: messages_kept_def dest: with_engine_kept)
  from fifo_kept [OF h this] show ?thesis using Library by (simp add: bus_events_def)
next
  case Resume
  then obtain c where "user_of w = Some c" using en by (auto split: option.splits)
  then show ?thesis using resume_fifo [OF _ h] st Resume by simp
next
  case (Bus call)
  then obtain c where u: "user_of w = Some c" using en by (auto split: option.splits)
  note k = send_fifo [OF u h] recv_fifo [OF u h] open_fifo [OF _ h]
  show ?thesis
  proof (cases call)
    case Bus_new
    then have "messages_kept w w'" using st Bus by (auto simp: bus_call_exec_def coro_bus_new_def messages_kept_def coro_bus_errno_set_def)
    from fifo_kept [OF h this] show ?thesis using Bus Bus_new by (simp add: bus_events_def)
  next
    case Bus_delete
    then have "messages_kept w w'" using st Bus
      by (auto simp: bus_call_exec_def coro_bus_delete_def messages_kept_def split: option.splits)
    from fifo_kept [OF h this] show ?thesis using Bus Bus_delete by (simp add: bus_events_def)
  next
    case (Close ch)
    then have "messages_kept w w'" using st Bus close_kept by (simp add: bus_call_exec_def)
    from fifo_kept [OF h this] show ?thesis using Bus Close by (simp add: bus_events_def)
  qed (use k st Bus in \<open>auto simp: bus_call_exec_def bus_events_def\<close>)
qed

section \<open>Properties\<close>

lemmas bus_eval = bus_start_def with_engine_def bus_call_exec_def coro_bus_new_def coro_bus_errno_set_def
  coro_bus_channel_open_def new_channel_def coro_bus_send_def coro_bus_try_send_def coro_bus_recv_def coro_bus_try_recv_def
  channel_at_def push_message_def pop_message_def wakeup_queue_wakeup_first_def wakeup_queue_suspend_this_def
  queue_of_def set_queue_def upd_chan_def set_pending_def bus_return_def bus_resume_def wakeup_entry_del_def
  coro_bus_channel_close_def coro_bus_delete_def user_of_def coro_eval

text \<open>
  C9. No use after free: in every run of a program that keeps the rules, in which coroutines send,
  receive, open and close channels in any interleaving, no function of the bus touches a channel that
  was deleted, no assertion of the bus or of the coroutine library fails, and nobody is left to
  suspend the last coroutine from outside.
\<close>

theorem bus_memory_safe:
  assumes "legal bus_step bus_enabled ls bus_start"
  shows "\<exists>w. run_labels bus_step ls bus_start = Inr w \<and> bus_inv w"
  by (rule cbus.run_safe [OF bus_start_inv assms])

text \<open>
  Coroutine 1 opens a channel of capacity 1 and sends twice, waiting for space; coroutine 2
  receives once; 1 is woken up, its message goes in, and 2 receives it and closes the channel.
\<close>

definition exchange_labels :: "bus_label list" where
  "exchange_labels =
     map Library [Call (New 1 True 50 None), Call (New 2 True 51 None), Call Run, Internal, Internal] @
     [Bus Bus_new, Bus (Open 900 1), Bus (Send 0 7), Bus (Send 0 8), Library Internal, Bus (Recv 0),
      Library (Call Yield), Library Internal, Library Internal, Library Internal, Resume, Library (Call Yield),
      Library Internal, Bus (Recv 0), Bus (Close 0), Library Internal, Library Internal, Library Internal, Library (Call (Return None)),
      Library Internal, Resume]"

lemma exchange_legal: "legal bus_step bus_enabled exchange_labels bus_start"
  by (simp add: exchange_labels_def bus_eval)

theorem bus_memory_safe_witness:
  "legal bus_step bus_enabled exchange_labels bus_start \<and>
   (\<exists>w. run_labels bus_step exchange_labels bus_start = Inr w \<and> bus_inv w)"
  using exchange_legal bus_memory_safe [OF exchange_legal] by blast

text \<open>
  C10. Every channel is a first-in first-out queue for whoever uses it: in every run, each
  successful receive on a channel delivers the oldest message that was successfully sent to it and
  not received yet. No message is lost, duplicated or reordered, also when senders and receivers wait.
\<close>

theorem bus_fifo:
  assumes "legal bus_step bus_enabled ls bus_start"
  shows "fifo_match a None (events bus_events bus_step ls bus_start) \<noteq> None"
proof -
  have J: "fifo_history bus_start []" by (simp add: fifo_history_def bus_start_def)
  obtain w where run: "run_labels bus_step ls bus_start = Inr w"
    using cbus.run_safe [OF bus_start_inv assms] by blast
  have "fifo_history w ([] @ events bus_events bus_step ls bus_start)"
    by (rule cbus.history_inv [where J = fifo_history, OF bus_start_inv assms run J]) (rule fifo_step)
  then show ?thesis unfolding fifo_history_def by fastforce
qed

theorem bus_fifo_witness:
  "events bus_events bus_step exchange_labels bus_start =
     [Opened 900, Sent 900 7, Received 900 7, Sent 900 8, Received 900 8] \<and>
   fifo_match 900 None (events bus_events bus_step exchange_labels bus_start) \<noteq> None"
proof -
  have "events bus_events bus_step exchange_labels bus_start =
     [Opened 900, Sent 900 7, Received 900 7, Sent 900 8, Received 900 8]"
    by (simp add: exchange_labels_def bus_eval bus_events_def send_event_def recv_event_def)
  then show ?thesis using bus_fifo [OF exchange_legal, of 900] by blast
qed

text \<open>
  C38. A channel never holds more messages than its limit: in every reachable state the length of the
  queue of a channel that was not deleted is at most the limit it was opened with.
\<close>

theorem bus_capacity:
  assumes "legal bus_step bus_enabled ls bus_start" and "run_labels bus_step ls bus_start = Inr w" and "a \<in> set (live w)"
  shows "length (data (chan w a)) \<le> size_limit (chan w a)"
proof -
  have "live_ok w" using cbus.run_inv [OF bus_start_inv assms(1,2)] by (simp add: bus_inv_def)
  then show ?thesis using assms(3) by (simp add: live_ok_def)
qed

theorem bus_capacity_witness:
  "length (data (chan (projr (run_labels bus_step (take 8 exchange_labels) bus_start)) 900)) \<le>
   size_limit (chan (projr (run_labels bus_step (take 8 exchange_labels) bus_start)) 900)"
proof -
  have "legal bus_step bus_enabled (take 8 exchange_labels) bus_start" by (simp add: exchange_labels_def bus_eval)
  moreover have "run_labels bus_step (take 8 exchange_labels) bus_start =
      Inr (projr (run_labels bus_step (take 8 exchange_labels) bus_start))"
    "900 \<in> set (live (projr (run_labels bus_step (take 8 exchange_labels) bus_start)))"
    by (simp_all add: exchange_labels_def bus_eval)
  ultimately show ?thesis by (rule bus_capacity)
qed

text \<open>
  C34. A channel outlives those who wait in it: when the coroutine that closes a channel has the
  processor again and is about to delete the channel, no coroutine is inside a send or receive
  on that channel any more, so that no entry of a wait queue is left linked in freed memory.
\<close>

theorem bus_channel_outlives_waiters:
  assumes "legal bus_step bus_enabled ls bus_start" and "run_labels bus_step ls bus_start = Inr w"
    and "user_of w = Some c" and "pending w c = In_close a"
  shows "a \<in> set (live w) \<and> (\<forall>q d. \<not> waits_in q a (pending w d)) \<and> send_queue (chan w a) = [] \<and> recv_queue (chan w a) = []"
proof -
  have inv: "bus_inv w" by (rule cbus.run_inv [OF bus_start_inv assms(1,2)])
  note alone = closer_alone [OF inv assms(3,4)]
  have "x \<notin> set (queue_of q (chan w a))" for q x using queueD(1) [OF inv] alone(2) by blast
  from this [where q = Send_queue] this [where q = Recv_queue]
  have "send_queue (chan w a) = []" "recv_queue (chan w a) = []" by (auto simp: queue_of_def) (metis list.set_intros(1) neq_Nil_conv)+
  with alone show ?thesis by blast
qed

text \<open>Coroutine 1 closes the channel that coroutine 2 waits in; 2 gets its error first.\<close>

definition closing_labels :: "bus_label list" where
  "closing_labels =
     map Library [Call (New 1 True 50 None), Call (New 2 True 51 None), Call Run, Internal, Internal] @
     [Bus Bus_new, Bus (Open 900 1), Library (Call Yield), Library Internal, Bus (Recv 0), Library Internal, Library Internal,
      Library Internal, Bus (Close 0), Library Internal, Library Internal, Library Internal, Resume, Library (Call Yield),
      Library Internal]"

theorem bus_channel_outlives_waiters_witness:
  "\<exists>w. run_labels bus_step closing_labels bus_start = Inr w \<and> pending w 1 = In_close 900 \<and>
       bus_ret w = (-1, None) \<and> recv_queue (chan w 900) = []"
proof -
  let ?w = "projr (run_labels bus_step closing_labels bus_start)"
  have l: "legal bus_step bus_enabled closing_labels bus_start" by (simp add: closing_labels_def bus_eval)
  have r: "run_labels bus_step closing_labels bus_start = Inr ?w"
    "user_of ?w = Some 1" "pending ?w 1 = In_close 900" "bus_ret ?w = (-1, None)"
    by (simp_all add: closing_labels_def bus_eval)
  from bus_channel_outlives_waiters [OF l r(1-3)] r show ?thesis by blast
qed

text \<open>
  A descriptor is reused while a sender still waits on the channel that was closed under it:
  coroutine 1 waits to send 8 on a full channel, coroutine 2 closes it and coroutine 3 opens a new
  channel before 1 runs again. The new channel gets the same descriptor, and the sender that
  was woken up puts its message there and succeeds, where the header promises it the error of a
  missing channel.
\<close>

definition reopen_labels :: "bus_label list" where
  "reopen_labels =
     map Library [Call (New 1 True 50 None), Call (New 2 True 51 None), Call (New 3 True 52 None), Call Run, Internal, Internal] @
     [Bus Bus_new, Bus (Open 900 1), Bus (Send 0 7), Bus (Send 0 8), Library Internal, Bus (Close 0),
      Library Internal, Bus (Open 901 1), Library (Call Yield), Library Internal, Library Internal, Library Internal, Resume]"

theorem bus_descriptor_reused:
  "legal bus_step bus_enabled reopen_labels bus_start \<and>
   events bus_events bus_step reopen_labels bus_start = [Opened 900, Sent 900 7, Opened 901, Sent 901 8]"
  by (simp add: reopen_labels_def bus_eval bus_events_def send_event_def recv_event_def)

end
