(* ===== verification/Chat.thy ===== *)
theory Chat
  imports Streams
begin

unbundle bit_operations_syntax

text \<open>
  The parts of the chat that the client and the server share, and the client: \<open>5/chat.h\<close>,
  \<open>5/chat.cpp\<close> and \<open>5/chat_client.cpp\<close>, compiled with \<open>NEED_AUTHOR\<close>.

  What the operating system answers is a script in the state: the results of the next calls of
  \<open>recv\<close>, \<open>send\<close> and \<open>accept\<close>, in order; when a script is used up the call would block. \<open>wire\<close> holds the
  bytes the system accepted on each socket and \<open>open_fds\<close> the descriptors the process has open.
\<close>

section \<open>Vocabulary\<close>

datatype chat_err =
    CHAT_OK
  | CHAT_ERR_INVALID_ARGUMENT
  | CHAT_ERR_TIMEOUT
  | CHAT_ERR_PORT_BUSY
  | CHAT_ERR_NO_ADDR
  | CHAT_ERR_ALREADY_STARTED
  | CHAT_ERR_NOT_IMPLEMENTED
  | CHAT_ERR_NOT_STARTED
  | CHAT_ERR_SYS

definition CHAT_EVENT_INPUT :: "32 word" where
  "CHAT_EVENT_INPUT = 1"

definition CHAT_EVENT_OUTPUT :: "32 word" where
  "CHAT_EVENT_OUTPUT = 2"

record chat_message =
  author :: bytes
  msg_data :: bytes

text \<open>The values of these constants on Linux.\<close>

definition POLLIN :: "32 word" where
  "POLLIN = 1"

definition POLLOUT :: "32 word" where
  "POLLOUT = 4"

definition chat_events_to_poll_events :: "32 word \<Rightarrow> 32 word" where
  "chat_events_to_poll_events events =
     (let res = 0;
          res = (if events AND CHAT_EVENT_INPUT \<noteq> 0 then res OR POLLIN else res);
          res = (if events AND CHAT_EVENT_OUTPUT \<noteq> 0 then res OR POLLOUT else res)
      in res)"

section \<open>The operating system\<close>

text \<open>\<open>Wrote 0\<close> is a \<open>send\<close> that returns 0; \<open>send\<close> never accepts more than it was given.\<close>

datatype send_result = Wrote nat | Send_eintr | Send_again | Send_fail

datatype recv_result = Data bytes | Eof | Recv_eintr | Recv_again | Recv_fail

text \<open>A connection that was accepted: whether it could be made non-blocking, and whether \<open>epoll_ctl\<close> took it.\<close>

datatype accept_result = Accepted bool bool | Accept_eintr | Accept_again | Accept_fail

record os =
  sends :: "send_result list"
  recvs :: "recv_result list"
  accepts :: "accept_result list"
  wire :: "int \<Rightarrow> bytes"
  open_fds :: "int set"
  bad_closes :: nat
  fresh :: "int set \<Rightarrow> int"

text \<open>The descriptor the system hands out for the next file: \<open>fresh\<close> chooses one that is not open.\<close>

definition next_fd :: "os \<Rightarrow> int" where
  "next_fd s = fresh s (open_fds s)"

definition os_close :: "int \<Rightarrow> os \<Rightarrow> os" where
  "os_close fd s =
     (if fd \<in> open_fds s then s\<lparr>open_fds := open_fds s - {fd}\<rparr> else s\<lparr>bad_closes := Suc (bad_closes s)\<rparr>)"

definition os_open :: "int \<Rightarrow> os \<Rightarrow> os" where
  "os_open fd s = s\<lparr>open_fds := insert fd (open_fds s), wire := (wire s)(fd := [])\<rparr>"

section \<open>Lines\<close>

text \<open>The characters \<open>isspace\<close> accepts in the C locale.\<close>

definition isspace :: "char \<Rightarrow> bool" where
  "isspace c \<longleftrightarrow> c \<in> {CHR 0x20, CHR 0x09, CHR 0x0A, CHR 0x0B, CHR 0x0C, CHR 0x0D}"

function trim_left :: "bytes \<Rightarrow> nat \<Rightarrow> nat" where
  "trim_left s l = (if l < length s \<and> isspace (s ! l) then trim_left s (Suc l) else l)"
  by auto
termination by (relation "measure (\<lambda>(s, l). length s - l)") auto

function trim_right :: "bytes \<Rightarrow> nat \<Rightarrow> nat \<Rightarrow> nat" where
  "trim_right s l r = (if l < r \<and> isspace (s ! (r - 1)) then trim_right s l (r - 1) else r)"
  by auto
termination by (relation "measure (\<lambda>(s, l, r). r)") auto

declare trim_left.simps [simp del] trim_right.simps [simp del]

definition trim :: "bytes \<Rightarrow> bytes" where
  "trim s =
     (let l = trim_left s 0;
          r = trim_right s l (length s)
      in take (r - l) (drop l s))"

text \<open>\<open>std::string::find\<close>: the first place where the pattern occurs.\<close>

fun find_string :: "bytes \<Rightarrow> bytes \<Rightarrow> nat option" where
  "find_string p [] = (if p = [] then Some 0 else None)"
| "find_string p (c # s) =
     (if take (length p) (c # s) = p then Some 0 else map_option Suc (find_string p s))"

definition newline :: bytes where
  "newline = [CHR 0x0A]"

definition extract_message :: "bytes \<Rightarrow> (bytes \<times> bytes) option" where
  "extract_message buf =
     (case find_string newline buf of
        None \<Rightarrow> None
      | Some pos \<Rightarrow> Some (take pos buf, drop (pos + 1) buf))"

section \<open>Sending\<close>

datatype flush_outcome = Flushed | Blocked | Broken

text \<open>
  The loop around \<open>send\<close> of \<open>flush_output\<close> and \<open>flush_peer_output\<close>: the results not used, and how far
  the buffer was sent.
\<close>

fun send_loop :: "bytes \<Rightarrow> send_result list \<Rightarrow> nat \<Rightarrow> send_result list \<times> nat \<times> flush_outcome" where
  "send_loop buf [] sent = ([], sent, if sent < length buf then Blocked else Flushed)"
| "send_loop buf (r # rs) sent =
     (if sent < length buf then
        (case r of
           Wrote n \<Rightarrow> if n = 0 then (rs, sent, Broken) else send_loop buf rs (sent + min n (length buf - sent))
         | Send_eintr \<Rightarrow> send_loop buf rs sent
         | Send_again \<Rightarrow> (rs, sent, Blocked)
         | Send_fail \<Rightarrow> (rs, sent, Broken))
      else (r # rs, sent, Flushed))"

definition os_send :: "int \<Rightarrow> bytes \<Rightarrow> nat \<Rightarrow> os \<Rightarrow> nat \<times> flush_outcome \<times> os" where
  "os_send fd buf sent s =
     (let (rs, sent', r) = send_loop buf (sends s) sent
      in (sent', r, s\<lparr>sends := rs, wire := (wire s)(fd := wire s fd @ take (sent' - sent) (drop sent buf))\<rparr>))"

section \<open>The client\<close>

record chat_client =
  cc_socket :: int
  cc_input :: bytes
  cc_messages :: "chat_message list"
  cc_output :: bytes
  cc_sent :: nat
  cc_name :: bytes
  cc_name_sent :: bool

definition chat_client_new :: "bytes \<Rightarrow> chat_client" where
  "chat_client_new name =
     \<lparr>cc_socket = -1, cc_input = [], cc_messages = [], cc_output = [], cc_sent = 0, cc_name = name, cc_name_sent = False\<rparr>"

text \<open>The object is gone afterwards; what remains is the descriptor, which is closed.\<close>

definition chat_client_delete :: "chat_client \<Rightarrow> os \<Rightarrow> os" where
  "chat_client_delete client s = (if 0 \<le> cc_socket client then os_close (cc_socket client) s else s)"

definition client_close :: "chat_client \<times> os \<Rightarrow> chat_client \<times> os" where
  "client_close = (\<lambda>(client, s). (client\<lparr>cc_socket := -1\<rparr>, os_close (cc_socket client) s))"

definition flush_output :: "chat_client \<times> os \<Rightarrow> chat_client \<times> os" where
  "flush_output = (\<lambda>(client, s).
     if cc_socket client < 0 then (client, s)
     else let (sent, r, s1) = os_send (cc_socket client) (cc_output client) (cc_sent client) s;
              client1 = client\<lparr>cc_sent := sent\<rparr>
          in if r = Broken then client_close (client1, s1)
             else if sent = length (cc_output client1) then (client1\<lparr>cc_output := [], cc_sent := 0\<rparr>, s1)
             else (client1, s1))"

text \<open>
  The parameters are the results of \<open>getaddrinfo\<close>, \<open>socket\<close> and \<open>connect\<close>.
\<close>

definition chat_client_connect :: "(bytes \<Rightarrow> bytes \<Rightarrow> bool) \<Rightarrow> bool \<Rightarrow> bool \<Rightarrow> bytes \<Rightarrow> chat_client \<times> os \<Rightarrow> chat_err \<times> chat_client \<times> os" where
  "chat_client_connect resolves socket_ok connects addr = (\<lambda>(client, s).
     if 0 \<le> cc_socket client then (CHAT_ERR_ALREADY_STARTED, client, s)
     else case find_string '':'' addr of
            None \<Rightarrow> (CHAT_ERR_NO_ADDR, client, s)
          | Some pos \<Rightarrow>
              if \<not> resolves (take pos addr) (drop (pos + 1) addr) then (CHAT_ERR_NO_ADDR, client, s)
              else if \<not> socket_ok then (CHAT_ERR_SYS, client, s)
              else let sock = next_fd s; s1 = os_open sock s
                   in if \<not> connects then (CHAT_ERR_SYS, client, os_close sock s1)
                      else (CHAT_OK, client\<lparr>cc_socket := sock\<rparr>, s1))"

definition chat_client_pop_next :: "chat_client \<Rightarrow> chat_message option \<times> chat_client" where
  "chat_client_pop_next client =
     (case cc_messages client of
        [] \<Rightarrow> (None, client)
      | m # ms \<Rightarrow> (Some m, client\<lparr>cc_messages := ms\<rparr>))"

definition chat_client_get_descriptor :: "chat_client \<Rightarrow> int" where
  "chat_client_get_descriptor client = cc_socket client"

definition chat_client_get_events :: "chat_client \<Rightarrow> 32 word" where
  "chat_client_get_events client =
     (if cc_socket client < 0 then 0
      else let events = CHAT_EVENT_INPUT
           in if cc_sent client < length (cc_output client) then events OR CHAT_EVENT_OUTPUT else events)"

datatype recv_outcome = Drained | Closed | Failed

text \<open>The loop around \<open>recv\<close>: the bytes received, why it ended, and the results not used.\<close>

fun recv_loop :: "recv_result list \<Rightarrow> bytes \<Rightarrow> bytes \<times> recv_outcome \<times> recv_result list" where
  "recv_loop [] buf = (buf, Drained, [])"
| "recv_loop (r # rs) buf =
     (case r of
        Data d \<Rightarrow> if d = [] then (buf, Closed, rs) else recv_loop rs (buf @ d)
      | Eof \<Rightarrow> (buf, Closed, rs)
      | Recv_eintr \<Rightarrow> recv_loop rs buf
      | Recv_again \<Rightarrow> (buf, Drained, rs)
      | Recv_fail \<Rightarrow> (buf, Failed, rs))"

text \<open>A line of the server as a message: the author is what stands before the first colon and blank.\<close>

definition parse_message :: "bytes \<Rightarrow> chat_message" where
  "parse_message msg =
     (case find_string '': '' msg of
        Some pos \<Rightarrow> \<lparr>author = take pos msg, msg_data = drop (pos + 2) msg\<rparr>
      | None \<Rightarrow> \<lparr>author = [], msg_data = msg\<rparr>)"

lemma find_string_bound: "find_string p s = Some k \<Longrightarrow> k + length p \<le> length s"
proof (induction p s arbitrary: k rule: find_string.induct)
  case (2 p c s)
  show ?case
  proof (cases "take (length p) (c # s) = p")
    case True
    then have "length p \<le> length (c # s)" by (metis length_take min.cobounded1)
    then show ?thesis using 2(2) True by simp
  qed (use 2 in \<open>auto split: if_splits\<close>)
qed (auto split: if_splits)

lemma extract_shrinks: "extract_message buf = Some (m, rest) \<Longrightarrow> length rest < length buf"
  using find_string_bound [of newline buf] by (auto simp: extract_message_def newline_def split: option.splits)

function client_messages :: "bytes \<Rightarrow> chat_message list \<Rightarrow> chat_message list \<times> bytes" where
  "client_messages buf ms =
     (case extract_message buf of
        None \<Rightarrow> (ms, buf)
      | Some (msg, rest) \<Rightarrow>
          let msg = trim msg
          in if msg = [] then client_messages rest ms else client_messages rest (ms @ [parse_message msg]))"
  by auto
termination by (relation "measure (\<lambda>(buf, ms). length buf)") (auto simp: extract_shrinks)

declare client_messages.simps [simp del]

text \<open>What \<open>poll\<close> returned, with the events it reported.\<close>

record poll_events =
  ev_error :: bool
  ev_in :: bool
  ev_out :: bool

datatype poll_result = Poll_fail | Poll_timeout | Poll_ready poll_events

definition chat_client_update :: "poll_result \<Rightarrow> chat_client \<times> os \<Rightarrow> chat_err \<times> chat_client \<times> os" where
  "chat_client_update pr = (\<lambda>(client, s).
     if cc_socket client < 0 then (CHAT_ERR_NOT_STARTED, client, s)
     else case pr of
            Poll_fail \<Rightarrow> (CHAT_ERR_SYS, client, s)
          | Poll_timeout \<Rightarrow> (CHAT_ERR_TIMEOUT, client, s)
          | Poll_ready ev \<Rightarrow>
              if ev_error ev then (CHAT_ERR_SYS, client_close (client, s))
              else
                let (buf, r, rs) = (if ev_in ev then recv_loop (recvs s) (cc_input client) else (cc_input client, Drained, recvs s));
                    client1 = client\<lparr>cc_input := buf\<rparr>;
                    s1 = s\<lparr>recvs := rs\<rparr>
                in if r \<noteq> Drained then (CHAT_ERR_SYS, client_close (client1, s1))
                   else
                     let (ms, rest) = (if ev_in ev then client_messages (cc_input client1) (cc_messages client1)
                                       else (cc_messages client1, cc_input client1));
                         w2 = (client1\<lparr>cc_messages := ms, cc_input := rest\<rparr>, s1);
                         w3 = (if ev_out ev then flush_output w2 else w2);
                         w4 = (if 0 \<le> cc_socket (fst w3) \<and> cc_output (fst w3) \<noteq> [] then flush_output w3 else w3)
                     in (CHAT_OK, w4))"

definition chat_client_feed :: "bytes \<Rightarrow> chat_client \<times> os \<Rightarrow> chat_err \<times> chat_client \<times> os" where
  "chat_client_feed msg = (\<lambda>(client, s).
     if cc_socket client < 0 then (CHAT_ERR_NOT_STARTED, client, s)
     else if msg = [] then (CHAT_OK, client, s)
     else
       let client1 = (if \<not> cc_name_sent client \<and> cc_name client \<noteq> []
                      then client\<lparr>cc_output := cc_output client @ cc_name client @ newline, cc_name_sent := True\<rparr>
                      else client);
           (client2, s2) = flush_output (client1\<lparr>cc_output := cc_output client1 @ msg\<rparr>, s)
       in if cc_socket client2 < 0 then (CHAT_ERR_SYS, client2, s2) else (CHAT_OK, client2, s2))"

end
