(* ===== verification/Chat_Server.thy ===== *)
theory Chat_Server
  imports Chat
begin

text \<open>
  The chat server, \<open>5/chat_server.cpp\<close>, compiled with \<open>NEED_AUTHOR\<close> and \<open>NEED_SERVER_FEED\<close>. A peer
  is identified with its index in the vector of peers, which only grows. The deque of messages of
  a peer, which the code never fills, is left out.
\<close>

record chat_peer =
  cp_socket :: int
  cp_input :: bytes
  cp_output :: bytes
  cp_sent :: nat
  cp_name :: bytes
  cp_name_received :: bool

record chat_server =
  cs_socket :: int
  cs_epoll :: int
  cs_peers :: "chat_peer list"
  cs_messages :: "chat_message list"
  cs_input :: bytes

type_synonym server_world = "chat_server \<times> os"

definition peer_of :: "nat \<Rightarrow> server_world \<Rightarrow> chat_peer" where
  "peer_of i w = cs_peers (fst w) ! i"

definition set_peer :: "nat \<Rightarrow> chat_peer \<Rightarrow> chat_server \<Rightarrow> chat_server" where
  "set_peer i p server = server\<lparr>cs_peers := (cs_peers server)[i := p]\<rparr>"

definition close_peer :: "nat \<Rightarrow> server_world \<Rightarrow> server_world" where
  "close_peer i w =
     (let peer = peer_of i w
      in if cp_socket peer < 0 then w
         else (set_peer i (peer\<lparr>cp_socket := -1\<rparr>) (fst w), os_close (cp_socket peer) (snd w)))"

definition flush_peer_output :: "nat \<Rightarrow> server_world \<Rightarrow> bool \<times> server_world" where
  "flush_peer_output i w =
     (let peer = peer_of i w
      in if cp_socket peer < 0 then (False, w)
         else let (sent, r, s1) = os_send (cp_socket peer) (cp_output peer) (cp_sent peer) (snd w);
                  peer1 = peer\<lparr>cp_sent := sent\<rparr>
              in (case r of
                    Broken \<Rightarrow> (False, close_peer i (set_peer i peer1 (fst w), s1))
                  | Blocked \<Rightarrow> (True, (set_peer i peer1 (fst w), s1))
                  | Flushed \<Rightarrow>
                      if sent = length (cp_output peer1)
                      then (True, (set_peer i (peer1\<lparr>cp_output := [], cp_sent := 0\<rparr>) (fst w), s1))
                      else (True, (set_peer i peer1 (fst w), s1))))"

definition new_peer :: "int \<Rightarrow> chat_peer" where
  "new_peer sock =
     \<lparr>cp_socket = sock, cp_input = [], cp_output = [], cp_sent = 0, cp_name = [], cp_name_received = False\<rparr>"

fun accept_loop :: "accept_result list \<Rightarrow> server_world \<Rightarrow> chat_err \<times> server_world" where
  "accept_loop [] (server, s) = (CHAT_OK, server, s\<lparr>accepts := []\<rparr>)"
| "accept_loop (r # rs) (server, s) =
     (case r of
        Accept_eintr \<Rightarrow> accept_loop rs (server, s)
      | Accept_again \<Rightarrow> (CHAT_OK, server, s\<lparr>accepts := rs\<rparr>)
      | Accept_fail \<Rightarrow> (CHAT_ERR_SYS, server, s\<lparr>accepts := rs\<rparr>)
      | Accepted nonblock added \<Rightarrow>
          let sock = next_fd s;
              s1 = os_open sock s
          in if \<not> nonblock then (CHAT_ERR_SYS, server, os_close sock (s1\<lparr>accepts := rs\<rparr>))
             else if \<not> added then (CHAT_ERR_SYS, server, os_close sock (s1\<lparr>accepts := rs\<rparr>))
             else accept_loop rs (server\<lparr>cs_peers := cs_peers server @ [new_peer sock]\<rparr>, s1))"

definition accept_pending_clients :: "server_world \<Rightarrow> chat_err \<times> server_world" where
  "accept_pending_clients w =
     (if cs_socket (fst w) < 0 \<or> cs_epoll (fst w) < 0 then (CHAT_ERR_NOT_STARTED, w)
      else accept_loop (accepts (snd w)) w)"

definition chat_server_new :: chat_server where
  "chat_server_new = \<lparr>cs_socket = -1, cs_epoll = -1, cs_peers = [], cs_messages = [], cs_input = []\<rparr>"

definition chat_server_delete :: "server_world \<Rightarrow> os" where
  "chat_server_delete w =
     (let server = fst w;
          s1 = (if 0 \<le> cs_socket server then os_close (cs_socket server) (snd w) else snd w);
          s2 = (if 0 \<le> cs_epoll server then os_close (cs_epoll server) s1 else s1)
      in fold (\<lambda>peer s. if 0 \<le> cp_socket peer then os_close (cp_socket peer) s else s) (cs_peers server) s2)"

text \<open>
  The parameters are the results of \<open>socket\<close>, \<open>setsockopt\<close>, \<open>fcntl\<close>, \<open>bind\<close>, \<open>listen\<close>, \<open>epoll_create1\<close> and
  \<open>epoll_ctl\<close>.
\<close>

definition chat_server_listen ::
  "bool \<Rightarrow> bool \<Rightarrow> bool \<Rightarrow> bool \<Rightarrow> bool \<Rightarrow> bool \<Rightarrow> bool \<Rightarrow> server_world \<Rightarrow> chat_err \<times> server_world" where
  "chat_server_listen socket_ok reuse nonblock binds listens epoll_ok added = (\<lambda>(server, s).
     if 0 \<le> cs_socket server then (CHAT_ERR_ALREADY_STARTED, server, s)
     else if \<not> socket_ok then (CHAT_ERR_SYS, server, s)
     else let sock = next_fd s;
              s1 = os_open sock s
          in if \<not> reuse then (CHAT_ERR_SYS, server, os_close sock s1)
             else if \<not> nonblock then (CHAT_ERR_SYS, server, os_close sock s1)
             else if \<not> binds then (CHAT_ERR_PORT_BUSY, server, os_close sock s1)
             else if \<not> listens then (CHAT_ERR_SYS, server, os_close sock s1)
             else if \<not> epoll_ok then (CHAT_ERR_SYS, server, os_close sock s1)
             else let efd = next_fd s1;
                      s2 = os_open efd s1
                  in if \<not> added then (CHAT_ERR_SYS, server, os_close efd (os_close sock s2))
                     else (CHAT_OK, server\<lparr>cs_socket := sock, cs_epoll := efd\<rparr>, s2))"

definition chat_server_pop_next :: "chat_server \<Rightarrow> chat_message option \<times> chat_server" where
  "chat_server_pop_next server =
     (case cs_messages server of
        [] \<Rightarrow> (None, server)
      | m # ms \<Rightarrow> (Some m, server\<lparr>cs_messages := ms\<rparr>))"

text \<open>The loops over the peers that append a text to the output of a peer and try to send it.\<close>

definition send_to_peer :: "bytes \<Rightarrow> nat \<Rightarrow> server_world \<Rightarrow> server_world" where
  "send_to_peer txt i w =
     (let p = peer_of i w
      in snd (flush_peer_output i (set_peer i (p\<lparr>cp_output := cp_output p @ txt\<rparr>) (fst w), snd w)))"

fun broadcast :: "bytes \<Rightarrow> nat option \<Rightarrow> nat list \<Rightarrow> server_world \<Rightarrow> server_world" where
  "broadcast txt from [] w = w"
| "broadcast txt from (i # is) w =
     (if cp_socket (peer_of i w) < 0 \<or> from = Some i then broadcast txt from is w
      else broadcast txt from is (send_to_peer txt i w))"

definition broadcast_all :: "bytes \<Rightarrow> nat option \<Rightarrow> server_world \<Rightarrow> server_world" where
  "broadcast_all txt from w = broadcast txt from [0..<length (cs_peers (fst w))] w"

text \<open>The text other peers get for a message of a peer.\<close>

definition full_msg :: "chat_peer \<Rightarrow> bytes \<Rightarrow> bytes" where
  "full_msg peer msg =
     (if cp_name_received peer \<and> cp_name peer \<noteq> [] then cp_name peer @ '': '' @ msg @ newline else msg @ newline)"

text \<open>One line of peer \<open>i\<close>: the first one that is not blank is its name. The result tells if there was progress.\<close>

definition peer_line :: "nat \<Rightarrow> bytes \<Rightarrow> server_world \<Rightarrow> bool \<times> server_world" where
  "peer_line i line w =
     (let msg = trim line;
          peer = peer_of i w
      in if msg = [] then (False, w)
         else if \<not> cp_name_received peer
         then (False, set_peer i (peer\<lparr>cp_name := msg, cp_name_received := True\<rparr>) (fst w), snd w)
         else let w1 = ((fst w)\<lparr>cs_messages := cs_messages (fst w) @ [\<lparr>author = cp_name peer, msg_data = msg\<rparr>]\<rparr>, snd w)
              in (True, broadcast_all (full_msg peer msg) (Some i) w1))"

function peer_lines :: "nat \<Rightarrow> bytes \<Rightarrow> bool \<times> server_world \<Rightarrow> bytes \<times> bool \<times> server_world" where
  "peer_lines i buf pw =
     (case extract_message buf of
        None \<Rightarrow> (buf, pw)
      | Some (line, rest) \<Rightarrow>
          let (progress, w) = peer_line i line (snd pw)
          in peer_lines i rest (fst pw \<or> progress, w))"
  by auto
termination by (relation "measure (\<lambda>(i, buf, pw). length buf)") (auto simp: extract_shrinks)

declare peer_lines.simps [simp del]

text \<open>Reading from a peer: \<open>None\<close> in the error component lets the loop over the events go on.\<close>

definition peer_input :: "nat \<Rightarrow> server_world \<Rightarrow> chat_err option \<times> bool \<times> server_world" where
  "peer_input i w =
     (let peer = peer_of i w;
          (buf, r, rs) = recv_loop (recvs (snd w)) (cp_input peer);
          progress = (buf \<noteq> cp_input peer);
          w1 = (set_peer i (peer\<lparr>cp_input := buf\<rparr>) (fst w), (snd w)\<lparr>recvs := rs\<rparr>)
      in if r = Failed then (Some CHAT_ERR_SYS, progress, w1)
         else let (progress, w2) = (if r = Closed then (True, close_peer i w1) else (progress, w1));
                  (rest, progress, w3) = peer_lines i buf (progress, w2)
              in (None, progress, set_peer i ((peer_of i w3)\<lparr>cp_input := rest\<rparr>) (fst w3), snd w3))"

definition peer_event :: "nat \<Rightarrow> poll_events \<Rightarrow> bool \<Rightarrow> server_world \<Rightarrow> chat_err option \<times> bool \<times> server_world" where
  "peer_event i ev progress w =
     (if cp_socket (peer_of i w) < 0 then (None, progress, w)
      else if ev_error ev then (None, True, close_peer i w)
      else
        let (err, p1, w1) = (if ev_in ev then peer_input i w else (None, False, w))
        in if err \<noteq> None then (err, progress \<or> p1, w1)
           else if ev_out ev \<and> cp_sent (peer_of i w1) < length (cp_output (peer_of i w1)) then
             let before = cp_sent (peer_of i w1);
                 w2 = snd (flush_peer_output i w1)
             in (None, progress \<or> p1 \<or> cp_sent (peer_of i w2) \<noteq> before \<or> cp_output (peer_of i w2) = [], w2)
           else (None, progress \<or> p1, w1))"

datatype event_source = Listener | Peer nat

fun server_events :: "(event_source \<times> poll_events) list \<Rightarrow> bool \<Rightarrow> server_world \<Rightarrow> chat_err \<times> server_world" where
  "server_events [] progress w = (if progress then CHAT_OK else CHAT_ERR_TIMEOUT, w)"
| "server_events ((src, ev) # evs) progress w =
     (case src of
        Listener \<Rightarrow>
          let (rc, w1) = accept_pending_clients w
          in if rc \<noteq> CHAT_OK then (rc, w1) else server_events evs True w1
      | Peer i \<Rightarrow>
          let (err, progress1, w1) = peer_event i ev progress w
          in (case err of Some e \<Rightarrow> (e, w1) | None \<Rightarrow> server_events evs progress1 w1))"

text \<open>What \<open>epoll_wait\<close> returned: at most 16 events.\<close>

datatype epoll_result = Epoll_fail | Epoll_timeout | Epoll_ready "(event_source \<times> poll_events) list"

definition chat_server_update :: "epoll_result \<Rightarrow> server_world \<Rightarrow> chat_err \<times> server_world" where
  "chat_server_update er w =
     (if cs_socket (fst w) < 0 \<or> cs_epoll (fst w) < 0 then (CHAT_ERR_NOT_STARTED, w)
      else case er of
             Epoll_fail \<Rightarrow> (CHAT_ERR_SYS, w)
           | Epoll_timeout \<Rightarrow> (CHAT_ERR_TIMEOUT, w)
           | Epoll_ready evs \<Rightarrow> server_events evs False w)"

definition chat_server_get_descriptor :: "chat_server \<Rightarrow> int" where
  "chat_server_get_descriptor server = (if cs_epoll server < 0 then -1 else cs_epoll server)"

definition chat_server_get_socket :: "chat_server \<Rightarrow> int" where
  "chat_server_get_socket server = cs_socket server"

definition chat_server_get_events :: "chat_server \<Rightarrow> 32 word" where
  "chat_server_get_events server =
     (if cs_socket server < 0 then 0
      else if list_ex (\<lambda>peer. 0 \<le> cp_socket peer \<and> cp_sent peer < length (cp_output peer)) (cs_peers server)
      then CHAT_EVENT_INPUT OR CHAT_EVENT_OUTPUT else CHAT_EVENT_INPUT)"

text \<open>One line fed by the administrator.\<close>

definition server_line :: "bytes \<Rightarrow> server_world \<Rightarrow> server_world" where
  "server_line line w =
     (let line = trim line
      in if line = [] then w
         else broadcast_all (''server: '' @ line @ newline) None
                ((fst w)\<lparr>cs_messages := cs_messages (fst w) @ [\<lparr>author = ''server'', msg_data = line\<rparr>]\<rparr>, snd w))"

function server_lines :: "bytes \<Rightarrow> server_world \<Rightarrow> bytes \<times> server_world" where
  "server_lines buf w =
     (case extract_message buf of
        None \<Rightarrow> (buf, w)
      | Some (line, rest) \<Rightarrow> server_lines rest (server_line line w))"
  by auto
termination by (relation "measure (\<lambda>(buf, w). length buf)") (auto simp: extract_shrinks)

declare server_lines.simps [simp del]

definition chat_server_feed :: "bytes \<Rightarrow> server_world \<Rightarrow> chat_err \<times> server_world" where
  "chat_server_feed msg w =
     (if cs_socket (fst w) < 0 then (CHAT_ERR_NOT_STARTED, w)
      else if msg = [] then (CHAT_OK, w)
      else let (rc, w1) = accept_pending_clients w
           in if rc \<noteq> CHAT_OK then (rc, w1)
              else let (rest, w2) = server_lines (cs_input (fst w1) @ msg) w1
                   in (CHAT_OK, (fst w2)\<lparr>cs_input := rest\<rparr>, snd w2))"

end
