(* ===== verification/Chat_Lines.thy ===== *)
theory Chat_Lines
  imports Chat
begin

text \<open>
  The line protocol of the chat: what \<open>trim\<close> and \<open>extract_message\<close> compute, that the lines of a stream
  do not depend on how it was cut, and that the format the server writes is the one its clients read.
\<close>

section \<open>Facts on lines\<close>

lemma find_newline: "find_string newline s = (if CHR 0x0A \<in> set s then Some (length (takeWhile (\<lambda>c. c \<noteq> CHR 0x0A) s)) else None)"
  by (induction s) (auto simp: newline_def)

lemma takeWhile_stop: "x \<notin> set l \<Longrightarrow> takeWhile (\<lambda>c. c \<noteq> x) (l @ x # r) = l"
  by (induction l) auto

lemma extract_None: "extract_message buf = None \<longleftrightarrow> CHR 0x0A \<notin> set buf"
  by (simp add: extract_message_def find_newline)

lemma extract_Some:
  "extract_message buf = Some (line, rest) \<longleftrightarrow> buf = line @ CHR 0x0A # rest \<and> CHR 0x0A \<notin> set line"
proof
  assume e: "extract_message buf = Some (line, rest)"
  then have i: "CHR 0x0A \<in> set buf" by (auto simp: extract_message_def find_newline split: if_splits)
  let ?t = "takeWhile (\<lambda>c. c \<noteq> CHR 0x0A) buf" and ?d = "dropWhile (\<lambda>c. c \<noteq> CHR 0x0A) buf"
  have l: "line = ?t" "rest = drop (Suc (length ?t)) buf" using e i
    by (auto simp: extract_message_def find_newline takeWhile_eq_take [symmetric])
  have "?d \<noteq> []" using i by (simp add: dropWhile_eq_Nil_conv)
  then obtain c d where d: "?d = c # d" by (cases ?d) auto
  then have c: "c = CHR 0x0A" using hd_dropWhile [of "\<lambda>c. c \<noteq> CHR 0x0A" buf] by simp
  have b: "buf = ?t @ c # d" using takeWhile_dropWhile_id [of "\<lambda>c. c \<noteq> CHR 0x0A" buf] d by simp
  have "drop (Suc (length ?t)) (?t @ c # d) = d" by simp
  with b have "drop (Suc (length ?t)) buf = d" by simp
  then show "buf = line @ CHR 0x0A # rest \<and> CHR 0x0A \<notin> set line"
    using b c l by (auto dest: set_takeWhileD)
next
  assume "buf = line @ CHR 0x0A # rest \<and> CHR 0x0A \<notin> set line"
  then have b: "buf = line @ CHR 0x0A # rest" and n: "CHR 0x0A \<notin> set line" by auto
  have "takeWhile (\<lambda>c. c \<noteq> CHR 0x0A) buf = line" using n by (simp add: b takeWhile_stop)
  then show "extract_message buf = Some (line, rest)"
    by (simp add: extract_message_def find_newline b)
qed

interpretation chat_lines: stream_popper "\<lambda>b. Some (extract_message b)" "\<lambda>_. True"
proof unfold_locales
  show "Some (extract_message []) = Some None" by (simp add: extract_None)
next
  fix b :: bytes and m r
  assume "Some (extract_message b) = Some (Some (m, r))"
  then show "length r < length b" using extract_shrinks by simp
next
  fix b x :: bytes and m r
  assume "Some (extract_message b) = Some (Some (m, r))"
  then show "Some (extract_message (b @ x)) = Some (Some (m, r @ x))" by (simp add: extract_Some)
qed auto

subsection \<open>Trimming\<close>

lemma trim_left_spec: "l \<le> length s \<Longrightarrow> trim_left s l = l + length (takeWhile isspace (drop l s))"
proof (induction s l rule: trim_left.induct)
  case (1 s l)
  show ?case
  proof (cases "l < length s")
    case True
    then have d: "drop l s = s ! l # drop (Suc l) s" by (simp add: Cons_nth_drop_Suc)
    show ?thesis using 1 True by (subst trim_left.simps) (simp add: d)
  qed (use 1 in \<open>subst trim_left.simps, simp\<close>)
qed

lemma trim_right_spec:
  "l \<le> r \<Longrightarrow> r \<le> length s \<Longrightarrow>
     take (trim_right s l r - l) (drop l s) = rev (dropWhile isspace (rev (take (r - l) (drop l s))))"
proof (induction s l r rule: trim_right.induct)
  case (1 s l r)
  show ?case
  proof (cases "l < r")
    case True
    then have t: "take (r - l) (drop l s) = take (r - 1 - l) (drop l s) @ [s ! (r - 1)]"
    proof -
      have "r - l = Suc (r - 1 - l)" "l + (r - 1 - l) = r - 1" using True by simp_all
      then show ?thesis using True 1(3) take_Suc_conv_app_nth [of "r - 1 - l" "drop l s"] by simp
    qed
    show ?thesis
    proof (cases "isspace (s ! (r - 1))")
      case True
      then have "trim_right s l r = trim_right s l (r - 1)" using \<open>l < r\<close> by (subst trim_right.simps) simp
      then show ?thesis using 1 True \<open>l < r\<close> t by simp
    next
      case False
      then have "trim_right s l r = r" by (subst trim_right.simps) simp
      then show ?thesis using False t by simp
    qed
  qed (use 1 in \<open>subst trim_right.simps, simp\<close>)
qed

text \<open>The loops over indices take the white space off both ends.\<close>

lemma trim_eq: "trim s = rev (dropWhile isspace (rev (dropWhile isspace s)))"
proof -
  let ?l = "trim_left s 0"
  have l: "?l = length (takeWhile isspace s)" using trim_left_spec [of 0] by simp
  then have le: "?l \<le> length s" by (simp add: length_takeWhile_le)
  have "drop ?l s = dropWhile isspace s" by (simp add: l dropWhile_eq_drop)
  moreover then have "take (length s - ?l) (dropWhile isspace s) = dropWhile isspace s" by (metis length_drop order.refl take_all)
  ultimately show ?thesis using trim_right_spec [OF le order.refl] by (simp add: trim_def Let_def)
qed

lemma trim_idem: "trim s = s \<longleftrightarrow> s = [] \<or> \<not> isspace (hd s) \<and> \<not> isspace (last s)"
proof
  assume t: "trim s = s"
  show "s = [] \<or> \<not> isspace (hd s) \<and> \<not> isspace (last s)"
  proof (cases "s = []")
    case False
    have "\<not> isspace (hd s)"
    proof
      assume h: "isspace (hd s)"
      then have "length (dropWhile isspace s) < length s" using False
        by (cases s) (auto intro: le_less_trans [OF length_dropWhile_le])
      moreover have "length (trim s) \<le> length (dropWhile isspace s)"
        using length_dropWhile_le [of isspace "rev (dropWhile isspace s)"] by (simp add: trim_eq)
      ultimately show False using t by simp
    qed
    moreover then have "dropWhile isspace s = s" by (cases s) auto
    then have r: "dropWhile isspace (rev s) = rev s" using t trim_eq [of s] by (metis rev_rev_ident)
    have "\<not> isspace (last s)"
    proof
      assume h: "isspace (last s)"
      then have "length (dropWhile isspace (rev s)) < length (rev s)" using False
        by (cases s rule: rev_cases) (auto intro: le_less_trans [OF length_dropWhile_le])
      then show False using r by simp
    qed
    ultimately show ?thesis by blast
  qed simp
next
  assume "s = [] \<or> \<not> isspace (hd s) \<and> \<not> isspace (last s)"
  then show "trim s = s"
  proof
    assume h: "\<not> isspace (hd s) \<and> \<not> isspace (last s)"
    show ?thesis
    proof (cases "s = []")
      case False
      then have "dropWhile isspace s = s" using h by (cases s) auto
      moreover have "dropWhile isspace (rev s) = rev s" using h False by (cases s rule: rev_cases) auto
      ultimately show ?thesis by (simp add: trim_eq)
    qed (simp add: trim_eq)
  qed (simp add: trim_eq)
qed

lemma trim_ends: "trim s = [] \<or> \<not> isspace (hd (trim s)) \<and> \<not> isspace (last (trim s))"
proof (cases "trim s = []")
  case False
  let ?a = "dropWhile isspace s"
  let ?b = "dropWhile isspace (rev ?a)"
  have b: "?b \<noteq> []" using False by (simp add: trim_eq)
  then have "\<not> isspace (hd ?b)" by (rule hd_dropWhile)
  then have "\<not> isspace (last (trim s))" using b by (simp add: trim_eq last_rev)
  moreover have "\<not> isspace (last ?b)"
  proof -
    have "?a \<noteq> []" using b by (metis dropWhile.simps(1) rev.simps(1))
    then have "\<not> isspace (hd ?a)" by (rule hd_dropWhile)
    moreover have "last ?b = last (rev ?a)" using b dropWhile_eq_drop [of isspace "rev ?a"] by (metis last_drop length_drop length_greater_0_conv zero_less_diff)
    ultimately show ?thesis using \<open>?a \<noteq> []\<close> by (simp add: last_rev)
  qed
  then have "\<not> isspace (hd (trim s))" using b by (simp add: trim_eq hd_rev)
  ultimately show ?thesis by blast
qed simp

lemma trim_trim [simp]: "trim (trim s) = trim s"
  using trim_ends [of s] trim_idem [of "trim s"] by blast

lemma set_trim: "set (trim s) \<subseteq> set s"
proof
  fix x assume "x \<in> set (trim s)"
  then have "x \<in> set (dropWhile isspace (rev (dropWhile isspace s)))" by (simp add: trim_eq)
  then have "x \<in> set (rev (dropWhile isspace s))" by (rule set_dropWhileD)
  then have "x \<in> set (dropWhile isspace s)" by simp
  then show "x \<in> set s" by (rule set_dropWhileD)
qed


section \<open>The messages of a client\<close>

text \<open>The complete lines of a text that are not blank, trimmed.\<close>

definition text_lines :: "bytes \<Rightarrow> bytes list \<times> bytes" where
  "text_lines s = the (drain (\<lambda>b. Some (extract_message b)) s)"

definition chat_texts :: "bytes \<Rightarrow> bytes list" where
  "chat_texts s = filter (\<lambda>l. l \<noteq> []) (map trim (fst (text_lines s)))"

lemma drain_Some: "\<exists>ls r. drain (\<lambda>b. Some (extract_message b)) s = Some (ls, r)"
proof (induction s rule: length_induct)
  case (1 s)
  show ?case
  proof (cases "extract_message s")
    case (Some p)
    obtain m r where p: "p = (m, r)" by force
    then obtain ls r' where "drain (\<lambda>b. Some (extract_message b)) r = Some (ls, r')"
      using 1 extract_shrinks [of s m r] Some by blast
    then show ?thesis using chat_lines.drain_unfold [of s] Some p by simp
  qed (use chat_lines.drain_unfold [of s] in simp)
qed

lemma text_lines_unfold:
  "text_lines s = (case extract_message s of None \<Rightarrow> ([], s)
                   | Some (m, r) \<Rightarrow> (m # fst (text_lines r), snd (text_lines r)))"
proof (cases "extract_message s")
  case (Some p)
  obtain m r where p: "p = (m, r)" by force
  obtain ls r' where "drain (\<lambda>b. Some (extract_message b)) r = Some (ls, r')" using drain_Some by blast
  then show ?thesis using chat_lines.drain_unfold [of s] Some p by (simp add: text_lines_def)
qed (use chat_lines.drain_unfold [of s] in \<open>simp add: text_lines_def\<close>)

lemma text_lines_none: "CHR 0x0A \<notin> set s \<Longrightarrow> text_lines s = ([], s)"
  by (simp add: text_lines_unfold [of s] extract_None [THEN iffD2])

lemma text_lines_line:
  "CHR 0x0A \<notin> set l \<Longrightarrow> text_lines (l @ CHR 0x0A # s) = (l # fst (text_lines s), snd (text_lines s))"
proof -
  assume "CHR 0x0A \<notin> set l"
  then have "extract_message (l @ CHR 0x0A # s) = Some (l, s)" by (simp add: extract_Some)
  then show ?thesis by (simp add: text_lines_unfold [of "l @ CHR 0x0A # s"])
qed

lemma text_lines_append:
  "text_lines (a @ b) = (let (ls, r) = text_lines a; (ls', r') = text_lines (r @ b) in (ls @ ls', r'))"
proof -
  obtain ls r where a: "drain (\<lambda>b. Some (extract_message b)) a = Some (ls, r)" using drain_Some by blast
  obtain ls' r' where b: "drain (\<lambda>b. Some (extract_message b)) (r @ b) = Some (ls', r')" using drain_Some by blast
  show ?thesis using chat_lines.drain_append [of a b] a b by (simp add: text_lines_def)
qed

lemma text_lines_rest: "CHR 0x0A \<notin> set (snd (text_lines s))"
proof (induction s rule: length_induct)
  case (1 s)
  show ?case
  proof (cases "extract_message s")
    case (Some p)
    obtain m r where p: "p = (m, r)" by force
    then show ?thesis using 1 extract_shrinks [of s m r] Some by (subst text_lines_unfold) simp
  qed (use extract_None [of s] in \<open>subst text_lines_unfold, simp\<close>)
qed

lemma client_messages_eq:
  "client_messages buf ms = (ms @ map parse_message (chat_texts buf), snd (text_lines buf))"
proof (induction buf ms rule: client_messages.induct)
  case (1 buf ms)
  show ?case
  proof (cases "extract_message buf")
    case None
    then show ?thesis by (subst client_messages.simps) (simp add: chat_texts_def text_lines_unfold [of buf])
  next
    case (Some p)
    obtain m r where p: "p = (m, r)" by force
    show ?thesis using 1 Some p
      by (subst client_messages.simps) (simp add: chat_texts_def text_lines_unfold [of buf] Let_def)
  qed
qed

text \<open>
  A client understands the stream of the server, not its packets: however the bytes are cut into
  the pieces that \<open>recv\<close> delivers, over however many updates, the messages queued are those of
  the whole text and the same incomplete line is left in the buffer.
\<close>

theorem client_chunks_irrelevant:
  "foldl (\<lambda>(ms, buf) chunk. client_messages (buf @ chunk) ms) (ms, []) chunks = client_messages (concat chunks) ms"
proof -
  have "foldl (\<lambda>(ms, buf) chunk. client_messages (buf @ chunk) ms) (ms, snd (text_lines s)) chunks =
        (ms @ map parse_message (chat_texts (snd (text_lines s) @ concat chunks)), snd (text_lines (s @ concat chunks)))" for s
  proof (induction chunks arbitrary: s ms)
    case Nil
    have "text_lines (snd (text_lines s)) = ([], snd (text_lines s))" by (rule text_lines_none [OF text_lines_rest])
    then show ?case by (simp add: chat_texts_def)
  next
    case (Cons c cs)
    let ?r = "snd (text_lines s)"
    have sr: "snd (text_lines (s @ x)) = snd (text_lines (?r @ x))" for x
      using text_lines_append [of s x] by (simp add: split_beta Let_def)
    have tx: "chat_texts (?r @ c @ x) = chat_texts (?r @ c) @ chat_texts (snd (text_lines (s @ c)) @ x)" for x
      using text_lines_append [of "?r @ c" x] by (simp add: chat_texts_def split_beta Let_def sr [of c])
    have "foldl (\<lambda>(ms, buf) chunk. client_messages (buf @ chunk) ms) (ms, ?r) (c # cs) =
      foldl (\<lambda>(ms, buf) chunk. client_messages (buf @ chunk) ms)
        (ms @ map parse_message (chat_texts (?r @ c)), snd (text_lines (s @ c))) cs"
      by (simp add: client_messages_eq sr [of c])
    also have "\<dots> = (ms @ map parse_message (chat_texts (?r @ c @ concat cs)), snd (text_lines ((s @ c) @ concat cs)))"
      unfolding Cons.IH tx by simp
    finally show ?case by simp
  qed
  from this [of "[]"] show ?thesis by (simp add: client_messages_eq text_lines_none)
qed

section \<open>The format of a message\<close>

text \<open>The text that stands for a message on the wire.\<close>

definition message_line :: "chat_message \<Rightarrow> bytes" where
  "message_line m = (if author m \<noteq> [] then author m @ '': '' @ msg_data m else msg_data m)"

text \<open>Messages that can be told apart from their format: the server sends no others to a client when no name has a colon and a blank in it.\<close>

definition sendable :: "chat_message \<Rightarrow> bool" where
  "sendable m \<longleftrightarrow>
     (author m = [] \<longrightarrow> find_string '': '' (msg_data m) = None) \<and> find_string '': '' (author m) = None
     \<and> trim (author m) = author m \<and> CHR 0x0A \<notin> set (author m)
     \<and> msg_data m \<noteq> [] \<and> trim (msg_data m) = msg_data m \<and> CHR 0x0A \<notin> set (msg_data m)"

lemma find_sep:
  "find_string '': '' a = None \<Longrightarrow> find_string '': '' (a @ '': '' @ d) = Some (length a)"
proof (induction a)
  case (Cons c a)
  then have n: "find_string '': '' a = None" and h: "take 2 (c # a) \<noteq> '': ''" by (auto split: if_splits)
  have "take 2 (c # a @ '': '' @ d) \<noteq> '': ''" using h by (cases a) auto
  then show ?case using Cons.IH [OF n] by simp
qed simp

lemma parse_message_line: "sendable m \<Longrightarrow> parse_message (message_line m) = m"
  using find_sep [of "author m" "msg_data m"]
  by (auto simp: sendable_def parse_message_def message_line_def)

lemma trim_message_line: "sendable m \<Longrightarrow> trim (message_line m) = message_line m"
  by (auto simp: sendable_def message_line_def trim_idem)

lemma message_line_ok: "sendable m \<Longrightarrow> CHR 0x0A \<notin> set (message_line m) \<and> message_line m \<noteq> []"
  by (auto simp: sendable_def message_line_def)

text \<open>A stream that ends with a complete line.\<close>

definition line_end :: "bytes \<Rightarrow> bool" where
  "line_end s \<longleftrightarrow> snd (text_lines s) = []"

definition message_stream :: "chat_message list \<Rightarrow> bytes" where
  "message_stream ms = concat (map (\<lambda>m. message_line m @ newline) ms)"

lemma message_stream_simps [simp]:
  "message_stream [] = []"
  "message_stream (m # ms) = message_line m @ newline @ message_stream ms"
  "message_stream (ms @ ns) = message_stream ms @ message_stream ns"
  by (simp_all add: message_stream_def)

lemma text_lines_Nil [simp]: "text_lines [] = ([], [])"
  by (simp add: text_lines_none)

lemma text_lines_line_end: "line_end s \<Longrightarrow> text_lines (s @ t) = (fst (text_lines s) @ fst (text_lines t), snd (text_lines t))"
  using text_lines_append [of s t] by (simp add: line_end_def split_beta Let_def)

lemma line_end_append [intro]: "line_end s \<Longrightarrow> line_end t \<Longrightarrow> line_end (s @ t)"
  using text_lines_line_end [of s t] by (simp add: line_end_def)

lemma line_end_line [intro]: "CHR 0x0A \<notin> set l \<Longrightarrow> line_end (l @ newline)"
  by (simp add: line_end_def newline_def text_lines_line)

lemma line_end_Nil [simp]: "line_end []"
  by (simp add: line_end_def)

lemma chat_texts_line_end: "line_end s \<Longrightarrow> chat_texts (s @ t) = chat_texts s @ chat_texts t"
  by (simp add: chat_texts_def text_lines_line_end)

lemma chat_texts_stream: "\<forall>m\<in>set ms. sendable m \<Longrightarrow> chat_texts (message_stream ms) = map message_line ms"
proof (induction ms)
  case (Cons m ms)
  then have m: "sendable m" by simp
  have "chat_texts (message_line m @ CHR 0x0A # message_stream ms) = message_line m # chat_texts (message_stream ms)"
    using message_line_ok [OF m] trim_message_line [OF m] by (simp add: chat_texts_def text_lines_line)
  then show ?case using Cons by (simp add: newline_def)
qed (simp add: chat_texts_def)

lemma line_end_stream: "\<forall>m\<in>set ms. CHR 0x0A \<notin> set (message_line m) \<Longrightarrow> line_end (message_stream ms)"
proof (induction ms)
  case (Cons m ms)
  then have "line_end ((message_line m @ newline) @ message_stream ms)" by (intro line_end_append line_end_line) auto
  then show ?case by simp
qed simp

text \<open>What a client that got the stream \<open>s\<close> has queued.\<close>

definition received :: "bytes \<Rightarrow> chat_message list" where
  "received s = fst (client_messages s [])"

lemma received_eq: "received s = map parse_message (chat_texts s)"
  by (simp add: received_def client_messages_eq)

lemma received_stream:
  assumes "line_end s" and "\<forall>m\<in>set ms. sendable m"
  shows "received (s @ message_stream ms) = received s @ ms"
proof -
  have "map parse_message (map message_line ms) = ms" using assms(2) by (simp add: map_idI parse_message_line)
  then show ?thesis using assms by (simp add: received_eq chat_texts_line_end chat_texts_stream)
qed

section \<open>The stream a client sends\<close>

lemma send_loop_spec:
  "sent \<le> length buf \<Longrightarrow> send_loop buf rs sent = (rs', sent', r) \<Longrightarrow>
     sent \<le> sent' \<and> sent' \<le> length buf \<and> (r = Flushed \<longrightarrow> sent' = length buf) \<and> (r = Blocked \<longrightarrow> sent' < length buf)"
proof (induction buf rs sent rule: send_loop.induct)
  case (2 buf r rs sent)
  then show ?case by (force split: if_splits send_result.splits)
qed (auto split: if_splits)

lemma os_send_spec:
  assumes "sent \<le> length buf" and "os_send fd buf sent s = (sent', r, s')"
  shows "sent \<le> sent'" and "sent' \<le> length buf" and "r = Flushed \<Longrightarrow> sent' = length buf"
    and "r = Blocked \<Longrightarrow> sent' < length buf"
    and "wire s' fd @ drop sent' buf = wire s fd @ drop sent buf"
    and "g \<noteq> fd \<Longrightarrow> wire s' g = wire s g"
    and "open_fds s' = open_fds s" and "bad_closes s' = bad_closes s" and "fresh s' = fresh s"
    and "accepts s' = accepts s" and "recvs s' = recvs s"
proof -
  obtain rs where l: "send_loop buf (sends s) sent = (rs, sent', r)"
    and s': "s' = s\<lparr>sends := rs, wire := (wire s)(fd := wire s fd @ take (sent' - sent) (drop sent buf))\<rparr>"
    using assms(2) by (auto simp: os_send_def split: prod.splits)
  note sp = send_loop_spec [OF assms(1) l]
  show "sent \<le> sent'" "sent' \<le> length buf" "r = Flushed \<Longrightarrow> sent' = length buf" "r = Blocked \<Longrightarrow> sent' < length buf" using sp by auto
  have "take (sent' - sent) (drop sent buf) @ drop sent' buf = drop sent buf"
    using sp append_take_drop_id [of "sent' - sent" "drop sent buf"] by simp
  then show "wire s' fd @ drop sent' buf = wire s fd @ drop sent buf" by (simp add: s')
qed (use assms(2) in \<open>auto simp: os_send_def split: prod.splits\<close>)

end
