(* ===== verification/Chat_Client_Runs.thy ===== *)
theory Chat_Client_Runs
  imports Chat_Lines
begin

text \<open>
  Runs of a chat client: sequences of calls of its functions, with arbitrary answers of the
  operating system.
\<close>

text \<open>What the program that uses a client does with it after it connected.\<close>

datatype client_call = Feed bytes | Update poll_result | Pop

fun do_call :: "client_call \<Rightarrow> chat_client \<times> os \<Rightarrow> chat_client \<times> os" where
  "do_call (Feed msg) w = snd (chat_client_feed msg w)"
| "do_call (Update pr) w = snd (chat_client_update pr w)"
| "do_call Pop (client, s) = (snd (chat_client_pop_next client), s)"

fun fed :: "client_call \<Rightarrow> bytes" where
  "fed (Feed msg) = msg"
| "fed _ = []"

definition client_fed :: "client_call list \<Rightarrow> bytes" where
  "client_fed calls = concat (map fed calls)"

definition client_run :: "client_call list \<Rightarrow> chat_client \<times> os \<Rightarrow> chat_client \<times> os" where
  "client_run = fold do_call"

text \<open>The stream the server must see: the name of the client on a line of its own, then what was fed.\<close>

definition announced :: "bytes \<Rightarrow> bytes \<Rightarrow> bytes" where
  "announced name txt = (if txt = [] \<or> name = [] then txt else name @ newline @ txt)"

text \<open>While the connection is open, the bytes on the wire and those in the buffer are that stream; a prefix is on the wire for ever.\<close>

definition stream_ok :: "int \<Rightarrow> bytes \<Rightarrow> bytes \<Rightarrow> chat_client \<times> os \<Rightarrow> bool" where
  "stream_ok fd name txt = (\<lambda>(client, s).
     if cc_socket client < 0 then \<exists>rest. announced name txt = wire s fd @ rest
     else cc_socket client = fd \<and> cc_sent client \<le> length (cc_output client) \<and> cc_name client = name
          \<and> (cc_name_sent client \<longleftrightarrow> txt \<noteq> [] \<and> name \<noteq> [])
          \<and> announced name txt = wire s fd @ drop (cc_sent client) (cc_output client))"

lemma announced_append: "announced name (t @ u) = announced name t @ (if t = [] \<and> u \<noteq> [] \<and> name \<noteq> [] then name @ newline @ u else u)"
  by (simp add: announced_def)

lemma stream_ok_closed: "stream_ok fd name t (c, s) \<Longrightarrow> cc_socket c < 0 \<Longrightarrow> wire s' = wire s \<Longrightarrow> cc_socket c' < 0 \<Longrightarrow> stream_ok fd name (t @ u) (c', s')"
  unfolding stream_ok_def by (auto simp: announced_append)

lemma stream_ok_cong:
  "cc_socket c' = cc_socket c \<Longrightarrow> cc_output c' = cc_output c \<Longrightarrow> cc_sent c' = cc_sent c \<Longrightarrow> cc_name c' = cc_name c \<Longrightarrow>
     cc_name_sent c' = cc_name_sent c \<Longrightarrow> wire s' = wire s \<Longrightarrow> stream_ok fd name t (c', s') = stream_ok fd name t (c, s)"
  by (simp add: stream_ok_def)

lemma wire_os_close [simp]: "wire (os_close fd s) = wire s"
  by (simp add: os_close_def)

lemma stream_ok_close: "stream_ok fd name t (c, s) \<Longrightarrow> stream_ok fd name t (client_close (c, s))"
  by (auto simp: client_close_def stream_ok_def split: if_splits)

lemma stream_ok_flush:
  assumes "stream_ok fd name t w"
  shows "stream_ok fd name t (flush_output w)"
proof -
  obtain c s where w: "w = (c, s)" by force
  show ?thesis
  proof (cases "cc_socket c < 0")
    case False
    obtain sent r s1 where o: "os_send (cc_socket c) (cc_output c) (cc_sent c) s = (sent, r, s1)" by (cases "os_send (cc_socket c) (cc_output c) (cc_sent c) s") auto
    have le: "cc_sent c \<le> length (cc_output c)" using assms False by (simp add: stream_ok_def w)
    note sp = os_send_spec [OF le o]
    have ok: "stream_ok fd name t (c\<lparr>cc_sent := sent\<rparr>, s1)" using assms False sp by (auto simp: stream_ok_def w)
    show ?thesis
    proof (cases "r = Broken")
      case True
      then show ?thesis using False o stream_ok_close [OF ok] by (simp add: flush_output_def w)
    next
      case False
      then show ?thesis using \<open>\<not> cc_socket c < 0\<close> o ok by (auto simp: flush_output_def w stream_ok_def Let_def)
    qed
  qed (use assms in \<open>simp add: flush_output_def w\<close>)
qed

lemma stream_ok_feed:
  assumes "stream_ok fd name t (c, s)"
  shows "stream_ok fd name (t @ msg) (snd (chat_client_feed msg (c, s)))"
proof (cases "cc_socket c < 0")
  case True
  then show ?thesis using stream_ok_closed [OF assms] by (simp add: chat_client_feed_def)
next
  case False
  show ?thesis
  proof (cases "msg = []")
    case True
    then show ?thesis using assms False by (simp add: chat_client_feed_def)
  next
    case m: False
    define c1 where "c1 = (if \<not> cc_name_sent c \<and> cc_name c \<noteq> []
        then c\<lparr>cc_output := cc_output c @ cc_name c @ newline, cc_name_sent := True\<rparr> else c)"
    have "stream_ok fd name (t @ msg) (c1\<lparr>cc_output := cc_output c1 @ msg\<rparr>, s)"
      using assms False m by (auto simp: stream_ok_def c1_def announced_append)
    then have ok: "stream_ok fd name (t @ msg) (flush_output (c1\<lparr>cc_output := cc_output c1 @ msg\<rparr>, s))" by (rule stream_ok_flush)
    have "snd (chat_client_feed msg (c, s)) = flush_output (c1\<lparr>cc_output := cc_output c1 @ msg\<rparr>, s)"
      using False m by (auto simp: chat_client_feed_def Let_def split_beta c1_def)
    then show ?thesis using ok by simp
  qed
qed

lemma stream_ok_update:
  assumes "stream_ok fd name t (c, s)"
  shows "stream_ok fd name t (snd (chat_client_update pr (c, s)))"
proof -
  have 1: "stream_ok fd name t (c\<lparr>cc_messages := ms, cc_input := b\<rparr>, s\<lparr>recvs := rs\<rparr>)" for ms b rs
    by (subst stream_ok_cong [where c = c and s = s]) (use assms in auto)
  have 2: "stream_ok fd name t (client_close (c\<lparr>cc_input := b\<rparr>, s\<lparr>recvs := rs\<rparr>))" for b rs
    by (rule stream_ok_close, subst stream_ok_cong [where c = c and s = s]) (use assms in auto)
  have 3: "stream_ok fd name t (c\<lparr>cc_input := b, cc_messages := ms\<rparr>, s\<lparr>recvs := rs\<rparr>)" for ms b rs
    by (subst stream_ok_cong [where c = c and s = s]) (use assms in auto)
  show ?thesis
    by (auto simp: chat_client_update_def Let_def split_beta assms 1 2 3 stream_ok_close intro!: stream_ok_flush
        split: poll_result.split)
qed

lemma stream_ok_run:
  "stream_ok fd name t w \<Longrightarrow> stream_ok fd name (t @ client_fed calls) (client_run calls w)"
proof (induction calls arbitrary: t w)
  case (Cons call calls)
  obtain c s where w: "w = (c, s)" by force
  have "stream_ok fd name (t @ fed call) (do_call call w)"
  proof (cases call)
    case Pop
    then show ?thesis using Cons.prems stream_ok_cong [of "c\<lparr>cc_messages := ms\<rparr>" c s s fd name t for ms]
      by (auto simp: w chat_client_pop_next_def split: list.split)
  qed (use Cons.prems w stream_ok_feed stream_ok_update in auto)
  from Cons.IH [OF this] show ?case by (simp add: client_run_def client_fed_def)
qed (simp add: client_run_def client_fed_def)

text \<open>
  C18. The stream of a client, whatever \<open>poll\<close>, \<open>send\<close> and \<open>recv\<close> answer: what is on the wire after any
  calls is a prefix of the name line followed by the texts fed, in order and without gaps, and
  once the client asks for no output events it is all of it.
\<close>

theorem chat_client_stream:
  assumes "chat_client_connect resolves socket_ok connects addr (chat_client_new name, s0) = (CHAT_OK, client, s)"
    and "client_run calls (client, s) = (client', s')"
  shows "(\<exists>rest. announced name (client_fed calls) = wire s' (cc_socket client) @ rest)
    \<and> (0 \<le> cc_socket client' \<and> chat_client_get_events client' AND CHAT_EVENT_OUTPUT = 0 \<longrightarrow>
         wire s' (cc_socket client) = announced name (client_fed calls))"
proof -
  let ?fd = "cc_socket client"
  have start: "stream_ok ?fd name [] (client, s)"
    using assms(1) by (auto simp: chat_client_connect_def chat_client_new_def stream_ok_def announced_def os_open_def Let_def
        split: option.splits if_splits)
  have ok: "stream_ok ?fd name (client_fed calls) (client', s')" using stream_ok_run [OF start, of calls] assms(2) by simp
  moreover have "drop (cc_sent client') (cc_output client') = []"
    if "0 \<le> cc_socket client'" "chat_client_get_events client' AND CHAT_EVENT_OUTPUT = 0"
    using that by (auto simp: chat_client_get_events_def CHAT_EVENT_INPUT_def CHAT_EVENT_OUTPUT_def split: if_splits)
  ultimately show ?thesis by (auto simp: stream_ok_def split: if_splits)
qed

definition idle_os :: os where
  "idle_os = \<lparr>sends = [], recvs = [], accepts = [], wire = (\<lambda>_. []), open_fds = {}, bad_closes = 0, fresh = (\<lambda>X. Max (insert 2 X) + 1)\<rparr>"

theorem chat_client_stream_witness:
  "(\<exists>client s client' s'.
      chat_client_connect (\<lambda>h p. True) True True ''localhost:80'' (chat_client_new ''ann'', idle_os\<lparr>sends := [Wrote 3, Send_eintr, Wrote 9]\<rparr>) = (CHAT_OK, client, s)
      \<and> client_run [Feed (''hi'' @ newline)] (client, s) = (client', s') \<and> wire s' (cc_socket client) = ''ann'' @ newline @ ''hi'' @ newline)"
proof -
  let ?w = "(chat_client_new ''ann''\<lparr>cc_socket := 3\<rparr>, os_open 3 (idle_os\<lparr>sends := [Wrote 3, Send_eintr, Wrote 9]\<rparr>))"
  have c: "chat_client_connect (\<lambda>h p. True) True True ''localhost:80'' (chat_client_new ''ann'', idle_os\<lparr>sends := [Wrote 3, Send_eintr, Wrote 9]\<rparr>) = (CHAT_OK, ?w)"
    by (simp add: chat_client_connect_def chat_client_new_def next_fd_def idle_os_def)
  obtain c' s' where r: "client_run [Feed (''hi'' @ newline)] ?w = (c', s')" by force
  have "0 \<le> cc_socket c' \<and> chat_client_get_events c' AND CHAT_EVENT_OUTPUT = 0"
    using r [symmetric] by (simp add: client_run_def chat_client_feed_def chat_client_new_def newline_def flush_output_def os_send_def
        os_open_def idle_os_def chat_client_get_events_def CHAT_EVENT_INPUT_def CHAT_EVENT_OUTPUT_def)
  then show ?thesis using c r chat_client_stream [OF c r] by (simp add: announced_def client_fed_def newline_def)
qed

text \<open>
  When the server wrote messages and closed the connection before the client reads, \<open>recv\<close> first
  delivers the bytes and then the end of the stream in one update: the update fails, and the
  messages, though complete lines in the input buffer, are never queued by that or any later call.
\<close>

theorem chat_client_drops_last_messages:
  assumes "0 \<le> cc_socket client" and "recv_loop (recvs s) (cc_input client) = (buf, Closed, rs)" and "ev_in ev" and "\<not> ev_error ev"
  shows "\<exists>client' s'. chat_client_update (Poll_ready ev) (client, s) = (CHAT_ERR_SYS, client', s') \<and> cc_input client' = buf
    \<and> (\<forall>calls. \<exists>n. cc_messages (fst (client_run calls (client', s'))) = drop n (cc_messages client))"
proof -
  let ?c = "client\<lparr>cc_input := buf, cc_socket := -1\<rparr>"
  have "cc_socket (fst (client_run calls (c, t))) = -1 \<and> (\<exists>n. cc_messages (fst (client_run calls (c, t))) = drop n (cc_messages c))"
    if "cc_socket c = -1" for calls c t
    using that
  proof (induction calls arbitrary: c t)
    case Nil
    then show ?case by (auto simp: client_run_def intro: exI [of _ 0])
  next
    case (Cons call calls)
    obtain c1 t1 where s1: "do_call call (c, t) = (c1, t1)" by force
    have "cc_socket c1 = -1 \<and> (\<exists>n. cc_messages c1 = drop n (cc_messages c))"
      using s1 Cons.prems
      by (cases call) (auto simp: chat_client_feed_def chat_client_update_def chat_client_pop_next_def split: list.splits
          intro: exI [of _ 0] exI [of _ 1])
    then obtain n where c1: "cc_socket c1 = -1" and n: "cc_messages c1 = drop n (cc_messages c)" by auto
    obtain k where "cc_messages (fst (client_run calls (c1, t1))) = drop k (cc_messages c1)" using Cons.IH [OF c1] by blast
    then show ?case using Cons.IH [OF c1] s1 n by (auto simp: client_run_def)
  qed
  from this [of ?c] show ?thesis
    using assms by (auto simp: chat_client_update_def client_close_def)
qed

theorem chat_client_drops_last_messages_witness:
  "\<exists>client'. (\<exists>s'. chat_client_update (Poll_ready \<lparr>ev_error = False, ev_in = True, ev_out = False\<rparr>)
      (chat_client_new []\<lparr>cc_socket := 3\<rparr>, idle_os\<lparr>open_fds := {3}, recvs := [Data (''bob: bye'' @ newline), Eof]\<rparr>) = (CHAT_ERR_SYS, client', s'))
    \<and> cc_input client' = ''bob: bye'' @ newline \<and> cc_messages client' = []"
proof -
  let ?c = "chat_client_new []\<lparr>cc_socket := 3\<rparr>"
  let ?s = "idle_os\<lparr>open_fds := {3}, recvs := [Data (''bob: bye'' @ newline), Eof]\<rparr>"
  have "recv_loop (recvs ?s) (cc_input ?c) = (''bob: bye'' @ newline, Closed, [])" by (simp add: chat_client_new_def)
  from chat_client_drops_last_messages [OF _ this, of "\<lparr>ev_error = False, ev_in = True, ev_out = False\<rparr>"]
  obtain client' s' where u: "chat_client_update (Poll_ready \<lparr>ev_error = False, ev_in = True, ev_out = False\<rparr>) (?c, ?s) = (CHAT_ERR_SYS, client', s')"
    and i: "cc_input client' = ''bob: bye'' @ newline"
    and m: "\<forall>calls. \<exists>n. cc_messages (fst (client_run calls (client', s'))) = drop n (cc_messages ?c)"
    by auto
  have "cc_messages client' = []" using m [rule_format, of "[]"] by (auto simp: client_run_def chat_client_new_def)
  then show ?thesis using u i by blast
qed

end
