(* ===== verification/Chat_Server_Inv.thy ===== *)
theory Chat_Server_Inv
  imports Chat_Server Chat_Client_Runs
begin

text \<open>
  The invariant of the chat server and how its functions change the streams of the peers: the
  descriptors it owns are open, distinct and closed once; the buffers and names of the peers are
  well formed; what a peer was sent are complete lines.
\<close>

section \<open>The state of a server\<close>

definition open_peer :: "nat \<Rightarrow> server_world \<Rightarrow> bool" where
  "open_peer j w \<longleftrightarrow> j < length (cs_peers (fst w)) \<and> 0 \<le> cp_socket (peer_of j w)"

text \<open>The bytes peer \<open>j\<close> was sent since it was accepted, those that wait in the buffer included.\<close>

definition out_stream :: "nat \<Rightarrow> server_world \<Rightarrow> bytes" where
  "out_stream j w = wire (snd w) (cp_socket (peer_of j w)) @ drop (cp_sent (peer_of j w)) (cp_output (peer_of j w))"

text \<open>The descriptors a server owns.\<close>

definition server_fds :: "chat_server \<Rightarrow> int list" where
  "server_fds server = filter (\<lambda>fd. 0 \<le> fd) (cs_socket server # cs_epoll server # map cp_socket (cs_peers server))"

text \<open>The system hands out descriptors that are not open.\<close>

definition fresh_ok :: "os \<Rightarrow> bool" where
  "fresh_ok s \<longleftrightarrow> (\<forall>X. finite X \<longrightarrow> fresh s X \<notin> X \<and> 0 \<le> fresh s X)"

definition fds_ok :: "int set \<Rightarrow> server_world \<Rightarrow> bool" where
  "fds_ok base w \<longleftrightarrow>
     finite base \<and> fresh_ok (snd w) \<and> distinct (server_fds (fst w)) \<and> set (server_fds (fst w)) \<inter> base = {}
     \<and> open_fds (snd w) = base \<union> set (server_fds (fst w)) \<and> bad_closes (snd w) = 0"

definition name_ok :: "chat_peer \<Rightarrow> bool" where
  "name_ok p \<longleftrightarrow> (cp_name_received p \<longrightarrow> cp_name p \<noteq> [] \<and> trim (cp_name p) = cp_name p \<and> CHR 0x0A \<notin> set (cp_name p))"

definition sent_ok :: "chat_peer \<Rightarrow> bool" where
  "sent_ok p \<longleftrightarrow> cp_sent p \<le> length (cp_output p)"

definition peers_ok :: "server_world \<Rightarrow> bool" where
  "peers_ok w \<longleftrightarrow> (\<forall>p\<in>set (cs_peers (fst w)). name_ok p \<and> sent_ok p)"

definition streams_ok :: "server_world \<Rightarrow> bool" where
  "streams_ok w \<longleftrightarrow> (\<forall>j. open_peer j w \<longrightarrow> line_end (out_stream j w))"

definition server_ok :: "int set \<Rightarrow> server_world \<Rightarrow> bool" where
  "server_ok base w \<longleftrightarrow> fds_ok base w \<and> peers_ok w \<and> streams_ok w"

text \<open>How the streams of the peers grow, and what sending leaves unchanged.\<close>

definition grows :: "(nat \<Rightarrow> bytes) \<Rightarrow> server_world \<Rightarrow> server_world \<Rightarrow> bool" where
  "grows f w w' \<longleftrightarrow> length (cs_peers (fst w)) \<le> length (cs_peers (fst w'))
     \<and> (\<forall>j < length (cs_peers (fst w)). open_peer j w' \<longrightarrow> open_peer j w \<and> out_stream j w' = out_stream j w @ f j)"

definition core :: "server_world \<Rightarrow> (bytes \<times> bytes \<times> bool) list \<times> chat_message list \<times> bytes \<times> int \<times> int" where
  "core w = (map (\<lambda>p. (cp_input p, cp_name p, cp_name_received p)) (cs_peers (fst w)),
             cs_messages (fst w), cs_input (fst w), cs_socket (fst w), cs_epoll (fst w))"

lemma coreD:
  assumes "core w' = core w"
  shows "length (cs_peers (fst w')) = length (cs_peers (fst w))" and "cs_messages (fst w') = cs_messages (fst w)"
    and "cs_input (fst w') = cs_input (fst w)" and "cs_socket (fst w') = cs_socket (fst w)" and "cs_epoll (fst w') = cs_epoll (fst w)"
    and "j < length (cs_peers (fst w)) \<Longrightarrow> cp_input (peer_of j w') = cp_input (peer_of j w)
           \<and> cp_name (peer_of j w') = cp_name (peer_of j w) \<and> cp_name_received (peer_of j w') = cp_name_received (peer_of j w)"
proof -
  have m: "map (\<lambda>p. (cp_input p, cp_name p, cp_name_received p)) (cs_peers (fst w')) = map (\<lambda>p. (cp_input p, cp_name p, cp_name_received p)) (cs_peers (fst w))"
    using assms by (simp add: core_def)
  show l: "length (cs_peers (fst w')) = length (cs_peers (fst w))" using m by (rule map_eq_imp_length_eq)
  show "cp_input (peer_of j w') = cp_input (peer_of j w) \<and> cp_name (peer_of j w') = cp_name (peer_of j w)
      \<and> cp_name_received (peer_of j w') = cp_name_received (peer_of j w)" if "j < length (cs_peers (fst w))"
    using arg_cong [OF m, of "\<lambda>l. l ! j"] that l by (simp add: peer_of_def)
qed (use assms in \<open>auto simp: core_def\<close>)

lemma grows_refl [simp]: "grows (\<lambda>_. []) w w"
  by (simp add: grows_def)

lemma grows_trans: "grows f w w1 \<Longrightarrow> grows g w1 w2 \<Longrightarrow> grows (\<lambda>j. f j @ g j) w w2"
  unfolding grows_def by (metis append_assoc order.strict_trans2 order.trans)

lemma grows_weaken: "grows f w w' \<Longrightarrow> (\<And>j. j < length (cs_peers (fst w)) \<Longrightarrow> open_peer j w' \<Longrightarrow> g j = f j) \<Longrightarrow> grows g w w'"
  by (simp add: grows_def)

lemma peer_of_simps [simp]:
  "i < length (cs_peers server) \<Longrightarrow> peer_of i (set_peer i p server, s) = p"
  "j \<noteq> i \<Longrightarrow> peer_of j (set_peer i p server, s) = peer_of j (server, s)"
  "cs_messages (set_peer i p server) = cs_messages server" "cs_input (set_peer i p server) = cs_input server"
  "cs_socket (set_peer i p server) = cs_socket server" "cs_epoll (set_peer i p server) = cs_epoll server"
  "length (cs_peers (set_peer i p server)) = length (cs_peers server)"
  by (simp_all add: peer_of_def set_peer_def)

lemma peer_of_os: "peer_of j (server, s) = peer_of j (server, s')"
  by (simp add: peer_of_def)

subsection \<open>Descriptors\<close>

lemma filter_clear:
  fixes xs :: "int list"
  assumes "i < length xs" and "0 \<le> xs ! i" and "distinct (filter (\<lambda>x. 0 \<le> x) xs)"
  shows "distinct (filter (\<lambda>x. 0 \<le> x) (xs[i := -1]))"
    and "set (filter (\<lambda>x. 0 \<le> x) (xs[i := -1])) = set (filter (\<lambda>x. 0 \<le> x) xs) - {xs ! i}"
proof -
  have x: "xs = take i xs @ xs ! i # drop (Suc i) xs" using assms(1) by (rule id_take_nth_drop)
  have u: "xs[i := -1] = take i xs @ (-1) # drop (Suc i) xs" using assms(1) by (rule upd_conv_take_nth_drop)
  have d: "distinct (filter (\<lambda>x. 0 \<le> x) (take i xs @ xs ! i # drop (Suc i) xs))" using assms(3) x by simp
  show "distinct (filter (\<lambda>x. 0 \<le> x) (xs[i := -1]))" unfolding u using d assms(2) by auto
  have "set (filter (\<lambda>x. 0 \<le> x) (take i xs @ (-1) # drop (Suc i) xs))
      = set (filter (\<lambda>x. 0 \<le> x) (take i xs @ xs ! i # drop (Suc i) xs)) - {xs ! i}" using d assms(2) by auto
  then show "set (filter (\<lambda>x. 0 \<le> x) (xs[i := -1])) = set (filter (\<lambda>x. 0 \<le> x) xs) - {xs ! i}"
    using x u by simp
qed

lemma fds_set_peer: "i < length (cs_peers server) \<Longrightarrow> cp_socket p = cp_socket (peer_of i (server, s)) \<Longrightarrow> server_fds (set_peer i p server) = server_fds server"
proof -
  assume i: "i < length (cs_peers server)" and s: "cp_socket p = cp_socket (peer_of i (server, s))"
  have "map cp_socket ((cs_peers server)[i := p]) = map cp_socket (cs_peers server)"
    using i s by (simp add: map_update peer_of_def list_update_same_conv)
  then show ?thesis by (simp add: server_fds_def set_peer_def)
qed

lemma fds_okI_same:
  "fds_ok base w \<Longrightarrow> server_fds (fst w') = server_fds (fst w) \<Longrightarrow> open_fds (snd w') = open_fds (snd w) \<Longrightarrow>
     bad_closes (snd w') = bad_closes (snd w) \<Longrightarrow> fresh (snd w') = fresh (snd w) \<Longrightarrow> fds_ok base w'"
  by (simp add: fds_ok_def fresh_ok_def)

lemma fds_close_peer:
  assumes "fds_ok base w" and "i < length (cs_peers (fst w))"
  shows "fds_ok base (close_peer i w)"
proof (cases "cp_socket (peer_of i w) < 0")
  case False
  let ?xs = "cs_socket (fst w) # cs_epoll (fst w) # map cp_socket (cs_peers (fst w))"
  let ?w = "close_peer i w"
  have w: "?w = (set_peer i ((peer_of i w)\<lparr>cp_socket := -1\<rparr>) (fst w), os_close (cp_socket (peer_of i w)) (snd w))"
    using False by (simp add: close_peer_def Let_def)
  have xi: "Suc (Suc i) < length ?xs" "?xs ! Suc (Suc i) = cp_socket (peer_of i w)" "0 \<le> ?xs ! Suc (Suc i)"
    using assms(2) False by (simp_all add: peer_of_def)
  have f: "server_fds (fst w) = filter (\<lambda>fd. 0 \<le> fd) ?xs" by (simp add: server_fds_def)
  have f': "server_fds (fst ?w) = filter (\<lambda>fd. 0 \<le> fd) (?xs[Suc (Suc i) := -1])"
    by (simp add: w server_fds_def set_peer_def map_update)
  have d: "distinct (filter (\<lambda>fd. 0 \<le> fd) ?xs)" using assms(1) by (simp only: fds_ok_def f)
  note cl = filter_clear [OF xi(1,3) d, folded f f', unfolded xi(2)]
  have m: "cp_socket (peer_of i w) \<in> set (server_fds (fst w))"
    unfolding f xi(2) [symmetric] set_filter using nth_mem [OF xi(1)] xi(3) by blast
  have "open_fds (snd ?w) = open_fds (snd w) - {cp_socket (peer_of i w)}" "bad_closes (snd ?w) = bad_closes (snd w)" "fresh (snd ?w) = fresh (snd w)"
    using assms(1) m by (auto simp: w os_close_def fds_ok_def)
  then show ?thesis using assms(1) cl m by (auto simp: fds_ok_def fresh_ok_def)
qed (use assms in \<open>simp add: close_peer_def\<close>)

text \<open>Two open peers have different sockets.\<close>

lemma sockets_differ:
  assumes "fds_ok base w" and "open_peer i w" and "open_peer j w" and "i \<noteq> j"
  shows "cp_socket (peer_of i w) \<noteq> cp_socket (peer_of j w)"
proof
  assume eq: "cp_socket (peer_of i w) = cp_socket (peer_of j w)"
  let ?P = "\<lambda>fd. (0::int) \<le> fd" and ?ys = "map cp_socket (cs_peers (fst w))"
  have d: "distinct (filter ?P ?ys)" using assms(1) by (simp add: fds_ok_def server_fds_def split: if_splits)
  have i: "i < length ?ys" "?P (?ys ! i)" and j: "j < length ?ys" "?ys ! j = ?ys ! i"
    using assms(2,3) eq by (auto simp: open_peer_def peer_of_def)
  have "?ys[i := -1] ! j = ?ys ! i" using assms(4) j by simp
  moreover have "?ys[i := -1] ! j \<in> set (?ys[i := -1])" by (rule nth_mem) (use j in simp)
  ultimately have "?ys ! i \<in> set (filter ?P (?ys[i := -1]))" using i(2) by (simp only: set_filter mem_Collect_eq)
  then show False using filter_clear(2) [OF i d] by blast
qed

subsection \<open>Sending\<close>

lemma os_close_simps [simp]:
  "recvs (os_close fd s) = recvs s" "accepts (os_close fd s) = accepts s" "fresh (os_close fd s) = fresh s"
  by (simp_all add: os_close_def)

lemma close_peer_core [simp]: "core (close_peer i w) = core w"
proof (cases "i < length (cs_peers (fst w))")
  case True
  then show ?thesis by (auto simp: core_def close_peer_def Let_def set_peer_def map_update peer_of_def list_update_same_conv)
qed (simp add: core_def close_peer_def Let_def set_peer_def list_update_beyond)

lemma open_close_peer: "open_peer j (close_peer i w) \<longleftrightarrow> open_peer j w \<and> j \<noteq> i"
  by (cases w; cases "j = i") (auto simp: open_peer_def close_peer_def Let_def peer_of_def set_peer_def nth_list_update split: if_splits)

lemma peer_close_other: "j \<noteq> i \<Longrightarrow> peer_of j (close_peer i w) = peer_of j w"
  by (cases w) (simp add: close_peer_def Let_def peer_of_def set_peer_def)

lemma os_close_peer [simp]:
  "wire (snd (close_peer i w)) = wire (snd w)" "recvs (snd (close_peer i w)) = recvs (snd w)"
  "accepts (snd (close_peer i w)) = accepts (snd w)" "fresh (snd (close_peer i w)) = fresh (snd w)"
  by (simp_all add: close_peer_def Let_def)

lemma grows_close_peer: "grows (\<lambda>_. []) w (close_peer i w)"
  using coreD(1) [OF close_peer_core [of i w]] by (auto simp: grows_def open_close_peer out_stream_def peer_close_other)

lemma set_peers_close: "p \<in> set (cs_peers (fst (close_peer i w))) \<Longrightarrow> i < length (cs_peers (fst w)) \<Longrightarrow>
   p \<in> set (cs_peers (fst w)) \<or> p = (peer_of i w)\<lparr>cp_socket := -1\<rparr>"
  by (auto simp: close_peer_def Let_def set_peer_def split: if_splits dest: set_update_subset_insert [THEN subsetD])

lemma peers_ok_close:
  assumes "peers_ok w" and "i < length (cs_peers (fst w))"
  shows "peers_ok (close_peer i w)"
proof -
  have "name_ok (peer_of i w) \<and> sent_ok (peer_of i w)" using assms by (simp add: peers_ok_def peer_of_def)
  then have "name_ok p \<and> sent_ok p" if "p \<in> set (cs_peers (fst (close_peer i w)))" for p
    using set_peers_close [OF that assms(2)] assms(1) by (auto simp: peers_ok_def name_ok_def sent_ok_def)
  then show ?thesis by (simp add: peers_ok_def)
qed

lemma peers_ok_set:
  "peers_ok (server, s) \<Longrightarrow> name_ok p \<Longrightarrow> sent_ok p \<Longrightarrow> peers_ok (set_peer i p server, s')"
  by (auto simp: peers_ok_def set_peer_def dest: set_update_subset_insert [THEN subsetD])

lemma peer_ok: "peers_ok w \<Longrightarrow> i < length (cs_peers (fst w)) \<Longrightarrow> name_ok (peer_of i w) \<and> sent_ok (peer_of i w)"
  by (simp add: peers_ok_def peer_of_def)

lemma core_set_peer:
  "cp_input p = cp_input (peer_of i (server, s)) \<Longrightarrow> cp_name p = cp_name (peer_of i (server, s)) \<Longrightarrow>
     cp_name_received p = cp_name_received (peer_of i (server, s)) \<Longrightarrow> core (set_peer i p server, s') = core (server, s)"
proof (cases "i < length (cs_peers server)")
  case True
  assume "cp_input p = cp_input (peer_of i (server, s))" "cp_name p = cp_name (peer_of i (server, s))" "cp_name_received p = cp_name_received (peer_of i (server, s))"
  then show ?thesis using True by (simp add: core_def set_peer_def map_update peer_of_def list_update_same_conv)
qed (simp add: core_def set_peer_def list_update_beyond)

text \<open>What one attempt to send to peer \<open>i\<close> changes.\<close>

lemma flush_peer_output_spec:
  assumes i: "i < length (cs_peers (fst w))" and f: "fds_ok base w" and p: "peers_ok w"
  shows "fds_ok base (snd (flush_peer_output i w))" and "peers_ok (snd (flush_peer_output i w))"
    and "core (snd (flush_peer_output i w)) = core w" and "grows (\<lambda>_. []) w (snd (flush_peer_output i w))"
    and "j \<noteq> i \<Longrightarrow> peer_of j (snd (flush_peer_output i w)) = peer_of j w"
    and "recvs (snd (snd (flush_peer_output i w))) = recvs (snd w)" and "accepts (snd (snd (flush_peer_output i w))) = accepts (snd w)"
proof -
  obtain server s where w: "w = (server, s)" by force
  let ?p = "peer_of i w" and ?w' = "snd (flush_peer_output i w)"
  have "fds_ok base ?w' \<and> peers_ok ?w' \<and> core ?w' = core w \<and> grows (\<lambda>_. []) w ?w' \<and> (j \<noteq> i \<longrightarrow> peer_of j ?w' = peer_of j w)
      \<and> recvs (snd ?w') = recvs s \<and> accepts (snd ?w') = accepts s" for j
  proof (cases "cp_socket ?p < 0")
    case True
    then show ?thesis using f p by (simp add: flush_peer_output_def w)
  next
    case False
    obtain sent r s1 where o: "os_send (cp_socket ?p) (cp_output ?p) (cp_sent ?p) s = (sent, r, s1)"
      by (cases "os_send (cp_socket ?p) (cp_output ?p) (cp_sent ?p) s") auto
    have ok: "name_ok ?p" "cp_sent ?p \<le> length (cp_output ?p)" using peer_ok [OF p i] by (auto simp: sent_ok_def)
    note sp = os_send_spec [OF ok(2) o]
    have opn: "open_peer i w" using False i by (simp add: open_peer_def)
    have step: "fds_ok base (set_peer i q server, s1) \<and> peers_ok (set_peer i q server, s1) \<and> core (set_peer i q server, s1) = core w
        \<and> grows (\<lambda>_. []) w (set_peer i q server, s1) \<and> (\<forall>j. j \<noteq> i \<longrightarrow> peer_of j (set_peer i q server, s1) = peer_of j w)"
      if q: "cp_socket q = cp_socket ?p" "cp_input q = cp_input ?p" "cp_name q = cp_name ?p" "cp_name_received q = cp_name_received ?p"
        and sq: "cp_sent q \<le> length (cp_output q)" "drop (cp_sent q) (cp_output q) = drop sent (cp_output ?p)" for q
    proof (intro conjI allI impI)
      show "fds_ok base (set_peer i q server, s1)"
        by (rule fds_okI_same [OF f]) (use i q sp in \<open>simp_all add: w fds_set_peer [where s = s]\<close>)
      show "peers_ok (set_peer i q server, s1)" using p ok q sq by (auto simp: w name_ok_def sent_ok_def intro!: peers_ok_set)
      show "core (set_peer i q server, s1) = core w" unfolding w by (rule core_set_peer) (use q in \<open>simp_all add: w\<close>)
      show "grows (\<lambda>_. []) w (set_peer i q server, s1)"
        unfolding grows_def
      proof (intro conjI allI impI)
        fix j assume j: "j < length (cs_peers (fst w))" "open_peer j (set_peer i q server, s1)"
        show "open_peer j w" using j q opn by (cases "j = i") (auto simp: open_peer_def w peer_of_os [of _ server s s1])
        then show "out_stream j (set_peer i q server, s1) = out_stream j w @ []"
          using i q sq sp sockets_differ [OF f opn, of j]
          by (cases "j = i") (auto simp: out_stream_def w peer_of_os [of _ server s s1])
      qed (simp add: w)
      show "peer_of j (set_peer i q server, s1) = peer_of j w" if "j \<noteq> i" for j using that by (simp add: w peer_of_def set_peer_def)
    qed
    show ?thesis
    proof (cases r)
      case Broken
      define v where "v = (set_peer i (?p\<lparr>cp_sent := sent\<rparr>) server, s1)"
      have w': "?w' = close_peer i v" using False o Broken by (simp add: flush_peer_output_def w v_def Let_def)
      have v: "fds_ok base v \<and> peers_ok v \<and> core v = core w \<and> grows (\<lambda>_. []) w v \<and> (\<forall>j. j \<noteq> i \<longrightarrow> peer_of j v = peer_of j w)"
        unfolding v_def by (rule step) (use sp in auto)
      have iv: "i < length (cs_peers (fst v))" using i by (simp add: v_def w)
      have "grows (\<lambda>_. []) w (close_peer i v)" using grows_trans [OF _ grows_close_peer, of _ w v i] v by force
      moreover have "recvs (snd v) = recvs s" "accepts (snd v) = accepts s" using sp by (simp_all add: v_def)
      ultimately show ?thesis unfolding w' using v fds_close_peer [OF _ iv] peers_ok_close [OF _ iv]
        by (simp add: peer_close_other)
    next
      case Blocked
      then show ?thesis using False o step [of "?p\<lparr>cp_sent := sent\<rparr>"] sp by (simp add: flush_peer_output_def w Let_def)
    next
      case Flushed
      then show ?thesis using False o step [of "?p\<lparr>cp_output := [], cp_sent := 0\<rparr>"] sp by (simp add: flush_peer_output_def w Let_def)
    qed
  qed
  then show "fds_ok base ?w'" "peers_ok ?w'" "core ?w' = core w" "grows (\<lambda>_. []) w ?w'" "j \<noteq> i \<Longrightarrow> peer_of j ?w' = peer_of j w"
    "recvs (snd ?w') = recvs (snd w)" "accepts (snd ?w') = accepts (snd w)" by (auto simp: w)
qed

lemma grows_append_output:
  assumes i: "i < length (cs_peers server)" and sent: "cp_sent (peer_of i (server, s)) \<le> length (cp_output (peer_of i (server, s)))"
  shows "grows (\<lambda>j. if j = i then txt else []) (server, s)
    (set_peer i ((peer_of i (server, s))\<lparr>cp_output := cp_output (peer_of i (server, s)) @ txt\<rparr>) server, s)"
  using assms by (auto simp: grows_def open_peer_def out_stream_def peer_of_def set_peer_def nth_list_update)

lemma send_to_peer_spec:
  assumes i: "i < length (cs_peers (fst w))" and f: "fds_ok base w" and p: "peers_ok w"
  shows "fds_ok base (send_to_peer txt i w)" and "peers_ok (send_to_peer txt i w)" and "core (send_to_peer txt i w) = core w"
    and "grows (\<lambda>j. if j = i then txt else []) w (send_to_peer txt i w)"
    and "j \<noteq> i \<Longrightarrow> peer_of j (send_to_peer txt i w) = peer_of j w"
    and "recvs (snd (send_to_peer txt i w)) = recvs (snd w)" and "accepts (snd (send_to_peer txt i w)) = accepts (snd w)"
proof -
  obtain server s where w: "w = (server, s)" by force
  let ?p = "peer_of i w"
  let ?w1 = "(set_peer i (?p\<lparr>cp_output := cp_output ?p @ txt\<rparr>) server, s)"
  have i': "i < length (cs_peers (fst ?w1))" using i by (simp add: w)
  have pk: "name_ok ?p" "sent_ok ?p" using peer_ok [OF p i] by auto
  have f1: "fds_ok base ?w1" by (rule fds_okI_same [OF f]) (use i in \<open>simp_all add: w fds_set_peer [where s = s]\<close>)
  have p1: "peers_ok ?w1" using p pk by (auto simp: w name_ok_def sent_ok_def intro!: peers_ok_set)
  have c1: "core ?w1 = core w" unfolding w by (rule core_set_peer) simp_all
  have g1: "grows (\<lambda>j. if j = i then txt else []) w ?w1"
    using grows_append_output [of i server s "txt"] i pk by (simp add: w sent_ok_def)
  note fl = flush_peer_output_spec [OF i' f1 p1]
  have w': "send_to_peer txt i w = snd (flush_peer_output i ?w1)" by (simp add: send_to_peer_def w Let_def)
  have "grows (\<lambda>j. (if j = i then txt else []) @ []) w (send_to_peer txt i w)" unfolding w' by (rule grows_trans [OF g1 fl(4)])
  then show "grows (\<lambda>j. if j = i then txt else []) w (send_to_peer txt i w)" by simp
  show "j \<noteq> i \<Longrightarrow> peer_of j (send_to_peer txt i w) = peer_of j w" using fl(5) unfolding w' by (simp add: w)
  show "fds_ok base (send_to_peer txt i w)" "peers_ok (send_to_peer txt i w)" "core (send_to_peer txt i w) = core w"
    "recvs (snd (send_to_peer txt i w)) = recvs (snd w)" "accepts (snd (send_to_peer txt i w)) = accepts (snd w)"
    using fl c1 unfolding w' by (simp_all add: w)
qed

text \<open>The state of a server and the frame of the functions that only send.\<close>

definition sends_only :: "int set \<Rightarrow> server_world \<Rightarrow> server_world \<Rightarrow> bool" where
  "sends_only base w w' \<longleftrightarrow> fds_ok base w' \<and> peers_ok w' \<and> core w' = core w \<and> recvs (snd w') = recvs (snd w) \<and> accepts (snd w') = accepts (snd w)"

lemma broadcast_spec:
  assumes "\<forall>i\<in>set is. i < length (cs_peers (fst w))" and "distinct is" and "fds_ok base w" and "peers_ok w"
  shows "sends_only base w (broadcast txt from is w)
    \<and> grows (\<lambda>j. if j \<in> set is \<and> from \<noteq> Some j then txt else []) w (broadcast txt from is w)
    \<and> (\<forall>j. from = Some j \<longrightarrow> peer_of j (broadcast txt from is w) = peer_of j w)"
  using assms
proof (induction "is" arbitrary: w)
  case (Cons i js)
  have i: "i < length (cs_peers (fst w))" using Cons.prems by simp
  show ?case
  proof (cases "cp_socket (peer_of i w) < 0 \<or> from = Some i")
    case True
    have IH: "sends_only base w (broadcast txt from js w)
      \<and> grows (\<lambda>j. if j \<in> set js \<and> from \<noteq> Some j then txt else []) w (broadcast txt from js w)
      \<and> (\<forall>j. from = Some j \<longrightarrow> peer_of j (broadcast txt from js w) = peer_of j w)" using Cons by simp
    have "grows (\<lambda>j. if j \<in> set (i # js) \<and> from \<noteq> Some j then txt else []) w (broadcast txt from js w)"
      using IH True by (auto simp: grows_def open_peer_def)
    then show ?thesis using True IH by (auto simp del: list.set)
  next
    case False
    let ?w1 = "send_to_peer txt i w"
    note sp = send_to_peer_spec [OF i Cons.prems(3,4)]
    have l: "length (cs_peers (fst ?w1)) = length (cs_peers (fst w))" using coreD(1) [OF sp(3)] .
    have IH: "sends_only base ?w1 (broadcast txt from js ?w1)
      \<and> grows (\<lambda>j. if j \<in> set js \<and> from \<noteq> Some j then txt else []) ?w1 (broadcast txt from js ?w1)
      \<and> (\<forall>j. from = Some j \<longrightarrow> peer_of j (broadcast txt from js ?w1) = peer_of j ?w1)"
      by (rule Cons.IH) (use Cons.prems sp l in auto)
    have "grows (\<lambda>j. (if j = i then txt else []) @ (if j \<in> set js \<and> from \<noteq> Some j then txt else [])) w (broadcast txt from js ?w1)"
      using grows_trans [OF sp(4)] IH by blast
    then have "grows (\<lambda>j. if j \<in> set (i # js) \<and> from \<noteq> Some j then txt else []) w (broadcast txt from js ?w1)"
      by (rule grows_weaken) (use Cons.prems(2) False in auto)
    then show ?thesis using False IH sp by (auto simp: sends_only_def)
  qed
qed (simp add: sends_only_def)

lemma broadcast_all_spec:
  assumes "fds_ok base w" and "peers_ok w"
  shows "sends_only base w (broadcast_all txt from w)"
    and "grows (\<lambda>j. if from \<noteq> Some j then txt else []) w (broadcast_all txt from w)"
    and "from = Some j \<Longrightarrow> peer_of j (broadcast_all txt from w) = peer_of j w"
proof -
  note b = broadcast_spec [of "[0..<length (cs_peers (fst w))]" w base "txt" "from"]
  show "sends_only base w (broadcast_all txt from w)" "from = Some j \<Longrightarrow> peer_of j (broadcast_all txt from w) = peer_of j w"
    using b assms by (simp_all add: broadcast_all_def)
  have "grows (\<lambda>j. if j \<in> set [0..<length (cs_peers (fst w))] \<and> from \<noteq> Some j then txt else []) w (broadcast_all txt from w)"
    using b assms by (simp add: broadcast_all_def)
  then show "grows (\<lambda>j. if from \<noteq> Some j then txt else []) w (broadcast_all txt from w)"
    by (rule grows_weaken) simp
qed

subsection \<open>The lines of a peer\<close>

text \<open>The texts of a peer that has no name yet start with its name.\<close>

definition spoken :: "chat_peer \<Rightarrow> bytes list \<Rightarrow> chat_message list" where
  "spoken p ts =
     (if cp_name_received p then map (\<lambda>t. \<lparr>author = cp_name p, msg_data = t\<rparr>) ts
      else case ts of [] \<Rightarrow> [] | name # ts' \<Rightarrow> map (\<lambda>t. \<lparr>author = name, msg_data = t\<rparr>) ts')"

definition named :: "chat_peer \<Rightarrow> bytes list \<Rightarrow> chat_peer" where
  "named p ts = (if cp_name_received p \<or> ts = [] then p else p\<lparr>cp_name := hd ts, cp_name_received := True\<rparr>)"

text \<open>A name, once received, stays.\<close>

definition keeps_names :: "server_world \<Rightarrow> server_world \<Rightarrow> bool" where
  "keeps_names w w' \<longleftrightarrow> (\<forall>i < length (cs_peers (fst w)). cp_name_received (peer_of i w) \<longrightarrow>
     cp_name_received (peer_of i w') \<and> cp_name (peer_of i w') = cp_name (peer_of i w))"

lemma keeps_names_trans:
  "keeps_names w w1 \<Longrightarrow> keeps_names w1 w2 \<Longrightarrow> length (cs_peers (fst w)) \<le> length (cs_peers (fst w1)) \<Longrightarrow> keeps_names w w2"
  by (simp add: keeps_names_def)

lemma keeps_names_core: "core w' = core w \<Longrightarrow> keeps_names w w'"
  using coreD(6) [of w' w] by (simp add: keeps_names_def)

text \<open>The messages \<open>ms\<close> are queued and sent to everyone but \<open>from\<close>.\<close>

definition says :: "chat_message list \<Rightarrow> nat option \<Rightarrow> server_world \<Rightarrow> server_world \<Rightarrow> bool" where
  "says ms from w w' \<longleftrightarrow>
     cs_messages (fst w') = cs_messages (fst w) @ ms \<and> grows (\<lambda>j. if from = Some j then [] else message_stream ms) w w'
     \<and> length (cs_peers (fst w')) = length (cs_peers (fst w)) \<and> cs_socket (fst w') = cs_socket (fst w)
     \<and> cs_epoll (fst w') = cs_epoll (fst w) \<and> cs_input (fst w') = cs_input (fst w)
     \<and> recvs (snd w') = recvs (snd w) \<and> accepts (snd w') = accepts (snd w) \<and> keeps_names w w'"

lemma says_trans: "says ms from w w1 \<Longrightarrow> says ns from w1 w2 \<Longrightarrow> says (ms @ ns) from w w2"
proof -
  assume a: "says ms from w w1" and b: "says ns from w1 w2"
  have "grows (\<lambda>j. (if from = Some j then [] else message_stream ms) @ (if from = Some j then [] else message_stream ns)) w w2"
    using a b grows_trans unfolding says_def by blast
  moreover have "(\<lambda>j. (if from = Some j then [] else message_stream ms) @ (if from = Some j then [] else message_stream ns))
     = (\<lambda>j. if from = Some j then [] else message_stream (ms @ ns))" by auto
  moreover have "keeps_names w w2" using a b keeps_names_trans [of w w1 w2] by (simp add: says_def)
  ultimately show ?thesis using a b by (simp add: says_def)
qed

lemma says_refl: "says [] from w w"
  by (simp add: says_def keeps_names_def cong: if_cong)

text \<open>Messages the server may send: the name is never empty; the separator may still occur in it.\<close>

definition plain :: "bytes \<Rightarrow> bool" where
  "plain t \<longleftrightarrow> t \<noteq> [] \<and> trim t = t \<and> CHR 0x0A \<notin> set t"

definition message_ok :: "chat_message \<Rightarrow> bool" where
  "message_ok m \<longleftrightarrow> plain (author m) \<and> plain (msg_data m)"

lemma name_ok_plain: "name_ok p \<longleftrightarrow> (cp_name_received p \<longrightarrow> plain (cp_name p))"
  by (simp add: name_ok_def plain_def)

lemma broadcast_message:
  assumes f: "fds_ok base w" and p: "peers_ok w"
    and w': "w' = broadcast_all (message_line m @ newline) from ((fst w)\<lparr>cs_messages := cs_messages (fst w) @ [m]\<rparr>, snd w)"
  shows "fds_ok base w' \<and> peers_ok w' \<and> says [m] from w w' \<and> (\<forall>j. from = Some j \<longrightarrow> peer_of j w' = peer_of j w)
    \<and> (\<forall>j < length (cs_peers (fst w)). cp_input (peer_of j w') = cp_input (peer_of j w)
          \<and> cp_name (peer_of j w') = cp_name (peer_of j w) \<and> cp_name_received (peer_of j w') = cp_name_received (peer_of j w))"
proof -
  let ?w1 = "((fst w)\<lparr>cs_messages := cs_messages (fst w) @ [m]\<rparr>, snd w)"
  have f1: "fds_ok base ?w1" by (rule fds_okI_same [OF f]) (simp_all add: server_fds_def)
  have p1: "peers_ok ?w1" using p by (simp add: peers_ok_def)
  note b = broadcast_all_spec [OF f1 p1, where ?txt = "message_line m @ newline" and ?from = "from", folded w']
  have c: "core w' = core ?w1" using b(1) by (simp add: sends_only_def)
  have "grows (\<lambda>j. if from = Some j then [] else message_stream [m]) ?w1 w'" using b(2) by (rule grows_weaken) simp
  moreover have "grows g ?w1 w' = grows g w w'" for g by (simp add: grows_def open_peer_def out_stream_def peer_of_def)
  moreover have pe: "peer_of j ?w1 = peer_of j w" for j by (simp add: peer_of_def)
  ultimately show ?thesis using b(1,3) coreD [OF c] by (auto simp: says_def sends_only_def keeps_names_def)
qed

lemma spoken_append: "spoken p (ts @ us) = spoken p ts @ spoken (named p ts) us"
  by (cases ts) (auto simp: spoken_def named_def)

lemma named_append: "named p (ts @ us) = named (named p ts) us"
  by (cases ts) (auto simp: named_def)

lemma named_simps [simp]:
  "cp_socket (named p ts) = cp_socket p" "cp_input (named p ts) = cp_input p" "cp_output (named p ts) = cp_output p"
  "cp_sent (named p ts) = cp_sent p" "named p [] = p" "spoken p [] = []"
  by (simp_all add: named_def spoken_def)

lemma chat_texts_plain: "t \<in> set (chat_texts s) \<Longrightarrow> plain t"
proof -
  have "\<forall>l\<in>set (fst (text_lines s)). CHR 0x0A \<notin> set l"
  proof (induction s rule: length_induct)
    case (1 s)
    show ?case
    proof (cases "extract_message s")
      case (Some p)
      obtain m r where p: "p = (m, r)" by force
      then have "text_lines s = (m # fst (text_lines r), snd (text_lines r))" "CHR 0x0A \<notin> set m" "length r < length s"
        using Some extract_shrinks [of s m r] by (simp_all add: text_lines_unfold [of s] extract_Some [THEN iffD1])
      then show ?thesis using 1 by simp
    qed (subst text_lines_unfold, simp)
  qed
  moreover assume "t \<in> set (chat_texts s)"
  ultimately obtain l where "t = trim l" "t \<noteq> []" "CHR 0x0A \<notin> set l" by (auto simp: chat_texts_def)
  then show "plain t" using set_trim [of l] by (auto simp: plain_def)
qed

lemma spoken_ok: "name_ok p \<Longrightarrow> \<forall>t\<in>set ts. plain t \<Longrightarrow> m \<in> set (spoken p ts) \<Longrightarrow> message_ok m"
  by (cases ts) (auto simp: spoken_def name_ok_plain message_ok_def split: if_splits)

text \<open>Nothing but the data of peer \<open>i\<close> that is not about its socket changes.\<close>

lemma set_peer_quiet:
  assumes i: "i < length (cs_peers (fst w))" and f: "fds_ok base w" and p: "peers_ok w"
    and q: "cp_socket q = cp_socket (peer_of i w)" "cp_output q = cp_output (peer_of i w)" "cp_sent q = cp_sent (peer_of i w)" "name_ok q"
      "cp_name_received (peer_of i w) \<Longrightarrow> cp_name_received q \<and> cp_name q = cp_name (peer_of i w)"
  shows "fds_ok base (set_peer i q (fst w), snd w) \<and> peers_ok (set_peer i q (fst w), snd w) \<and> says [] from w (set_peer i q (fst w), snd w)"
proof (intro conjI)
  obtain server s where w: "w = (server, s)" by force
  show "fds_ok base (set_peer i q (fst w), snd w)"
    by (rule fds_okI_same [OF f]) (use i q in \<open>simp_all add: w fds_set_peer [where s = s]\<close>)
  show "peers_ok (set_peer i q (fst w), snd w)"
    using p q peer_ok [OF p i] by (auto simp: w sent_ok_def intro!: peers_ok_set)
  have "open_peer j (set_peer i q server, s) = open_peer j w \<and> out_stream j (set_peer i q server, s) = out_stream j w" for j
    using i q by (cases "j = i") (auto simp: w open_peer_def out_stream_def)
  moreover have "keeps_names w (set_peer i q (fst w), snd w)"
    using i q by (auto simp: keeps_names_def w peer_of_def set_peer_def nth_list_update)
  ultimately show "says [] from w (set_peer i q (fst w), snd w)" by (auto simp: says_def grows_def w)
qed

lemma peer_line_spec:
  assumes i: "i < length (cs_peers (fst w))" and f: "fds_ok base w" and p: "peers_ok w" and line: "CHR 0x0A \<notin> set line"
    and ts: "ts = filter (\<lambda>l. l \<noteq> []) [trim line]"
  shows "fds_ok base (snd (peer_line i line w)) \<and> peers_ok (snd (peer_line i line w))
    \<and> says (spoken (peer_of i w) ts) (Some i) w (snd (peer_line i line w)) \<and> peer_of i (snd (peer_line i line w)) = named (peer_of i w) ts"
proof (cases "trim line = []")
  case True
  then show ?thesis using f p by (simp add: ts peer_line_def says_refl)
next
  case False
  let ?p = "peer_of i w"
  have t: "plain (trim line)" using False line set_trim [of line] by (auto simp: plain_def)
  show ?thesis
  proof (cases "cp_name_received ?p")
    case nr: True
    then have "cp_name ?p \<noteq> []" using peer_ok [OF p i] by (simp add: name_ok_def)
    let ?m = "\<lparr>author = cp_name ?p, msg_data = trim line\<rparr>"
    have fm: "full_msg ?p (trim line) = message_line ?m @ newline" using nr \<open>cp_name ?p \<noteq> []\<close> by (simp add: full_msg_def message_line_def)
    let ?w' = "snd (peer_line i line w)"
    have "?w' = broadcast_all (message_line ?m @ newline) (Some i) ((fst w)\<lparr>cs_messages := cs_messages (fst w) @ [?m]\<rparr>, snd w)"
      using nr False by (simp add: peer_line_def Let_def fm)
    note b = broadcast_message [OF f p this]
    show ?thesis using b nr False by (simp add: ts spoken_def named_def)
  next
    case nr: False
    let ?q = "?p\<lparr>cp_name := trim line, cp_name_received := True\<rparr>"
    have "name_ok ?q" using t by (simp add: name_ok_plain)
    then show ?thesis using set_peer_quiet [OF i f p, of ?q "Some i"] nr False i
      by (cases w) (simp add: ts peer_line_def Let_def spoken_def named_def)
  qed
qed

lemma peer_lines_spec:
  assumes i: "i < length (cs_peers (fst w))" and f: "fds_ok base w" and p: "peers_ok w"
    and "peer_lines i buf (pr, w) = (rest, pr', w')"
  shows "rest = snd (text_lines buf) \<and> fds_ok base w' \<and> peers_ok w'
    \<and> says (spoken (peer_of i w) (chat_texts buf)) (Some i) w w' \<and> peer_of i w' = named (peer_of i w) (chat_texts buf)"
  using assms
proof (induction i buf "(pr, w)" arbitrary: pr w rule: peer_lines.induct)
  case (1 i buf pr w)
  show ?case
  proof (cases "extract_message buf")
    case None
    then have t: "text_lines buf = ([], buf)" by (subst text_lines_unfold) simp
    then show ?thesis using 1(2-5) None
      by (simp add: peer_lines.simps [of i buf] chat_texts_def says_refl)
  next
    case (Some lr)
    obtain line rest1 where lr: "lr = (line, rest1)" by force
    have nl: "CHR 0x0A \<notin> set line" using Some lr by (simp add: extract_Some)
    obtain pr1 w1 where pl: "peer_line i line w = (pr1, w1)" by (cases "peer_line i line w") auto
    define ts where "ts = filter (\<lambda>l. l \<noteq> []) [trim line]"
    have sp: "fds_ok base w1 \<and> peers_ok w1 \<and> says (spoken (peer_of i w) ts) (Some i) w w1 \<and> peer_of i w1 = named (peer_of i w) ts"
      using peer_line_spec [OF 1(2,3,4) nl ts_def] pl by simp
    have tx: "chat_texts buf = ts @ chat_texts rest1" "snd (text_lines buf) = snd (text_lines rest1)"
      using Some lr by (simp_all add: chat_texts_def text_lines_unfold [of buf] ts_def)
    have l1: "i < length (cs_peers (fst w1))" using sp 1(2) by (simp add: says_def)
    have pls: "peer_lines i rest1 (pr \<or> pr1, w1) = (rest, pr', w')"
      using 1(5) Some lr pl by (simp add: peer_lines.simps [of i buf])
    have IH: "rest = snd (text_lines rest1) \<and> fds_ok base w' \<and> peers_ok w'
      \<and> says (spoken (peer_of i w1) (chat_texts rest1)) (Some i) w1 w' \<and> peer_of i w' = named (peer_of i w1) (chat_texts rest1)"
      using 1(1) [OF Some lr [symmetric], of "(pr1, w1)" pr1 w1] pl sp l1 pls by simp
    moreover from IH sp have "says (spoken (peer_of i w) ts @ spoken (peer_of i w1) (chat_texts rest1)) (Some i) w w'"
      using says_trans by blast
    ultimately show ?thesis using sp by (simp add: tx spoken_append named_append)
  qed
qed

lemma recv_loop_data: "recv_loop rs buf = (buf', r, rs') \<Longrightarrow> \<exists>d. buf' = buf @ d"
  by (induction rs buf rule: recv_loop.induct) (auto split: recv_result.splits if_splits)

lemma peer_input_spec:
  assumes i: "i < length (cs_peers (fst w))" and f: "fds_ok base w" and p: "peers_ok w"
    and r: "recv_loop (recvs (snd w)) (cp_input (peer_of i w)) = (buf, r, rs)"
    and u: "peer_input i w = (err, pr, w')"
  shows "fds_ok base w' \<and> peers_ok w' \<and> (err = (if r = Failed then Some CHAT_ERR_SYS else None))
    \<and> says (if r = Failed then [] else spoken (peer_of i w) (chat_texts buf)) (Some i) (fst w, (snd w)\<lparr>recvs := rs\<rparr>) w'
    \<and> cp_input (peer_of i w') = (if r = Failed then buf else snd (text_lines buf))
    \<and> (r = Failed \<or> cp_name (peer_of i w') = cp_name (named (peer_of i w) (chat_texts buf))
           \<and> cp_name_received (peer_of i w') = cp_name_received (named (peer_of i w) (chat_texts buf)))"
proof -
  let ?p = "peer_of i w"
  let ?w0 = "(fst w, (snd w)\<lparr>recvs := rs\<rparr>)"
  define w1 where "w1 = (set_peer i (?p\<lparr>cp_input := buf\<rparr>) (fst w), (snd w)\<lparr>recvs := rs\<rparr>)"
  have pe: "peer_of j ?w0 = peer_of j w" for j by (simp add: peer_of_def)
  have f0: "fds_ok base ?w0" by (rule fds_okI_same [OF f]) simp_all
  have p0: "peers_ok ?w0" using p by (simp add: peers_ok_def)
  have "name_ok (?p\<lparr>cp_input := buf\<rparr>)" using peer_ok [OF p i] by (simp add: name_ok_def)
  then have w1: "fds_ok base w1 \<and> peers_ok w1 \<and> says [] (Some i) ?w0 w1"
    using set_peer_quiet [of i ?w0 base "?p\<lparr>cp_input := buf\<rparr>" "Some i"] i f0 p0 by (simp add: pe w1_def)
  have i1: "i < length (cs_peers (fst w1))" using i by (simp add: w1_def)
  have p1: "peer_of i w1 = ?p\<lparr>cp_input := buf\<rparr>" using i by (simp add: w1_def)
  show ?thesis
  proof (cases "r = Failed")
    case True
    then show ?thesis using u r w1 p1 by (auto simp: peer_input_def Let_def w1_def [symmetric])
  next
    case False
    define w2 where "w2 = (if r = Closed then close_peer i w1 else w1)"
    have cl: "core (close_peer i w1) = core w1" by simp
    have w2: "fds_ok base w2 \<and> peers_ok w2 \<and> says [] (Some i) w1 w2"
      using w1 i1 fds_close_peer [of base w1 i] peers_ok_close [of w1 i] coreD(1-5) [OF cl] grows_close_peer [of w1 i] keeps_names_core [OF cl]
      by (auto simp: w2_def says_def keeps_names_def cong: if_cong)
    have i2: "i < length (cs_peers (fst w2))" using w2 i1 by (simp add: says_def)
    have p2: "cp_input (peer_of i w2) = buf \<and> cp_name (peer_of i w2) = cp_name ?p \<and> cp_name_received (peer_of i w2) = cp_name_received ?p"
      using coreD(6) [OF cl i1] p1 by (simp add: w2_def)
    obtain rest pr' w3 where pl: "peer_lines i buf (r = Closed \<or> buf \<noteq> cp_input ?p, w2) = (rest, pr', w3)" by (cases "peer_lines i buf (r = Closed \<or> buf \<noteq> cp_input ?p, w2)") auto
    note sp = peer_lines_spec [OF i2 _ _ pl, of base]
    have w3: "rest = snd (text_lines buf) \<and> fds_ok base w3 \<and> peers_ok w3
      \<and> says (spoken (peer_of i w2) (chat_texts buf)) (Some i) w2 w3 \<and> peer_of i w3 = named (peer_of i w2) (chat_texts buf)"
      using sp w2 by blast
    have i3: "i < length (cs_peers (fst w3))" using w3 i2 by (simp add: says_def)
    have w': "w' = (set_peer i ((peer_of i w3)\<lparr>cp_input := rest\<rparr>) (fst w3), snd w3)" and e: "err = None"
      using u r False pl by (auto simp: peer_input_def Let_def w1_def [symmetric] w2_def split: if_splits)
    have "name_ok ((peer_of i w3)\<lparr>cp_input := rest\<rparr>)" using peer_ok [OF _ i3] w3 by (simp add: name_ok_def)
    then have w4: "fds_ok base w' \<and> peers_ok w' \<and> says [] (Some i) w3 w'"
      using set_peer_quiet [OF i3, of base "(peer_of i w3)\<lparr>cp_input := rest\<rparr>" "Some i"] w3 by (simp add: w')
    have "says ([] @ [] @ spoken (peer_of i w2) (chat_texts buf) @ []) (Some i) ?w0 w'"
      using w1 w2 w3 w4 says_trans by blast
    moreover have "spoken (peer_of i w2) ts = spoken ?p ts" for ts using p2 by (simp add: spoken_def cong: list.case_cong)
    moreover have "peer_of i w' = (peer_of i w3)\<lparr>cp_input := rest\<rparr>" using i3 by (simp add: w')
    ultimately show ?thesis using w4 w3 e False p2 by (simp add: named_def)
  qed
qed

end
