(* ===== verification/Chat_Server_Runs.thy ===== *)
theory Chat_Server_Runs
  imports Chat_Server_Inv
begin

text \<open>
  Runs of the chat server: every function keeps the invariant, and the messages that are queued
  are told, in order and once, to every connected peer but the one they come from. With the clients'
  side of the protocol this gives the delivery of the messages from end to end.
\<close>

text \<open>What happens to the streams while the messages \<open>ms\<close>, each with the peer it comes from, are queued.\<close>

type_synonym tagged = "nat option \<times> chat_message"

definition heard_by :: "nat \<Rightarrow> tagged list \<Rightarrow> chat_message list" where
  "heard_by j ms = map snd (filter (\<lambda>t. fst t \<noteq> Some j) ms)"

definition tag_ok :: "server_world \<Rightarrow> tagged \<Rightarrow> bool" where
  "tag_ok w t \<longleftrightarrow>
     (case fst t of
        None \<Rightarrow> author (snd t) = ''server''
      | Some i \<Rightarrow> i < length (cs_peers (fst w)) \<and> cp_name_received (peer_of i w) \<and> cp_name (peer_of i w) = author (snd t))"

definition tells :: "tagged list \<Rightarrow> server_world \<Rightarrow> server_world \<Rightarrow> bool" where
  "tells ms w w' \<longleftrightarrow> cs_messages (fst w') = cs_messages (fst w) @ map snd ms
     \<and> grows (\<lambda>j. message_stream (heard_by j ms)) w w' \<and> (\<forall>t\<in>set ms. message_ok (snd t) \<and> tag_ok w' t)
     \<and> keeps_names w w' \<and> length (cs_peers (fst w)) \<le> length (cs_peers (fst w'))"

definition halves_ok :: "chat_server \<Rightarrow> bool" where
  "halves_ok server \<longleftrightarrow> (0 \<le> cs_socket server \<longleftrightarrow> 0 \<le> cs_epoll server)"

definition chat_server_ok :: "int set \<Rightarrow> server_world \<Rightarrow> bool" where
  "chat_server_ok base w \<longleftrightarrow> fds_ok base w \<and> peers_ok w \<and> streams_ok w \<and> halves_ok (fst w)"

lemma heard_by_append [simp]: "heard_by j (ms @ ns) = heard_by j ms @ heard_by j ns"
  by (simp add: heard_by_def)

lemma heard_by_Nil [simp]: "heard_by j [] = []"
  by (simp add: heard_by_def)

lemma heard_by_tag: "heard_by j (map (Pair from) ms) = (if from = Some j then [] else ms)"
  by (simp add: heard_by_def filter_map o_def)

lemma tag_ok_keeps: "tag_ok w t \<Longrightarrow> keeps_names w w' \<Longrightarrow> length (cs_peers (fst w)) \<le> length (cs_peers (fst w')) \<Longrightarrow> tag_ok w' t"
  by (auto simp: tag_ok_def keeps_names_def split: option.splits)

lemma tells_trans: "tells ms w w1 \<Longrightarrow> tells ns w1 w2 \<Longrightarrow> tells (ms @ ns) w w2"
  using grows_trans [of "\<lambda>j. message_stream (heard_by j ms)" w w1 "\<lambda>j. message_stream (heard_by j ns)" w2] keeps_names_trans [of w w1 w2] tag_ok_keeps [of w1 _ w2]
  by (auto simp: tells_def)

lemma tells_refl: "tells [] w w"
  by (simp add: tells_def keeps_names_def)

lemma message_line_clean: "message_ok m \<Longrightarrow> CHR 0x0A \<notin> set (message_line m)"
  by (auto simp: message_ok_def plain_def message_line_def)

lemma streams_ok_tells:
  assumes "streams_ok w" and "tells ms w w'" and "length (cs_peers (fst w')) = length (cs_peers (fst w))"
  shows "streams_ok w'"
  unfolding streams_ok_def
proof (intro allI impI)
  fix j assume j: "open_peer j w'"
  then have l: "j < length (cs_peers (fst w))" using assms(3) by (simp add: open_peer_def)
  then have o: "open_peer j w" "out_stream j w' = out_stream j w @ message_stream (heard_by j ms)"
    using assms(2) j by (auto simp: tells_def grows_def)
  have "line_end (message_stream (heard_by j ms))"
    using assms(2) by (intro line_end_stream) (auto simp: tells_def heard_by_def message_line_clean)
  then show "line_end (out_stream j w')" using assms(1) o by (auto simp: streams_ok_def)
qed

lemma says_tells:
  assumes "says ms from (fst w, s) w'" and "wire s = wire (snd w)" and "\<forall>m\<in>set ms. message_ok m \<and> tag_ok w' (from, m)"
  shows "tells (map (Pair from) ms) w w'"
proof -
  have "grows g (fst w, s) w' = grows g w w'" for g using assms(2) by (simp add: grows_def open_peer_def out_stream_def peer_of_def)
  then have "grows (\<lambda>j. if from = Some j then [] else message_stream ms) w w'" using assms(1) by (simp add: says_def)
  then have "grows (\<lambda>j. message_stream (heard_by j (map (Pair from) ms))) w w'" by (rule grows_weaken) (simp add: heard_by_tag)
  moreover have "keeps_names w w'" using assms(1) by (simp add: says_def keeps_names_def peer_of_def)
  ultimately show ?thesis using assms by (auto simp: tells_def says_def o_def)
qed

text \<open>One step of the server that adds no peers.\<close>

definition tells_ok :: "int set \<Rightarrow> tagged list \<Rightarrow> server_world \<Rightarrow> server_world \<Rightarrow> bool" where
  "tells_ok base ms w w' \<longleftrightarrow> chat_server_ok base w' \<and> tells ms w w'"

lemma tells_ok_trans: "tells_ok base ms w w1 \<Longrightarrow> tells_ok base ns w1 w2 \<Longrightarrow> tells_ok base (ms @ ns) w w2"
  using tells_trans [of ms w w1 ns w2] by (auto simp: tells_ok_def)

lemma tells_ok_refl: "chat_server_ok base w \<Longrightarrow> tells_ok base [] w w"
  by (simp add: tells_ok_def tells_refl)

lemma tells_okI:
  assumes "chat_server_ok base w" and "fds_ok base w'" and "peers_ok w'" and "says ms from (fst w, s) w'" and "wire s = wire (snd w)"
    and "\<forall>m\<in>set ms. message_ok m \<and> tag_ok w' (from, m)"
  shows "tells_ok base (map (Pair from) ms) w w'"
  using assms says_tells [OF assms(4-6)] streams_ok_tells [of w "map (Pair from) ms" w']
  by (auto simp: tells_ok_def chat_server_ok_def says_def halves_ok_def)

lemma tells_ok_quiet:
  assumes "chat_server_ok base w" and "fds_ok base w'" and "peers_ok w'" and "core w' = core w" and "grows (\<lambda>_. []) w w'"
  shows "tells_ok base [] w w'"
proof -
  have t: "tells [] w w'" using assms coreD [OF assms(4)] keeps_names_core [OF assms(4)] by (simp add: tells_def)
  have l: "length (cs_peers (fst w')) = length (cs_peers (fst w))" using coreD(1) [OF assms(4)] .
  show ?thesis using assms t l streams_ok_tells [OF _ t l] coreD(4,5) [OF assms(4)]
    by (simp add: tells_ok_def chat_server_ok_def halves_ok_def)
qed

lemma tells_ok_close: "chat_server_ok base w \<Longrightarrow> i < length (cs_peers (fst w)) \<Longrightarrow> tells_ok base [] w (close_peer i w)"
  by (rule tells_ok_quiet) (auto simp: chat_server_ok_def fds_close_peer peers_ok_close grows_close_peer)

lemma tells_ok_flush: "chat_server_ok base w \<Longrightarrow> i < length (cs_peers (fst w)) \<Longrightarrow> tells_ok base [] w (snd (flush_peer_output i w))"
  using flush_peer_output_spec [of i w base] by (intro tells_ok_quiet) (auto simp: chat_server_ok_def)

lemma spoken_named: "m \<in> set (spoken p ts) \<Longrightarrow> cp_name_received (named p ts) \<and> cp_name (named p ts) = author m"
  by (cases ts) (auto simp: spoken_def named_def split: if_splits)

lemma tells_ok_input:
  assumes ok: "chat_server_ok base w" and i: "i < length (cs_peers (fst w))"
    and r: "recv_loop (recvs (snd w)) (cp_input (peer_of i w)) = (buf, r, rs)" and u: "peer_input i w = (err, pr, w')"
  shows "tells_ok base (map (Pair (Some i)) (if r = Failed then [] else spoken (peer_of i w) (chat_texts buf))) w w'"
proof -
  have f: "fds_ok base w" and p: "peers_ok w" using ok by (auto simp: chat_server_ok_def)
  note sp = peer_input_spec [OF i f p r u]
  have l: "length (cs_peers (fst w')) = length (cs_peers (fst w))" using sp by (simp add: says_def)
  have "\<forall>m\<in>set (spoken (peer_of i w) (chat_texts buf)). message_ok m"
    using spoken_ok peer_ok [OF p i] chat_texts_plain by blast
  moreover have "tag_ok w' (Some i, m)" if "r \<noteq> Failed" "m \<in> set (spoken (peer_of i w) (chat_texts buf))" for m
    using sp that i l spoken_named [OF that(2)] by (auto simp: tag_ok_def)
  ultimately show ?thesis using sp by (intro tells_okI [OF ok, where s = "(snd w)\<lparr>recvs := rs\<rparr>"]) auto
qed

lemma tells_ok_event:
  assumes ok: "chat_server_ok base w" and i: "i < length (cs_peers (fst w))"
    and u: "peer_event i ev pr w = (err, pr', w')"
  shows "\<exists>ms. tells_ok base (map (Pair (Some i)) ms) w w'"
proof (cases "cp_socket (peer_of i w) < 0 \<or> ev_error ev")
  case True
  then have "w' = w \<or> w' = close_peer i w" using u by (auto simp: peer_event_def split: if_splits)
  then have "tells_ok base (map (Pair (Some i)) []) w w'" using tells_ok_refl [OF ok] tells_ok_close [OF ok i] by auto
  then show ?thesis by blast
next
  case False
  obtain e1 p1 w1 where pi: "(if ev_in ev then peer_input i w else (None, False, w)) = (e1, p1, w1)" by (cases "if ev_in ev then peer_input i w else (None, False, w)") auto
  obtain ms where ms: "tells_ok base (map (Pair (Some i)) ms) w w1"
  proof (cases "ev_in ev")
    case True
    obtain buf r rs where rl: "recv_loop (recvs (snd w)) (cp_input (peer_of i w)) = (buf, r, rs)" by (cases "recv_loop (recvs (snd w)) (cp_input (peer_of i w))") auto
    have "peer_input i w = (e1, p1, w1)" using pi True by simp
    from that [OF tells_ok_input [OF ok i rl this]] show thesis .
  qed (use pi tells_ok_refl [OF ok] that [of "[]"] in simp)
  have i1: "i < length (cs_peers (fst w1))" and ok1: "chat_server_ok base w1" using ms i by (auto simp: tells_ok_def tells_def)
  have "w' = w1 \<or> w' = snd (flush_peer_output i w1)" using u False pi
    by (auto simp: peer_event_def Let_def split: if_splits)
  then have "tells_ok base [] w1 w'" using tells_ok_refl [OF ok1] tells_ok_flush [OF ok1 i1] by auto
  from tells_ok_trans [OF ms this] show ?thesis by auto
qed

lemma tells_ok_accept:
  assumes "accept_loop rs w = (rc, w')" and "chat_server_ok base w"
  shows "tells_ok base [] w w'"
  using assms
proof (induction rs w rule: accept_loop.induct)
  case (1 server s)
  then show ?case by (intro tells_ok_quiet) (auto simp: chat_server_ok_def core_def grows_def open_peer_def out_stream_def peer_of_def peers_ok_def intro: fds_okI_same)
next
  case (2 r rs server s)
  let ?w = "(server, s)"
  have same: "tells_ok base [] ?w (server, s\<lparr>accepts := rs\<rparr>)" using 2(4)
    by (intro tells_ok_quiet) (auto simp: chat_server_ok_def core_def grows_def open_peer_def out_stream_def peer_of_def peers_ok_def intro: fds_okI_same)
  have f: "fds_ok base ?w" using 2(4) by (simp add: chat_server_ok_def)
  define sock where "sock = next_fd s"
  have fin: "finite (open_fds s)" using f by (simp add: fds_ok_def)
  have "fresh_ok s" using f by (simp add: fds_ok_def)
  then have sock: "sock \<notin> open_fds s" "0 \<le> sock" using fin by (simp_all add: fresh_ok_def sock_def next_fd_def)
  have other: "cp_socket (peer_of j ?w) \<noteq> sock" if "open_peer j ?w" for j
  proof -
    have "cp_socket (peer_of j ?w) \<in> set (server_fds server)" using that by (auto simp: open_peer_def server_fds_def peer_of_def)
    then show ?thesis using sock f by (auto simp: fds_ok_def)
  qed
  have shut: "tells_ok base [] ?w (server, os_close sock ((os_open sock s)\<lparr>accepts := rs\<rparr>))"
  proof (rule tells_ok_quiet [OF 2(4)])
    show "fds_ok base (server, os_close sock ((os_open sock s)\<lparr>accepts := rs\<rparr>))"
      by (rule fds_okI_same [OF f]) (use sock in \<open>auto simp: os_open_def os_close_def\<close>)
    show "grows (\<lambda>_. []) ?w (server, os_close sock ((os_open sock s)\<lparr>accepts := rs\<rparr>))"
      using other by (auto simp: grows_def open_peer_def out_stream_def os_open_def peer_of_def)
  qed (use 2(4) in \<open>auto simp: chat_server_ok_def peers_ok_def core_def\<close>)
  show ?case
  proof (cases r)
    case (Accepted nonblock added)
    show ?thesis
    proof (cases "nonblock \<and> added")
      case True
      let ?w1 = "(server\<lparr>cs_peers := cs_peers server @ [new_peer sock]\<rparr>, os_open sock s)"
      have run: "accept_loop rs ?w1 = (rc, w')" using 2(3) Accepted True by (simp add: Let_def sock_def)
      have p1: "peer_of j ?w1 = (if j < length (cs_peers server) then peer_of j ?w else new_peer sock)" if "j < Suc (length (cs_peers server))" for j
        using that by (auto simp: peer_of_def nth_append)
      have fd1: "server_fds (fst ?w1) = server_fds server @ [sock]" using sock by (simp add: server_fds_def new_peer_def)
      have nin: "sock \<notin> set (server_fds server)" "sock \<notin> base" using sock f by (auto simp: fds_ok_def)
      have "fds_ok base ?w1" using f nin fd1 sock by (auto simp: fds_ok_def fresh_ok_def os_open_def)
      moreover have "peers_ok ?w1" using 2(4) by (auto simp: chat_server_ok_def peers_ok_def name_ok_def sent_ok_def new_peer_def)
      moreover have g: "grows (\<lambda>_. []) ?w ?w1"
        using other by (auto simp: grows_def open_peer_def out_stream_def os_open_def peer_of_def nth_append)
      moreover have kn: "keeps_names ?w ?w1" by (simp add: keeps_names_def peer_of_def nth_append)
      moreover have "streams_ok ?w1"
        unfolding streams_ok_def
      proof (intro allI impI)
        fix j assume j: "open_peer j ?w1"
        show "line_end (out_stream j ?w1)"
        proof (cases "j < length (cs_peers server)")
          case True
          then have "open_peer j ?w \<and> out_stream j ?w1 = out_stream j ?w" using g j by (simp add: grows_def)
          then show ?thesis using 2(4) by (simp add: chat_server_ok_def streams_ok_def)
        next
          case False
          then have "peer_of j ?w1 = new_peer sock" using j p1 [of j] by (simp add: open_peer_def)
          then show ?thesis by (simp add: out_stream_def new_peer_def os_open_def)
        qed
      qed
      ultimately have t1: "tells_ok base [] ?w ?w1" using 2(4) by (simp add: tells_ok_def chat_server_ok_def tells_def halves_ok_def kn)
      then have "chat_server_ok base ?w1" by (simp add: tells_ok_def)
      then have "tells_ok base [] ?w1 w'" using 2(1) [OF Accepted refl refl] run True by (simp add: sock_def)
      from tells_ok_trans [OF t1 this] show ?thesis by simp
    qed (use 2(3) Accepted shut in \<open>auto simp: Let_def sock_def split: if_splits\<close>)
  qed (use 2 same in auto)
qed

lemma tells_ok_pending:
  assumes "accept_pending_clients w = (rc, w')" and "chat_server_ok base w"
  shows "tells_ok base [] w w'"
  using assms tells_ok_accept tells_ok_refl by (auto simp: accept_pending_clients_def split: if_splits)

lemma tells_ok_events:
  assumes "server_events evs pr w = (rc, w')" and "chat_server_ok base w"
    and "\<forall>(src, ev)\<in>set evs. \<forall>i. src = Peer i \<longrightarrow> i < length (cs_peers (fst w))"
  shows "\<exists>ms. tells_ok base ms w w'"
  using assms
proof (induction evs pr w rule: server_events.induct)
  case (1 progress w)
  then have "tells_ok base [] w w'" using tells_ok_refl by simp
  then show ?case by blast
next
  case (2 src ev evs progress w)
  show ?case
  proof (cases src)
    case Listener
    obtain rc1 w1 where a: "accept_pending_clients w = (rc1, w1)" by (cases "accept_pending_clients w") auto
    have t: "tells_ok base [] w w1" using tells_ok_pending [OF a 2(4)] .
    show ?thesis
    proof (cases "rc1 = CHAT_OK")
      case True
      then have "server_events evs True w1 = (rc, w')" using 2(3) Listener a by simp
      moreover have "\<forall>(src, ev)\<in>set evs. \<forall>i. src = Peer i \<longrightarrow> i < length (cs_peers (fst w1))"
        using 2(5) t by (fastforce simp: tells_ok_def tells_def)
      moreover have "chat_server_ok base w1" using t by (simp add: tells_ok_def)
      ultimately obtain ms where "tells_ok base ms w1 w'" using 2(1) [OF Listener a [symmetric] refl] True by auto
      from tells_ok_trans [OF t this] show ?thesis by blast
    next
      case False
      then show ?thesis using 2(3) Listener a t by auto
    qed
  next
    case (Peer i)
    obtain err pr1 w1 where e: "peer_event i ev progress w = (err, pr1, w1)" by (cases "peer_event i ev progress w") auto
    have i: "i < length (cs_peers (fst w))" using 2(5) Peer by auto
    obtain ms where t: "tells_ok base (map (Pair (Some i)) ms) w w1" using tells_ok_event [OF 2(4) i e] by blast
    show ?thesis
    proof (cases err)
      case None
      then have "server_events evs pr1 w1 = (rc, w')" using 2(3) Peer e by simp
      moreover have "\<forall>(src, ev)\<in>set evs. \<forall>i. src = Peer i \<longrightarrow> i < length (cs_peers (fst w1))"
        using 2(5) t by (fastforce simp: tells_ok_def tells_def)
      moreover have "chat_server_ok base w1" using t by (simp add: tells_ok_def)
      ultimately obtain ns where "tells_ok base ns w1 w'" using 2(2) [OF Peer e [symmetric] refl] None by auto
      from tells_ok_trans [OF t this] show ?thesis by blast
    qed (use 2(3) Peer e t in auto)
  qed
qed

text \<open>The lines of the administrator.\<close>

lemma server_line_spec:
  assumes ok: "chat_server_ok base w" and line: "CHR 0x0A \<notin> set line"
  shows "tells_ok base (map (\<lambda>t. (None, \<lparr>author = ''server'', msg_data = t\<rparr>)) (filter (\<lambda>l. l \<noteq> []) [trim line])) w (server_line line w)"
proof (cases "trim line = []")
  case True
  then show ?thesis using tells_ok_refl [OF ok] by (simp add: server_line_def)
next
  case False
  let ?m = "\<lparr>author = ''server'', msg_data = trim line\<rparr>"
  have f: "fds_ok base w" and p: "peers_ok w" using ok by (auto simp: chat_server_ok_def)
  have "server_line line w = broadcast_all (message_line ?m @ newline) None ((fst w)\<lparr>cs_messages := cs_messages (fst w) @ [?m]\<rparr>, snd w)"
    using False by (simp add: server_line_def message_line_def Let_def)
  note b = broadcast_message [OF f p this]
  have "message_ok ?m" using False line set_trim [of line]
    by (auto simp: message_ok_def plain_def trim_idem isspace_def)
  then have "tells_ok base (map (Pair None) [?m]) w (server_line line w)"
    using b by (intro tells_okI [OF ok, where s = "snd w"]) (auto simp: tag_ok_def)
  then show ?thesis using False by simp
qed

lemma server_lines_spec:
  assumes "server_lines buf w = (rest, w')" and "chat_server_ok base w"
  shows "tells_ok base (map (\<lambda>t. (None, \<lparr>author = ''server'', msg_data = t\<rparr>)) (chat_texts buf)) w w'"
  using assms
proof (induction buf w rule: server_lines.induct)
  case (1 buf w)
  show ?case
  proof (cases "extract_message buf")
    case None
    then have "text_lines buf = ([], buf)" by (subst text_lines_unfold) simp
    then show ?thesis using 1(2,3) None tells_ok_refl [of base w] by (simp add: server_lines.simps [of buf] chat_texts_def)
  next
    case (Some lr)
    obtain line rest1 where lr: "lr = (line, rest1)" by force
    have "CHR 0x0A \<notin> set line" using Some lr by (simp add: extract_Some)
    note t = server_line_spec [OF 1(3) this]
    have tx: "chat_texts buf = filter (\<lambda>l. l \<noteq> []) [trim line] @ chat_texts rest1"
      using Some lr by (simp add: chat_texts_def text_lines_unfold [of buf])
    have "server_lines rest1 (server_line line w) = (rest, w')" using 1(2) Some lr by (simp add: server_lines.simps [of buf])
    then have "tells_ok base (map (\<lambda>t. (None, \<lparr>author = ''server'', msg_data = t\<rparr>)) (chat_texts rest1)) (server_line line w) w'"
      using 1(1) [OF Some lr [symmetric]] t by (simp add: tells_ok_def)
    from tells_ok_trans [OF t this] show ?thesis by (simp only: tx map_append)
  qed
qed

lemma tells_ok_input_buffer:
  "chat_server_ok base (server, s) \<Longrightarrow> tells_ok base [] (server, s) (server\<lparr>cs_input := b\<rparr>, s)"
proof -
  assume ok: "chat_server_ok base (server, s)"
  let ?w' = "(server\<lparr>cs_input := b\<rparr>, s)"
  have "fds_ok base (server, s)" using ok by (simp add: chat_server_ok_def)
  then have "fds_ok base ?w'" by (rule fds_okI_same) (simp_all add: server_fds_def)
  moreover have "open_peer j ?w' = open_peer j (server, s)" "out_stream j ?w' = out_stream j (server, s)" for j
    by (simp_all add: open_peer_def out_stream_def peer_of_def)
  ultimately show ?thesis using ok
    by (simp add: tells_ok_def tells_def chat_server_ok_def peers_ok_def streams_ok_def halves_ok_def grows_def keeps_names_def peer_of_def)
qed

lemma tells_ok_feed:
  assumes "chat_server_feed msg w = (rc, w')" and ok: "chat_server_ok base w"
  shows "\<exists>ms. tells_ok base ms w w'"
proof (cases "cs_socket (fst w) < 0 \<or> msg = []")
  case True
  then have "w' = w" using assms(1) by (cases w) (auto simp: chat_server_feed_def split: if_splits)
  then have "tells_ok base [] w w'" using tells_ok_refl [OF ok] by simp
  then show ?thesis by blast
next
  case False
  obtain rc1 w1 where a: "accept_pending_clients w = (rc1, w1)" by (cases "accept_pending_clients w") auto
  have t: "tells_ok base [] w w1" using tells_ok_pending [OF a ok] .
  show ?thesis
  proof (cases "rc1 = CHAT_OK")
    case True
    obtain rest w2 where l: "server_lines (cs_input (fst w1) @ msg) w1 = (rest, w2)" by (cases "server_lines (cs_input (fst w1) @ msg) w1") auto
    have ok1: "chat_server_ok base w1" using t by (simp add: tells_ok_def)
    note t2 = server_lines_spec [OF l ok1]
    have "w' = ((fst w2)\<lparr>cs_input := rest\<rparr>, snd w2)" using assms(1) False True a l by (simp add: chat_server_feed_def)
    then have "tells_ok base [] w2 w'" using t2 tells_ok_input_buffer [of base "fst w2" "snd w2"] by (simp add: tells_ok_def)
    then show ?thesis using tells_ok_trans [OF t tells_ok_trans [OF t2]] by blast
  next
    case False
    then show ?thesis using assms(1) a t \<open>\<not> (cs_socket (fst w) < 0 \<or> msg = [])\<close> by (auto simp: chat_server_feed_def)
  qed
qed

text \<open>Starting to listen.\<close>

lemma chat_server_ok_listen:
  assumes "chat_server_listen a b c d e f g w = (rc, w')" and ok: "chat_server_ok base w"
  shows "tells_ok base [] w w'"
proof -
  obtain server s where w: "w = (server, s)" by force
  have fd: "fds_ok base w" and fr: "fresh_ok s" and h: "halves_ok server" using ok by (auto simp: chat_server_ok_def fds_ok_def w)
  have fin: "finite (open_fds s)" using fd by (simp add: fds_ok_def w)
  define sock where "sock = next_fd s"
  define efd where "efd = next_fd (os_open sock s)"
  have sock: "sock \<notin> open_fds s" "0 \<le> sock" using fr fin by (simp_all add: fresh_ok_def sock_def next_fd_def)
  have efd: "efd \<notin> insert sock (open_fds s)" "0 \<le> efd" using fr [unfolded fresh_ok_def, rule_format, of "insert sock (open_fds s)"] fin
    by (simp_all add: efd_def next_fd_def os_open_def)
  have other: "cp_socket (peer_of j w) \<noteq> sock \<and> cp_socket (peer_of j w) \<noteq> efd" if "open_peer j w" for j
  proof -
    have "cp_socket (peer_of j w) \<in> set (server_fds server)" using that by (auto simp: open_peer_def server_fds_def peer_of_def w)
    then show ?thesis using sock efd fd by (auto simp: fds_ok_def w)
  qed
  have q: "tells_ok base [] w (server', s')"
    if "cs_peers server' = cs_peers server" "cs_messages server' = cs_messages server" "halves_ok server'" "fds_ok base (server', s')"
      "\<And>x. x \<noteq> sock \<Longrightarrow> x \<noteq> efd \<Longrightarrow> wire s' x = wire s x" for server' s'
  proof -
    have st: "open_peer j (server', s') = open_peer j w" "open_peer j w \<Longrightarrow> out_stream j (server', s') = out_stream j w" for j
      using other [of j] that by (auto simp: open_peer_def out_stream_def peer_of_def w)
    show ?thesis using ok that st by (auto simp: tells_ok_def tells_def chat_server_ok_def peers_ok_def streams_ok_def grows_def w keeps_names_def peer_of_def)
  qed
  have f1: "fds_ok base (server, os_close sock (os_open sock s))"
    by (rule fds_okI_same [OF fd]) (use sock in \<open>auto simp: os_open_def os_close_def w\<close>)
  have f2: "fds_ok base (server, os_close efd (os_close sock (os_open efd (os_open sock s))))"
    by (rule fds_okI_same [OF fd]) (use sock efd in \<open>auto simp: os_open_def os_close_def w\<close>)
  have f3: "fds_ok base (server\<lparr>cs_socket := sock, cs_epoll := efd\<rparr>, os_open efd (os_open sock s))" if "cs_socket server < 0"
  proof -
    have "cs_epoll server < 0" using h that by (simp add: halves_ok_def)
    then have "server_fds (server\<lparr>cs_socket := sock, cs_epoll := efd\<rparr>) = sock # efd # server_fds server"
      using that sock efd by (simp add: server_fds_def)
    then show ?thesis using fd sock efd by (auto simp: fds_ok_def fresh_ok_def os_open_def w)
  qed
  have h3: "halves_ok (server\<lparr>cs_socket := sock, cs_epoll := efd\<rparr>)" using sock efd by (simp add: halves_ok_def)
  have t1: "tells_ok base [] w (server, os_close sock (os_open sock s))"
    by (rule q [OF refl refl h f1]) (simp add: os_open_def)
  have t2: "tells_ok base [] w (server, os_close efd (os_close sock (os_open efd (os_open sock s))))"
    by (rule q [OF refl refl h f2]) (simp add: os_open_def)
  have t3: "tells_ok base [] w (server\<lparr>cs_socket := sock, cs_epoll := efd\<rparr>, os_open efd (os_open sock s))" if "cs_socket server < 0"
    by (rule q [OF _ _ h3 f3 [OF that]]) (simp_all add: os_open_def)
  show ?thesis
    using assms(1) tells_ok_refl [OF ok] t1 t2 t3
    by (auto simp: w chat_server_listen_def Let_def sock_def [symmetric] efd_def [symmetric] split: if_splits)
qed

section \<open>Runs\<close>

datatype server_call =
    Server_listen bool bool bool bool bool bool bool
  | Server_update epoll_result
  | Server_feed bytes
  | Server_pop

text \<open>A call, and the message it hands to the program.\<close>

fun server_step :: "server_call \<Rightarrow> server_world \<Rightarrow> chat_message list \<times> server_world" where
  "server_step (Server_listen a b c d e f g) w = ([], snd (chat_server_listen a b c d e f g w))"
| "server_step (Server_update er) w = ([], snd (chat_server_update er w))"
| "server_step (Server_feed msg) w = ([], snd (chat_server_feed msg w))"
| "server_step Server_pop (server, s) =
     (let (m, server1) = chat_server_pop_next server in (case m of None \<Rightarrow> [] | Some m \<Rightarrow> [m], server1, s))"

fun server_run :: "server_call list \<Rightarrow> server_world \<Rightarrow> chat_message list \<times> server_world" where
  "server_run [] w = ([], w)"
| "server_run (call # calls) w =
     (let (ms, w1) = server_step call w; (ns, w2) = server_run calls w1 in (ms @ ns, w2))"

text \<open>What \<open>epoll_wait\<close> guarantees: the events are about peers that were registered.\<close>

definition call_ok :: "server_call \<Rightarrow> server_world \<Rightarrow> bool" where
  "call_ok call w \<longleftrightarrow>
     (case call of
        Server_update (Epoll_ready evs) \<Rightarrow>
          list_all (\<lambda>(src, ev). case src of Listener \<Rightarrow> True | Peer i \<Rightarrow> i < length (cs_peers (fst w))) evs
      | _ \<Rightarrow> True)"

fun calls_ok :: "server_call list \<Rightarrow> server_world \<Rightarrow> bool" where
  "calls_ok [] w \<longleftrightarrow> True"
| "calls_ok (call # calls) w \<longleftrightarrow> call_ok call w \<and> calls_ok calls (snd (server_step call w))"

lemma tells_ok_update:
  assumes "call_ok (Server_update er) w" and "chat_server_ok base w"
  shows "\<exists>ms. tells_ok base ms w (snd (chat_server_update er w))"
proof (cases "cs_socket (fst w) < 0 \<or> cs_epoll (fst w) < 0")
  case True
  then show ?thesis using tells_ok_refl [OF assms(2)] by (auto simp: chat_server_update_def)
next
  case False
  show ?thesis
  proof (cases er)
    case (Epoll_ready evs)
    obtain rc w' where e: "server_events evs False w = (rc, w')" by (cases "server_events evs False w") auto
    have "\<forall>(src, ev)\<in>set evs. \<forall>i. src = Peer i \<longrightarrow> i < length (cs_peers (fst w))"
      using assms(1) Epoll_ready by (auto simp: call_ok_def list_all_iff split: event_source.splits)
    from tells_ok_events [OF e assms(2) this] show ?thesis using False Epoll_ready e by (simp add: chat_server_update_def)
  qed (use False tells_ok_refl [OF assms(2)] in \<open>auto simp: chat_server_update_def\<close>)
qed

text \<open>The queue, with what was taken from it, and the streams of the peers.\<close>

definition told :: "tagged list \<Rightarrow> chat_message list \<Rightarrow> server_world \<Rightarrow> server_world \<Rightarrow> bool" where
  "told ms popped w w' \<longleftrightarrow> popped @ cs_messages (fst w') = cs_messages (fst w) @ map snd ms
     \<and> grows (\<lambda>j. message_stream (heard_by j ms)) w w' \<and> (\<forall>t\<in>set ms. message_ok (snd t) \<and> tag_ok w' t)
     \<and> keeps_names w w' \<and> length (cs_peers (fst w)) \<le> length (cs_peers (fst w'))"

lemma told_tells: "tells ms w w' \<Longrightarrow> told ms [] w w'"
  by (simp add: told_def tells_def)

lemma told_trans: "told ms p w w1 \<Longrightarrow> told ns q w1 w2 \<Longrightarrow> told (ms @ ns) (p @ q) w w2"
  using grows_trans [of "\<lambda>j. message_stream (heard_by j ms)" w w1 "\<lambda>j. message_stream (heard_by j ns)" w2]
    keeps_names_trans [of w w1 w2] tag_ok_keeps [of w1 _ w2]
  by (auto simp: told_def)

lemma told_pop:
  assumes ok: "chat_server_ok base (server, t)" and pop: "popped @ ms = cs_messages server"
  shows "chat_server_ok base (server\<lparr>cs_messages := ms\<rparr>, t) \<and> told [] popped (server, t) (server\<lparr>cs_messages := ms\<rparr>, t)"
proof -
  let ?w' = "(server\<lparr>cs_messages := ms\<rparr>, t)"
  have st: "open_peer j ?w' = open_peer j (server, t)" "out_stream j ?w' = out_stream j (server, t)" for j
    by (simp_all add: open_peer_def out_stream_def peer_of_def)
  have fd: "fds_ok base (server, t)" using ok by (simp add: chat_server_ok_def)
  have fd': "fds_ok base ?w'" by (rule fds_okI_same [OF fd]) (simp_all add: server_fds_def)
  have "chat_server_ok base ?w'" using ok fd' by (simp add: chat_server_ok_def peers_ok_def streams_ok_def halves_ok_def st)
  moreover have "told [] popped (server, t) ?w'" using pop by (simp add: told_def grows_def keeps_names_def st) (simp add: peer_of_def)
  ultimately show ?thesis ..
qed

lemma server_step_told:
  assumes "call_ok call w" and ok: "chat_server_ok base w" and s: "server_step call w = (popped, w')"
  shows "chat_server_ok base w' \<and> (\<exists>ms. told ms popped w w')"
proof -
  have fin: ?thesis if "\<exists>ms. tells_ok base ms w w'" "popped = []"
    using that by (auto simp: tells_ok_def intro: told_tells)
  show ?thesis
  proof (cases call)
    case (Server_listen a b c d e f g)
    obtain rc where "chat_server_listen a b c d e f g w = (rc, w')"
      using s Server_listen by (cases "chat_server_listen a b c d e f g w") simp
    from chat_server_ok_listen [OF this ok] show ?thesis using s Server_listen by (intro fin) auto
  next
    case (Server_update er)
    then have "\<exists>ms. tells_ok base ms w w'" "popped = []" using s assms(1) tells_ok_update [OF _ ok, of er] by simp_all
    then show ?thesis by (rule fin)
  next
    case (Server_feed msg)
    obtain rc where "chat_server_feed msg w = (rc, w')" using s Server_feed by (cases "chat_server_feed msg w") simp
    from tells_ok_feed [OF this ok] show ?thesis using s Server_feed by (intro fin) simp_all
  next
    case Server_pop
    obtain server t where w: "w = (server, t)" by force
    obtain ms where pop: "w' = (server\<lparr>cs_messages := ms\<rparr>, t)" "popped @ ms = cs_messages server"
      using s Server_pop by (cases "cs_messages server") (auto simp: w chat_server_pop_next_def)
    then have "chat_server_ok base w' \<and> told [] popped w w'" using told_pop [of base server t popped ms] ok by (simp add: w)
    then show ?thesis by blast
  qed
qed

lemma server_run_told:
  "calls_ok calls w \<Longrightarrow> chat_server_ok base w \<Longrightarrow> server_run calls w = (popped, w') \<Longrightarrow>
     chat_server_ok base w' \<and> (\<exists>ms. told ms popped w w')"
proof (induction calls arbitrary: w popped)
  case Nil
  then have "told [] popped w w'" using told_tells [OF tells_refl] by simp
  then show ?case using Nil by auto
next
  case (Cons call calls)
  obtain p w1 where s: "server_step call w = (p, w1)" by (cases "server_step call w") auto
  obtain q where r: "server_run calls w1 = (q, w')" "popped = p @ q" using Cons.prems(3) s by (auto split: prod.splits)
  obtain ms where 1: "chat_server_ok base w1" "told ms p w w1" using server_step_told [OF _ Cons.prems(2) s] Cons.prems(1) by auto
  obtain ns where 2: "chat_server_ok base w'" "told ns q w1 w'" using Cons.IH [OF _ 1(1) r(1)] Cons.prems(1) s by auto
  show ?case using 2(1) told_trans [OF 1(2) 2(2)] r(2) by blast
qed

text \<open>The process before it creates a server: it has some files open and never closed one twice.\<close>

definition before :: "os \<Rightarrow> bool" where
  "before s \<longleftrightarrow> finite (open_fds s) \<and> fresh_ok s \<and> bad_closes s = 0"

lemma chat_server_ok_new: "before s \<Longrightarrow> chat_server_ok (open_fds s) (chat_server_new, s)"
  by (simp add: before_def chat_server_ok_def fds_ok_def peers_ok_def streams_ok_def halves_ok_def server_fds_def
      chat_server_new_def open_peer_def)

lemma close_all:
  "distinct fds \<Longrightarrow> set fds \<subseteq> open_fds s \<Longrightarrow>
     open_fds (fold os_close fds s) = open_fds s - set fds \<and> bad_closes (fold os_close fds s) = bad_closes s"
proof (induction fds arbitrary: s)
  case (Cons fd fds)
  let ?s = "os_close fd s"
  have "open_fds ?s = open_fds s - {fd}" "bad_closes ?s = bad_closes s" using Cons.prems by (auto simp: os_close_def)
  moreover have "set fds \<subseteq> open_fds ?s" using Cons.prems calculation by auto
  ultimately show ?case using Cons.IH [of ?s] Cons.prems by auto
qed simp

lemma chat_server_delete_fds: "chat_server_delete w = fold os_close (server_fds (fst w)) (snd w)"
proof -
  have "fold (\<lambda>peer s. if 0 \<le> cp_socket peer then os_close (cp_socket peer) s else s) ps s
      = fold os_close (filter (\<lambda>fd. 0 \<le> fd) (map cp_socket ps)) s" for ps :: "chat_peer list" and s
    by (induction ps arbitrary: s) auto
  then show ?thesis by (simp add: chat_server_delete_def server_fds_def Let_def)
qed

text \<open>
  C17. Descriptors: whatever calls a program makes to a server and whatever the system answers,
  once the server is deleted exactly the descriptors that were open before it was created are
  open, and none was closed twice.
\<close>

theorem chat_server_descriptors:
  assumes "before s0" and "calls_ok calls (chat_server_new, s0)" and "server_run calls (chat_server_new, s0) = (popped, w)"
  shows "open_fds (chat_server_delete w) = open_fds s0 \<and> bad_closes (chat_server_delete w) = 0"
proof -
  have "fds_ok (open_fds s0) w"
    using server_run_told [OF assms(2) chat_server_ok_new [OF assms(1)] assms(3)] by (simp add: chat_server_ok_def)
  then show ?thesis using close_all [of "server_fds (fst w)" "snd w"]
    unfolding chat_server_delete_fds by (auto simp: fds_ok_def)
qed


definition demo_os :: "recv_result list \<Rightarrow> os" where
  "demo_os rs = idle_os\<lparr>accepts := [Accepted True True], recvs := rs\<rparr>"

definition demo_start :: "server_call list" where
  "demo_start = [Server_listen True True True True True True True,
     Server_update (Epoll_ready [(Listener, \<lparr>ev_error = False, ev_in = True, ev_out = False\<rparr>)])]"

lemma demo_before: "before (demo_os rs)"
proof -
  have "Max (insert 2 X) + 1 \<notin> X \<and> 0 \<le> Max (insert 2 X) + 1" if "finite X" for X :: "int set"
  proof -
    have ge: "x \<le> Max (insert 2 X)" if "x \<in> insert 2 X" for x using \<open>finite X\<close> that by (intro Max_ge) auto
    show ?thesis using ge [of 2] ge [of "Max (insert 2 X) + 1"] by auto
  qed
  then show ?thesis by (simp add: before_def demo_os_def idle_os_def fresh_ok_def)
qed

lemma demo_started:
  "\<exists>s. server_run demo_start (chat_server_new, demo_os rs) =
     ([], \<lparr>cs_socket = 3, cs_epoll = 4, cs_peers = [new_peer 5], cs_messages = [], cs_input = []\<rparr>, s)
     \<and> calls_ok demo_start (chat_server_new, demo_os rs) \<and> wire s 5 = [] \<and> sends s = [] \<and> accepts s = [] \<and> recvs s = rs"
  by (simp add: demo_start_def demo_os_def idle_os_def chat_server_listen_def Let_def next_fd_def os_open_def chat_server_new_def
      call_ok_def chat_server_update_def accept_pending_clients_def)

theorem chat_server_descriptors_witness:
  "\<exists>popped w. server_run demo_start (chat_server_new, demo_os []) = (popped, w) \<and> length (cs_peers (fst w)) = 1
     \<and> open_fds (chat_server_delete w) = {} \<and> bad_closes (chat_server_delete w) = 0"
proof -
  obtain s where r: "server_run demo_start (chat_server_new, demo_os []) =
      ([], \<lparr>cs_socket = 3, cs_epoll = 4, cs_peers = [new_peer 5], cs_messages = [], cs_input = []\<rparr>, s)"
    and c: "calls_ok demo_start (chat_server_new, demo_os [])" using demo_started [of "[]"] by blast
  show ?thesis using chat_server_descriptors [OF demo_before c r] r by (simp add: demo_os_def idle_os_def)
qed


text \<open>
  What a server makes of the bytes of a peer, whatever state its own calls brought it to: with
  the incomplete line kept from before, the lines that are not blank are, trimmed, the name of the
  peer if it had none yet, and then its messages; the incomplete rest is kept.
\<close>

theorem server_reads_peer:
  assumes "before s0" and "calls_ok calls (chat_server_new, s0)" and "server_run calls (chat_server_new, s0) = (popped, w)"
    and "i < length (cs_peers (fst w))" and "recv_loop (recvs (snd w)) (cp_input (peer_of i w)) = (buf, r, rs)" and "r \<noteq> Failed"
    and "peer_input i w = (err, progress, w')"
  shows "err = None \<and> cs_messages (fst w') = cs_messages (fst w) @ spoken (peer_of i w) (chat_texts buf)
    \<and> cp_input (peer_of i w') = snd (text_lines buf)
    \<and> cp_name (peer_of i w') = cp_name (named (peer_of i w) (chat_texts buf))
    \<and> cp_name_received (peer_of i w') = cp_name_received (named (peer_of i w) (chat_texts buf))"
proof -
  have ok: "chat_server_ok (open_fds s0) w" using server_run_told [OF assms(2) chat_server_ok_new [OF assms(1)] assms(3)] by blast
  then have "fds_ok (open_fds s0) w" "peers_ok w" by (auto simp: chat_server_ok_def)
  from peer_input_spec [OF assms(4) this assms(5,7)] assms(6) show ?thesis by (simp add: says_def)
qed

lemma demo_texts: "text_lines (''ann'' @ newline @ '' hi '' @ newline @ ''x'') = ([''ann'', '' hi ''], ''x'')"
  by (simp add: newline_def text_lines_unfold extract_message_def)

theorem server_reads_peer_witness:
  "\<exists>w err progress w'. server_run demo_start (chat_server_new, demo_os [Data (''ann'' @ newline @ '' hi ''), Recv_eintr, Data (newline @ ''x'')]) = ([], w)
     \<and> peer_input 0 w = (err, progress, w') \<and> err = None \<and> cs_messages (fst w') = [\<lparr>author = ''ann'', msg_data = ''hi''\<rparr>]
     \<and> cp_input (peer_of 0 w') = ''x''"
proof -
  let ?rs = "[Data (''ann'' @ newline @ '' hi ''), Recv_eintr, Data (newline @ ''x'')]"
  let ?server = "\<lparr>cs_socket = 3, cs_epoll = 4, cs_peers = [new_peer 5], cs_messages = [], cs_input = []\<rparr>"
  obtain s where r: "server_run demo_start (chat_server_new, demo_os ?rs) = ([], ?server, s)"
    and c: "calls_ok demo_start (chat_server_new, demo_os ?rs)" and s: "recvs s = ?rs"
    using demo_started [of ?rs] by blast
  have rl: "recv_loop (recvs (snd (?server, s))) (cp_input (peer_of 0 (?server, s))) = (''ann'' @ newline @ '' hi '' @ newline @ ''x'', Drained, [])"
    by (simp add: s peer_of_def new_peer_def newline_def)
  obtain err progress w' where u: "peer_input 0 (?server, s) = (err, progress, w')" by (cases "peer_input 0 (?server, s)") auto
  have tx: "chat_texts (''ann'' @ newline @ '' hi '' @ newline @ ''x'') = [''ann'', ''hi'']"
    unfolding chat_texts_def demo_texts by (simp add: trim_eq isspace_def)
  have i: "0 < length (cs_peers (fst (?server, s)))" by simp
  note t = server_reads_peer [OF demo_before c r i rl _ u, unfolded tx demo_texts]
  have "err = None" "cs_messages (fst w') = [\<lparr>author = ''ann'', msg_data = ''hi''\<rparr>]" "cp_input (peer_of 0 w') = ''x''"
    using t by (simp_all add: spoken_def peer_of_def new_peer_def)
  then show ?thesis using r u by blast
qed

text \<open>
  When \<open>recv\<close> fails on the connection of a peer, the update of the server returns an error, and
  nothing but the script of the system and that peer's input changes: the peer stays open.
\<close>

theorem server_recv_error:
  assumes "open_peer i w" and "recv_loop (recvs (snd w)) (cp_input (peer_of i w)) = (buf, Failed, rs)"
    and "0 \<le> cs_socket (fst w)" and "0 \<le> cs_epoll (fst w)" and "ev_in ev" and "\<not> ev_error ev"
  shows "\<exists>w'. chat_server_update (Epoll_ready ((Peer i, ev) # evs)) w = (CHAT_ERR_SYS, w') \<and> open_peer i w'
    \<and> cp_socket (peer_of i w') = cp_socket (peer_of i w) \<and> cs_messages (fst w') = cs_messages (fst w)"
proof -
  have i: "i < length (cs_peers (fst w))" "\<not> cp_socket (peer_of i w) < 0" using assms(1) by (auto simp: open_peer_def)
  let ?w' = "(set_peer i ((peer_of i w)\<lparr>cp_input := buf\<rparr>) (fst w), (snd w)\<lparr>recvs := rs\<rparr>)"
  have "\<exists>p. peer_event i ev False w = (Some CHAT_ERR_SYS, p, ?w')" using i assms by (simp add: peer_event_def peer_input_def Let_def)
  then show ?thesis using i assms by (auto simp: chat_server_update_def open_peer_def)
qed

theorem server_recv_error_witness:
  "\<exists>w w'. server_run demo_start (chat_server_new, demo_os [Recv_fail]) = ([], w)
     \<and> chat_server_update (Epoll_ready [(Peer 0, \<lparr>ev_error = False, ev_in = True, ev_out = True\<rparr>)]) w = (CHAT_ERR_SYS, w') \<and> open_peer 0 w'"
proof -
  let ?server = "\<lparr>cs_socket = 3, cs_epoll = 4, cs_peers = [new_peer 5], cs_messages = [], cs_input = []\<rparr>"
  obtain s where r: "server_run demo_start (chat_server_new, demo_os [Recv_fail]) = ([], ?server, s)" and s: "recvs s = [Recv_fail]"
    using demo_started [of "[Recv_fail]"] by blast
  have o: "open_peer 0 (?server, s)" by (simp add: open_peer_def peer_of_def new_peer_def)
  have rl: "recv_loop (recvs (snd (?server, s))) (cp_input (peer_of 0 (?server, s))) = ([], Failed, [])"
    by (simp add: s peer_of_def new_peer_def)
  from server_recv_error [OF o rl, of "\<lparr>ev_error = False, ev_in = True, ev_out = True\<rparr>" "[]"] show ?thesis using r by auto
qed

end
