(* ===== verification/Thread_Pool.thy ===== *)
theory Thread_Pool
  imports Machines
begin

text \<open>
  The thread pool, \<open>4/thread_pool.cpp\<close> compiled with \<open>NEED_DETACH\<close> and \<open>NEED_TIMED_JOIN\<close>, as a transition
  system: worker threads and threads that use the library interleave. A mutex protects each
  critical section, so a step is a whole critical section, or one access to the atomic counter
  or the heap outside of them. Accesses to freed objects and null pointers are failures.
\<close>

section \<open>Data\<close>

datatype task_state =
    TASK_STATE_NEW
  | TASK_STATE_QUEUED
  | TASK_STATE_RUNNING
  | TASK_STATE_FINISHED
  | TASK_STATE_JOINED

text \<open>\<open>t_pool\<close> tells if the pointer to the pool is set.\<close>

record thread_task =
  t_pool :: bool
  t_state :: task_state
  t_detached :: bool

text \<open>What a worker thread does next; \<open>W_wait\<close> sleeps on the condition variable of the pool.\<close>

datatype worker_pc = W_loop | W_wait | W_start addr | W_run addr | W_free addr | W_sub | W_exit

record thread_pool =
  tp_queue :: "addr list"
  max_threads :: nat
  task_count :: int
  stopping :: bool

text \<open>
  What a thread that uses the library does next: \<open>Idle r\<close> is outside of it, and the last call
  returned \<open>r\<close>. The others are inside a function, after it released a mutex.
\<close>

datatype client_pc =
    Idle int
  | In_push addr
  | In_push_undo
  | In_push_queue addr
  | Join_wait addr
  | Join_woken addr
  | In_join_sub
  | Timed_wait addr
  | Timed_woken addr
  | In_task_delete addr
  | In_detach_free addr
  | In_detach_delete addr
  | In_pool_delete
  | In_pool_join

record tp_world =
  pool :: "thread_pool option"
  tasks :: "addr \<Rightarrow> thread_task option"
  workers :: "worker_pc list"
  clients :: "client_pc list"

datatype tp_fail = Use_after_free | Pool_freed | Null_pool

definition TPOOL_MAX_THREADS :: int where
  "TPOOL_MAX_THREADS = 20"

definition TPOOL_MAX_TASKS :: int where
  "TPOOL_MAX_TASKS = 100000"

definition TPOOL_ERR_INVALID_ARGUMENT :: int where
  "TPOOL_ERR_INVALID_ARGUMENT = 1"

definition TPOOL_ERR_TOO_MANY_TASKS :: int where
  "TPOOL_ERR_TOO_MANY_TASKS = 2"

definition TPOOL_ERR_HAS_TASKS :: int where
  "TPOOL_ERR_HAS_TASKS = 3"

definition TPOOL_ERR_TASK_NOT_PUSHED :: int where
  "TPOOL_ERR_TASK_NOT_PUSHED = 4"

definition TPOOL_ERR_TASK_IN_POOL :: int where
  "TPOOL_ERR_TASK_IN_POOL = 5"

definition TPOOL_ERR_TIMEOUT :: int where
  "TPOOL_ERR_TIMEOUT = 7"

lemmas tpool_constants = TPOOL_MAX_THREADS_def TPOOL_MAX_TASKS_def TPOOL_ERR_INVALID_ARGUMENT_def TPOOL_ERR_TOO_MANY_TASKS_def
  TPOOL_ERR_HAS_TASKS_def TPOOL_ERR_TASK_NOT_PUSHED_def TPOOL_ERR_TASK_IN_POOL_def TPOOL_ERR_TIMEOUT_def

section \<open>Access\<close>

definition with_task :: "addr \<Rightarrow> tp_world \<Rightarrow> (thread_task \<Rightarrow> tp_fail + tp_world) \<Rightarrow> tp_fail + tp_world" where
  "with_task t w f = (case tasks w t of None \<Rightarrow> Inl Use_after_free | Some k \<Rightarrow> f k)"

definition with_pool :: "tp_world \<Rightarrow> (thread_pool \<Rightarrow> tp_fail + tp_world) \<Rightarrow> tp_fail + tp_world" where
  "with_pool w f = (case pool w of None \<Rightarrow> Inl Pool_freed | Some p \<Rightarrow> f p)"

definition set_task :: "addr \<Rightarrow> thread_task \<Rightarrow> tp_world \<Rightarrow> tp_world" where
  "set_task t k w = w\<lparr>tasks := (tasks w)(t \<mapsto> k)\<rparr>"

definition free_task :: "addr \<Rightarrow> tp_world \<Rightarrow> tp_world" where
  "free_task t w = w\<lparr>tasks := (tasks w)(t := None)\<rparr>"

definition set_pool :: "thread_pool \<Rightarrow> tp_world \<Rightarrow> tp_world" where
  "set_pool p w = w\<lparr>pool := Some p\<rparr>"

definition set_client :: "nat \<Rightarrow> client_pc \<Rightarrow> tp_world \<Rightarrow> tp_world" where
  "set_client i pc w = w\<lparr>clients := (clients w)[i := pc]\<rparr>"

definition set_worker :: "nat \<Rightarrow> worker_pc \<Rightarrow> tp_world \<Rightarrow> tp_world" where
  "set_worker j pc w = w\<lparr>workers := (workers w)[j := pc]\<rparr>"

text \<open>\<open>pthread_cond_broadcast\<close> on the condition variable of the pool and of a task.\<close>

fun wake_worker :: "worker_pc \<Rightarrow> worker_pc" where
  "wake_worker W_wait = W_loop"
| "wake_worker pc = pc"

fun wake_client :: "addr \<Rightarrow> client_pc \<Rightarrow> client_pc" where
  "wake_client t (Join_wait u) = (if u = t then Join_woken u else Join_wait u)"
| "wake_client t (Timed_wait u) = (if u = t then Timed_woken u else Timed_wait u)"
| "wake_client t pc = pc"

definition broadcast_pool :: "tp_world \<Rightarrow> tp_world" where
  "broadcast_pool w = w\<lparr>workers := map wake_worker (workers w)\<rparr>"

definition broadcast_task :: "addr \<Rightarrow> tp_world \<Rightarrow> tp_world" where
  "broadcast_task t w = w\<lparr>clients := map (wake_client t) (clients w)\<rparr>"

definition count_sub :: "tp_world \<Rightarrow> tp_fail + tp_world" where
  "count_sub w = with_pool w (\<lambda>p. Inr (set_pool (p\<lparr>task_count := task_count p - 1\<rparr>) w))"

section \<open>The worker\<close>

text \<open>
  The steps of \<open>thread_pool_worker\<close>: each takes a mutex, or does what stands between two critical
  sections. The function of a task is not looked at; \<open>W_run\<close> is left when it returns or throws.
\<close>

definition thread_pool_worker :: "nat \<Rightarrow> tp_world \<Rightarrow> tp_fail + tp_world" where
  "thread_pool_worker j w =
     (case workers w ! j of
        W_loop \<Rightarrow> with_pool w (\<lambda>p.
          if tp_queue p = [] \<and> \<not> stopping p then Inr (set_worker j W_wait w)
          else if stopping p \<and> tp_queue p = [] then Inr (set_worker j W_exit w)
          else Inr (set_worker j (W_start (hd (tp_queue p))) (set_pool (p\<lparr>tp_queue := tl (tp_queue p)\<rparr>) w)))
      | W_start t \<Rightarrow> with_task t w (\<lambda>k. Inr (set_worker j (W_run t) (set_task t (k\<lparr>t_state := TASK_STATE_RUNNING\<rparr>) w)))
      | W_run t \<Rightarrow> with_task t w (\<lambda>k.
          let w1 = broadcast_task t (set_task t (k\<lparr>t_state := TASK_STATE_FINISHED\<rparr>) w)
          in Inr (set_worker j (if t_detached k then W_free t else W_loop) w1))
      | W_free t \<Rightarrow> with_task t w (\<lambda>k. Inr (set_worker j W_sub (free_task t w)))
      | W_sub \<Rightarrow> map_sum id (set_worker j W_loop) (count_sub w)
      | _ \<Rightarrow> Inr w)"

section \<open>The functions of the library\<close>

datatype tp_call =
    Pool_new int
  | Pool_delete
  | Push addr
  | Task_new addr
  | Is_finished addr
  | Is_running addr
  | Join addr
  | Timed_join addr
  | Task_delete addr
  | Detach addr

definition ret :: "nat \<Rightarrow> int \<Rightarrow> tp_world \<Rightarrow> tp_world" where
  "ret i r w = set_client i (Idle r) w"

definition thread_pool_new :: "nat \<Rightarrow> int \<Rightarrow> tp_world \<Rightarrow> tp_world" where
  "thread_pool_new i thread_count w =
     (if thread_count \<le> 0 \<or> TPOOL_MAX_THREADS < thread_count then ret i TPOOL_ERR_INVALID_ARGUMENT w
      else ret i 0 (set_pool \<lparr>tp_queue = [], max_threads = nat thread_count, task_count = 0, stopping = False\<rparr> w))"

definition thread_pool_delete :: "nat \<Rightarrow> tp_world \<Rightarrow> tp_fail + tp_world" where
  "thread_pool_delete i w = with_pool w (\<lambda>p.
     if task_count p \<noteq> 0 then Inr (ret i TPOOL_ERR_HAS_TASKS w) else Inr (set_client i In_pool_delete w))"

definition pool_delete_stop :: "nat \<Rightarrow> tp_world \<Rightarrow> tp_fail + tp_world" where
  "pool_delete_stop i w = with_pool w (\<lambda>p.
     Inr (set_client i In_pool_join (broadcast_pool (set_pool (p\<lparr>stopping := True\<rparr>) w))))"

text \<open>The threads have been joined.\<close>

definition pool_delete_free :: "nat \<Rightarrow> tp_world \<Rightarrow> tp_fail + tp_world" where
  "pool_delete_free i w = with_pool w (\<lambda>p. Inr (ret i 0 (w\<lparr>pool := None, workers := []\<rparr>)))"

text \<open>The loop around \<open>compare_exchange_weak\<close> has the effect of one atomic test and increment.\<close>

definition thread_pool_push_task :: "nat \<Rightarrow> addr \<Rightarrow> tp_world \<Rightarrow> tp_fail + tp_world" where
  "thread_pool_push_task i t w = with_pool w (\<lambda>p.
     if TPOOL_MAX_TASKS \<le> task_count p then Inr (ret i TPOOL_ERR_TOO_MANY_TASKS w)
     else Inr (set_client i (In_push t) (set_pool (p\<lparr>task_count := task_count p + 1\<rparr>) w)))"

definition push_check :: "nat \<Rightarrow> addr \<Rightarrow> tp_world \<Rightarrow> tp_fail + tp_world" where
  "push_check i t w = with_task t w (\<lambda>k.
     if t_pool k \<or> t_state k = TASK_STATE_QUEUED \<or> t_state k = TASK_STATE_RUNNING \<or> t_state k = TASK_STATE_FINISHED
     then Inr (set_client i In_push_undo w)
     else Inr (set_client i (In_push_queue t) (set_task t (k\<lparr>t_pool := True, t_state := TASK_STATE_QUEUED\<rparr>) w)))"

definition push_undo :: "nat \<Rightarrow> tp_world \<Rightarrow> tp_fail + tp_world" where
  "push_undo i w = map_sum id (ret i TPOOL_ERR_TASK_IN_POOL) (count_sub w)"

text \<open>
  The loop that starts threads: \<open>creates\<close> calls of \<open>pthread_create\<close> succeed before one fails. The
  result is the number of threads.
\<close>

fun spawn :: "nat \<Rightarrow> nat \<Rightarrow> nat \<Rightarrow> nat \<Rightarrow> nat" where
  "spawn 0 mx q n = n"
| "spawn (Suc creates) mx q n = (if n < mx \<and> n < q then spawn creates mx q (Suc n) else n)"

definition push_queue :: "nat \<Rightarrow> addr \<Rightarrow> nat \<Rightarrow> tp_world \<Rightarrow> tp_fail + tp_world" where
  "push_queue i t creates w = with_pool w (\<lambda>p.
     let p1 = p\<lparr>tp_queue := tp_queue p @ [t]\<rparr>;
         n = length (workers w);
         m = spawn creates (max_threads p1) (length (tp_queue p1)) n;
         w1 = (set_pool p1 w)\<lparr>workers := workers w @ replicate (m - n) W_loop\<rparr>
     in Inr (ret i 0 (broadcast_pool w1)))"

definition thread_task_new :: "nat \<Rightarrow> addr \<Rightarrow> tp_world \<Rightarrow> tp_world" where
  "thread_task_new i t w = ret i 0 (set_task t \<lparr>t_pool = False, t_state = TASK_STATE_NEW, t_detached = False\<rparr> w)"

definition thread_task_is_finished :: "nat \<Rightarrow> addr \<Rightarrow> tp_world \<Rightarrow> tp_fail + tp_world" where
  "thread_task_is_finished i t w = with_task t w (\<lambda>k. Inr (ret i (of_bool (t_state k = TASK_STATE_JOINED)) w))"

definition thread_task_is_running :: "nat \<Rightarrow> addr \<Rightarrow> tp_world \<Rightarrow> tp_fail + tp_world" where
  "thread_task_is_running i t w = with_task t w (\<lambda>k. Inr (ret i (of_bool (t_state k = TASK_STATE_RUNNING)) w))"

text \<open>The loop of \<open>thread_task_join\<close> and what follows it, entered with the mutex of the task locked.\<close>

definition join_loop :: "nat \<Rightarrow> addr \<Rightarrow> thread_task \<Rightarrow> tp_world \<Rightarrow> tp_fail + tp_world" where
  "join_loop i t k w =
     (if t_state k \<noteq> TASK_STATE_FINISHED \<and> t_state k \<noteq> TASK_STATE_JOINED then Inr (set_client i (Join_wait t) w)
      else if t_state k = TASK_STATE_FINISHED then
        let w1 = set_task t (k\<lparr>t_state := TASK_STATE_JOINED, t_pool := False\<rparr>) w
        in Inr (if t_pool k then set_client i In_join_sub w1 else ret i 0 w1)
      else Inr (ret i 0 w))"

definition thread_task_join :: "nat \<Rightarrow> addr \<Rightarrow> tp_world \<Rightarrow> tp_fail + tp_world" where
  "thread_task_join i t w = with_task t w (\<lambda>k.
     if t_state k = TASK_STATE_NEW then Inr (ret i TPOOL_ERR_TASK_NOT_PUSHED w) else join_loop i t k w)"

definition join_sub :: "nat \<Rightarrow> tp_world \<Rightarrow> tp_fail + tp_world" where
  "join_sub i w = map_sum id (ret i 0) (count_sub w)"

text \<open>\<open>task->pool->task_count.fetch_sub(1)\<close>.\<close>

definition task_pool_sub :: "thread_task \<Rightarrow> tp_world \<Rightarrow> tp_fail + tp_world" where
  "task_pool_sub k w = (if t_pool k then count_sub w else Inl Null_pool)"

definition thread_task_timed_join :: "nat \<Rightarrow> addr \<Rightarrow> tp_world \<Rightarrow> tp_fail + tp_world" where
  "thread_task_timed_join i t w = with_task t w (\<lambda>k.
     if t_state k = TASK_STATE_NEW then Inr (ret i TPOOL_ERR_TASK_NOT_PUSHED w)
     else if t_state k = TASK_STATE_FINISHED \<or> t_state k = TASK_STATE_JOINED
     then map_sum id (ret i 0) (task_pool_sub k (set_task t (k\<lparr>t_state := TASK_STATE_JOINED\<rparr>) w))
     else Inr (set_client i (Timed_wait t) w))"

definition timed_join_loop :: "nat \<Rightarrow> addr \<Rightarrow> tp_world \<Rightarrow> tp_fail + tp_world" where
  "timed_join_loop i t w = with_task t w (\<lambda>k.
     if t_state k \<noteq> TASK_STATE_FINISHED \<and> t_state k \<noteq> TASK_STATE_JOINED then Inr (set_client i (Timed_wait t) w)
     else if t_state k = TASK_STATE_FINISHED
     then map_sum id (ret i 0) (task_pool_sub k (set_task t (k\<lparr>t_state := TASK_STATE_JOINED\<rparr>) w))
     else Inr (ret i 0 w))"

definition timed_join_timeout :: "nat \<Rightarrow> tp_world \<Rightarrow> tp_world" where
  "timed_join_timeout i w = ret i TPOOL_ERR_TIMEOUT w"

definition thread_task_delete :: "nat \<Rightarrow> addr \<Rightarrow> tp_world \<Rightarrow> tp_fail + tp_world" where
  "thread_task_delete i t w = with_task t w (\<lambda>k.
     if t_state k = TASK_STATE_QUEUED \<or> t_state k = TASK_STATE_RUNNING \<or> t_state k = TASK_STATE_FINISHED
     then Inr (ret i TPOOL_ERR_TASK_IN_POOL w)
     else Inr (set_client i (In_task_delete t) w))"

definition task_delete_free :: "nat \<Rightarrow> addr \<Rightarrow> tp_world \<Rightarrow> tp_fail + tp_world" where
  "task_delete_free i t w = with_task t w (\<lambda>k. Inr (ret i 0 (free_task t w)))"

definition thread_task_detach :: "nat \<Rightarrow> addr \<Rightarrow> tp_world \<Rightarrow> tp_fail + tp_world" where
  "thread_task_detach i t w = with_task t w (\<lambda>k.
     if \<not> t_pool k then Inr (ret i TPOOL_ERR_TASK_NOT_PUSHED w)
     else if t_state k = TASK_STATE_FINISHED then Inr (set_client i (In_detach_free t) w)
     else Inr (ret i 0 (set_task t (k\<lparr>t_detached := True\<rparr>) w)))"

definition detach_sub :: "nat \<Rightarrow> addr \<Rightarrow> tp_world \<Rightarrow> tp_fail + tp_world" where
  "detach_sub i t w = with_task t w (\<lambda>k. map_sum id (set_client i (In_detach_delete t)) (task_pool_sub k w))"

section \<open>Interleaving\<close>

text \<open>
  A step of the system: a thread enters a function, goes on inside it, wakes up (with or without
  a signal) or stops waiting; a worker goes on or wakes up.
\<close>

datatype tp_label =
    Call nat tp_call
  | Client nat nat
  | Wake_client nat
  | Timeout nat
  | Worker nat
  | Wake_worker nat

fun tpool_call :: "nat \<Rightarrow> tp_call \<Rightarrow> tp_world \<Rightarrow> tp_fail + tp_world" where
  "tpool_call i (Pool_new n) w = Inr (thread_pool_new i n w)"
| "tpool_call i Pool_delete w = thread_pool_delete i w"
| "tpool_call i (Push t) w = thread_pool_push_task i t w"
| "tpool_call i (Task_new t) w = Inr (thread_task_new i t w)"
| "tpool_call i (Is_finished t) w = thread_task_is_finished i t w"
| "tpool_call i (Is_running t) w = thread_task_is_running i t w"
| "tpool_call i (Join t) w = thread_task_join i t w"
| "tpool_call i (Timed_join t) w = thread_task_timed_join i t w"
| "tpool_call i (Task_delete t) w = thread_task_delete i t w"
| "tpool_call i (Detach t) w = thread_task_detach i t w"

definition client_step :: "nat \<Rightarrow> nat \<Rightarrow> tp_world \<Rightarrow> tp_fail + tp_world" where
  "client_step i creates w =
     (case clients w ! i of
        In_push t \<Rightarrow> push_check i t w
      | In_push_undo \<Rightarrow> push_undo i w
      | In_push_queue t \<Rightarrow> push_queue i t creates w
      | Join_woken t \<Rightarrow> with_task t w (\<lambda>k. join_loop i t k w)
      | In_join_sub \<Rightarrow> join_sub i w
      | Timed_woken t \<Rightarrow> timed_join_loop i t w
      | In_task_delete t \<Rightarrow> task_delete_free i t w
      | In_detach_free t \<Rightarrow> detach_sub i t w
      | In_detach_delete t \<Rightarrow> task_delete_free i t w
      | In_pool_delete \<Rightarrow> pool_delete_stop i w
      | In_pool_join \<Rightarrow> pool_delete_free i w
      | _ \<Rightarrow> Inr w)"

fun tp_step :: "tp_label \<Rightarrow> tp_world \<Rightarrow> tp_fail + tp_world" where
  "tp_step (Call i c) w = tpool_call i c w"
| "tp_step (Client i creates) w = client_step i creates w"
| "tp_step (Wake_client i) w =
     Inr (case clients w ! i of Join_wait t \<Rightarrow> set_client i (Join_woken t) w | Timed_wait t \<Rightarrow> set_client i (Timed_woken t) w | _ \<Rightarrow> w)"
| "tp_step (Timeout i) w = Inr (timed_join_timeout i w)"
| "tp_step (Worker j) w = thread_pool_worker j w"
| "tp_step (Wake_worker j) w = Inr (set_worker j (wake_worker (workers w ! j)) w)"

text \<open>
  The rules for the threads that use the library: a task is used by one thread at a time and
  not after it was detached or deleted, a joined task is not joined with a time-out again,
  nothing is pushed into a pool that is being deleted. There is one pool at a time, and the allocator
  returns addresses that are not in use.
\<close>

fun uses_task :: "addr \<Rightarrow> client_pc \<Rightarrow> bool" where
  "uses_task t (In_push u) = (u = t)"
| "uses_task t (In_push_queue u) = (u = t)"
| "uses_task t (Join_wait u) = (u = t)"
| "uses_task t (Join_woken u) = (u = t)"
| "uses_task t (Timed_wait u) = (u = t)"
| "uses_task t (Timed_woken u) = (u = t)"
| "uses_task t (In_task_delete u) = (u = t)"
| "uses_task t (In_detach_free u) = (u = t)"
| "uses_task t (In_detach_delete u) = (u = t)"
| "uses_task t pc = False"

fun deletes_pool :: "client_pc \<Rightarrow> bool" where
  "deletes_pool In_pool_delete = True"
| "deletes_pool In_pool_join = True"
| "deletes_pool pc = False"

definition usable :: "addr \<Rightarrow> tp_world \<Rightarrow> bool" where
  "usable t w \<longleftrightarrow> \<not> list_ex (uses_task t) (clients w) \<and> (case tasks w t of None \<Rightarrow> False | Some k \<Rightarrow> \<not> t_detached k)"

definition pool_usable :: "tp_world \<Rightarrow> bool" where
  "pool_usable w \<longleftrightarrow> pool w \<noteq> None \<and> \<not> list_ex deletes_pool (clients w)"

fun call_allowed :: "tp_call \<Rightarrow> tp_world \<Rightarrow> bool" where
  "call_allowed (Pool_new n) w = (pool w = None)"
| "call_allowed Pool_delete w = pool_usable w"
| "call_allowed (Push t) w = (usable t w \<and> pool_usable w)"
| "call_allowed (Task_new t) w = (tasks w t = None)"
| "call_allowed (Timed_join t) w = (usable t w \<and> map_option t_state (tasks w t) \<noteq> Some TASK_STATE_JOINED)"
| "call_allowed (Is_finished t) w = usable t w"
| "call_allowed (Is_running t) w = usable t w"
| "call_allowed (Join t) w = usable t w"
| "call_allowed (Task_delete t) w = usable t w"
| "call_allowed (Detach t) w = usable t w"

fun idle :: "client_pc \<Rightarrow> bool" where
  "idle (Idle r) = True"
| "idle pc = False"

fun asleep :: "client_pc \<Rightarrow> bool" where
  "asleep (Join_wait t) = True"
| "asleep (Timed_wait t) = True"
| "asleep pc = False"

text \<open>\<open>pthread_join\<close> returns when the thread has ended.\<close>

fun tp_enabled :: "tp_label \<Rightarrow> tp_world \<Rightarrow> bool" where
  "tp_enabled (Call i c) w = (i < length (clients w) \<and> idle (clients w ! i) \<and> call_allowed c w)"
| "tp_enabled (Client i creates) w =
     (i < length (clients w) \<and> \<not> idle (clients w ! i) \<and> \<not> asleep (clients w ! i)
      \<and> (clients w ! i = In_pool_join \<longrightarrow> list_all (\<lambda>pc. pc = W_exit) (workers w)))"
| "tp_enabled (Wake_client i) w = (i < length (clients w) \<and> asleep (clients w ! i))"
| "tp_enabled (Timeout i) w = (i < length (clients w) \<and> (case clients w ! i of Timed_wait t \<Rightarrow> True | _ \<Rightarrow> False))"
| "tp_enabled (Worker j) w = (j < length (workers w) \<and> workers w ! j \<noteq> W_wait \<and> workers w ! j \<noteq> W_exit)"
| "tp_enabled (Wake_worker j) w = (j < length (workers w) \<and> workers w ! j = W_wait)"

definition tp_init :: "nat \<Rightarrow> tp_world" where
  "tp_init n = \<lparr>pool = None, tasks = Map.empty, workers = [], clients = replicate n (Idle 0)\<rparr>"

end
