(* ===== verification/Thread_Pool_Inv.thy ===== *)
theory Thread_Pool_Inv
  imports Thread_Pool
begin

text \<open>
  The invariant of the thread pool: where every task is, what the counter of tasks counts, that no
  worker sleeps over work, and that every step keeps it and touches only live objects.
\<close>

section \<open>Counting\<close>

text \<open>How many elements of a list satisfy a predicate.\<close>

definition occ :: "('a \<Rightarrow> bool) \<Rightarrow> 'a list \<Rightarrow> int" where
  "occ P xs = int (length (filter P xs))"

lemma occ_simps [simp]:
  "occ P [] = 0" "occ P (x # xs) = of_bool (P x) + occ P xs" "occ P (xs @ ys) = occ P xs + occ P ys"
  "occ P (replicate n x) = of_bool (P x) * int n"
  by (simp_all add: occ_def)

lemma occ_nonneg: "0 \<le> occ P xs"
  by (simp add: occ_def)

lemma occ_update: "i < length xs \<Longrightarrow> occ P (xs[i := x]) = occ P xs - of_bool (P (xs ! i)) + of_bool (P x)"
proof -
  assume i: "i < length xs"
  have "occ P xs = occ P (take i xs @ xs ! i # drop (Suc i) xs)" using id_take_nth_drop [OF i] by simp
  then show ?thesis using i by (simp add: upd_conv_take_nth_drop)
qed

lemma occ_map: "occ P (map f xs) = occ (\<lambda>x. P (f x)) xs"
  by (induction xs) simp_all

lemma occ_zero: "occ P xs = 0 \<longleftrightarrow> (\<forall>x\<in>set xs. \<not> P x)"
  by (simp add: occ_def filter_empty_conv)

lemma occ_pos: "i < length xs \<Longrightarrow> P (xs ! i) \<Longrightarrow> 1 \<le> occ P xs"
  using occ_zero [of P xs] occ_nonneg [of P xs] by (metis int_one_le_iff_zero_less nth_mem order_le_less)

lemma occ_le_one:
  assumes "occ P xs \<le> 1" and "i < length xs" and "j < length xs" and "P (xs ! i)" and "P (xs ! j)"
  shows "i = j"
proof (rule ccontr)
  assume n: "i \<noteq> j"
  define y where "y = (SOME y. \<not> P y)"
  show False
  proof (cases "\<exists>y. \<not> P y")
    case True
    then obtain y where y: "\<not> P y" by blast
    have "occ P (xs[i := y]) = 0" using assms y occ_update [of i xs P y] occ_nonneg [of P "xs[i := y]"] by simp
    moreover have "1 \<le> occ P (xs[i := y])" using n assms by (intro occ_pos [of j]) auto
    ultimately show False by simp
  next
    case False
    then have "P = (\<lambda>_. True)" by auto
    then have "length xs \<le> 1" using assms(1) by (simp add: occ_def)
    then show False using assms n by linarith
  qed
qed

lemma occ_other:
  assumes "occ P xs \<le> 1" and "i < length xs" and "P (xs ! i)" and "\<not> P y" and "x \<in> set (xs[i := y])"
  shows "\<not> P x"
proof -
  have "occ P (xs[i := y]) = 0" using assms occ_update [of i xs P y] occ_nonneg [of P "xs[i := y]"] by simp
  then show ?thesis using assms(5) by (simp add: occ_zero)
qed

lemma card_change:
  assumes "finite {x. P x}" and "\<And>x. x \<noteq> t \<Longrightarrow> Q x = P x"
  shows "finite {x. Q x}" and "int (card {x. Q x}) = int (card {x. P x}) - of_bool (P t) + of_bool (Q t)"
proof -
  let ?R = "{x. P x \<and> x \<noteq> t}"
  have f: "finite ?R" using assms(1) by (rule rev_finite_subset) auto
  have p: "{x. P x} = (if P t then insert t ?R else ?R)" by auto
  have "{x. Q x \<and> x \<noteq> t} = ?R" using assms(2) by blast
  moreover have "{x. Q x} = (if Q t then insert t {x. Q x \<and> x \<noteq> t} else {x. Q x \<and> x \<noteq> t})" by auto
  ultimately have q: "{x. Q x} = (if Q t then insert t ?R else ?R)" by simp
  have c: "card {x. P x} = card ?R + of_bool (P t)" "card {x. Q x} = card ?R + of_bool (Q t)" using f by (simp_all add: p q)
  show "finite {x. Q x}" using f by (simp add: q)
  show "int (card {x. Q x}) = int (card {x. P x}) - of_bool (P t) + of_bool (Q t)" using c by simp
qed

section \<open>The invariant\<close>

definition in_state :: "task_state \<Rightarrow> addr \<Rightarrow> tp_world \<Rightarrow> bool" where
  "in_state s t w \<longleftrightarrow> (case tasks w t of None \<Rightarrow> False | Some k \<Rightarrow> t_state k = s)"

definition the_queue :: "tp_world \<Rightarrow> addr list" where
  "the_queue w = (case pool w of None \<Rightarrow> [] | Some p \<Rightarrow> tp_queue p)"

definition the_count :: "tp_world \<Rightarrow> int" where
  "the_count w = (case pool w of None \<Rightarrow> 0 | Some p \<Rightarrow> task_count p)"

text \<open>A queued task is in one place: its pusher is about to queue it, it is in the queue, or a worker took it.\<close>

definition queued_ok :: "tp_world \<Rightarrow> bool" where
  "queued_ok w \<longleftrightarrow> (\<forall>t. occ (\<lambda>u. u = t) (the_queue w) + occ (\<lambda>pc. pc = In_push_queue t) (clients w)
     + occ (\<lambda>pc. pc = W_start t) (workers w) = of_bool (in_state TASK_STATE_QUEUED t w))"

text \<open>A running task runs in one worker; a detached task that has finished is about to be freed by one.\<close>

definition running_ok :: "tp_world \<Rightarrow> bool" where
  "running_ok w \<longleftrightarrow> (\<forall>t. occ (\<lambda>pc. pc = W_run t) (workers w) = of_bool (in_state TASK_STATE_RUNNING t w))"

definition is_detached :: "addr \<Rightarrow> tp_world \<Rightarrow> bool" where
  "is_detached t w \<longleftrightarrow> (case tasks w t of None \<Rightarrow> False | Some k \<Rightarrow> t_detached k)"

definition freed_ok :: "tp_world \<Rightarrow> bool" where
  "freed_ok w \<longleftrightarrow> (\<forall>t. occ (\<lambda>pc. pc = W_free t) (workers w) = of_bool (in_state TASK_STATE_FINISHED t w \<and> is_detached t w))"

definition in_pool :: "thread_task \<Rightarrow> bool" where
  "in_pool k \<longleftrightarrow> t_state k = TASK_STATE_QUEUED \<or> t_state k = TASK_STATE_RUNNING \<or> t_state k = TASK_STATE_FINISHED"

definition pointers_ok :: "tp_world \<Rightarrow> bool" where
  "pointers_ok w \<longleftrightarrow> (\<forall>t k. tasks w t = Some k \<longrightarrow> (in_pool k \<longrightarrow> t_pool k) \<and> (t_state k = TASK_STATE_NEW \<longrightarrow> \<not> t_pool k))"

text \<open>What holds of the task a thread is about to use again.\<close>

fun use_ok :: "client_pc \<Rightarrow> task_state \<Rightarrow> bool" where
  "use_ok (In_push_queue t) s = (s = TASK_STATE_QUEUED)"
| "use_ok (Join_wait t) s = (s \<noteq> TASK_STATE_NEW)"
| "use_ok (Join_woken t) s = (s \<noteq> TASK_STATE_NEW)"
| "use_ok (Timed_wait t) s = (s \<noteq> TASK_STATE_NEW)"
| "use_ok (Timed_woken t) s = (s \<noteq> TASK_STATE_NEW)"
| "use_ok (In_task_delete t) s = (s = TASK_STATE_NEW \<or> s = TASK_STATE_JOINED)"
| "use_ok (In_detach_free t) s = (s = TASK_STATE_FINISHED)"
| "use_ok (In_detach_delete t) s = (s = TASK_STATE_FINISHED)"
| "use_ok pc s = True"

definition users_ok :: "tp_world \<Rightarrow> bool" where
  "users_ok w \<longleftrightarrow> (\<forall>t. occ (uses_task t) (clients w) \<le> 1)
     \<and> (\<forall>pc\<in>set (clients w). \<forall>t. uses_task t pc \<longrightarrow> (\<exists>k. tasks w t = Some k \<and> \<not> t_detached k \<and> use_ok pc (t_state k)))"

text \<open>The tasks that count, and the threads that still have to count a task out.\<close>

definition counted :: "tp_world \<Rightarrow> addr \<Rightarrow> bool" where
  "counted w t \<longleftrightarrow> (case tasks w t of None \<Rightarrow> False | Some k \<Rightarrow> in_pool k) \<and> In_detach_delete t \<notin> set (clients w)"

fun client_token :: "client_pc \<Rightarrow> bool" where
  "client_token (In_push t) = True"
| "client_token In_push_undo = True"
| "client_token In_join_sub = True"
| "client_token pc = False"

definition count_ok :: "tp_world \<Rightarrow> bool" where
  "count_ok w \<longleftrightarrow> finite {t. counted w t} \<and> the_count w \<le> TPOOL_MAX_TASKS
     \<and> the_count w = int (card {t. counted w t}) + occ client_token (clients w) + occ (\<lambda>pc. pc = W_sub) (workers w)"

text \<open>No worker sleeps while there is something to do.\<close>

definition sleep_ok :: "tp_world \<Rightarrow> bool" where
  "sleep_ok w \<longleftrightarrow> (W_wait \<in> set (workers w) \<longrightarrow> (case pool w of None \<Rightarrow> False | Some p \<Rightarrow> tp_queue p = [] \<and> \<not> stopping p))"

definition threads_ok :: "tp_world \<Rightarrow> bool" where
  "threads_ok w \<longleftrightarrow> (case pool w of None \<Rightarrow> workers w = [] | Some p \<Rightarrow> length (workers w) \<le> max_threads p \<and> int (max_threads p) \<le> TPOOL_MAX_THREADS)"

definition deletion_ok :: "tp_world \<Rightarrow> bool" where
  "deletion_ok w \<longleftrightarrow> occ deletes_pool (clients w) \<le> 1
     \<and> (list_ex deletes_pool (clients w) \<longrightarrow> pool w \<noteq> None \<and> the_count w = 0)
     \<and> (\<forall>p. pool w = Some p \<longrightarrow> (stopping p \<longleftrightarrow> In_pool_join \<in> set (clients w)))
     \<and> (W_exit \<in> set (workers w) \<longrightarrow> In_pool_join \<in> set (clients w))"

definition tp_inv :: "tp_world \<Rightarrow> bool" where
  "tp_inv w \<longleftrightarrow> queued_ok w \<and> running_ok w \<and> freed_ok w \<and> pointers_ok w \<and> users_ok w \<and> count_ok w \<and> sleep_ok w
     \<and> threads_ok w \<and> deletion_ok w"

section \<open>Projections\<close>

lemma tp_fields [simp]:
  "pool (set_client i pc w) = pool w" "tasks (set_client i pc w) = tasks w" "workers (set_client i pc w) = workers w"
  "clients (set_client i pc w) = (clients w)[i := pc]"
  "pool (set_worker j wpc w) = pool w" "tasks (set_worker j wpc w) = tasks w" "clients (set_worker j wpc w) = clients w"
  "workers (set_worker j wpc w) = (workers w)[j := wpc]"
  "pool (set_task t k w) = pool w" "workers (set_task t k w) = workers w" "clients (set_task t k w) = clients w"
  "tasks (set_task t k w) = (tasks w)(t \<mapsto> k)"
  "pool (free_task t w) = pool w" "workers (free_task t w) = workers w" "clients (free_task t w) = clients w"
  "tasks (free_task t w) = (tasks w)(t := None)"
  "pool (set_pool p w) = Some p" "tasks (set_pool p w) = tasks w" "workers (set_pool p w) = workers w" "clients (set_pool p w) = clients w"
  "pool (broadcast_pool w) = pool w" "tasks (broadcast_pool w) = tasks w" "clients (broadcast_pool w) = clients w"
  "workers (broadcast_pool w) = map wake_worker (workers w)"
  "pool (broadcast_task t w) = pool w" "tasks (broadcast_task t w) = tasks w" "workers (broadcast_task t w) = workers w"
  "clients (broadcast_task t w) = map (wake_client t) (clients w)"
  by (simp_all add: set_client_def set_worker_def set_task_def free_task_def set_pool_def broadcast_pool_def broadcast_task_def)

lemma wake_worker_eq [simp]:
  "wake_worker pc = W_start t \<longleftrightarrow> pc = W_start t" "wake_worker pc = W_run t \<longleftrightarrow> pc = W_run t" "wake_worker pc = W_free t \<longleftrightarrow> pc = W_free t"
  "wake_worker pc = W_sub \<longleftrightarrow> pc = W_sub" "wake_worker pc = W_exit \<longleftrightarrow> pc = W_exit" "wake_worker pc \<noteq> W_wait"
  by (cases pc; simp)+

lemma wake_client_eq [simp]:
  "uses_task u (wake_client t pc) = uses_task u pc" "client_token (wake_client t pc) = client_token pc"
  "deletes_pool (wake_client t pc) = deletes_pool pc" "use_ok (wake_client t pc) s = use_ok pc s"
  "wake_client t pc = In_push_queue u \<longleftrightarrow> pc = In_push_queue u" "wake_client t pc = In_detach_delete u \<longleftrightarrow> pc = In_detach_delete u"
  "In_detach_delete u = wake_client t pc \<longleftrightarrow> pc = In_detach_delete u"
  "wake_client t pc = In_pool_join \<longleftrightarrow> pc = In_pool_join" "In_pool_join = wake_client t pc \<longleftrightarrow> pc = In_pool_join"
  by (cases pc; force)+

lemma wake_worker_in [simp]: "W_exit \<in> wake_worker ` A \<longleftrightarrow> W_exit \<in> A" "W_wait \<notin> wake_worker ` A"
  by (auto simp: image_iff) (metis wake_worker_eq(5,6))+

lemma wake_client_in [simp]: "In_detach_delete u \<in> wake_client t ` A \<longleftrightarrow> In_detach_delete u \<in> A" "In_pool_join \<in> wake_client t ` A \<longleftrightarrow> In_pool_join \<in> A"
  by (auto simp: image_iff)

lemmas tp_state_defs = in_state_def is_detached_def the_queue_def the_count_def

lemmas tp_step_defs = with_task_def with_pool_def count_sub_def thread_pool_worker_def ret_def thread_pool_new_def thread_pool_delete_def
  pool_delete_stop_def pool_delete_free_def thread_pool_push_task_def push_check_def push_undo_def push_queue_def thread_task_new_def
  thread_task_is_finished_def thread_task_is_running_def join_loop_def thread_task_join_def join_sub_def task_pool_sub_def
  thread_task_timed_join_def timed_join_loop_def timed_join_timeout_def thread_task_delete_def task_delete_free_def
  thread_task_detach_def detach_sub_def client_step_def Let_def

section \<open>What the invariant says of a thread about to move\<close>

lemma task_user_facts:
  assumes "tp_inv w" and "i < length (clients w)" and "uses_task t (clients w ! i)"
  shows "\<exists>k. tasks w t = Some k \<and> \<not> t_detached k \<and> use_ok (clients w ! i) (t_state k)"
proof -
  have "clients w ! i \<in> set (clients w)" using assms(2) by simp
  then show ?thesis using assms(1,3) unfolding tp_inv_def users_ok_def by blast
qed

lemma one_user:
  "tp_inv w \<Longrightarrow> i < length (clients w) \<Longrightarrow> j < length (clients w) \<Longrightarrow> uses_task t (clients w ! i) \<Longrightarrow> uses_task t (clients w ! j) \<Longrightarrow> i = j"
proof -
  assume inv: "tp_inv w" and a: "i < length (clients w)" "j < length (clients w)" "uses_task t (clients w ! i)" "uses_task t (clients w ! j)"
  have "occ (uses_task t) (clients w) \<le> 1" using inv unfolding tp_inv_def users_ok_def by blast
  from occ_le_one [OF this a] show ?thesis .
qed

lemma push_queue_state:
  assumes "tp_inv w" and "i < length (clients w)" and "clients w ! i = In_push_queue t"
  shows "in_state TASK_STATE_QUEUED t w"
  using task_user_facts [OF assms(1,2), of t] assms(3) by (auto simp: in_state_def)

lemma start_state:
  assumes "tp_inv w" and "j < length (workers w)" and "workers w ! j = W_start t"
  shows "in_state TASK_STATE_QUEUED t w"
proof -
  have "1 \<le> occ (\<lambda>pc. pc = W_start t) (workers w)" using assms by (intro occ_pos) auto
  moreover have "occ (\<lambda>u. u = t) (the_queue w) + occ (\<lambda>pc. pc = In_push_queue t) (clients w)
     + occ (\<lambda>pc. pc = W_start t) (workers w) = of_bool (in_state TASK_STATE_QUEUED t w)" using assms(1) by (simp add: tp_inv_def queued_ok_def)
  ultimately show ?thesis using occ_nonneg [of "\<lambda>u. u = t" "the_queue w"] occ_nonneg [of "\<lambda>pc. pc = In_push_queue t" "clients w"]
    by (cases "in_state TASK_STATE_QUEUED t w") auto
qed

lemma run_state:
  assumes "tp_inv w" and "j < length (workers w)" and "workers w ! j = W_run t"
  shows "in_state TASK_STATE_RUNNING t w"
proof -
  have "1 \<le> occ (\<lambda>pc. pc = W_run t) (workers w)" using assms by (intro occ_pos) auto
  moreover have "occ (\<lambda>pc. pc = W_run t) (workers w) = of_bool (in_state TASK_STATE_RUNNING t w)"
    using assms(1) by (simp add: tp_inv_def running_ok_def)
  ultimately show ?thesis by (cases "in_state TASK_STATE_RUNNING t w") auto
qed

lemma free_state:
  assumes "tp_inv w" and "j < length (workers w)" and "workers w ! j = W_free t"
  shows "in_state TASK_STATE_FINISHED t w \<and> is_detached t w"
proof -
  have "1 \<le> occ (\<lambda>pc. pc = W_free t) (workers w)" using assms by (intro occ_pos) auto
  moreover have "occ (\<lambda>pc. pc = W_free t) (workers w) = of_bool (in_state TASK_STATE_FINISHED t w \<and> is_detached t w)"
    using assms(1) by (simp add: tp_inv_def freed_ok_def)
  ultimately show ?thesis by (cases "in_state TASK_STATE_FINISHED t w \<and> is_detached t w") auto
qed

lemma occ_exited: "list_all (\<lambda>pc. pc = W_exit) ws \<Longrightarrow> \<not> P W_exit \<Longrightarrow> occ P ws = 0"
  by (induction ws) auto

lemma counts_nonneg: "tp_inv w \<Longrightarrow> 0 \<le> occ client_token (clients w) \<and> 0 \<le> occ (\<lambda>pc. pc = W_sub) (workers w) \<and> 0 \<le> the_count w"
  using occ_nonneg [of client_token "clients w"] occ_nonneg [of "\<lambda>pc. pc = W_sub" "workers w"] by (simp add: tp_inv_def count_ok_def)

text \<open>While the pool is being deleted nothing is left to do.\<close>

lemma deletion_facts:
  assumes inv: "tp_inv w" and i: "i < length (clients w)" and d: "deletes_pool (clients w ! i)"
  shows "the_count w = 0" and "\<not> counted w t" and "occ client_token (clients w) = 0" and "W_sub \<notin> set (workers w)" and "pool w \<noteq> None"
proof -
  have l: "list_ex deletes_pool (clients w)" using i d by (auto simp: list_ex_iff)
  show z: "the_count w = 0" and "pool w \<noteq> None" using inv l by (simp_all add: tp_inv_def deletion_ok_def)
  have c: "the_count w = int (card {t. counted w t}) + occ client_token (clients w) + occ (\<lambda>pc. pc = W_sub) (workers w)" "finite {t. counted w t}"
    using inv by (simp_all add: tp_inv_def count_ok_def)
  then have "int (card {t. counted w t}) = 0 \<and> occ (\<lambda>pc. pc = W_sub) (workers w) = 0 \<and> occ client_token (clients w) = 0"
    using z counts_nonneg [OF inv] by linarith
  then show "\<not> counted w t" "occ client_token (clients w) = 0" "W_sub \<notin> set (workers w)" using c(2) by (auto simp: occ_zero)
qed

section \<open>Moves\<close>

text \<open>
  The steps again, sorted by what they change, each with what the invariant adds to the guards of the code. A
  plain move only changes where a thread is, between places that count nothing.
\<close>

fun plain_pc :: "client_pc \<Rightarrow> bool" where
  "plain_pc (Idle r) = True"
| "plain_pc (Join_wait t) = True"
| "plain_pc (Join_woken t) = True"
| "plain_pc (Timed_wait t) = True"
| "plain_pc (Timed_woken t) = True"
| "plain_pc (In_task_delete t) = True"
| "plain_pc (In_detach_free t) = True"
| "plain_pc pc = False"

lemma plain_pc_simps [simp]:
  "plain_pc pc \<Longrightarrow> \<not> client_token pc" "plain_pc pc \<Longrightarrow> \<not> deletes_pool pc" "plain_pc pc \<Longrightarrow> pc \<noteq> In_push_queue t"
  "plain_pc pc \<Longrightarrow> pc \<noteq> In_detach_delete t" "plain_pc pc \<Longrightarrow> pc \<noteq> In_pool_join" "plain_pc pc \<Longrightarrow> In_pool_join \<noteq> pc"
  "plain_pc pc \<Longrightarrow> In_detach_delete t \<noteq> pc"
  by (cases pc; simp)+

definition may_use :: "client_pc \<Rightarrow> nat \<Rightarrow> tp_world \<Rightarrow> bool" where
  "may_use pc i w \<longleftrightarrow> (\<forall>t. uses_task t pc \<longrightarrow> (uses_task t (clients w ! i) \<or> \<not> list_ex (uses_task t) (clients w))
     \<and> (\<exists>k. tasks w t = Some k \<and> \<not> t_detached k \<and> use_ok pc (t_state k)))"

text \<open>Thread \<open>i\<close> may touch task \<open>t\<close>: it uses it already or nobody does.\<close>

definition holds :: "nat \<Rightarrow> addr \<Rightarrow> tp_world \<Rightarrow> bool" where
  "holds i t w \<longleftrightarrow> uses_task t (clients w ! i) \<or> \<not> list_ex (uses_task t) (clients w)"

inductive tp_move :: "tp_world \<Rightarrow> tp_world \<Rightarrow> bool" where
  m_plain: "i < length (clients w) \<Longrightarrow> plain_pc (clients w ! i) \<Longrightarrow> plain_pc pc \<Longrightarrow> may_use pc i w \<Longrightarrow> tp_move w (set_client i pc w)"
| m_pool_new: "i < length (clients w) \<Longrightarrow> clients w ! i = Idle q \<Longrightarrow> pool w = None \<Longrightarrow> int n \<le> TPOOL_MAX_THREADS \<Longrightarrow>
     tp_move w (set_client i (Idle r) (set_pool \<lparr>tp_queue = [], max_threads = n, task_count = 0, stopping = False\<rparr> w))"
| m_push: "i < length (clients w) \<Longrightarrow> clients w ! i = Idle q \<Longrightarrow> pool w = Some p \<Longrightarrow> task_count p < TPOOL_MAX_TASKS \<Longrightarrow>
     \<not> list_ex deletes_pool (clients w) \<Longrightarrow> tasks w t = Some k \<Longrightarrow> \<not> t_detached k \<Longrightarrow> holds i t w \<Longrightarrow>
     tp_move w (set_client i (In_push t) (set_pool (p\<lparr>task_count := task_count p + 1\<rparr>) w))"
| m_push_bad: "i < length (clients w) \<Longrightarrow> clients w ! i = In_push t \<Longrightarrow> tp_move w (set_client i In_push_undo w)"
| m_push_ok: "i < length (clients w) \<Longrightarrow> clients w ! i = In_push t \<Longrightarrow> tasks w t = Some k \<Longrightarrow> \<not> t_detached k \<Longrightarrow> \<not> in_pool k \<Longrightarrow>
     tp_move w (set_client i (In_push_queue t) (set_task t (k\<lparr>t_pool := True, t_state := TASK_STATE_QUEUED\<rparr>) w))"
| m_sub: "i < length (clients w) \<Longrightarrow> clients w ! i = In_push_undo \<or> clients w ! i = In_join_sub \<Longrightarrow> pool w = Some p \<Longrightarrow>
     tp_move w (set_client i (Idle r) (set_pool (p\<lparr>task_count := task_count p - 1\<rparr>) w))"
| m_queue: "i < length (clients w) \<Longrightarrow> clients w ! i = In_push_queue t \<Longrightarrow> pool w = Some p \<Longrightarrow> n \<le> max_threads p - length (workers w) \<Longrightarrow>
     \<not> list_ex deletes_pool (clients w) \<Longrightarrow>
     tp_move w (set_client i (Idle 0) (broadcast_pool ((set_pool (p\<lparr>tp_queue := tp_queue p @ [t]\<rparr>) w)\<lparr>workers := workers w @ replicate n W_loop\<rparr>)))"
| m_task_new: "i < length (clients w) \<Longrightarrow> clients w ! i = Idle q \<Longrightarrow> tasks w t = None \<Longrightarrow>
     tp_move w (set_client i (Idle 0) (set_task t \<lparr>t_pool = False, t_state = TASK_STATE_NEW, t_detached = False\<rparr> w))"
| m_join: "i < length (clients w) \<Longrightarrow> plain_pc (clients w ! i) \<Longrightarrow> holds i t w \<Longrightarrow> tasks w t = Some k \<Longrightarrow> \<not> t_detached k \<Longrightarrow> t_state k = TASK_STATE_FINISHED \<Longrightarrow>
     tp_move w (set_client i In_join_sub (set_task t (k\<lparr>t_state := TASK_STATE_JOINED, t_pool := False\<rparr>) w))"
| m_timed_join: "i < length (clients w) \<Longrightarrow> plain_pc (clients w ! i) \<Longrightarrow> holds i t w \<Longrightarrow> tasks w t = Some k \<Longrightarrow> \<not> t_detached k \<Longrightarrow> t_state k = TASK_STATE_FINISHED \<Longrightarrow>
     pool w = Some p \<Longrightarrow>
     tp_move w (set_client i (Idle 0) (set_pool (p\<lparr>task_count := task_count p - 1\<rparr>) (set_task t (k\<lparr>t_state := TASK_STATE_JOINED\<rparr>) w)))"
| m_task_delete: "i < length (clients w) \<Longrightarrow> clients w ! i = In_task_delete t \<Longrightarrow> tasks w t = Some k \<Longrightarrow> \<not> t_detached k \<Longrightarrow> \<not> in_pool k \<Longrightarrow>
     tp_move w (set_client i (Idle 0) (free_task t w))"
| m_detach: "i < length (clients w) \<Longrightarrow> plain_pc (clients w ! i) \<Longrightarrow> holds i t w \<Longrightarrow> tasks w t = Some k \<Longrightarrow> \<not> t_detached k \<Longrightarrow> t_state k \<noteq> TASK_STATE_FINISHED \<Longrightarrow>
     clients w ! i = Idle q \<Longrightarrow> t_pool k \<Longrightarrow>
     tp_move w (set_client i (Idle 0) (set_task t (k\<lparr>t_detached := True\<rparr>) w))"
| m_detach_sub: "i < length (clients w) \<Longrightarrow> clients w ! i = In_detach_free t \<Longrightarrow> tasks w t = Some k \<Longrightarrow> \<not> t_detached k \<Longrightarrow> t_state k = TASK_STATE_FINISHED \<Longrightarrow>
     pool w = Some p \<Longrightarrow>
     tp_move w (set_client i (In_detach_delete t) (set_pool (p\<lparr>task_count := task_count p - 1\<rparr>) w))"
| m_detach_free: "i < length (clients w) \<Longrightarrow> clients w ! i = In_detach_delete t \<Longrightarrow> tasks w t = Some k \<Longrightarrow> \<not> t_detached k \<Longrightarrow> t_state k = TASK_STATE_FINISHED \<Longrightarrow>
     tp_move w (set_client i (Idle 0) (free_task t w))"
| m_delete: "i < length (clients w) \<Longrightarrow> clients w ! i = Idle q \<Longrightarrow> pool w = Some p \<Longrightarrow> task_count p = 0 \<Longrightarrow> \<not> list_ex deletes_pool (clients w) \<Longrightarrow>
     tp_move w (set_client i In_pool_delete w)"
| m_stop: "i < length (clients w) \<Longrightarrow> clients w ! i = In_pool_delete \<Longrightarrow> pool w = Some p \<Longrightarrow>
     tp_move w (set_client i In_pool_join (broadcast_pool (set_pool (p\<lparr>stopping := True\<rparr>) w)))"
| m_pool_free: "i < length (clients w) \<Longrightarrow> clients w ! i = In_pool_join \<Longrightarrow> pool w = Some p \<Longrightarrow> list_all (\<lambda>pc. pc = W_exit) (workers w) \<Longrightarrow>
     tp_move w (set_client i (Idle 0) (w\<lparr>pool := None, workers := []\<rparr>))"
| w_sleep: "j < length (workers w) \<Longrightarrow> workers w ! j = W_loop \<Longrightarrow> pool w = Some p \<Longrightarrow> tp_queue p = [] \<Longrightarrow> \<not> stopping p \<Longrightarrow> tp_move w (set_worker j W_wait w)"
| w_exit: "j < length (workers w) \<Longrightarrow> workers w ! j = W_loop \<Longrightarrow> pool w = Some p \<Longrightarrow> tp_queue p = [] \<Longrightarrow> stopping p \<Longrightarrow> tp_move w (set_worker j W_exit w)"
| w_take: "j < length (workers w) \<Longrightarrow> workers w ! j = W_loop \<Longrightarrow> pool w = Some p \<Longrightarrow> tp_queue p = t # ts \<Longrightarrow>
     tp_move w (set_worker j (W_start t) (set_pool (p\<lparr>tp_queue := ts\<rparr>) w))"
| w_start: "j < length (workers w) \<Longrightarrow> workers w ! j = W_start t \<Longrightarrow> tasks w t = Some k \<Longrightarrow> t_state k = TASK_STATE_QUEUED \<Longrightarrow>
     tp_move w (set_worker j (W_run t) (set_task t (k\<lparr>t_state := TASK_STATE_RUNNING\<rparr>) w))"
| w_run: "j < length (workers w) \<Longrightarrow> workers w ! j = W_run t \<Longrightarrow> tasks w t = Some k \<Longrightarrow> t_state k = TASK_STATE_RUNNING \<Longrightarrow>
     tp_move w (set_worker j (if t_detached k then W_free t else W_loop) (broadcast_task t (set_task t (k\<lparr>t_state := TASK_STATE_FINISHED\<rparr>) w)))"
| w_free: "j < length (workers w) \<Longrightarrow> workers w ! j = W_free t \<Longrightarrow> tasks w t = Some k \<Longrightarrow> t_state k = TASK_STATE_FINISHED \<Longrightarrow> t_detached k \<Longrightarrow>
     tp_move w (set_worker j W_sub (free_task t w))"
| w_sub: "j < length (workers w) \<Longrightarrow> workers w ! j = W_sub \<Longrightarrow> pool w = Some p \<Longrightarrow>
     tp_move w (set_worker j W_loop (set_pool (p\<lparr>task_count := task_count p - 1\<rparr>) w))"
| w_wake: "j < length (workers w) \<Longrightarrow> workers w ! j = W_wait \<Longrightarrow> tp_move w (set_worker j W_loop w)"

section \<open>Every move keeps the invariant\<close>

lemma tp_invD:
  assumes "tp_inv w"
  shows "queued_ok w" and "running_ok w" and "freed_ok w" and "pointers_ok w" and "users_ok w" and "count_ok w" and "sleep_ok w"
    and "threads_ok w" and "deletion_ok w"
  using assms by (simp_all add: tp_inv_def)

lemma running_move: "tp_move w w' \<Longrightarrow> tp_inv w \<Longrightarrow> running_ok w'"
proof -
  assume m: "tp_move w w'" and inv: "tp_inv w"
  note R = tp_invD(2) [OF inv, unfolded running_ok_def, rule_format]
  from m R show ?thesis
  proof (cases rule: tp_move.cases)
    case (m_pool_free i p)
    then show ?thesis using R occ_exited [of "workers w"] by (simp add: running_ok_def in_state_def)
  qed (auto simp: running_ok_def in_state_def in_pool_def occ_update occ_map split: option.splits)
qed

lemma queue_state: "tp_inv w \<Longrightarrow> t \<in> set (the_queue w) \<Longrightarrow> in_state TASK_STATE_QUEUED t w"
proof -
  assume inv: "tp_inv w" and t: "t \<in> set (the_queue w)"
  have "occ (\<lambda>u. u = t) (the_queue w) \<noteq> 0" using t by (auto simp: occ_zero)
  then show ?thesis using tp_invD(1) [OF inv, unfolded queued_ok_def, rule_format, of t] occ_nonneg [of "\<lambda>u. u = t" "the_queue w"]
      occ_nonneg [of "\<lambda>pc. pc = In_push_queue t" "clients w"] occ_nonneg [of "\<lambda>pc. pc = W_start t" "workers w"]
    by (cases "in_state TASK_STATE_QUEUED t w") auto
qed

lemma queued_counted:
  assumes inv: "tp_inv w" and q: "in_state TASK_STATE_QUEUED t w"
  shows "counted w t"
proof -
  have "In_detach_delete t \<notin> set (clients w)"
  proof
    assume "In_detach_delete t \<in> set (clients w)"
    then obtain i where i: "i < length (clients w)" "clients w ! i = In_detach_delete t" by (auto simp: in_set_conv_nth)
    then show False using task_user_facts [OF inv i(1), of t] q by (auto simp: in_state_def)
  qed
  then show ?thesis using q by (auto simp: counted_def in_state_def in_pool_def split: option.splits)
qed

lemma deletion_queue: "tp_inv w \<Longrightarrow> i < length (clients w) \<Longrightarrow> deletes_pool (clients w ! i) \<Longrightarrow> the_queue w = []"
  using queue_state queued_counted deletion_facts(2) by (metis hd_in_set)

definition queued_at :: "addr \<Rightarrow> tp_world \<Rightarrow> bool" where
  "queued_at t w \<longleftrightarrow> occ (\<lambda>u. u = t) (the_queue w) + occ (\<lambda>pc. pc = In_push_queue t) (clients w)
     + occ (\<lambda>pc. pc = W_start t) (workers w) = of_bool (in_state TASK_STATE_QUEUED t w)"

lemma queued_move: "tp_move w w' \<Longrightarrow> tp_inv w \<Longrightarrow> queued_ok w'"
proof -
  assume m: "tp_move w w'" and inv: "tp_inv w"
  have "queued_at u w'" for u
  proof -
    have R: "queued_at u w" using tp_invD(1) [OF inv] by (simp add: queued_ok_def queued_at_def)
    from m R show ?thesis
    proof (cases rule: tp_move.cases)
      case (m_pool_free i p)
      have "the_queue w = []" by (rule deletion_queue [OF inv]) (use m_pool_free in auto)
      then show ?thesis using R occ_exited [of "workers w"] m_pool_free by (simp add: queued_at_def in_state_def the_queue_def occ_update)
    qed (auto simp: queued_at_def in_state_def in_pool_def the_queue_def occ_update occ_map split: option.splits)
  qed
  then show ?thesis by (simp add: queued_ok_def queued_at_def)
qed

lemma freed_move: "tp_move w w' \<Longrightarrow> tp_inv w \<Longrightarrow> freed_ok w'"
proof -
  assume m: "tp_move w w'" and inv: "tp_inv w"
  note R = tp_invD(3) [OF inv, unfolded freed_ok_def, rule_format]
  from m R show ?thesis
  proof (cases rule: tp_move.cases)
    case (m_pool_free i p)
    then show ?thesis using R occ_exited [of "workers w"] by (simp add: freed_ok_def in_state_def is_detached_def)
  qed (auto simp: freed_ok_def in_state_def is_detached_def in_pool_def occ_update occ_map split: option.splits)
qed

lemma pointers_move: "tp_move w w' \<Longrightarrow> tp_inv w \<Longrightarrow> pointers_ok w'"
proof -
  assume m: "tp_move w w'" and inv: "tp_inv w"
  note R = tp_invD(4) [OF inv, unfolded pointers_ok_def, rule_format]
  from m R show ?thesis
    by (cases rule: tp_move.cases) (auto simp: pointers_ok_def in_pool_def)
qed

definition user_at :: "nat \<Rightarrow> addr \<Rightarrow> tp_world \<Rightarrow> bool" where
  "user_at i t w \<longleftrightarrow> (uses_task t (clients w ! i) \<longrightarrow> (\<exists>k. tasks w t = Some k \<and> \<not> t_detached k \<and> use_ok (clients w ! i) (t_state k)))"

lemma users_ok_alt: "users_ok w \<longleftrightarrow> (\<forall>t. occ (uses_task t) (clients w) \<le> 1) \<and> (\<forall>i < length (clients w). \<forall>t. user_at i t w)"
  unfolding users_ok_def user_at_def all_set_conv_all_nth by blast

lemma not_in_use: "\<not> list_ex (uses_task t) (clients w) \<Longrightarrow> i < length (clients w) \<Longrightarrow> \<not> uses_task t (clients w ! i)"
  by (auto simp: list_ex_iff)

lemma not_in_use_occ: "\<not> list_ex (uses_task t) (clients w) \<Longrightarrow> occ (uses_task t) (clients w) = 0"
  by (auto simp: list_ex_iff occ_zero)

lemma one_user_move: "tp_move w w' \<Longrightarrow> tp_inv w \<Longrightarrow> occ (uses_task t) (clients w') \<le> 1"
proof -
  assume m: "tp_move w w'" and inv: "tp_inv w"
  have R: "occ (uses_task t) (clients w) \<le> 1" using tp_invD(5) [OF inv] by (simp add: users_ok_def)
  note N = occ_nonneg [of "uses_task t" "clients w"] not_in_use_occ [of t w]
  from m R N show ?thesis
  proof (cases rule: tp_move.cases)
    case (m_plain i pc)
    then show ?thesis using R N by (cases "uses_task t pc") (auto simp: occ_update may_use_def)
  qed (auto simp: occ_update occ_map holds_def of_bool_def split: if_splits)
qed

lemma holds_other: "tp_inv w \<Longrightarrow> holds i t w \<Longrightarrow> i < length (clients w) \<Longrightarrow> j < length (clients w) \<Longrightarrow> j \<noteq> i \<Longrightarrow> \<not> uses_task t (clients w ! j)"
  using one_user not_in_use unfolding holds_def by blast

lemma starting_not_pushing:
  assumes inv: "tp_inv w" and j: "j < length (workers w)" "workers w ! j = W_start t" and i: "i < length (clients w)"
  shows "clients w ! i \<noteq> In_push_queue t"
proof
  assume c: "clients w ! i = In_push_queue t"
  have "1 \<le> occ (\<lambda>pc. pc = W_start t) (workers w)" "1 \<le> occ (\<lambda>pc. pc = In_push_queue t) (clients w)"
    using c i j by (auto intro: occ_pos)
  then show False using tp_invD(1) [OF inv, unfolded queued_ok_def, rule_format, of t] occ_nonneg [of "\<lambda>u. u = t" "the_queue w"]
    by (cases "in_state TASK_STATE_QUEUED t w") auto
qed

lemma use_ok_running: "use_ok pc TASK_STATE_QUEUED \<Longrightarrow> pc \<noteq> In_push_queue t \<Longrightarrow> uses_task t pc \<Longrightarrow> use_ok pc TASK_STATE_RUNNING"
  by (cases pc) auto

lemma use_ok_finished: "use_ok pc TASK_STATE_RUNNING \<Longrightarrow> use_ok pc TASK_STATE_FINISHED"
  by (cases pc) auto

lemma user_move: "tp_move w w' \<Longrightarrow> tp_inv w \<Longrightarrow> j < length (clients w') \<Longrightarrow> user_at j u w'"
proof -
  assume m: "tp_move w w'" and inv: "tp_inv w" and j: "j < length (clients w')"
  have R: "user_at l u w" if "l < length (clients w)" for l
    using tp_invD(5) [OF inv] that by (simp add: users_ok_alt)
  note nl = nth_list_update
  from m R [of j] j show ?thesis
  proof (cases rule: tp_move.cases)
    case (m_plain i pc)
    then show ?thesis using R [of j] j by (cases "j = i") (auto simp: user_at_def may_use_def)
  next
    case (m_push_ok i t k)
    have "holds i t w" using m_push_ok by (simp add: holds_def)
    from holds_other [OF inv this] show ?thesis using R [of j] j m_push_ok by (cases "j = i") (auto simp: user_at_def)
  next
    case (m_join i t k)
    from holds_other [OF inv m_join(4)] show ?thesis using R [of j] j m_join by (cases "j = i") (auto simp: user_at_def)
  next
    case (m_timed_join i t k p)
    from holds_other [OF inv m_timed_join(4)] show ?thesis using R [of j] j m_timed_join by (cases "j = i") (auto simp: user_at_def)
  next
    case (m_task_delete i t k)
    have "holds i t w" using m_task_delete by (simp add: holds_def)
    from holds_other [OF inv this] show ?thesis using R [of j] j m_task_delete by (cases "j = i") (auto simp: user_at_def)
  next
    case (m_detach i t k)
    from holds_other [OF inv m_detach(4)] show ?thesis using R [of j] j m_detach by (cases "j = i") (auto simp: user_at_def)
  next
    case (m_detach_free i t k)
    have "holds i t w" using m_detach_free by (simp add: holds_def)
    from holds_other [OF inv this] show ?thesis using R [of j] j m_detach_free by (cases "j = i") (auto simp: user_at_def)
  next
    case (w_start l t k)
    have "clients w ! j \<noteq> In_push_queue t" using starting_not_pushing [OF inv w_start(2,3)] j w_start(1) by simp
    then show ?thesis using R [of j] j w_start use_ok_running by (auto simp: user_at_def)
  next
    case (w_run l t k)
    then show ?thesis using R [of j] j use_ok_finished by (auto simp: user_at_def)
  qed (auto simp: user_at_def nth_list_update split: if_splits)
qed

lemma users_move: "tp_move w w' \<Longrightarrow> tp_inv w \<Longrightarrow> users_ok w'"
  using one_user_move user_move by (simp add: users_ok_alt)

lemma sleep_move: "tp_move w w' \<Longrightarrow> tp_inv w \<Longrightarrow> sleep_ok w'"
proof -
  assume m: "tp_move w w'" and inv: "tp_inv w"
  note R = tp_invD(7) [OF inv, unfolded sleep_ok_def] tp_invD(8) [OF inv, unfolded threads_ok_def]
  from m R show ?thesis
    by (cases rule: tp_move.cases)
       (auto simp: sleep_ok_def image_iff wake_worker_eq(6) [symmetric] dest: set_update_subset_insert [THEN subsetD] split: option.splits if_splits)
qed

lemma threads_move: "tp_move w w' \<Longrightarrow> tp_inv w \<Longrightarrow> threads_ok w'"
proof -
  assume m: "tp_move w w'" and inv: "tp_inv w"
  note R = tp_invD(8) [OF inv, unfolded threads_ok_def]
  from m R show ?thesis by (cases rule: tp_move.cases) (auto simp: threads_ok_def split: option.splits)
qed

lemma mem_update: "i < length xs \<Longrightarrow> x \<noteq> xs ! i \<Longrightarrow> x \<in> set (xs[i := y]) \<longleftrightarrow> x = y \<or> x \<in> set xs"
  by (auto simp: in_set_conv_nth nth_list_update)

lemma count_okI:
  assumes "count_ok w" and "\<And>u. u \<noteq> t \<Longrightarrow> counted w' u = counted w u" and "the_count w' \<le> TPOOL_MAX_TASKS"
    and "the_count w' - occ client_token (clients w') - occ (\<lambda>pc. pc = W_sub) (workers w')
       = the_count w - occ client_token (clients w) - occ (\<lambda>pc. pc = W_sub) (workers w) - of_bool (counted w t) + of_bool (counted w' t)"
  shows "count_ok w'"
proof -
  have f: "finite {u. counted w u}" using assms(1) by (simp add: count_ok_def)
  note c = card_change [where P = "counted w" and Q = "counted w'", OF f assms(2)]
  show ?thesis using assms c by (simp add: count_ok_def)
qed

lemma not_freeing:
  assumes inv: "tp_inv w" and h: "holds i t w" and i: "i < length (clients w)" and n: "clients w ! i \<noteq> In_detach_delete t"
  shows "In_detach_delete t \<notin> set (clients w)"
proof
  assume "In_detach_delete t \<in> set (clients w)"
  then obtain j where j: "j < length (clients w)" "clients w ! j = In_detach_delete t" by (auto simp: in_set_conv_nth)
  then have "j \<noteq> i" using n by auto
  from holds_other [OF inv h i j(1) this] j(2) show False by simp
qed

lemma unused_not_freeing:
  assumes inv: "tp_inv w" and k: "tasks w t = Some k" "t_state k \<noteq> TASK_STATE_FINISHED \<or> t_detached k"
  shows "In_detach_delete t \<notin> set (clients w)"
proof
  assume "In_detach_delete t \<in> set (clients w)"
  then obtain j where j: "j < length (clients w)" "clients w ! j = In_detach_delete t" by (auto simp: in_set_conv_nth)
  then show False using task_user_facts [OF inv j(1), of t] k by auto
qed

lemma none_not_freeing:
  assumes inv: "tp_inv w" and k: "tasks w t = None"
  shows "In_detach_delete t \<notin> set (clients w)"
proof
  assume "In_detach_delete t \<in> set (clients w)"
  then obtain j where j: "j < length (clients w)" "clients w ! j = In_detach_delete t" by (auto simp: in_set_conv_nth)
  then show False using task_user_facts [OF inv j(1), of t] k by auto
qed

lemma count_move: "tp_move w w' \<Longrightarrow> tp_inv w \<Longrightarrow> count_ok w'"
proof -
  assume m: "tp_move w w'" and inv: "tp_inv w"
  note C = tp_invD(6) [OF inv]
  have b: "the_count w \<le> TPOOL_MAX_TASKS" using C by (simp add: count_ok_def)
  note cnt = the_count_def counted_def in_pool_def
  from m show ?thesis
  proof (cases rule: tp_move.cases)
    case (m_plain i pc)
    then show ?thesis using b by (intro count_okI [OF C, of 0]) (auto simp: cnt occ_update mem_update)
  next
    case (m_pool_new i q n r)
    then show ?thesis by (intro count_okI [OF C, of 0]) (auto simp: cnt occ_update mem_update TPOOL_MAX_TASKS_def)
  next
    case (m_push i q p t k)
    then show ?thesis by (intro count_okI [OF C, of 0]) (auto simp: cnt occ_update mem_update)
  next
    case (m_push_bad i t)
    then show ?thesis using b by (intro count_okI [OF C, of 0]) (auto simp: cnt occ_update mem_update)
  next
    case (m_push_ok i t k)
    have "holds i t w" using m_push_ok by (simp add: holds_def)
    then have "In_detach_delete t \<notin> set (clients w)" using m_push_ok by (intro not_freeing [OF inv]) auto
    then show ?thesis using b m_push_ok by (intro count_okI [OF C, of t]) (auto simp: cnt occ_update mem_update)
  next
    case (m_sub i p r)
    then show ?thesis using b by (intro count_okI [OF C, of 0]) (auto simp: cnt occ_update mem_update)
  next
    case (m_queue i t p n)
    then show ?thesis using b by (intro count_okI [OF C, of 0]) (auto simp: cnt occ_update mem_update occ_map)
  next
    case (m_task_new i q t)
    then show ?thesis using b none_not_freeing [OF inv, of t] by (intro count_okI [OF C, of t]) (auto simp: cnt occ_update mem_update)
  next
    case (m_join i t k)
    have "In_detach_delete t \<notin> set (clients w)" using m_join by (intro not_freeing [OF inv m_join(4)]) auto
    then show ?thesis using b m_join by (intro count_okI [OF C, of t]) (auto simp: cnt occ_update mem_update)
  next
    case (m_timed_join i t k p)
    have "In_detach_delete t \<notin> set (clients w)" using m_timed_join by (intro not_freeing [OF inv m_timed_join(4)]) auto
    then show ?thesis using b m_timed_join by (intro count_okI [OF C, of t]) (auto simp: cnt occ_update mem_update)
  next
    case (m_task_delete i t k)
    then show ?thesis using b by (intro count_okI [OF C, of t]) (auto simp: cnt occ_update mem_update)
  next
    case (m_detach i t k q)
    then show ?thesis using b by (intro count_okI [OF C, of t]) (auto simp: cnt occ_update mem_update)
  next
    case (m_detach_sub i t k p)
    have "holds i t w" using m_detach_sub by (simp add: holds_def)
    then have "In_detach_delete t \<notin> set (clients w)" using m_detach_sub by (intro not_freeing [OF inv]) auto
    then show ?thesis using b m_detach_sub by (intro count_okI [OF C, of t]) (auto simp: cnt occ_update mem_update)
  next
    case (m_detach_free i t k)
    have "In_detach_delete t \<in> set (clients w)" using m_detach_free by (metis nth_mem)
    then show ?thesis using b m_detach_free by (intro count_okI [OF C, of t]) (auto simp: cnt occ_update mem_update)
  next
    case (m_delete i q p)
    then show ?thesis using b by (intro count_okI [OF C, of 0]) (auto simp: cnt occ_update mem_update)
  next
    case (m_stop i p)
    then show ?thesis using b by (intro count_okI [OF C, of 0]) (auto simp: cnt occ_update mem_update occ_map)
  next
    case (m_pool_free i p)
    have "the_count w = 0" by (rule deletion_facts(1) [OF inv, of i]) (use m_pool_free in auto)
    then show ?thesis using m_pool_free occ_exited [of "workers w" "\<lambda>pc. pc = W_sub"]
      by (intro count_okI [OF C, of 0]) (auto simp: cnt occ_update mem_update TPOOL_MAX_TASKS_def)
  next
    case (w_start j t k)
    then show ?thesis using b unused_not_freeing [OF inv w_start(4)] by (intro count_okI [OF C, of t]) (auto simp: cnt occ_update)
  next
    case (w_run j t k)
    then show ?thesis using b unused_not_freeing [OF inv w_run(4)] by (intro count_okI [OF C, of t]) (auto simp: cnt occ_update occ_map)
  next
    case (w_free j t k)
    then show ?thesis using b unused_not_freeing [OF inv w_free(4)] by (intro count_okI [OF C, of t]) (auto simp: cnt occ_update)
  qed (use b in \<open>intro count_okI [OF C, of 0]; auto simp: cnt occ_update\<close>)+
qed

lemma deleter: "list_ex deletes_pool (clients w) \<Longrightarrow> \<exists>i < length (clients w). deletes_pool (clients w ! i)"
  by (auto simp: list_ex_iff in_set_conv_nth)

lemma list_ex_update:
  "i < length xs \<Longrightarrow> \<not> P y \<Longrightarrow> list_ex P (xs[i := y]) \<Longrightarrow> list_ex P xs"
  by (auto simp: list_ex_iff dest: set_update_subset_insert [THEN subsetD])

text \<open>No move changes the counter while the pool is being deleted, and no one else deletes it.\<close>

definition nobody_deletes :: "tp_world \<Rightarrow> bool" where
  "nobody_deletes w \<longleftrightarrow> \<not> list_ex deletes_pool (clients w)"

lemma token_blocks_deletion: "tp_inv w \<Longrightarrow> i < length (clients w) \<Longrightarrow> client_token (clients w ! i) \<Longrightarrow> \<not> list_ex deletes_pool (clients w)"
  using deleter deletion_facts(3) occ_pos [of i "clients w" client_token] by fastforce

lemma counted_blocks_deletion: "tp_inv w \<Longrightarrow> counted w t \<Longrightarrow> \<not> list_ex deletes_pool (clients w)"
  using deleter deletion_facts(2) by blast

lemma sub_blocks_deletion: "tp_inv w \<Longrightarrow> W_sub \<in> set (workers w) \<Longrightarrow> \<not> list_ex deletes_pool (clients w)"
  using deleter deletion_facts(4) by blast

lemma deletion_okI:
  assumes "\<not> list_ex deletes_pool (clients w')" and "\<And>p. pool w' = Some p \<Longrightarrow> \<not> stopping p" and "W_exit \<notin> set (workers w')"
  shows "deletion_ok w'"
proof -
  have "occ deletes_pool (clients w') = 0" using assms(1) by (auto simp: occ_zero list_ex_iff)
  moreover have "In_pool_join \<notin> set (clients w')" using assms(1) by (auto simp: list_ex_iff)
  ultimately show ?thesis using assms by (simp add: deletion_ok_def)
qed

lemma quiet_facts:
  assumes "tp_inv w" and "\<not> list_ex deletes_pool (clients w)"
  shows "pool w = Some p \<Longrightarrow> \<not> stopping p" and "W_exit \<notin> set (workers w)"
proof -
  have "In_pool_join \<notin> set (clients w)" using assms(2) by (auto simp: list_ex_iff)
  then show "pool w = Some p \<Longrightarrow> \<not> stopping p" "W_exit \<notin> set (workers w)" using tp_invD(9) [OF assms(1)] by (auto simp: deletion_ok_def)
qed

lemma list_ex_same: "i < length xs \<Longrightarrow> \<not> P (xs ! i) \<Longrightarrow> \<not> P y \<Longrightarrow> list_ex P (xs[i := y]) = list_ex P xs"
proof -
  have ex: "list_ex P ys \<longleftrightarrow> occ P ys \<noteq> 0" for ys by (auto simp: list_ex_iff occ_zero)
  show "i < length xs \<Longrightarrow> \<not> P (xs ! i) \<Longrightarrow> \<not> P y \<Longrightarrow> list_ex P (xs[i := y]) = list_ex P xs" by (simp add: ex occ_update)
qed

lemma list_ex_wake [simp]: "list_ex deletes_pool (map (wake_client t) xs) = list_ex deletes_pool xs"
  by (induction xs) simp_all

lemma deletion_move: "tp_move w w' \<Longrightarrow> tp_inv w \<Longrightarrow> deletion_ok w'"
proof -
  assume m: "tp_move w w'" and inv: "tp_inv w"
  note D = tp_invD(9) [OF inv, unfolded deletion_ok_def]
  have quiet: "deletion_ok w'" if "\<not> list_ex deletes_pool (clients w)" "\<not> list_ex deletes_pool (clients w')"
      "\<And>p. pool w' = Some p \<Longrightarrow> \<not> stopping p" "W_exit \<notin> set (workers w')"
    using that by (intro deletion_okI)
  note up = list_ex_same occ_update mem_update
  from m show ?thesis
  proof (cases rule: tp_move.cases)
    case (m_plain i pc)
    then show ?thesis using D by (auto simp: deletion_ok_def up the_count_def)
  next
    case (m_pool_new i q n r)
    then have "\<not> list_ex deletes_pool (clients w)" using D by auto
    then show ?thesis using m_pool_new quiet_facts [OF inv] by (intro quiet) (auto simp: up)
  next
    case (m_push i q p t k)
    then show ?thesis using quiet_facts [OF inv] by (intro quiet) (auto simp: up)
  next
    case (m_push_bad i t)
    then have "\<not> list_ex deletes_pool (clients w)" using token_blocks_deletion [OF inv, of i] by simp
    then show ?thesis using m_push_bad quiet_facts [OF inv] by (intro quiet) (auto simp: up)
  next
    case (m_push_ok i t k)
    then have "\<not> list_ex deletes_pool (clients w)" using token_blocks_deletion [OF inv, of i] by simp
    then show ?thesis using m_push_ok quiet_facts [OF inv] by (intro quiet) (auto simp: up)
  next
    case (m_sub i p r)
    then have "\<not> list_ex deletes_pool (clients w)" using token_blocks_deletion [OF inv, of i] by auto
    then show ?thesis using m_sub quiet_facts [OF inv] by (intro quiet) (auto simp: up)
  next
    case (m_queue i t p n)
    then show ?thesis using quiet_facts [OF inv] by (intro quiet) (auto simp: up)
  next
    case (m_join i t k)
    have "In_detach_delete t \<notin> set (clients w)" using m_join by (intro not_freeing [OF inv m_join(4)]) auto
    then have "counted w t" using m_join by (simp add: counted_def in_pool_def)
    from counted_blocks_deletion [OF inv this] show ?thesis using m_join quiet_facts [OF inv] by (intro quiet) (auto simp: up)
  next
    case (m_timed_join i t k p)
    have "In_detach_delete t \<notin> set (clients w)" using m_timed_join by (intro not_freeing [OF inv m_timed_join(4)]) auto
    then have "counted w t" using m_timed_join by (simp add: counted_def in_pool_def)
    from counted_blocks_deletion [OF inv this] show ?thesis using m_timed_join quiet_facts [OF inv] by (intro quiet) (auto simp: up)
  next
    case (m_detach_sub i t k p)
    have "holds i t w" using m_detach_sub by (simp add: holds_def)
    then have "In_detach_delete t \<notin> set (clients w)" using m_detach_sub by (intro not_freeing [OF inv]) auto
    then have "counted w t" using m_detach_sub by (simp add: counted_def in_pool_def)
    from counted_blocks_deletion [OF inv this] show ?thesis using m_detach_sub quiet_facts [OF inv] by (intro quiet) (auto simp: up)
  next
    case (m_delete i q p)
    have "occ deletes_pool (clients w) = 0" using m_delete by (auto simp: occ_zero list_ex_iff)
    then show ?thesis using m_delete quiet_facts [OF inv] D by (auto simp: deletion_ok_def up the_count_def list_ex_iff)
  next
    case (m_stop i p)
    have "the_count w = 0" by (rule deletion_facts(1) [OF inv, of i]) (use m_stop in auto)
    then show ?thesis using m_stop D by (auto simp: deletion_ok_def up the_count_def)
  next
    case (m_pool_free i p)
    have "1 \<le> occ deletes_pool (clients w)" using m_pool_free by (intro occ_pos [of i]) auto
    then have "occ deletes_pool ((clients w)[i := Idle 0]) = 0"
      using D m_pool_free by (simp add: occ_update)
    then have "\<not> list_ex deletes_pool ((clients w)[i := Idle 0])" by (auto simp: occ_zero list_ex_iff)
    then show ?thesis using m_pool_free by (intro deletion_okI) auto
  next
    case (w_exit j p)
    then show ?thesis using D by (auto simp: deletion_ok_def the_count_def dest: set_update_subset_insert [THEN subsetD])
  next
    case (w_sub j p)
    then have "\<not> list_ex deletes_pool (clients w)" using sub_blocks_deletion [OF inv] by (metis nth_mem)
    then show ?thesis using w_sub quiet_facts [OF inv] by (intro quiet) (auto dest: set_update_subset_insert [THEN subsetD])
  qed (use D in \<open>auto simp: deletion_ok_def up the_count_def occ_map dest: set_update_subset_insert [THEN subsetD] split: if_splits\<close>)+
qed

theorem tp_inv_move: "tp_move w w' \<Longrightarrow> tp_inv w \<Longrightarrow> tp_inv w'"
  using running_move queued_move freed_move pointers_move users_move count_move sleep_move threads_move deletion_move
  by (simp add: tp_inv_def)

section \<open>Every step is a move\<close>

definition moves :: "tp_fail + tp_world \<Rightarrow> tp_world \<Rightarrow> bool" where
  "moves r w \<longleftrightarrow> (\<exists>w'. r = Inr w' \<and> tp_move w w')"

lemma moves_Inr [simp]: "moves (Inr w') w \<longleftrightarrow> tp_move w w'"
  by (simp add: moves_def)

lemma may_use_Idle [simp]: "may_use (Idle r) i w"
  by (simp add: may_use_def)

lemma move_ret: "i < length (clients w) \<Longrightarrow> plain_pc (clients w ! i) \<Longrightarrow> tp_move w (ret i r w)"
  unfolding ret_def by (rule m_plain) simp_all

lemma usableD:
  assumes "usable t w"
  obtains k where "tasks w t = Some k" and "\<not> t_detached k" and "\<And>i. holds i t w"
  using assms by (auto simp: usable_def holds_def split: option.splits)

lemma idle_cases: "idle pc \<Longrightarrow> (\<And>q. pc = Idle q \<Longrightarrow> P) \<Longrightarrow> P"
  by (cases pc) auto

lemma counted_pool: "tp_inv w \<Longrightarrow> counted w t \<Longrightarrow> \<exists>p. pool w = Some p"
proof (rule ccontr)
  assume inv: "tp_inv w" and c: "counted w t" and n: "\<nexists>p. pool w = Some p"
  have "the_count w = int (card {t. counted w t}) + occ client_token (clients w) + occ (\<lambda>pc. pc = W_sub) (workers w)" "finite {t. counted w t}"
    using tp_invD(6) [OF inv] by (auto simp: count_ok_def)
  moreover have "the_count w = 0" using n by (simp add: the_count_def)
  ultimately have "card {t. counted w t} = 0" using counts_nonneg [OF inv] by linarith
  then show False using c \<open>finite {t. counted w t}\<close> by auto
qed

lemma token_pool: "tp_inv w \<Longrightarrow> i < length (clients w) \<Longrightarrow> client_token (clients w ! i) \<Longrightarrow> \<exists>p. pool w = Some p"
proof (rule ccontr)
  assume inv: "tp_inv w" and t: "i < length (clients w)" "client_token (clients w ! i)" and n: "\<nexists>p. pool w = Some p"
  have "the_count w = int (card {t. counted w t}) + occ client_token (clients w) + occ (\<lambda>pc. pc = W_sub) (workers w)"
    using tp_invD(6) [OF inv] by (auto simp: count_ok_def)
  moreover have "the_count w = 0" using n by (simp add: the_count_def)
  moreover have "1 \<le> occ client_token (clients w)" using t by (rule occ_pos)
  ultimately show False using counts_nonneg [OF inv] by linarith
qed

lemma worker_pool: "tp_inv w \<Longrightarrow> j < length (workers w) \<Longrightarrow> \<exists>p. pool w = Some p"
  using tp_invD(8) [of w] by (cases "pool w") (auto simp: threads_ok_def)

lemma finished_counted:
  assumes inv: "tp_inv w" and i: "i < length (clients w)" and h: "holds i t w" and n: "clients w ! i \<noteq> In_detach_delete t"
    and k: "tasks w t = Some k" "t_state k = TASK_STATE_FINISHED"
  shows "\<exists>p. pool w = Some p"
proof -
  have "counted w t" using not_freeing [OF inv h i n] k by (simp add: counted_def in_pool_def)
  then show ?thesis using counted_pool [OF inv] by blast
qed

lemma pointer_set: "tp_inv w \<Longrightarrow> tasks w t = Some k \<Longrightarrow> in_pool k \<Longrightarrow> t_pool k"
  using tp_invD(4) [of w] by (auto simp: pointers_ok_def)

lemma moves_join_loop:
  assumes inv: "tp_inv w" and i: "i < length (clients w)" "plain_pc (clients w ! i)" "holds i t w"
    and k: "tasks w t = Some k" "\<not> t_detached k" "t_state k \<noteq> TASK_STATE_NEW"
  shows "moves (join_loop i t k w) w"
proof -
  have j: "tp_move w (set_client i In_join_sub (set_task t (k\<lparr>t_state := TASK_STATE_JOINED, t_pool := False\<rparr>) w))" if "t_state k = TASK_STATE_FINISHED"
    by (rule m_join) (use i k that in auto)
  have p: "t_pool k" if "t_state k = TASK_STATE_FINISHED" using pointer_set [OF inv k(1)] that by (simp add: in_pool_def)
  have wt: "tp_move w (set_client i (Join_wait t) w)"
    by (rule m_plain) (use i k in \<open>auto simp: may_use_def holds_def\<close>)
  show ?thesis using i j p wt move_ret by (auto simp: join_loop_def Let_def)
qed

lemma moves_timed:
  assumes inv: "tp_inv w" and i: "i < length (clients w)" "plain_pc (clients w ! i)" "holds i t w"
    and k: "tasks w t = Some k" "\<not> t_detached k" "t_state k = TASK_STATE_FINISHED"
  shows "moves (map_sum id (ret i 0) (task_pool_sub k (set_task t (k\<lparr>t_state := TASK_STATE_JOINED\<rparr>) w))) w"
proof -
  have p: "t_pool k" using pointer_set [OF inv k(1)] k(3) by (simp add: in_pool_def)
  have "clients w ! i \<noteq> In_detach_delete t" using i(2) by auto
  from finished_counted [OF inv i(1,3) this k(1,3)] obtain q where q: "pool w = Some q" by blast
  have "tp_move w (set_client i (Idle 0) (set_pool (q\<lparr>task_count := task_count q - 1\<rparr>) (set_task t (k\<lparr>t_state := TASK_STATE_JOINED\<rparr>) w)))"
    by (rule m_timed_join) (use i k q in auto)
  then show ?thesis using p q by (simp add: task_pool_sub_def count_sub_def with_pool_def ret_def)
qed

lemma moves_call:
  assumes inv: "tp_inv w" and en: "tp_enabled (Call i c) w"
  shows "moves (tpool_call i c w) w"
proof -
  have i: "i < length (clients w)" and id: "idle (clients w ! i)" and al: "call_allowed c w" using en by auto
  obtain q where q: "clients w ! i = Idle q" using id by (rule idle_cases)
  have pl: "plain_pc (clients w ! i)" using q by simp
  note R = move_ret [OF i pl]
  show ?thesis
  proof (cases c)
    case (Pool_new n)
    have "tp_move w (ret i 0 (set_pool \<lparr>tp_queue = [], max_threads = nat n, task_count = 0, stopping = False\<rparr> w))" if "\<not> n \<le> 0" "n \<le> TPOOL_MAX_THREADS"
      unfolding ret_def by (rule m_pool_new) (use i q al Pool_new that in auto)
    then show ?thesis using Pool_new R by (auto simp: thread_pool_new_def)
  next
    case Pool_delete
    then obtain p where p: "pool w = Some p" "\<not> list_ex deletes_pool (clients w)" using al by (auto simp: pool_usable_def)
    have "tp_move w (set_client i In_pool_delete w)" if "task_count p = 0" by (rule m_delete) (use i q p that in auto)
    then show ?thesis using Pool_delete p R by (auto simp: thread_pool_delete_def with_pool_def)
  next
    case (Push t)
    then obtain p where p: "pool w = Some p" "\<not> list_ex deletes_pool (clients w)" using al by (auto simp: pool_usable_def)
    have "usable t w" using al Push by simp
    then obtain k where k: "tasks w t = Some k" "\<not> t_detached k" "\<And>i. holds i t w" by (rule usableD) blast
    have "tp_move w (set_client i (In_push t) (set_pool (p\<lparr>task_count := task_count p + 1\<rparr>) w))" if "\<not> TPOOL_MAX_TASKS \<le> task_count p"
      by (rule m_push) (use i q p k that in auto)
    then show ?thesis using Push p R by (auto simp: thread_pool_push_task_def with_pool_def)
  next
    case (Task_new t)
    have "tp_move w (thread_task_new i t w)" unfolding thread_task_new_def ret_def by (rule m_task_new) (use i q al Task_new in auto)
    then show ?thesis using Task_new by simp
  next
    case (Is_finished t)
    then have "usable t w" using al by simp
    then obtain k where "tasks w t = Some k" by (rule usableD) blast
    then show ?thesis using Is_finished R by (simp add: thread_task_is_finished_def with_task_def)
  next
    case (Is_running t)
    then have "usable t w" using al by simp
    then obtain k where "tasks w t = Some k" by (rule usableD) blast
    then show ?thesis using Is_running R by (simp add: thread_task_is_running_def with_task_def)
  next
    case (Join t)
    then have "usable t w" using al by simp
    then obtain k where k: "tasks w t = Some k" "\<not> t_detached k" "\<And>i. holds i t w" by (rule usableD) blast
    then show ?thesis using Join R moves_join_loop [OF inv i pl k(3,1,2)] by (simp add: thread_task_join_def with_task_def)
  next
    case (Timed_join t)
    then have "usable t w" using al by simp
    then obtain k where k: "tasks w t = Some k" "\<not> t_detached k" "\<And>i. holds i t w" by (rule usableD) blast
    have nj: "t_state k \<noteq> TASK_STATE_JOINED" using al Timed_join k by simp
    have "tp_move w (set_client i (Timed_wait t) w)" if "t_state k \<noteq> TASK_STATE_NEW"
      by (rule m_plain) (use i pl k that in \<open>auto simp: may_use_def holds_def\<close>)
    then show ?thesis using Timed_join R k nj moves_timed [OF inv i pl k(3,1,2)] by (simp add: thread_task_timed_join_def with_task_def)
  next
    case (Task_delete t)
    then have "usable t w" using al by simp
    then obtain k where k: "tasks w t = Some k" "\<not> t_detached k" "\<And>i. holds i t w" by (rule usableD) blast
    have "tp_move w (set_client i (In_task_delete t) w)" if "\<not> in_pool k"
      by (rule m_plain) (use i pl k(1,2) k(3) [of i] that in \<open>auto simp: may_use_def holds_def in_pool_def intro: task_state.exhaust [of "t_state k"]\<close>)
    then show ?thesis using Task_delete R k by (simp add: thread_task_delete_def with_task_def in_pool_def)
  next
    case (Detach t)
    then have "usable t w" using al by simp
    then obtain k where k: "tasks w t = Some k" "\<not> t_detached k" "\<And>i. holds i t w" by (rule usableD) blast
    have "tp_move w (set_client i (In_detach_free t) w)" if "t_state k = TASK_STATE_FINISHED"
      by (rule m_plain) (use i pl k(1,2) k(3) [of i] that in \<open>auto simp: may_use_def holds_def\<close>)
    moreover have "tp_move w (ret i 0 (set_task t (k\<lparr>t_detached := True\<rparr>) w))" if "t_state k \<noteq> TASK_STATE_FINISHED" "t_pool k"
      unfolding ret_def by (rule m_detach) (use i pl q k that in auto)
    ultimately show ?thesis using Detach R k by (simp add: thread_task_detach_def with_task_def)
  qed
qed

lemma spawn_bound: "n \<le> mx \<Longrightarrow> n \<le> spawn c mx q n \<and> spawn c mx q n \<le> mx"
  by (induction c mx q n rule: spawn.induct) auto

lemma moves_client:
  assumes inv: "tp_inv w" and en: "tp_enabled (Client i c) w"
  shows "moves (client_step i c w) w"
proof -
  have i: "i < length (clients w)" and ni: "\<not> idle (clients w ! i)" "\<not> asleep (clients w ! i)"
    and ex: "clients w ! i = In_pool_join \<Longrightarrow> list_all (\<lambda>pc. pc = W_exit) (workers w)" using en by auto
  note U = task_user_facts [OF inv i]
  have sub: "\<exists>p. pool w = Some p \<and> moves (map_sum id (ret i r) (count_sub w)) w" if "clients w ! i = In_push_undo \<or> clients w ! i = In_join_sub" for r
  proof -
    have "client_token (clients w ! i)" using that by auto
    from token_pool [OF inv i this] obtain p where p: "pool w = Some p" by blast
    have "tp_move w (set_client i (Idle r) (set_pool (p\<lparr>task_count := task_count p - 1\<rparr>) w))" by (rule m_sub) (use i that p in auto)
    then show ?thesis using p by (simp add: count_sub_def with_pool_def ret_def)
  qed
  show ?thesis
  proof (cases "clients w ! i")
    case (In_push t)
    obtain k where k: "tasks w t = Some k" "\<not> t_detached k" using U [of t] In_push by auto
    have "tp_move w (set_client i In_push_undo w)" by (rule m_push_bad) (use i In_push in auto)
    moreover have "tp_move w (set_client i (In_push_queue t) (set_task t (k\<lparr>t_pool := True, t_state := TASK_STATE_QUEUED\<rparr>) w))" if "\<not> in_pool k"
      by (rule m_push_ok) (use i In_push k that in auto)
    ultimately show ?thesis using k In_push by (auto simp: client_step_def push_check_def with_task_def in_pool_def)
  next
    case In_push_undo
    then show ?thesis using sub by (simp add: client_step_def push_undo_def)
  next
    case (In_push_queue t)
    have cq: "counted w t" using queued_counted [OF inv push_queue_state [OF inv i In_push_queue]] .
    obtain p where p: "pool w = Some p" using counted_pool [OF inv cq] by blast
    have th: "length (workers w) \<le> max_threads p" using tp_invD(8) [OF inv] p by (simp add: threads_ok_def)
    let ?m = "spawn c (max_threads p) (Suc (length (tp_queue p))) (length (workers w))"
    have "tp_move w (set_client i (Idle 0) (broadcast_pool ((set_pool (p\<lparr>tp_queue := tp_queue p @ [t]\<rparr>) w)\<lparr>workers := workers w @ replicate (?m - length (workers w)) W_loop\<rparr>)))"
      by (rule m_queue) (use i In_push_queue p spawn_bound [OF th] counted_blocks_deletion [OF inv cq] in \<open>auto intro: diff_le_mono\<close>)
    then show ?thesis using p In_push_queue by (simp add: client_step_def push_queue_def with_pool_def ret_def Let_def)
  next
    case (Join_woken t)
    obtain k where k: "tasks w t = Some k" "\<not> t_detached k" "t_state k \<noteq> TASK_STATE_NEW" using U [of t] Join_woken by auto
    have "moves (join_loop i t k w) w" by (rule moves_join_loop [OF inv i]) (use Join_woken k in \<open>auto simp: holds_def\<close>)
    then show ?thesis using Join_woken k by (simp add: client_step_def with_task_def)
  next
    case In_join_sub
    then show ?thesis using sub by (simp add: client_step_def join_sub_def)
  next
    case (Timed_woken t)
    obtain k where k: "tasks w t = Some k" "\<not> t_detached k" "t_state k \<noteq> TASK_STATE_NEW" using U [of t] Timed_woken by auto
    have "tp_move w (set_client i (Timed_wait t) w)"
      by (rule m_plain) (use i Timed_woken k in \<open>auto simp: may_use_def\<close>)
    moreover have "tp_move w (ret i 0 w)" by (rule move_ret [OF i]) (simp add: Timed_woken)
    moreover have "moves (map_sum id (ret i 0) (task_pool_sub k (set_task t (k\<lparr>t_state := TASK_STATE_JOINED\<rparr>) w))) w" if "t_state k = TASK_STATE_FINISHED"
      by (rule moves_timed [OF inv i]) (use Timed_woken k that in \<open>auto simp: holds_def\<close>)
    ultimately show ?thesis using Timed_woken k by (simp add: client_step_def timed_join_loop_def with_task_def)
  next
    case (In_task_delete t)
    obtain k where k: "tasks w t = Some k" "\<not> t_detached k" "\<not> in_pool k" using U [of t] In_task_delete by (auto simp: in_pool_def)
    have "tp_move w (set_client i (Idle 0) (free_task t w))" by (rule m_task_delete) (use i In_task_delete k in auto)
    then show ?thesis using In_task_delete k by (simp add: client_step_def task_delete_free_def with_task_def ret_def)
  next
    case (In_detach_free t)
    obtain k where k: "tasks w t = Some k" "\<not> t_detached k" "t_state k = TASK_STATE_FINISHED" using U [of t] In_detach_free by auto
    have tp: "t_pool k" using pointer_set [OF inv k(1)] k(3) by (simp add: in_pool_def)
    obtain p where p: "pool w = Some p" using finished_counted [OF inv i _ _ k(1,3)] In_detach_free by (auto simp: holds_def)
    have "tp_move w (set_client i (In_detach_delete t) (set_pool (p\<lparr>task_count := task_count p - 1\<rparr>) w))"
      by (rule m_detach_sub) (use i In_detach_free k p in auto)
    then show ?thesis using In_detach_free k tp p by (simp add: client_step_def detach_sub_def with_task_def task_pool_sub_def count_sub_def with_pool_def)
  next
    case (In_detach_delete t)
    obtain k where k: "tasks w t = Some k" "\<not> t_detached k" "t_state k = TASK_STATE_FINISHED" using U [of t] In_detach_delete by auto
    have "tp_move w (set_client i (Idle 0) (free_task t w))" by (rule m_detach_free) (use i In_detach_delete k in auto)
    then show ?thesis using In_detach_delete k by (simp add: client_step_def task_delete_free_def with_task_def ret_def)
  next
    case In_pool_delete
    obtain p where p: "pool w = Some p" using deletion_facts(5) [OF inv i] In_pool_delete by auto
    have "tp_move w (set_client i In_pool_join (broadcast_pool (set_pool (p\<lparr>stopping := True\<rparr>) w)))" by (rule m_stop) (use i In_pool_delete p in auto)
    then show ?thesis using In_pool_delete p by (simp add: client_step_def pool_delete_stop_def with_pool_def)
  next
    case In_pool_join
    obtain p where p: "pool w = Some p" using deletion_facts(5) [OF inv i] In_pool_join by auto
    have "tp_move w (set_client i (Idle 0) (w\<lparr>pool := None, workers := []\<rparr>))" by (rule m_pool_free) (use i In_pool_join p ex in auto)
    then show ?thesis using In_pool_join p by (simp add: client_step_def pool_delete_free_def with_pool_def ret_def)
  qed (use ni in auto)
qed

lemma moves_worker:
  assumes inv: "tp_inv w" and en: "tp_enabled (Worker j) w"
  shows "moves (thread_pool_worker j w) w"
proof -
  have j: "j < length (workers w)" "workers w ! j \<noteq> W_wait" "workers w ! j \<noteq> W_exit" using en by auto
  obtain p where p: "pool w = Some p" using worker_pool [OF inv j(1)] by blast
  show ?thesis
  proof (cases "workers w ! j")
    case W_loop
    have "tp_move w (set_worker j W_wait w)" if "tp_queue p = []" "\<not> stopping p" by (rule w_sleep) (use j W_loop p that in auto)
    moreover have "tp_move w (set_worker j W_exit w)" if "tp_queue p = []" "stopping p" by (rule w_exit) (use j W_loop p that in auto)
    moreover have "tp_move w (set_worker j (W_start (hd (tp_queue p))) (set_pool (p\<lparr>tp_queue := tl (tp_queue p)\<rparr>) w))" if "tp_queue p \<noteq> []"
      by (rule w_take) (use j W_loop p that in auto)
    ultimately show ?thesis using W_loop p by (auto simp: thread_pool_worker_def with_pool_def)
  next
    case (W_start t)
    obtain k where k: "tasks w t = Some k" "t_state k = TASK_STATE_QUEUED" using start_state [OF inv j(1) W_start] by (auto simp: in_state_def split: option.splits)
    have "tp_move w (set_worker j (W_run t) (set_task t (k\<lparr>t_state := TASK_STATE_RUNNING\<rparr>) w))" by (rule w_start) (use j W_start k in auto)
    then show ?thesis using W_start k by (simp add: thread_pool_worker_def with_task_def)
  next
    case (W_run t)
    obtain k where k: "tasks w t = Some k" "t_state k = TASK_STATE_RUNNING" using run_state [OF inv j(1) W_run] by (auto simp: in_state_def split: option.splits)
    from w_run [OF j(1) W_run k] show ?thesis using W_run k by (simp add: thread_pool_worker_def with_task_def Let_def)
  next
    case (W_free t)
    obtain k where k: "tasks w t = Some k" "t_state k = TASK_STATE_FINISHED" "t_detached k"
      using free_state [OF inv j(1) W_free] by (auto simp: in_state_def is_detached_def split: option.splits)
    from w_free [OF j(1) W_free k] show ?thesis using W_free k by (simp add: thread_pool_worker_def with_task_def)
  next
    case W_sub
    from w_sub [OF j(1) W_sub p] show ?thesis using W_sub p by (simp add: thread_pool_worker_def count_sub_def with_pool_def)
  qed (use j in auto)
qed

lemma tp_step_moves:
  assumes inv: "tp_inv w" and en: "tp_enabled l w"
  shows "moves (tp_step l w) w"
proof (cases l)
  case (Wake_client i)
  have i: "i < length (clients w)" using en Wake_client by simp
  note U = task_user_facts [OF inv i]
  show ?thesis
  proof (cases "clients w ! i")
    case (Join_wait t)
    have "tp_move w (set_client i (Join_woken t) w)" by (rule m_plain) (use i Join_wait U [of t] in \<open>auto simp: may_use_def\<close>)
    then show ?thesis using Wake_client Join_wait by simp
  next
    case (Timed_wait t)
    have "tp_move w (set_client i (Timed_woken t) w)" by (rule m_plain) (use i Timed_wait U [of t] in \<open>auto simp: may_use_def\<close>)
    then show ?thesis using Wake_client Timed_wait by simp
  qed (use en Wake_client in auto)
next
  case (Timeout i)
  have "tp_move w (ret i TPOOL_ERR_TIMEOUT w)" by (rule move_ret) (use en Timeout in \<open>auto split: client_pc.splits\<close>)
  then show ?thesis using Timeout by (simp add: timed_join_timeout_def)
next
  case (Wake_worker j)
  have "tp_move w (set_worker j W_loop w)" by (rule w_wake) (use en Wake_worker in auto)
  then show ?thesis using Wake_worker en by simp
qed (use moves_call [OF inv] moves_client [OF inv] moves_worker [OF inv] en in auto)

lemma tp_step_safe: "tp_inv w \<Longrightarrow> tp_enabled l w \<Longrightarrow> \<exists>w'. tp_step l w = Inr w' \<and> tp_inv w'"
  using tp_step_moves [of w l] tp_inv_move by (auto simp: moves_def)

interpretation tpool: safe_system tp_step tp_enabled tp_inv
  by unfold_locales (rule tp_step_safe)

lemma tp_inv_init: "tp_inv (tp_init n)"
  by (auto simp: tp_inv_def tp_init_def queued_ok_def running_ok_def freed_ok_def pointers_ok_def users_ok_def count_ok_def sleep_ok_def
      threads_ok_def deletion_ok_def the_queue_def the_count_def in_state_def is_detached_def counted_def TPOOL_MAX_TASKS_def list_ex_iff)

end
