(* ===== verification/Thread_Pool_Runs.thy ===== *)
theory Thread_Pool_Runs
  imports Thread_Pool_Inv
begin

text \<open>
  Runs of the thread pool under arbitrary interleavings: memory safety, the order in which tasks are
  taken, that each runs exactly once per push, that deleting a pool ends, and three places where the code
  departs from its documentation.
\<close>

section \<open>Safety\<close>


section \<open>What is observed\<close>

text \<open>A push that is accepted, a task that gets into the queue, that is taken out of it, whose function has run.\<close>

datatype tp_event = Accepted addr | Queued addr | Taken addr | Ran addr

fun tp_obs :: "tp_label \<Rightarrow> tp_world \<Rightarrow> tp_world \<Rightarrow> tp_event list" where
  "tp_obs (Client i c) w w' =
     (case clients w ! i of
        In_push t \<Rightarrow> if clients w' ! i = In_push_queue t then [Accepted t] else []
      | In_push_queue t \<Rightarrow> [Queued t]
      | _ \<Rightarrow> [])"
| "tp_obs (Worker j) w w' =
     (case workers w ! j of
        W_loop \<Rightarrow> (case workers w' ! j of W_start t \<Rightarrow> [Taken t] | _ \<Rightarrow> [])
      | W_run t \<Rightarrow> [Ran t]
      | _ \<Rightarrow> [])"
| "tp_obs _ w w' = []"

definition tp_events :: "tp_label list \<Rightarrow> tp_world \<Rightarrow> tp_event list" where
  "tp_events ls w = events tp_obs tp_step ls w"

definition queued_order :: "tp_event list \<Rightarrow> addr list" where
  "queued_order es = concat (map (\<lambda>e. case e of Queued t \<Rightarrow> [t] | _ \<Rightarrow> []) es)"

definition taken_order :: "tp_event list \<Rightarrow> addr list" where
  "taken_order es = concat (map (\<lambda>e. case e of Taken t \<Rightarrow> [t] | _ \<Rightarrow> []) es)"

lemma order_simps [simp]:
  "queued_order [] = []" "taken_order [] = []" "queued_order (es @ fs) = queued_order es @ queued_order fs"
  "taken_order (es @ fs) = taken_order es @ taken_order fs"
  "queued_order [e] = (case e of Queued t \<Rightarrow> [t] | _ \<Rightarrow> [])" "taken_order [e] = (case e of Taken t \<Rightarrow> [t] | _ \<Rightarrow> [])"
  by (simp_all add: queued_order_def taken_order_def)

lemma queue_step:
  assumes inv: "tp_inv w" and en: "tp_enabled l w" and st: "tp_step l w = Inr w'"
  shows "the_queue w @ queued_order (tp_obs l w w') = taken_order (tp_obs l w w') @ the_queue w'"
proof (cases l)
  case (Call i c)
  then show ?thesis using st en
    by (cases c) (auto simp: tp_step_defs the_queue_def split: if_splits option.splits)
next
  case (Client i c)
  have i: "i < length (clients w)" using en Client by simp
  show ?thesis
  proof (cases "clients w ! i")
    case In_pool_join
    then have "the_queue w = []" using deletion_queue [OF inv i] by simp
    then show ?thesis using st Client In_pool_join i by (auto simp: tp_step_defs the_queue_def split: option.splits)
  qed (use st Client i in \<open>auto simp: tp_step_defs the_queue_def nth_list_update split: if_splits option.splits\<close>)
next
  case (Worker j)
  then show ?thesis using st en
    by (cases "workers w ! j") (auto simp: tp_step_defs the_queue_def split: if_splits option.splits)
qed (use st in \<open>auto simp: tp_step_defs the_queue_def split: client_pc.splits\<close>)

text \<open>
  C11. Tasks are taken by the workers in the order in which they were queued, whoever pushes and however many
  workers there are: those taken and then those in the queue are, at any time, those queued.
\<close>

theorem tpool_fifo:
  assumes "legal tp_step tp_enabled ls (tp_init n)" and "run_labels tp_step ls (tp_init n) = Inr w"
  shows "queued_order (tp_events ls (tp_init n)) = taken_order (tp_events ls (tp_init n)) @ the_queue w"
proof -
  define J where "J = (\<lambda>w es. queued_order es = taken_order es @ the_queue w)"
  have "J w ([] @ events tp_obs tp_step ls (tp_init n))"
  proof (rule tpool.history_inv [OF tp_inv_init assms])
    show "J (tp_init n) []" by (simp add: J_def tp_init_def the_queue_def)
    show "J s' (h @ tp_obs l s s')" if "tp_inv s" "tp_enabled l s" "tp_step l s = Inr s'" "J s h" for s l s' h
      using queue_step [OF that(1-3)] that(4) by (simp add: J_def)
  qed
  then show ?thesis by (simp add: J_def tp_events_def)
qed

text \<open>How often a push of a task was accepted, and how often its function ran.\<close>

definition accepted :: "addr \<Rightarrow> tp_event list \<Rightarrow> nat" where
  "accepted t es = length (filter (\<lambda>e. e = Accepted t) es)"

definition ran :: "addr \<Rightarrow> tp_event list \<Rightarrow> nat" where
  "ran t es = length (filter (\<lambda>e. e = Ran t) es)"

definition pending :: "addr \<Rightarrow> tp_world \<Rightarrow> bool" where
  "pending t w \<longleftrightarrow> in_state TASK_STATE_QUEUED t w \<or> in_state TASK_STATE_RUNNING t w"

lemma ran_simps [simp]:
  "accepted t [] = 0" "ran t [] = 0" "accepted t (es @ fs) = accepted t es + accepted t fs" "ran t (es @ fs) = ran t es + ran t fs"
  "accepted t [e] = of_bool (e = Accepted t)" "ran t [e] = of_bool (e = Ran t)"
  by (simp_all add: accepted_def ran_def)

lemma pending_step:
  assumes inv: "tp_inv w" and en: "tp_enabled l w" and st: "tp_step l w = Inr w'"
  shows "of_bool (pending t w) + accepted t (tp_obs l w w') = ran t (tp_obs l w w') + of_bool (pending t w')"
proof (cases l)
  case (Call i c)
  then show ?thesis using st en
    by (cases c) (auto simp: tp_step_defs pending_def in_state_def usable_def split: if_splits option.splits)
next
  case (Client i c)
  have i: "i < length (clients w)" using en Client by simp
  note U = task_user_facts [OF inv i]
  show ?thesis
  proof (cases "clients w ! i")
    case (In_task_delete u)
    then show ?thesis using U [of u] st Client i by (auto simp: tp_step_defs pending_def in_state_def split: if_splits option.splits)
  next
    case (In_detach_delete u)
    then show ?thesis using U [of u] st Client i by (auto simp: tp_step_defs pending_def in_state_def split: if_splits option.splits)
  qed (use st Client i in \<open>auto simp: tp_step_defs pending_def in_state_def nth_list_update split: if_splits option.splits\<close>)
next
  case (Worker j)
  have j: "j < length (workers w)" using en Worker by simp
  show ?thesis
  proof (cases "workers w ! j")
    case (W_start u)
    then show ?thesis using start_state [OF inv j W_start] st Worker j by (auto simp: tp_step_defs pending_def in_state_def split: if_splits option.splits)
  next
    case (W_run u)
    then show ?thesis using run_state [OF inv j W_run] st Worker j by (auto simp: tp_step_defs pending_def in_state_def split: if_splits option.splits)
  next
    case (W_free u)
    then show ?thesis using free_state [OF inv j W_free] st Worker j by (auto simp: tp_step_defs pending_def in_state_def split: if_splits option.splits)
  qed (use st Worker j in \<open>auto simp: tp_step_defs pending_def in_state_def split: if_splits option.splits\<close>)
qed (use st in \<open>auto simp: tp_step_defs pending_def in_state_def split: client_pc.splits\<close>)

text \<open>
  C3. Every task runs exactly once for each push that was accepted: the two numbers only differ, by one, while the task
  is queued or running.
\<close>

theorem tpool_runs_once:
  assumes "legal tp_step tp_enabled ls (tp_init n)" and "run_labels tp_step ls (tp_init n) = Inr w"
  shows "accepted t (tp_events ls (tp_init n)) = ran t (tp_events ls (tp_init n)) + of_bool (pending t w)"
proof -
  define J where "J = (\<lambda>w es. accepted t es = ran t es + of_bool (pending t w))"
  have "J w ([] @ events tp_obs tp_step ls (tp_init n))"
  proof (rule tpool.history_inv [OF tp_inv_init assms])
    show "J (tp_init n) []" by (simp add: J_def tp_init_def pending_def in_state_def)
    show "J s' (h @ tp_obs l s s')" if "tp_inv s" "tp_enabled l s" "tp_step l s = Inr s'" "J s h" for s l s' h
      using pending_step [OF that(1-3), of t] that(4) by (simp add: J_def)
  qed
  then show ?thesis by (simp add: J_def tp_events_def)
qed

section \<open>Deleting a pool\<close>

lemma exit_all:
  assumes "pool w = Some p" and "tp_queue p = []" and "stopping p" and "workers w = replicate k W_exit @ replicate m W_loop"
  shows "legal tp_step tp_enabled (map Worker [k..<k + m]) w
    \<and> run_labels tp_step (map Worker [k..<k + m]) w = Inr (w\<lparr>workers := replicate (k + m) W_exit\<rparr>)"
  using assms
proof (induction m arbitrary: k w)
  case (Suc m)
  let ?w1 = "set_worker k W_exit w"
  have n: "workers w ! k = W_loop" "k < length (workers w)" using Suc.prems(4) by (simp_all add: nth_append)
  have s: "tp_step (Worker k) w = Inr ?w1" using Suc.prems n by (simp add: thread_pool_worker_def with_pool_def)
  have e: "tp_enabled (Worker k) w" using n by simp
  have w1: "workers ?w1 = replicate (Suc k) W_exit @ replicate m W_loop"
    using Suc.prems(4) by (simp add: list_update_append replicate_app_Cons_same)
  have "legal tp_step tp_enabled (map Worker [Suc k..<Suc k + m]) ?w1
    \<and> run_labels tp_step (map Worker [Suc k..<Suc k + m]) ?w1 = Inr (?w1\<lparr>workers := replicate (Suc k + m) W_exit\<rparr>)"
    by (rule Suc.IH [OF _ Suc.prems(2,3) w1]) (simp add: Suc.prems(1))
  moreover have "[k..<k + Suc m] = k # [Suc k..<Suc k + m]" by (simp add: upt_rec)
  moreover have "?w1\<lparr>workers := ws\<rparr> = w\<lparr>workers := ws\<rparr>" for ws by (simp add: set_worker_def)
  ultimately show ?case using s e by simp
qed simp

lemma deletion_workers:
  assumes inv: "tp_inv w" and i: "i < length (clients w)" and d: "clients w ! i = In_pool_delete" and j: "j < length (workers w)"
  shows "wake_worker (workers w ! j) = W_loop"
proof -
  have dp: "deletes_pool (clients w ! i)" using d by simp
  note F = deletion_facts [OF inv i dp]
  have nc: "\<not> in_state TASK_STATE_QUEUED t w" for t using queued_counted [OF inv] F(2) by blast
  have nr: "\<not> (in_state s t w \<and> (s = TASK_STATE_RUNNING \<or> s = TASK_STATE_FINISHED \<and> is_detached t w))" for s t
  proof
    assume a: "in_state s t w \<and> (s = TASK_STATE_RUNNING \<or> s = TASK_STATE_FINISHED \<and> is_detached t w)"
    then obtain k where k: "tasks w t = Some k" "in_pool k" "t_state k \<noteq> TASK_STATE_FINISHED \<or> t_detached k"
      by (auto simp: in_state_def is_detached_def in_pool_def split: option.splits)
    then have "counted w t" using unused_not_freeing [OF inv k(1,3)] by (simp add: counted_def)
    then show False using F(2) by blast
  qed
  have ne: "workers w ! j \<noteq> W_exit"
  proof
    assume "workers w ! j = W_exit"
    then have "W_exit \<in> set (workers w)" using j by (metis nth_mem)
    then have "In_pool_join \<in> set (clients w)" using tp_invD(9) [OF inv] by (simp add: deletion_ok_def)
    then obtain l where l: "l < length (clients w)" "clients w ! l = In_pool_join" by (auto simp: in_set_conv_nth)
    then have "l = i" using tp_invD(9) [OF inv] occ_le_one [of deletes_pool "clients w" l i] i d by (simp add: deletion_ok_def)
    then show False using l d by simp
  qed
  show ?thesis
  proof (cases "workers w ! j")
    case (W_start t) then show ?thesis using start_state [OF inv j] nc by blast
  next
    case (W_run t) then show ?thesis using run_state [OF inv j] nr by blast
  next
    case (W_free t) then show ?thesis using free_state [OF inv j] nr by blast
  next
    case W_sub then show ?thesis using F(4) j by (metis nth_mem)
  qed (use ne in auto)
qed

text \<open>
  C4. Deleting a pool ends: from any state a thread can be in after it found the pool without tasks, one step of its own, one
  step of each worker and another of its own are possible, and then the function returns 0 and the pool is gone.
\<close>

theorem tpool_delete_returns:
  assumes "legal tp_step tp_enabled ls (tp_init n)" and "run_labels tp_step ls (tp_init n) = Inr w"
    and i: "i < length (clients w)" and d: "clients w ! i = In_pool_delete"
  shows "\<exists>w'. run_labels tp_step (Client i 0 # map Worker [0..<length (workers w)] @ [Client i 0]) w = Inr w'
    \<and> legal tp_step tp_enabled (Client i 0 # map Worker [0..<length (workers w)] @ [Client i 0]) w
    \<and> pool w' = None \<and> clients w' ! i = Idle 0"
proof -
  have inv: "tp_inv w" using tpool.run_inv [OF tp_inv_init assms(1,2)] .
  obtain p where p: "pool w = Some p" using deletion_facts(5) [OF inv i] d by auto
  have q: "tp_queue p = []" using deletion_queue [OF inv i] d p by (simp add: the_queue_def)
  define w1 where "w1 = set_client i In_pool_join (broadcast_pool (set_pool (p\<lparr>stopping := True\<rparr>) w))"
  have s1: "tp_step (Client i 0) w = Inr w1" using d p by (simp add: client_step_def pool_delete_stop_def with_pool_def w1_def)
  have e1: "tp_enabled (Client i 0) w" using i d by simp
  have ws: "workers w1 = replicate 0 W_exit @ replicate (length (workers w)) W_loop"
    using deletion_workers [OF inv i d] by (auto simp: w1_def list_eq_iff_nth_eq)
  let ?w2 = "w1\<lparr>workers := replicate (0 + length (workers w)) W_exit\<rparr>"
  have ex: "legal tp_step tp_enabled (map Worker [0..<0 + length (workers w)]) w1
      \<and> run_labels tp_step (map Worker [0..<0 + length (workers w)]) w1 = Inr ?w2"
    by (rule exit_all [of _ "p\<lparr>stopping := True\<rparr>"]) (use q ws in \<open>simp_all add: w1_def\<close>)
  have c2: "clients ?w2 ! i = In_pool_join" "i < length (clients ?w2)" "pool ?w2 = Some (p\<lparr>stopping := True\<rparr>)" using i by (simp_all add: w1_def)
  have s3: "tp_step (Client i 0) ?w2 = Inr (ret i 0 (?w2\<lparr>pool := None, workers := []\<rparr>))"
    using c2 by (simp add: client_step_def pool_delete_free_def with_pool_def)
  have e3: "tp_enabled (Client i 0) ?w2" using c2 by (simp add: list_all_iff)
  have lr: "run_labels tp_step (map Worker [0..<length (workers w)] @ [Client i 0]) w1 = Inr (ret i 0 (?w2\<lparr>pool := None, workers := []\<rparr>))"
    using ex s3 by (simp add: run_labels_append)
  have "legal tp_step tp_enabled (map Worker [0..<length (workers w)] @ [Client i 0]) w1"
    using ex s3 e3 legal_append [of tp_step "map Worker [0..<length (workers w)]" w1 ?w2 tp_enabled "[Client i 0]"] by simp
  then show ?thesis using s1 e1 lr i by (simp add: ret_def w1_def)
qed

section \<open>Departures from the documentation\<close>

text \<open>
  C39. A task that \<open>thread_task_timed_join\<close> joined cannot be pushed again, unlike one that \<open>thread_task_join\<close>
  joined: the pointer to the pool is left, and the push fails with \<open>TPOOL_ERR_TASK_IN_POOL\<close>.
\<close>

theorem tpool_timed_join_not_reusable:
  assumes "i < length (clients w)" and "clients w ! i = Idle r" and "pool w = Some p" and "task_count p \<le> TPOOL_MAX_TASKS"
    and "tasks w t = Some k" and "t_state k = TASK_STATE_FINISHED" and "t_pool k"
  shows "(\<exists>w'. run_labels tp_step [Call i (Timed_join t), Call i (Push t), Client i 0, Client i 0] w = Inr w'
      \<and> clients w' ! i = Idle TPOOL_ERR_TASK_IN_POOL)
    \<and> (\<exists>w'. run_labels tp_step [Call i (Join t), Client i 0, Call i (Push t), Client i 0, Client i 0] w = Inr w' \<and> clients w' ! i = Idle 0)"
  using assms by (simp add: tp_step_defs)

text \<open>
  Joining a task with a time-out a second time counts it out again: the counter goes below zero when it was the last task, and
  the pool cannot be deleted. After \<open>thread_task_join\<close> the same call follows a null pointer.
\<close>

theorem tpool_timed_join_twice:
  assumes "i < length (clients w)" and "clients w ! i = Idle r" and "pool w = Some p" and "task_count p = 1"
    and "tasks w t = Some k" and "t_state k = TASK_STATE_FINISHED" and "t_pool k"
  shows "(\<exists>w'. run_labels tp_step [Call i (Timed_join t), Call i (Timed_join t), Call i Pool_delete] w = Inr w'
      \<and> clients w' ! i = Idle TPOOL_ERR_HAS_TASKS \<and> map_option task_count (pool w') = Some (-1))
    \<and> run_labels tp_step [Call i (Join t), Client i 0, Call i (Timed_join t)] w = Inl Null_pool"
  using assms by (simp add: tp_step_defs)

text \<open>
  A pool that has a thread starts none for a task pushed into its empty queue, although all
  its threads may be busy and it may have fewer than the maximum: the queue is compared with the number of
  threads, not of idle ones.
\<close>

theorem tpool_busy_starts_no_thread:
  assumes "i < length (clients w)" and "clients w ! i = In_push_queue t" and "pool w = Some p" and "tp_queue p = []" and "workers w \<noteq> []"
  shows "\<exists>w'. client_step i creates w = Inr w' \<and> workers w' = map wake_worker (workers w) \<and> clients w' ! i = Idle 0"
proof -
  have "spawn creates (max_threads p) (Suc 0) (length (workers w)) = length (workers w)" using assms(5) by (cases creates) auto
  then show ?thesis using assms by (simp add: tp_step_defs)
qed

section \<open>Examples\<close>

text \<open>One thread makes a pool and a task, pushes it, and the worker runs it.\<close>

definition demo_tp :: "tp_label list" where
  "demo_tp = [Call 0 (Pool_new 3), Call 0 (Task_new 7), Call 0 (Push 7), Client 0 0, Client 0 9, Worker 0, Worker 0, Worker 0]"

lemma demo_tp_run:
  "legal tp_step tp_enabled demo_tp (tp_init 1)"
  "run_labels tp_step demo_tp (tp_init 1) = Inr
     \<lparr>pool = Some \<lparr>tp_queue = [], max_threads = 3, task_count = 1, stopping = False\<rparr>,
      tasks = [7 \<mapsto> \<lparr>t_pool = True, t_state = TASK_STATE_FINISHED, t_detached = False\<rparr>], workers = [W_loop], clients = [Idle 0]\<rparr>"
  by (simp_all add: demo_tp_def tp_step_defs tp_init_def tpool_constants usable_def pool_usable_def set_pool_def set_client_def
      set_task_def set_worker_def broadcast_pool_def broadcast_task_def numeral_nat)


theorem tpool_fifo_witness:
  "taken_order (tp_events demo_tp (tp_init 1)) = queued_order (tp_events demo_tp (tp_init 1))"
  using tpool_fifo [OF demo_tp_run] by (simp add: the_queue_def)

theorem tpool_runs_once_witness:
  "accepted 7 (tp_events demo_tp (tp_init 1)) = ran 7 (tp_events demo_tp (tp_init 1)) \<and> ran 7 (tp_events demo_tp (tp_init 1)) = 1"
proof -
  have "accepted 7 (tp_events demo_tp (tp_init 1)) = 1"
    by (simp add: tp_events_def demo_tp_def tp_step_defs tp_init_def tpool_constants numeral_nat flip: append_Cons)
  then show ?thesis using tpool_runs_once [OF demo_tp_run, of 7] by (simp add: pending_def in_state_def)
qed

definition demo_end :: "tp_label list" where
  "demo_end = [Call 0 (Join 7), Client 0 0, Call 0 (Task_delete 7), Client 0 0, Call 0 Pool_delete]"

theorem tpool_delete_returns_witness:
  "\<exists>w w'. run_labels tp_step (demo_tp @ demo_end) (tp_init 1) = Inr w \<and> length (workers w) = 1
     \<and> run_labels tp_step [Client 0 0, Worker 0, Client 0 0] w = Inr w' \<and> pool w' = None \<and> clients w' ! 0 = Idle 0"
proof -
  let ?w = "\<lparr>pool = Some \<lparr>tp_queue = [], max_threads = 3, task_count = 0, stopping = False\<rparr>,
      tasks = Map.empty, workers = [W_loop], clients = [In_pool_delete]\<rparr>"
  have l: "legal tp_step tp_enabled (demo_tp @ demo_end) (tp_init 1)" and r: "run_labels tp_step (demo_tp @ demo_end) (tp_init 1) = Inr ?w"
    using demo_tp_run legal_append [OF demo_tp_run(2), of tp_enabled demo_end]
    by (simp_all add: run_labels_append demo_end_def tp_step_defs usable_def pool_usable_def set_client_def set_task_def set_pool_def free_task_def)
  show ?thesis using r tpool_delete_returns [OF l r, of 0] by auto
qed

theorem tpool_timed_join_not_reusable_witness:
  "\<exists>w w'. run_labels tp_step demo_tp (tp_init 1) = Inr w
     \<and> run_labels tp_step [Call 0 (Timed_join 7), Call 0 (Push 7), Client 0 0, Client 0 0] w = Inr w' \<and> clients w' ! 0 = Idle TPOOL_ERR_TASK_IN_POOL"
proof -
  let ?k = "\<lparr>t_pool = True, t_state = TASK_STATE_FINISHED, t_detached = False\<rparr>"
  let ?p = "\<lparr>tp_queue = [], max_threads = 3, task_count = 1, stopping = False\<rparr>"
  let ?w = "\<lparr>pool = Some ?p, tasks = [7 \<mapsto> ?k], workers = [W_loop], clients = [Idle 0]\<rparr>"
  show ?thesis
    using demo_tp_run(2) tpool_timed_join_not_reusable [of 0 ?w 0 ?p 7 ?k] by (simp add: TPOOL_MAX_TASKS_def)
qed

theorem tpool_timed_join_twice_witness:
  "\<exists>w w'. run_labels tp_step demo_tp (tp_init 1) = Inr w
     \<and> run_labels tp_step [Call 0 (Timed_join 7), Call 0 (Timed_join 7), Call 0 Pool_delete] w = Inr w' \<and> clients w' ! 0 = Idle TPOOL_ERR_HAS_TASKS"
proof -
  let ?k = "\<lparr>t_pool = True, t_state = TASK_STATE_FINISHED, t_detached = False\<rparr>"
  let ?p = "\<lparr>tp_queue = [], max_threads = 3, task_count = 1, stopping = False\<rparr>"
  let ?w = "\<lparr>pool = Some ?p, tasks = [7 \<mapsto> ?k], workers = [W_loop], clients = [Idle 0]\<rparr>"
  show ?thesis
    using demo_tp_run(2) tpool_timed_join_twice [of 0 ?w 0 ?p 7 ?k] by (simp only:) auto
qed

text \<open>The worker is in the function of task 7 while task 8 is pushed.\<close>

definition demo_busy :: "tp_label list" where
  "demo_busy = [Call 0 (Pool_new 3), Call 0 (Task_new 7), Call 0 (Push 7), Client 0 0, Client 0 9, Worker 0, Worker 0,
     Call 0 (Task_new 8), Call 0 (Push 8), Client 0 0]"

theorem tpool_busy_starts_no_thread_witness:
  "\<exists>w w'. run_labels tp_step demo_busy (tp_init 1) = Inr w \<and> workers w = [W_run 7]
     \<and> client_step 0 9 w = Inr w' \<and> workers w' = [W_run 7] \<and> map_option max_threads (pool w) = Some 3"
proof -
  obtain w p where r: "run_labels tp_step demo_busy (tp_init 1) = Inr w" and w: "workers w = [W_run 7]" "clients w = [In_push_queue 8]"
      "pool w = Some p" "tp_queue p = []" "max_threads p = 3"
    by (simp add: demo_busy_def tp_step_defs tp_init_def tpool_constants numeral_nat)
  then show ?thesis using tpool_busy_starts_no_thread [of 0 w 8 p 9] by auto
qed

end
