(* ===== verification/Heap_Help.thy ===== *)
theory Heap_Help
  imports Machines "HOL-Library.Multiset"
begin

text \<open>
  The heap checker, \<open>utils/heap_help/heap_help.cpp\<close>: its table of live blocks, the pool and the batches its records
  come from, and the report it prints at the end of the process. Calls are taken one after the other,
  as the mutex lets them through; the locks of the C library and null symbol names are left out.
\<close>

section \<open>Data\<close>

definition MAX_BACKTRACE_LEN :: nat where
  "MAX_BACKTRACE_LEN = 64"

definition ALLOCATION_BATCH_SIZE :: nat where
  "ALLOCATION_BATCH_SIZE = 1024"

datatype report_mode = REPORT_MODE_VERBOSE | REPORT_MODE_LEAKS | REPORT_MODE_QUIET

datatype backtrace_mode = BACKTRACE_ON | BACKTRACE_OFF

datatype content_mode = CONTENT_MODE_ORIGINAL | CONTENT_MODE_TRASH

text \<open>A record stands in a batch: the number of the batch and the index in it are its address.\<close>

type_synonym aref = "nat \<times> nat"

record allocation =
  trace :: "addr list"
  trace_size :: int
  mem :: addr
  size_of :: "64 word"
  next_alloc :: "aref option"

text \<open>
  \<open>m_allocations\<close> is the \<open>std::map\<close>, in the order of its keys; \<open>alloc_at\<close> is what the records hold, also
  those that were never written. \<open>m_alloc_batch\<close> points to the batch made last, the one with number
  \<open>batches - 1\<close>; \<open>batch_used\<close> is its \<open>used\<close>.
\<close>

record heap_help =
  m_allocations :: "(addr \<times> aref) list"
  m_alloc_pool :: "aref option"
  batches :: nat
  batch_used :: nat
  alloc_at :: "aref \<Rightarrow> allocation"
  m_alloc_count :: "64 word"
  m_report_mode :: report_mode
  m_content_mode :: content_mode
  m_backtrace_mode :: backtrace_mode

text \<open>\<open>heaph_assert\<close>: a failed assertion ends the process with status -1.\<close>

datatype 'a hh_result = Assertion_failed | Done 'a

fun hh_bind :: "'a hh_result \<Rightarrow> ('a \<Rightarrow> 'b hh_result) \<Rightarrow> 'b hh_result" where
  "hh_bind Assertion_failed f = Assertion_failed"
| "hh_bind (Done x) f = f x"

definition heaph_assert :: "bool \<Rightarrow> 'a hh_result \<Rightarrow> 'a hh_result" where
  "heaph_assert c r = (if c then r else Assertion_failed)"

section \<open>The constructor\<close>

text \<open>The parameters are what \<open>getenv\<close> returns for the three variables, and what fresh memory holds.\<close>

definition heap_help_new :: "string option \<Rightarrow> string option \<Rightarrow> string option \<Rightarrow> (aref \<Rightarrow> allocation) \<Rightarrow> heap_help" where
  "heap_help_new hh_report hh_content bt_mode garbage =
     \<lparr>m_allocations = [], m_alloc_pool = None, batches = 0, batch_used = 0, alloc_at = garbage, m_alloc_count = 0,
      m_report_mode = (if hh_report = Some ''v'' then REPORT_MODE_VERBOSE else if hh_report = Some ''l'' then REPORT_MODE_LEAKS
        else if hh_report = Some ''q'' then REPORT_MODE_QUIET else REPORT_MODE_LEAKS),
      m_content_mode = (if hh_content = Some ''o'' then CONTENT_MODE_ORIGINAL else if hh_content = Some ''t'' then CONTENT_MODE_TRASH
        else CONTENT_MODE_ORIGINAL),
      m_backtrace_mode = (if bt_mode = Some ''on'' then BACKTRACE_ON else if bt_mode = Some ''off'' then BACKTRACE_OFF else BACKTRACE_ON)\<rparr>"

section \<open>Tracing\<close>

text \<open>\<open>std::map::emplace\<close> and \<open>erase\<close>.\<close>

fun emplace :: "addr \<Rightarrow> 'v \<Rightarrow> (addr \<times> 'v) list \<Rightarrow> (addr \<times> 'v) list option" where
  "emplace k v [] = Some [(k, v)]"
| "emplace k v ((l, u) # xs) =
     (if k < l then Some ((k, v) # (l, u) # xs)
      else if k = l then None
      else map_option (\<lambda>ys. (l, u) # ys) (emplace k v xs))"

definition erase :: "addr \<Rightarrow> (addr \<times> 'v) list \<Rightarrow> (addr \<times> 'v) list" where
  "erase k xs = filter (\<lambda>e. fst e \<noteq> k) xs"

text \<open>Taking a record from the pool or from a batch; \<open>batch_ok\<close> tells if \<open>malloc\<close> returns a new batch.\<close>

definition take_record :: "bool \<Rightarrow> heap_help \<Rightarrow> (aref \<times> heap_help) hh_result" where
  "take_record batch_ok h =
     (case m_alloc_pool h of
        Some a \<Rightarrow> Done (a, h\<lparr>m_alloc_pool := next_alloc (alloc_at h a)\<rparr>)
      | None \<Rightarrow>
          hh_bind
            (if batches h = 0 \<or> batch_used h = ALLOCATION_BATCH_SIZE
             then heaph_assert batch_ok (Done (h\<lparr>batches := batches h + 1, batch_used := 0\<rparr>))
             else heaph_assert (batch_used h < ALLOCATION_BATCH_SIZE) (Done h))
            (\<lambda>h1. Done ((batches h1 - 1, batch_used h1), h1\<lparr>batch_used := batch_used h1 + 1\<rparr>)))"

text \<open>\<open>bt\<close> is what \<open>backtrace\<close> stores and returns.\<close>

definition heap_help_trace :: "bool \<Rightarrow> addr list \<times> int \<Rightarrow> addr \<Rightarrow> 64 word \<Rightarrow> heap_help \<Rightarrow> heap_help hh_result" where
  "heap_help_trace batch_ok bt ptr n h =
     hh_bind (take_record batch_ok h) (\<lambda>(a, h1).
       let h2 = h1\<lparr>alloc_at := (alloc_at h1)(a := (alloc_at h1 a)\<lparr>mem := ptr, size_of := n\<rparr>)\<rparr>
       in case emplace ptr a (m_allocations h2) of
            None \<Rightarrow> Assertion_failed
          | Some m \<Rightarrow>
              let h3 = h2\<lparr>m_allocations := m, m_alloc_count := m_alloc_count h2 + 1\<rparr>;
                  h4 = (if m_backtrace_mode h3 = BACKTRACE_ON
                        then h3\<lparr>alloc_at := (alloc_at h3)(a := (alloc_at h3 a)\<lparr>trace := fst bt, trace_size := snd bt\<rparr>)\<rparr> else h3)
              in heaph_assert (0 \<le> trace_size (alloc_at h4 a)) (Done h4))"

definition heap_help_untrace :: "addr \<Rightarrow> heap_help \<Rightarrow> heap_help hh_result" where
  "heap_help_untrace ptr h =
     (case map_of (m_allocations h) ptr of
        None \<Rightarrow> Assertion_failed
      | Some a \<Rightarrow>
          Done (h\<lparr>alloc_at := (alloc_at h)(a := (alloc_at h a)\<lparr>next_alloc := m_alloc_pool h\<rparr>),
                  m_alloc_pool := Some a, m_allocations := erase ptr (m_allocations h)\<rparr>))"

text \<open>The operators; \<open>res\<close> is what \<open>malloc\<close> or \<open>aligned_alloc\<close> returns.\<close>

definition operator_new :: "addr option \<Rightarrow> bool \<Rightarrow> addr list \<times> int \<Rightarrow> 64 word \<Rightarrow> heap_help \<Rightarrow> heap_help hh_result" where
  "operator_new res batch_ok bt n h =
     (case res of None \<Rightarrow> Assertion_failed | Some ptr \<Rightarrow> heap_help_trace batch_ok bt ptr n h)"

definition operator_delete :: "addr \<Rightarrow> heap_help \<Rightarrow> heap_help hh_result" where
  "operator_delete ptr h = heap_help_untrace ptr h"

section \<open>The report\<close>

text \<open>The lines that are printed.\<close>

datatype report_line =
    No_leaks
  | Total_count "64 word"
  | Leak_line nat "64 word"
  | No_trace
  | Frame nat string
  | Found nat "64 word"
  | Only_first nat

text \<open>\<open>dladdr\<close> resolves an address to the names of a symbol and of a file; \<open>trace_resolve\<close> fails if one is not resolved.\<close>

definition trace_resolve :: "(addr \<Rightarrow> (string \<times> string) option) \<Rightarrow> addr list \<Rightarrow> int \<times> (string \<times> string) option list" where
  "trace_resolve dladdr addrs =
     (let syms = map dladdr addrs in (if None \<in> set syms then -1 else 0, syms))"

definition frame_lines :: "(string \<Rightarrow> string option) \<Rightarrow> (string \<times> string) option list \<Rightarrow> report_line list" where
  "frame_lines demangle syms =
     map (\<lambda>(i, s). case s of
            None \<Rightarrow> Frame i ''''
          | Some (original_name, file) \<Rightarrow>
              (case demangle original_name of None \<Rightarrow> Frame i original_name | Some name \<Rightarrow> Frame i name)) (enumerate 0 syms)"

definition report_limit :: nat where
  "report_limit = 10"

fun leak_lines :: "(addr \<Rightarrow> (string \<times> string) option) \<Rightarrow> (string \<Rightarrow> string option) \<Rightarrow> allocation list \<Rightarrow> nat \<Rightarrow> 64 word
    \<Rightarrow> report_line list \<times> nat \<times> 64 word" where
  "leak_lines dladdr demangle [] report_count leak_size = ([], report_count, leak_size)"
| "leak_lines dladdr demangle (a # as) report_count leak_size =
     (let leak_size = leak_size + size_of a
      in if report_limit \<le> report_count then leak_lines dladdr demangle as report_count leak_size
         else let (rc, syms) = trace_resolve dladdr (take (nat (trace_size a)) (trace a));
                  report_count = report_count + 1;
                  (lines, r) = leak_lines dladdr demangle as report_count leak_size
              in (Leak_line report_count (size_of a) # (if rc \<noteq> 0 then [No_trace] else frame_lines demangle syms) @ lines, r))"

text \<open>The destructor: what it prints, and whether it ends the process with status -1.\<close>

definition heap_help_delete :: "(addr \<Rightarrow> (string \<times> string) option) \<Rightarrow> (string \<Rightarrow> string option) \<Rightarrow> heap_help \<Rightarrow> report_line list \<times> bool" where
  "heap_help_delete dladdr demangle h =
     (if m_report_mode h = REPORT_MODE_QUIET then ([], False)
      else if m_allocations h = [] then
        (if m_report_mode h = REPORT_MODE_VERBOSE then ([No_leaks, Total_count (m_alloc_count h)], False) else ([], False))
      else
        let (lines, report_count, leak_size) = leak_lines dladdr demangle (map (\<lambda>(p, a). alloc_at h a) (m_allocations h)) 0 0
        in (lines @ [Found (length (m_allocations h)) leak_size]
              @ (if report_count < length (m_allocations h) then [Only_first report_count] else [])
              @ [Total_count (m_alloc_count h)], True))"

section \<open>Calls\<close>

datatype hh_call = New "addr option" "addr list \<times> int" "64 word" | Delete addr

text \<open>A process that ran into a failed assertion is gone. Batches are assumed to be found.\<close>

fun hh_exec :: "hh_call \<Rightarrow> heap_help option \<Rightarrow> (bool \<times> heap_help option) option" where
  "hh_exec c None = Some (False, None)"
| "hh_exec (New res bt n) (Some h) =
     (case operator_new res True bt n h of Assertion_failed \<Rightarrow> Some (False, None) | Done h1 \<Rightarrow> Some (True, Some h1))"
| "hh_exec (Delete ptr) (Some h) =
     (case operator_delete ptr h of Assertion_failed \<Rightarrow> Some (False, None) | Done h1 \<Rightarrow> Some (True, Some h1))"

text \<open>
  What the tool promises: a table of the live blocks with their sizes, the number of allocations, and the largest number of blocks
  that were live at once, which is the number of records ever taken from batches.
\<close>

record hh_spec =
  live :: "addr \<rightharpoonup> 64 word"
  total :: "64 word"
  peak :: nat

fun spec_exec :: "hh_call \<Rightarrow> hh_spec option \<Rightarrow> bool \<times> hh_spec option" where
  "spec_exec c None = (False, None)"
| "spec_exec (New res bt n) (Some s) =
     (case res of
        None \<Rightarrow> (False, None)
      | Some ptr \<Rightarrow>
          if live s ptr \<noteq> None then (False, None)
          else let l = (live s)(ptr \<mapsto> n) in (True, Some \<lparr>live = l, total = total s + 1, peak = max (peak s) (card (dom l))\<rparr>))"
| "spec_exec (Delete ptr) (Some s) =
     (if live s ptr = None then (False, None) else (True, Some (s\<lparr>live := (live s)(ptr := None)\<rparr>)))"

text \<open>\<open>backtrace\<close> never returns a negative number.\<close>

fun hh_allowed :: "hh_call \<Rightarrow> bool" where
  "hh_allowed (New res bt n) = (0 \<le> snd bt)"
| "hh_allowed (Delete ptr) = True"

section \<open>The table of live blocks\<close>

section \<open>The ordered map\<close>

lemma emplace_None: "sorted_wrt (<) (map fst xs) \<Longrightarrow> emplace k v xs = None \<longleftrightarrow> k \<in> fst ` set xs"
  by (induction k v xs rule: emplace.induct) auto

lemma emplace_Some:
  "emplace k v xs = Some ys \<Longrightarrow> sorted_wrt (<) (map fst xs) \<Longrightarrow>
     sorted_wrt (<) (map fst ys) \<and> mset ys = add_mset (k, v) (mset xs) \<and> map_of ys = (map_of xs)(k \<mapsto> v)"
proof (induction k v xs arbitrary: ys rule: emplace.induct)
  case (2 k v l u xs)
  show ?case
  proof (cases "k < l")
    case True
    then have "\<forall>x\<in>set xs. k < fst x" using 2(3) by force
    then show ?thesis using 2 True by auto
  next
    case False
    then obtain zs where z: "emplace k v xs = Some zs" "ys = (l, u) # zs" "k \<noteq> l" using 2(2) by (auto split: if_splits)
    have IH: "sorted_wrt (<) (map fst zs) \<and> mset zs = add_mset (k, v) (mset xs) \<and> map_of zs = (map_of xs)(k \<mapsto> v)"
    proof -
      have "sorted_wrt (<) (map fst xs)" using 2(3) by simp
      from 2(1) [OF False z(3) z(1) this] show ?thesis .
    qed
    then have "set zs = insert (k, v) (set xs)" by (metis set_mset_mset set_mset_add_mset_insert)
    moreover have "map_of ((l, u) # zs) = (map_of ((l, u) # xs))(k \<mapsto> v)" using IH z(3) by (simp add: fun_upd_twist)
    ultimately show ?thesis using IH z 2(3) False by (simp only: z(2)) auto
  qed
qed auto

lemma sorted_distinct_keys: "sorted_wrt (<) (map fst (xs :: (addr \<times> 'v) list)) \<Longrightarrow> distinct (map fst xs)"
  by (simp add: strict_sorted_iff)

lemma erase_absent: "k \<notin> fst ` set xs \<Longrightarrow> erase k xs = xs"
  by (auto simp: erase_def filter_id_conv)

lemma erase_present:
  "map_of xs k = Some v \<Longrightarrow> distinct (map fst xs) \<Longrightarrow> add_mset (k, v) (mset (erase k xs)) = mset xs"
proof (induction xs)
  case (Cons e xs)
  show ?case
  proof (cases "fst e = k")
    case True
    then have "erase k xs = xs" using Cons.prems(2) by (intro erase_absent) auto
    then show ?thesis using Cons.prems True by (cases e) (auto simp: erase_def)
  qed (use Cons in \<open>cases e; auto simp: erase_def\<close>)
qed simp

lemma map_of_erase: "map_of (erase k xs) = (map_of xs)(k := None)"
  by (induction xs) (auto simp: erase_def fun_eq_iff)

lemma sorted_erase: "sorted_wrt (<) (map fst xs) \<Longrightarrow> sorted_wrt (<) (map fst (erase k xs))"
  by (simp add: erase_def sorted_wrt_map sorted_wrt_filter)

section \<open>The invariant\<close>

fun pool_chain :: "(aref \<Rightarrow> allocation) \<Rightarrow> aref option \<Rightarrow> aref list \<Rightarrow> bool" where
  "pool_chain f p [] \<longleftrightarrow> p = None"
| "pool_chain f p (a # as) \<longleftrightarrow> p = Some a \<and> pool_chain f (next_alloc (f a)) as"

text \<open>How many records were taken from batches.\<close>

definition carved :: "heap_help \<Rightarrow> nat" where
  "carved h = (if batches h = 0 then 0 else (batches h - 1) * ALLOCATION_BATCH_SIZE + batch_used h)"

definition in_batches :: "heap_help \<Rightarrow> aref \<Rightarrow> bool" where
  "in_batches h a \<longleftrightarrow> fst a < batches h \<and> (Suc (fst a) = batches h \<longrightarrow> snd a < batch_used h)"

text \<open>Every record taken from a batch is in the table or in the pool, and in one place only.\<close>

definition records_ok :: "heap_help \<Rightarrow> aref list \<Rightarrow> bool" where
  "records_ok h ps \<longleftrightarrow> pool_chain (alloc_at h) (m_alloc_pool h) ps \<and> distinct (map snd (m_allocations h) @ ps)
     \<and> (\<forall>a\<in>set (map snd (m_allocations h) @ ps). in_batches h a) \<and> length (m_allocations h) + length ps = carved h"

definition hh_ok :: "heap_help \<Rightarrow> bool" where
  "hh_ok h \<longleftrightarrow> (\<exists>ps. records_ok h ps) \<and> batch_used h \<le> ALLOCATION_BATCH_SIZE \<and> sorted_wrt (<) (map fst (m_allocations h))
     \<and> m_backtrace_mode h = BACKTRACE_ON"

definition hh_abs :: "heap_help \<Rightarrow> hh_spec" where
  "hh_abs h = \<lparr>live = (\<lambda>p. map_option (\<lambda>a. size_of (alloc_at h a)) (map_of (m_allocations h) p)), total = m_alloc_count h, peak = carved h\<rparr>"

lemma pool_chain_cong: "pool_chain f p as \<Longrightarrow> (\<And>a. a \<in> set as \<Longrightarrow> next_alloc (g a) = next_alloc (f a)) \<Longrightarrow> pool_chain g p as"
  by (induction as arbitrary: p) auto

lemma card_live: "sorted_wrt (<) (map fst (m_allocations h)) \<Longrightarrow> card (dom (live (hh_abs h))) = length (m_allocations h)"
proof -
  assume s: "sorted_wrt (<) (map fst (m_allocations h))"
  have "dom (live (hh_abs h)) = fst ` set (m_allocations h)" by (auto simp: hh_abs_def dom_def map_of_eq_None_iff split: option.splits)
  then show ?thesis using sorted_distinct_keys [OF s] by (metis distinct_card length_map set_map)
qed

text \<open>Taking a record: it is new to the table, and the records left are in order.\<close>

lemma take_record_ok:
  assumes r: "records_ok h ps" and u: "batch_used h \<le> ALLOCATION_BATCH_SIZE"
  obtains a h1 ps1 where "take_record True h = Done (a, h1)" and "a \<notin> set (map snd (m_allocations h)) \<union> set ps1"
    and "pool_chain (alloc_at h) (m_alloc_pool h1) ps1" and "distinct (map snd (m_allocations h) @ ps1)"
    and "\<forall>b\<in>insert a (set (map snd (m_allocations h) @ ps1)). in_batches h1 b"
    and "Suc (length (m_allocations h) + length ps1) = carved h1" and "carved h1 = max (carved h) (Suc (length (m_allocations h)))"
    and "batch_used h1 \<le> ALLOCATION_BATCH_SIZE" and "alloc_at h1 = alloc_at h" and "m_allocations h1 = m_allocations h"
    and "m_alloc_count h1 = m_alloc_count h" and "m_backtrace_mode h1 = m_backtrace_mode h"
proof (cases "m_alloc_pool h")
  case (Some a)
  then obtain ps1 where ps: "ps = a # ps1" using r by (cases ps) (auto simp: records_ok_def)
  show thesis
    by (rule that [of a "h\<lparr>m_alloc_pool := next_alloc (alloc_at h a)\<rparr>" ps1])
       (use r u ps Some in \<open>auto simp: records_ok_def take_record_def carved_def in_batches_def\<close>)
next
  case None
  then have ps: "ps = []" using r by (cases ps) (auto simp: records_ok_def)
  show thesis
  proof (cases "batches h = 0 \<or> batch_used h = ALLOCATION_BATCH_SIZE")
    case True
    let ?h1 = "h\<lparr>batches := batches h + 1, batch_used := 1\<rparr>"
    have t: "take_record True h = Done ((batches h, 0), ?h1)" using None True by (simp add: take_record_def heaph_assert_def)
    have "\<forall>a\<in>set (map snd (m_allocations h)). fst a < batches h" using r by (simp add: records_ok_def in_batches_def)
    then have "(batches h, 0) \<notin> set (map snd (m_allocations h))" by force
    moreover have "carved ?h1 = Suc (carved h)" using True by (auto simp: carved_def ALLOCATION_BATCH_SIZE_def algebra_simps)
    ultimately show thesis using r ps None
      by (intro that [OF t, of "[]"]) (auto simp: records_ok_def in_batches_def ALLOCATION_BATCH_SIZE_def)
  next
    case False
    let ?a = "(batches h - 1, batch_used h)"
    let ?h1 = "h\<lparr>batch_used := batch_used h + 1\<rparr>"
    have t: "take_record True h = Done (?a, ?h1)" using None False u by (simp add: take_record_def heaph_assert_def)
    have "?a \<notin> set (map snd (m_allocations h))" using r False by (force simp: records_ok_def in_batches_def)
    moreover have "carved ?h1 = Suc (carved h)" using False by (simp add: carved_def)
    ultimately show thesis using r ps None False u
      by (intro that [OF t, of "[]"]) (auto simp: records_ok_def in_batches_def)
  qed
qed

lemma new_simulates:
  assumes ok: "hh_ok h" and bt: "0 \<le> snd bt"
  shows "(case operator_new res True bt n h of
            Assertion_failed \<Rightarrow> spec_exec (New res bt n) (Some (hh_abs h)) = (False, None)
          | Done h1 \<Rightarrow> hh_ok h1 \<and> spec_exec (New res bt n) (Some (hh_abs h)) = (True, Some (hh_abs h1)))"
proof (cases res)
  case None
  then show ?thesis by (simp add: operator_new_def)
next
  case (Some ptr)
  obtain ps where r: "records_ok h ps" and u: "batch_used h \<le> ALLOCATION_BATCH_SIZE" and s: "sorted_wrt (<) (map fst (m_allocations h))"
    and on: "m_backtrace_mode h = BACKTRACE_ON" using ok by (auto simp: hh_ok_def)
  obtain a h1 ps1 where t: "take_record True h = Done (a, h1)" and n: "a \<notin> set (map snd (m_allocations h)) \<union> set ps1"
    and ch: "pool_chain (alloc_at h) (m_alloc_pool h1) ps1" and d: "distinct (map snd (m_allocations h) @ ps1)"
    and ib: "\<forall>b\<in>insert a (set (map snd (m_allocations h) @ ps1)). in_batches h1 b"
    and ln: "Suc (length (m_allocations h) + length ps1) = carved h1" and cm: "carved h1 = max (carved h) (Suc (length (m_allocations h)))"
    and u1: "batch_used h1 \<le> ALLOCATION_BATCH_SIZE" and same: "alloc_at h1 = alloc_at h" "m_allocations h1 = m_allocations h"
      "m_alloc_count h1 = m_alloc_count h" "m_backtrace_mode h1 = m_backtrace_mode h"
    using take_record_ok [OF r u] by metis
  show ?thesis
  proof (cases "emplace ptr a (m_allocations h)")
    case None
    then have "live (hh_abs h) ptr \<noteq> None" using s by (simp add: emplace_None hh_abs_def map_of_eq_None_iff)
    then show ?thesis using Some None t same by (simp add: operator_new_def heap_help_trace_def Let_def)
  next
    case (Some m)
    note em = emplace_Some [OF Some s]
    have nk: "ptr \<notin> fst ` set (m_allocations h)" using Some emplace_None [OF s, of ptr a] by auto
    define q where "q = (alloc_at h a)\<lparr>mem := ptr, size_of := n, trace := fst bt, trace_size := snd bt\<rparr>"
    define h2 where "h2 = h1\<lparr>alloc_at := (alloc_at h)(a := q), m_allocations := m, m_alloc_count := m_alloc_count h + 1\<rparr>"
    have ex: "operator_new res True bt n h = Done h2"
      using \<open>res = Some ptr\<close> t same Some on bt
      by (simp add: operator_new_def heap_help_trace_def Let_def heaph_assert_def h2_def q_def)
    have ms: "mset (map snd m) = add_mset a (mset (map snd (m_allocations h)))" using em by (simp add: mset_map)
    have "mset (map snd m @ ps1) = mset (a # map snd (m_allocations h) @ ps1)" using ms by simp
    then have d2: "distinct (map snd m @ ps1)" using d n by (metis mset_eq_imp_distinct_iff distinct.simps(2) Un_iff set_append)
    have st: "set (map snd m) = insert a (set (map snd (m_allocations h)))" using ms by (metis set_mset_mset set_mset_add_mset_insert)
    have len: "length m = Suc (length (m_allocations h))" using em by (metis size_mset size_add_mset)
    have c2: "carved h2 = carved h1" "\<And>b. in_batches h2 b = in_batches h1 b" by (simp_all add: carved_def in_batches_def h2_def)
    have "pool_chain (alloc_at h2) (m_alloc_pool h1) ps1"
      using ch by (rule pool_chain_cong) (use n in \<open>auto simp: h2_def q_def\<close>)
    then have "records_ok h2 ps1" using d2 ib ln len st c2 by (auto simp: records_ok_def h2_def)
    then have ok2: "hh_ok h2" using u1 em on same by (auto simp: hh_ok_def h2_def)
    have lv: "live (hh_abs h2) = (live (hh_abs h))(ptr \<mapsto> n)"
    proof
      fix p
      show "live (hh_abs h2) p = ((live (hh_abs h))(ptr \<mapsto> n)) p"
      proof (cases "map_of (m_allocations h) p")
        case None
        then show ?thesis using em by (auto simp: hh_abs_def h2_def q_def)
      next
        case (Some b)
        then have "b \<in> set (map snd (m_allocations h))" using map_of_SomeD by force
        then have "b \<noteq> a" using n by auto
        then show ?thesis using em Some by (auto simp: hh_abs_def h2_def q_def)
      qed
    qed
    have "sorted_wrt (<) (map fst (m_allocations h2))" using em by (simp add: h2_def)
    then have "card (dom (live (hh_abs h2))) = length (m_allocations h2)" by (rule card_live)
    then have "card (dom ((live (hh_abs h))(ptr \<mapsto> n))) = Suc (length (m_allocations h))" unfolding lv using len by (simp add: h2_def)
    then have pk: "peak (hh_abs h2) = max (peak (hh_abs h)) (card (dom ((live (hh_abs h))(ptr \<mapsto> n))))"
      using cm by (simp add: hh_abs_def c2(1) del: dom_fun_upd) 
    have "live (hh_abs h) ptr = None" using nk by (simp add: hh_abs_def map_of_eq_None_iff)
    moreover have "total (hh_abs h2) = total (hh_abs h) + 1" by (simp add: hh_abs_def h2_def)
    ultimately have "spec_exec (New res bt n) (Some (hh_abs h)) = (True, Some (hh_abs h2))"
      using \<open>res = Some ptr\<close> lv pk by (simp add: Let_def)
    then show ?thesis using ex ok2 by simp
  qed
qed

lemma delete_simulates:
  assumes ok: "hh_ok h"
  shows "(case operator_delete ptr h of
            Assertion_failed \<Rightarrow> spec_exec (Delete ptr) (Some (hh_abs h)) = (False, None)
          | Done h1 \<Rightarrow> hh_ok h1 \<and> spec_exec (Delete ptr) (Some (hh_abs h)) = (True, Some (hh_abs h1)))"
proof (cases "map_of (m_allocations h) ptr")
  case None
  then show ?thesis by (simp add: operator_delete_def heap_help_untrace_def hh_abs_def)
next
  case (Some a)
  obtain ps where r: "records_ok h ps" and s: "sorted_wrt (<) (map fst (m_allocations h))" using ok by (auto simp: hh_ok_def)
  define h1 where "h1 = h\<lparr>alloc_at := (alloc_at h)(a := (alloc_at h a)\<lparr>next_alloc := m_alloc_pool h\<rparr>),
     m_alloc_pool := Some a, m_allocations := erase ptr (m_allocations h)\<rparr>"
  have ex: "operator_delete ptr h = Done h1" using Some by (simp add: operator_delete_def heap_help_untrace_def h1_def)
  have m: "add_mset (ptr, a) (mset (erase ptr (m_allocations h))) = mset (m_allocations h)"
    by (rule erase_present [OF Some sorted_distinct_keys [OF s]])
  then have ms: "mset (map snd (erase ptr (m_allocations h)) @ a # ps) = mset (map snd (m_allocations h) @ ps)"
  proof -
    have "mset (map snd (m_allocations h)) = add_mset a (mset (map snd (erase ptr (m_allocations h))))"
      unfolding mset_map m [symmetric] by simp
    then show ?thesis by simp
  qed
  then have d: "distinct (map snd (erase ptr (m_allocations h)) @ a # ps)" using r by (metis mset_eq_imp_distinct_iff records_ok_def)
  have st: "set (map snd (erase ptr (m_allocations h)) @ a # ps) = set (map snd (m_allocations h) @ ps)" using ms by (rule mset_eq_setD)
  have len: "Suc (length (erase ptr (m_allocations h))) = length (m_allocations h)" using m by (metis size_mset size_add_mset)
  have na: "a \<notin> set ps" using d by simp
  have "pool_chain (alloc_at h) (m_alloc_pool h) ps" using r by (simp add: records_ok_def)
  then have "pool_chain (alloc_at h1) (m_alloc_pool h) ps" by (rule pool_chain_cong) (use na in \<open>auto simp: h1_def\<close>)
  then have "pool_chain (alloc_at h1) (m_alloc_pool h1) (a # ps)" by (simp add: h1_def)
  moreover have "\<forall>b\<in>set (map snd (m_allocations h1) @ a # ps). in_batches h1 b"
    using r st by (simp add: records_ok_def h1_def in_batches_def)
  moreover have "length (m_allocations h1) + length (a # ps) = carved h1"
  proof -
    have "length (m_allocations h) + length ps = carved h" using r by (simp add: records_ok_def)
    moreover have "carved h1 = carved h" by (simp add: carved_def h1_def)
    ultimately show ?thesis using len by (simp add: h1_def)
  qed
  moreover have "distinct (map snd (m_allocations h1) @ a # ps)" using d by (simp add: h1_def)
  ultimately have "records_ok h1 (a # ps)" unfolding records_ok_def by blast
  then have ok1: "hh_ok h1" using ok sorted_erase [OF s] by (auto simp: hh_ok_def h1_def)
  have "hh_abs h1 = (hh_abs h)\<lparr>live := (live (hh_abs h))(ptr := None)\<rparr>"
  proof -
    have sz: "size_of (alloc_at h1 b) = size_of (alloc_at h b)" for b by (simp add: h1_def)
    have mo: "map_of (m_allocations h1) p = (if p = ptr then None else map_of (m_allocations h) p)" for p by (simp add: h1_def map_of_erase)
    have "live (hh_abs h1) p = ((live (hh_abs h))(ptr := None)) p" for p by (simp add: hh_abs_def mo sz)
    moreover have "total (hh_abs h1) = total (hh_abs h)" "peak (hh_abs h1) = peak (hh_abs h)" by (simp_all add: hh_abs_def h1_def carved_def)
    ultimately show ?thesis by (simp add: fun_eq_iff)
  qed
  then show ?thesis using ex ok1 Some by (simp add: hh_abs_def)
qed

definition hh_process_ok :: "heap_help option \<Rightarrow> bool" where
  "hh_process_ok p \<longleftrightarrow> (case p of None \<Rightarrow> True | Some h \<Rightarrow> hh_ok h)"

interpretation hh: machine_refinement hh_exec spec_exec hh_process_ok "map_option hh_abs" hh_allowed
proof
  show "\<exists>r s'. hh_exec c s = Some (r, s') \<and> hh_process_ok s' \<and> spec_exec c (map_option hh_abs s) = (r, map_option hh_abs s')"
    if ok: "hh_process_ok s" and al: "hh_allowed c" for s c
  proof (cases s)
    case None
    then show ?thesis using ok by (intro exI [of _ False] exI [of _ None]) simp
  next
    case (Some h)
    then have h: "hh_ok h" using ok by (simp add: hh_process_ok_def)
    show ?thesis
    proof (cases c)
      case (New res bt n)
      then show ?thesis using new_simulates [OF h, of bt res n] al Some
        by (cases "operator_new res True bt n h") (auto simp: hh_process_ok_def)
    next
      case (Delete ptr)
      then show ?thesis using delete_simulates [OF h, of ptr] Some
        by (cases "operator_delete ptr h") (auto simp: hh_process_ok_def)
    qed
  qed
qed

section \<open>Runs\<close>

definition hh_start :: "string option \<Rightarrow> string option \<Rightarrow> string option \<Rightarrow> (aref \<Rightarrow> allocation) \<Rightarrow> heap_help option" where
  "hh_start rep con bt garbage = Some (heap_help_new rep con bt garbage)"

definition hh_spec_start :: "hh_spec option" where
  "hh_spec_start = Some \<lparr>live = Map.empty, total = 0, peak = 0\<rparr>"

lemma hh_start_ok: "bt \<noteq> Some ''off'' \<Longrightarrow> hh_process_ok (hh_start rep con bt garbage)"
  by (auto simp: hh_process_ok_def hh_start_def hh_ok_def records_ok_def heap_help_new_def carved_def intro!: exI [of _ "[]"])

lemma hh_start_abs: "map_option hh_abs (hh_start rep con bt garbage) = hh_spec_start"
  by (simp add: hh_start_def hh_spec_start_def hh_abs_def heap_help_new_def carved_def)

text \<open>
  C14. The checker keeps the table of live blocks: any sequence of allocations and deletions succeeds and fails as the
  table says (a deletion of an address that is not live, or an allocation at one that is, ends the process),
  and afterwards holds the same blocks and sizes, the same count modulo \<open>2 ^ 64\<close>, and as many records as blocks were ever live at once.
\<close>

theorem hh_refines_table:
  assumes "bt \<noteq> Some ''off''" and "list_all hh_allowed cs"
  shows "\<exists>rs p. run_calls hh_exec cs (hh_start rep con bt garbage) = Some (rs, p)
    \<and> run_spec spec_exec cs hh_spec_start = (rs, map_option hh_abs p)"
  using hh.run_refines [OF hh_start_ok [OF assms(1)] assms(2), of rep con garbage] by (auto simp: hh_start_abs)

definition zero_record :: allocation where
  "zero_record = \<lparr>trace = [], trace_size = 0, mem = 0, size_of = 0, next_alloc = None\<rparr>"

theorem hh_refines_table_witness:
  "\<exists>p. run_calls hh_exec [New (Some 16) ([], 0) 8, New (Some 32) ([], 0) 24, Delete 16, Delete 16] (hh_start None None None (\<lambda>_. zero_record))
     = Some ([True, True, True, False], p) \<and> p = None"
proof -
  let ?cs = "[New (Some 16) ([], 0) 8, New (Some 32) ([], 0) 24, Delete 16, Delete 16]"
  have sp: "run_spec spec_exec ?cs hh_spec_start = ([True, True, True, False], None)"
    by (simp add: hh_spec_start_def Let_def)
  show ?thesis using hh_refines_table [of None ?cs None None "\<lambda>_. zero_record"] sp by auto
qed

section \<open>What is reported\<close>

definition leaks :: "report_line list \<Rightarrow> (nat \<times> 64 word) list" where
  "leaks lines = concat (map (\<lambda>l. case l of Leak_line i n \<Rightarrow> [(i, n)] | _ \<Rightarrow> []) lines)"

lemma leaks_simps [simp]:
  "leaks [] = []" "leaks (l # ls) = (case l of Leak_line i n \<Rightarrow> [(i, n)] | _ \<Rightarrow> []) @ leaks ls" "leaks (ls @ ms) = leaks ls @ leaks ms"
  by (simp_all add: leaks_def)

lemma leaks_frames [simp]: "leaks (frame_lines dm syms) = []"
proof -
  have "\<forall>l\<in>set (frame_lines dm syms). \<exists>i n. l = Frame i n"
    by (auto simp: frame_lines_def split: option.splits)
  then show ?thesis by (auto simp: leaks_def)
qed

lemma leak_lines_spec:
  "leak_lines dl dm as n sz = (lines, n', sz') \<Longrightarrow> n \<le> report_limit \<Longrightarrow>
     n' = min report_limit (n + length as) \<and> sz' = sz + sum_list (map size_of as)
     \<and> leaks lines = enumerate (Suc n) (map size_of (take (report_limit - n) as))"
proof (induction dl dm as n sz arbitrary: lines rule: leak_lines.induct)
  case (2 dl dm a as n sz)
  show ?case
  proof (cases "report_limit \<le> n")
    case True
    then have "leak_lines dl dm as n (sz + size_of a) = (lines, n', sz')" using 2(3) by simp
    then show ?thesis using 2(1) [OF refl True] 2(4) True by (simp add: add.assoc)
  next
    case False
    obtain rc syms where rc: "trace_resolve dl (take (nat (trace_size a)) (trace a)) = (rc, syms)" by force
    obtain ls where l: "leak_lines dl dm as (n + 1) (sz + size_of a) = (ls, n', sz')"
      and lines: "lines = Leak_line (n + 1) (size_of a) # (if rc \<noteq> 0 then [No_trace] else frame_lines dm syms) @ ls"
      using 2(3) False rc by (auto simp: Let_def split: prod.splits)
    have s: "report_limit - n = Suc (report_limit - (n + 1))" using False by simp
    show ?thesis using 2(2) [OF refl False rc [symmetric] refl refl, of ls] l lines False
      by (simp add: s add.assoc)
  qed
qed simp

lemma table_sorted:
  assumes "sorted_wrt (<) (map fst (m_allocations h))"
  shows "sorted_list_of_set (dom (live (hh_abs h))) = map fst (m_allocations h)"
    and "map (\<lambda>(p, a). size_of (alloc_at h a)) (m_allocations h) = map (\<lambda>p. the (live (hh_abs h) p)) (map fst (m_allocations h))"
proof -
  have d: "dom (live (hh_abs h)) = set (map fst (m_allocations h))"
    by (auto simp: hh_abs_def dom_def map_of_eq_None_iff split: option.splits)
  show "sorted_list_of_set (dom (live (hh_abs h))) = map fst (m_allocations h)"
    unfolding d using assms by (simp only: sorted_list_of_set.idem_if_sorted_distinct strict_sorted_iff)
  have "live (hh_abs h) p = Some (size_of (alloc_at h a))" if "(p, a) \<in> set (m_allocations h)" for p a
    using that sorted_distinct_keys [OF assms] by (simp add: hh_abs_def map_of_is_SomeI)
  then show "map (\<lambda>(p, a). size_of (alloc_at h a)) (m_allocations h) = map (\<lambda>p. the (live (hh_abs h) p)) (map fst (m_allocations h))"
    by auto
qed

lemma report_mode_step: "hh_exec c (Some h1) = Some (r, Some h2) \<Longrightarrow> m_report_mode h2 = m_report_mode h1"
proof (cases c)
  case (New res b n)
  then show "hh_exec c (Some h1) = Some (r, Some h2) \<Longrightarrow> ?thesis"
    by (auto simp: operator_new_def heap_help_trace_def take_record_def heaph_assert_def Let_def split: option.splits hh_result.splits if_splits)
next
  case (Delete q)
  then show "hh_exec c (Some h1) = Some (r, Some h2) \<Longrightarrow> ?thesis"
    by (auto simp: operator_delete_def heap_help_untrace_def split: option.splits hh_result.splits)
qed

lemma run_calls_gone: "run_calls hh_exec cs None = Some (rs, p) \<Longrightarrow> p = None"
  by (induction cs arbitrary: rs) auto

lemma report_mode_kept: "run_calls hh_exec cs (Some h0) = Some (rs, Some h) \<Longrightarrow> m_report_mode h = m_report_mode h0"
proof (induction cs arbitrary: h0 rs)
  case (Cons c cs)
  obtain r p where e: "hh_exec c (Some h0) = Some (r, p)" using Cons.prems by (auto split: option.splits)
  then obtain rs' where r: "run_calls hh_exec cs p = Some (rs', Some h)" using Cons.prems by auto
  then obtain h1 where "p = Some h1" using run_calls_gone by (cases p) auto
  then show ?case using Cons.IH r report_mode_step e by auto
qed simp

text \<open>What the destructor prints when blocks are live, in terms of the table.\<close>

lemma report_lines:
  assumes s: "sorted_wrt (<) (map fst (m_allocations h))" and n: "m_allocations h \<noteq> []" and q: "m_report_mode h \<noteq> REPORT_MODE_QUIET"
    and d: "heap_help_delete dladdr demangle h = (lines, failed)"
  defines "tbl \<equiv> live (hh_abs h)"
  shows "failed" "Found (card (dom tbl)) (\<Sum>p\<in>dom tbl. the (tbl p)) \<in> set lines"
    "leaks lines = enumerate 1 (map (\<lambda>p. the (tbl p)) (take 10 (sorted_list_of_set (dom tbl))))"
proof -
  note ts = table_sorted [OF s, folded tbl_def]
  let ?as = "map (\<lambda>(p, a). alloc_at h a) (m_allocations h)" and ?ns = "map (\<lambda>p. the (tbl p)) (map fst (m_allocations h))"
  obtain ls k sz where l: "leak_lines dladdr demangle ?as 0 0 = (ls, k, sz)" by (cases "leak_lines dladdr demangle ?as 0 0") auto
  have ss: "map size_of ?as = ?ns" using ts(2) by (simp add: split_def o_def)
  have "sz = 0 + sum_list (map size_of ?as)" "leaks ls = enumerate (Suc 0) (map size_of (take (report_limit - 0) ?as))"
    using leak_lines_spec [OF l] by auto
  then have sz: "sz = sum_list ?ns" and ls: "leaks ls = enumerate 1 (take 10 ?ns)"
    unfolding take_map [symmetric] ss by (simp_all add: report_limit_def)
  have k: "distinct (map fst (m_allocations h))" "dom tbl = set (map fst (m_allocations h))"
    using sorted_distinct_keys [OF s] by (auto simp: tbl_def hh_abs_def dom_def map_of_eq_None_iff split: option.splits)
  have "sz = (\<Sum>p\<in>dom tbl. the (tbl p))" unfolding k(2) sum.distinct_set_conv_list [OF k(1)] by (rule sz)
  moreover have "failed" "Found (length (m_allocations h)) sz \<in> set lines" "leaks lines = leaks ls"
    using d n q l by (auto simp: heap_help_delete_def)
  moreover have "card (dom tbl) = length (m_allocations h)" unfolding tbl_def by (rule card_live [OF s])
  ultimately show "failed" "Found (card (dom tbl)) (\<Sum>p\<in>dom tbl. the (tbl p)) \<in> set lines"
    "leaks lines = enumerate 1 (map (\<lambda>p. the (tbl p)) (take 10 (sorted_list_of_set (dom tbl))))"
    using ls ts(1) by (simp_all add: take_map)
qed

text \<open>
  C35. The report is about the live blocks: unless it is turned off, the process ends with an error exactly if there are
  some; then their number and the sum of their sizes are printed, and the first ten, in the order of
  their addresses, with their sizes.
\<close>

theorem hh_report_complete:
  assumes "bt \<noteq> Some ''off''" and "rep \<noteq> Some ''q''" and "list_all hh_allowed cs"
    and "run_calls hh_exec cs (hh_start rep con bt garbage) = Some (rs, Some h)"
    and "heap_help_delete dladdr demangle h = (lines, failed)"
  shows "\<exists>t. run_spec spec_exec cs hh_spec_start = (rs, Some t)
    \<and> (failed \<longleftrightarrow> live t \<noteq> Map.empty)
    \<and> (failed \<longrightarrow> Found (card (dom (live t))) (\<Sum>p\<in>dom (live t). the (live t p)) \<in> set lines
        \<and> leaks lines = enumerate 1 (map (\<lambda>p. the (live t p)) (take 10 (sorted_list_of_set (dom (live t))))))"
proof -
  have sp: "run_spec spec_exec cs hh_spec_start = (rs, Some (hh_abs h))" and ok: "hh_ok h"
    using hh.run_refines [OF hh_start_ok [OF assms(1)] assms(3), of rep con garbage] assms(4) by (auto simp: hh_start_abs hh_process_ok_def)
  have mode: "m_report_mode h \<noteq> REPORT_MODE_QUIET"
    using report_mode_kept [of cs "heap_help_new rep con bt garbage" rs h] assms(2,4) by (simp add: heap_help_new_def hh_start_def)
  have s: "sorted_wrt (<) (map fst (m_allocations h))" using ok by (simp add: hh_ok_def)
  have em: "live (hh_abs h) = Map.empty \<longleftrightarrow> m_allocations h = []"
    using table_sorted(1) [OF s] by (cases "m_allocations h") (auto simp: hh_abs_def fun_eq_iff)
  show ?thesis
  proof (cases "m_allocations h = []")
    case True
    then show ?thesis using sp em assms(5) mode by (auto simp: heap_help_delete_def split: if_splits)
  next
    case False
    then show ?thesis using report_lines [OF s False mode assms(5)] sp em by blast
  qed
qed

theorem hh_report_complete_witness:
  "\<exists>rs h lines. run_calls hh_exec [New (Some 32) ([], 0) 24, New (Some 16) ([], 0) 8] (hh_start None None None (\<lambda>_. zero_record)) = Some (rs, Some h)
     \<and> heap_help_delete (\<lambda>_. None) Some h = (lines, True) \<and> leaks lines = [(1, 8), (2, 24)]"
proof -
  let ?cs = "[New (Some 32) ([], 0) 24, New (Some 16) ([], 0) 8]"
  have al: "list_all hh_allowed ?cs" by simp
  let ?t = "\<lparr>live = [32 \<mapsto> 24, 16 \<mapsto> 8], total = 2, peak = 2\<rparr> :: hh_spec"
  have sp: "run_spec spec_exec ?cs hh_spec_start = ([True, True], Some ?t)"
    by (simp add: hh_spec_start_def Let_def)
  obtain rs p where rp: "run_calls hh_exec ?cs (hh_start None None None (\<lambda>_. zero_record)) = Some (rs, p)"
      "run_spec spec_exec ?cs hh_spec_start = (rs, map_option hh_abs p)"
    using hh_refines_table [OF _ al, of None None None "\<lambda>_. zero_record"] by blast
  then have r: "run_calls hh_exec ?cs (hh_start None None None (\<lambda>_. zero_record)) = Some ([True, True], p)" "map_option hh_abs p = Some ?t"
    unfolding sp by simp_all
  then obtain h where h: "p = Some h" by auto
  obtain lines failed where d: "heap_help_delete (\<lambda>_. None) Some h = (lines, failed)" by force
  have dm: "dom (live ?t) = {16, 32}" by auto
  show ?thesis using hh_report_complete [OF _ _ al r(1) [unfolded h] d] sp r(1) h d by (auto simp: dm)
qed

text \<open>
  With the collection of traces turned off nothing sets \<open>trace_size\<close> of a new record: what
  \<open>malloc\<close> left there decides if the assertion after it fails.
\<close>

lemma hh_backtrace_off_garbage:
  "trace_size (garbage (0, 0)) < 0 \<Longrightarrow>
     operator_new (Some ptr) True t n (heap_help_new rep con (Some ''off'') garbage) = Assertion_failed"
  by (simp add: operator_new_def heap_help_trace_def take_record_def heaph_assert_def heap_help_new_def Let_def)

end
