(* ===== verification/IO_Core.thy ===== *)
theory IO_Core
  imports Machines
begin

unbundle bit_operations_syntax

text \<open>
  The event loop of \<open>examples/cpp20_coroutines\<close>: \<open>iocoro.h\<close> and \<open>iocoro.cpp\<close> as a transition system. The
  coroutines that use it are not looked at: code on the thread of the loop (a coroutine, or the
  code that runs before the loop does) may make any call, and other threads may subscribe,
  unsubscribe and stop. The operating system is a table of open descriptors with their readiness
  and the events that epoll has not reported yet; what a system call returned is part of a label.
\<close>

section \<open>Data\<close>

definition IO_EVENT_READ :: "32 word" where
  "IO_EVENT_READ = 1"

definition IO_EVENT_WRITE :: "32 word" where
  "IO_EVENT_WRITE = 2"

definition theEpollBatchSize :: nat where
  "theEpollBatchSize = 128"

text \<open>From \<open>sys/epoll.h\<close>.\<close>

definition EPOLLIN :: "32 word" where
  "EPOLLIN = 1"

definition EPOLLOUT :: "32 word" where
  "EPOLLOUT = 4"

definition EPOLLHUP :: "32 word" where
  "EPOLLHUP = 16"

datatype IOTaskState = IO_TASK_STATE_NEW | IO_TASK_STATE_WORKING | IO_TASK_STATE_DELETING

datatype op_kind = AsyncRecv | AsyncSend | AsyncAccept | AsyncConnect

text \<open>
  A suspended operation: its class and \<open>myCoro\<close>. \<open>myTask\<close> is the task it is stored in, and \<open>myRes\<close> is
  \<open>-1\<close> as long as it is suspended. Buffers and addresses are left out.
\<close>

datatype AsyncOperation = AsyncOperation op_kind nat

record IOTask =
  myState :: IOTaskState
  myFd :: int
  myIdx :: int
  myEventsReady :: "32 word"
  myAsyncOp :: "AsyncOperation option"

record IOCore =
  myEventFd :: int
  myEventSub :: addr
  myIsStopped :: bool
  myTasks :: "addr list"
  myQueue :: "addr list"
  mySize :: nat

text \<open>An open descriptor: its readiness, the pointer it was registered in epoll with, and its unreported events.\<close>

record io_sock =
  can_read :: bool
  can_write :: bool
  registered :: "addr option"
  pending :: "32 word"

text \<open>
  Where the thread of the loop is: outside of \<open>roll\<close> and the destructor, in \<open>epoll_wait\<close>, handling the
  rest of a batch of events, handling the rest of the queue with \<open>myMutex\<close> locked, or in the
  cancellation of the operation of a task that is being deleted, with \<open>myMutex\<close> locked as well.
\<close>

datatype caller = From_roll | From_destructor

datatype loop_pc =
    L_idle
  | L_wait
  | L_events "(addr \<times> 32 word) list"
  | L_queue caller "addr list"
  | L_cancel caller addr "addr list"
  | L_destroyed

text \<open>
  The core, the tasks on the heap, the descriptors, and the coroutines that run on the thread of
  the loop: the first one of \<open>stack\<close> was started or resumed last. \<open>co_res\<close> is what the last \<open>co_await\<close>
  returned. The last two fields are \<open>IOCoroutinePromise::theCount\<close> and \<open>IOTask::theCount\<close>.
\<close>

record io_world = IOCore +
  io_tasks :: "addr \<Rightarrow> IOTask option"
  socks :: "int \<Rightarrow> io_sock option"
  lpc :: loop_pc
  stack :: "nat list"
  co_res :: int
  promiseCount :: int
  taskCount :: int

datatype io_fail = Assert_failed | Bad_pointer | Out_of_range | Deadlock

section \<open>Access\<close>

definition with_iotask :: "addr \<Rightarrow> io_world \<Rightarrow> (IOTask \<Rightarrow> io_fail + 'a) \<Rightarrow> io_fail + 'a" where
  "with_iotask s w f = (case io_tasks w s of None \<Rightarrow> Inl Bad_pointer | Some t \<Rightarrow> f t)"

definition set_iotask :: "addr \<Rightarrow> IOTask \<Rightarrow> io_world \<Rightarrow> io_world" where
  "set_iotask s t w = w\<lparr>io_tasks := (io_tasks w)(s \<mapsto> t)\<rparr>"

definition upd_sock :: "int \<Rightarrow> (io_sock \<Rightarrow> io_sock) \<Rightarrow> io_world \<Rightarrow> io_world" where
  "upd_sock fd f w = w\<lparr>socks := (socks w)(fd := map_option f (socks w fd))\<rparr>"

definition io_bind :: "io_fail + 'a \<Rightarrow> ('a \<Rightarrow> io_fail + 'b) \<Rightarrow> io_fail + 'b" where
  "io_bind x f = (case x of Inl e \<Rightarrow> Inl e | Inr a \<Rightarrow> f a)"

text \<open>A loop that asserts something of every task of a vector.\<close>

fun assert_all :: "(addr \<Rightarrow> IOTask \<Rightarrow> bool) \<Rightarrow> addr list \<Rightarrow> io_world \<Rightarrow> io_fail + unit" where
  "assert_all P [] w = Inr ()"
| "assert_all P (s # ss) w = with_iotask s w (\<lambda>t. if P s t then assert_all P ss w else Inl Assert_failed)"

section \<open>The operating system\<close>

definition epoll_mask :: "bool \<Rightarrow> bool \<Rightarrow> 32 word" where
  "epoll_mask rd wr = (if rd then EPOLLIN else 0) OR (if wr then EPOLLOUT else 0)"

text \<open>A descriptor becomes readable or writable: an edge, that epoll reports if the descriptor is registered.\<close>

definition signal :: "bool \<Rightarrow> bool \<Rightarrow> io_sock \<Rightarrow> io_sock" where
  "signal rd wr k = k\<lparr>can_read := can_read k \<or> rd, can_write := can_write k \<or> wr,
     pending := if registered k = None then pending k else pending k OR epoll_mask rd wr\<rparr>"

definition hang_up :: "io_sock \<Rightarrow> io_sock" where
  "hang_up k = k\<lparr>pending := if registered k = None then pending k else pending k OR EPOLLHUP\<rparr>"

definition new_sock :: io_sock where
  "new_sock = \<lparr>can_read = False, can_write = False, registered = None, pending = 0\<rparr>"

text \<open>Edge-triggered registration reports what is ready at once.\<close>

definition epoll_add :: "int \<Rightarrow> addr \<Rightarrow> io_world \<Rightarrow> io_fail + io_world" where
  "epoll_add fd s w =
     (case socks w fd of
        None \<Rightarrow> Inl Assert_failed
      | Some k \<Rightarrow>
          if registered k \<noteq> None then Inl Assert_failed
          else Inr (upd_sock fd (\<lambda>k. k\<lparr>registered := Some s, pending := epoll_mask (can_read k) (can_write k)\<rparr>) w))"

definition epoll_del :: "int \<Rightarrow> io_world \<Rightarrow> io_fail + io_world" where
  "epoll_del fd w =
     (case socks w fd of
        None \<Rightarrow> Inl Assert_failed
      | Some k \<Rightarrow>
          if registered k = None then Inl Assert_failed
          else Inr (upd_sock fd (\<lambda>k. k\<lparr>registered := None, pending := 0\<rparr>) w))"

definition close_fd :: "int \<Rightarrow> io_world \<Rightarrow> io_fail + io_world" where
  "close_fd fd w = (if socks w fd = None then Inl Assert_failed else Inr (w\<lparr>socks := (socks w)(fd := None)\<rparr>))"

text \<open>
  The outcome of a system call on a non-blocking descriptor: it returned a number and the
  descriptor is still ready or not, it would block (for \<open>connect\<close>: it is in progress), or another error.
\<close>

datatype sys_res = Done nat bool | Would_block | Sys_error

section \<open>Operations\<close>

text \<open>
  The body that \<open>execute\<close> has in three classes: \<open>ev\<close> is the event it needs, \<open>sys\<close> the effect of the
  system call. The result is \<open>myRes\<close>.
\<close>

definition try_io :: "32 word \<Rightarrow> (int \<Rightarrow> nat \<Rightarrow> bool \<Rightarrow> io_world \<Rightarrow> io_world) \<Rightarrow> addr \<Rightarrow> sys_res \<Rightarrow> io_world \<Rightarrow> io_fail + int \<times> io_world" where
  "try_io ev sys s r w = with_iotask s w (\<lambda>t.
     if myEventsReady t AND ev = 0 then Inr (-1, w)
     else (case r of
         Done n left \<Rightarrow> Inr (int n, sys (myFd t) n left w)
       | Would_block \<Rightarrow> Inr (-1, set_iotask s (t\<lparr>myEventsReady := myEventsReady t AND NOT ev\<rparr>) w)
       | Sys_error \<Rightarrow> Inl Assert_failed))"

definition sys_recv :: "int \<Rightarrow> nat \<Rightarrow> bool \<Rightarrow> io_world \<Rightarrow> io_world" where
  "sys_recv fd n left w = upd_sock fd (\<lambda>k. k\<lparr>can_read := left\<rparr>) w"

definition sys_send :: "int \<Rightarrow> nat \<Rightarrow> bool \<Rightarrow> io_world \<Rightarrow> io_world" where
  "sys_send fd n left w = upd_sock fd (\<lambda>k. k\<lparr>can_write := left\<rparr>) w"

text \<open>\<open>accept\<close> opens the descriptor it returns.\<close>

definition sys_accept :: "int \<Rightarrow> nat \<Rightarrow> bool \<Rightarrow> io_world \<Rightarrow> io_world" where
  "sys_accept fd n left w =
     (let w1 = upd_sock fd (\<lambda>k. k\<lparr>can_read := left\<rparr>) w in w1\<lparr>socks := (socks w1)(int n \<mapsto> new_sock)\<rparr>)"

definition AsyncRecv_execute :: "addr \<Rightarrow> sys_res \<Rightarrow> io_world \<Rightarrow> io_fail + int \<times> io_world" where
  "AsyncRecv_execute = try_io IO_EVENT_READ sys_recv"

definition AsyncSend_execute :: "addr \<Rightarrow> sys_res \<Rightarrow> io_world \<Rightarrow> io_fail + int \<times> io_world" where
  "AsyncSend_execute = try_io IO_EVENT_WRITE sys_send"

definition AsyncAccept_execute :: "addr \<Rightarrow> sys_res \<Rightarrow> io_world \<Rightarrow> io_fail + int \<times> io_world" where
  "AsyncAccept_execute = try_io IO_EVENT_READ sys_accept"

text \<open>The constructor of \<open>AsyncConnect\<close> calls \<open>connect\<close>; the result is \<open>myRes\<close>, which is not negative exactly if \<open>myIsDone\<close>.\<close>

definition AsyncConnect_new :: "addr \<Rightarrow> sys_res \<Rightarrow> io_world \<Rightarrow> io_fail + int \<times> io_world" where
  "AsyncConnect_new s r w = with_iotask s w (\<lambda>t.
     case r of
       Done n left \<Rightarrow> Inr (0, w)
     | Would_block \<Rightarrow> Inr (-1, set_iotask s (t\<lparr>myEventsReady := myEventsReady t AND NOT IO_EVENT_WRITE\<rparr>) w)
     | Sys_error \<Rightarrow> Inl Assert_failed)"

fun async_new :: "op_kind \<Rightarrow> addr \<Rightarrow> sys_res \<Rightarrow> io_world \<Rightarrow> io_fail + int \<times> io_world" where
  "async_new AsyncRecv s r w = AsyncRecv_execute s r w"
| "async_new AsyncSend s r w = AsyncSend_execute s r w"
| "async_new AsyncAccept s r w = AsyncAccept_execute s r w"
| "async_new AsyncConnect s r w = AsyncConnect_new s r w"

text \<open>\<open>await_suspend\<close>: the coroutine that runs is stopped.\<close>

definition await_suspend :: "op_kind \<Rightarrow> addr \<Rightarrow> io_world \<Rightarrow> io_fail + io_world" where
  "await_suspend kind s w = with_iotask s w (\<lambda>t.
     if myAsyncOp t \<noteq> None then Inl Assert_failed
     else Inr ((set_iotask s (t\<lparr>myAsyncOp := Some (AsyncOperation kind (hd (stack w)))\<rparr>) w)\<lparr>stack := tl (stack w)\<rparr>))"

text \<open>\<open>co_await\<close>: construction, \<open>await_ready\<close>, and \<open>await_suspend\<close> or \<open>await_resume\<close>.\<close>

definition co_await :: "op_kind \<Rightarrow> addr \<Rightarrow> sys_res \<Rightarrow> io_world \<Rightarrow> io_fail + io_world" where
  "co_await kind s r w = io_bind (async_new kind s r w) (\<lambda>(res, w1).
     if 0 \<le> res then Inr (w1\<lparr>co_res := res\<rparr>) else await_suspend kind s w1)"

text \<open>\<open>myCoro.resume()\<close>: the coroutine runs, its \<open>co_await\<close> returns \<open>myRes\<close>.\<close>

definition resume :: "nat \<Rightarrow> int \<Rightarrow> io_world \<Rightarrow> io_world" where
  "resume c res w = w\<lparr>stack := c # stack w, co_res := res\<rparr>"

text \<open>The body that \<open>onIOEvent\<close> has in three classes; the result says if the operation ended.\<close>

definition io_event :: "32 word \<Rightarrow> (addr \<Rightarrow> sys_res \<Rightarrow> io_world \<Rightarrow> io_fail + int \<times> io_world) \<Rightarrow> nat \<Rightarrow> addr \<Rightarrow> sys_res \<Rightarrow> io_world
    \<Rightarrow> io_fail + bool \<times> io_world" where
  "io_event ev execute c s r w = with_iotask s w (\<lambda>t.
     if myEventsReady t AND ev = 0 then
       if myState t = IO_TASK_STATE_DELETING then Inr (True, resume c (-1) w) else Inr (False, w)
     else io_bind (execute s r w) (\<lambda>(res, w1). if res < 0 then Inr (False, w1) else Inr (True, resume c res w1)))"

definition AsyncRecv_onIOEvent :: "nat \<Rightarrow> addr \<Rightarrow> sys_res \<Rightarrow> io_world \<Rightarrow> io_fail + bool \<times> io_world" where
  "AsyncRecv_onIOEvent = io_event IO_EVENT_READ AsyncRecv_execute"

definition AsyncSend_onIOEvent :: "nat \<Rightarrow> addr \<Rightarrow> sys_res \<Rightarrow> io_world \<Rightarrow> io_fail + bool \<times> io_world" where
  "AsyncSend_onIOEvent = io_event IO_EVENT_WRITE AsyncSend_execute"

definition AsyncAccept_onIOEvent :: "nat \<Rightarrow> addr \<Rightarrow> sys_res \<Rightarrow> io_world \<Rightarrow> io_fail + bool \<times> io_world" where
  "AsyncAccept_onIOEvent = io_event IO_EVENT_READ AsyncAccept_execute"

definition AsyncConnect_onIOEvent :: "nat \<Rightarrow> addr \<Rightarrow> io_world \<Rightarrow> io_fail + bool \<times> io_world" where
  "AsyncConnect_onIOEvent c s w = with_iotask s w (\<lambda>t.
     if myEventsReady t AND IO_EVENT_WRITE = 0 then
       if myState t = IO_TASK_STATE_DELETING then Inr (True, resume c (-1) w) else Inr (False, w)
     else Inr (True, resume c 0 w))"

fun onIOEvent :: "AsyncOperation \<Rightarrow> addr \<Rightarrow> sys_res \<Rightarrow> io_world \<Rightarrow> io_fail + bool \<times> io_world" where
  "onIOEvent (AsyncOperation AsyncRecv c) s r w = AsyncRecv_onIOEvent c s r w"
| "onIOEvent (AsyncOperation AsyncSend c) s r w = AsyncSend_onIOEvent c s r w"
| "onIOEvent (AsyncOperation AsyncAccept c) s r w = AsyncAccept_onIOEvent c s r w"
| "onIOEvent (AsyncOperation AsyncConnect c) s r w = AsyncConnect_onIOEvent c s w"

section \<open>The core\<close>

text \<open>\<open>new IOTask\<close> at the address \<open>s\<close>.\<close>

definition IOTask_new :: "addr \<Rightarrow> int \<Rightarrow> io_world \<Rightarrow> io_world" where
  "IOTask_new s fd w =
     (set_iotask s \<lparr>myState = IO_TASK_STATE_NEW, myFd = fd, myIdx = -1, myEventsReady = 0, myAsyncOp = None\<rparr> w)
       \<lparr>taskCount := taskCount w + 1\<rparr>"

definition IOTask_delete :: "addr \<Rightarrow> io_world \<Rightarrow> io_fail + io_world" where
  "IOTask_delete s w = with_iotask s w (\<lambda>t.
     if myState t \<noteq> IO_TASK_STATE_DELETING \<or> myFd t < 0 \<or> myAsyncOp t \<noteq> None then Inl Assert_failed
     else io_bind (close_fd (myFd t) w) (\<lambda>w1. Inr (w1\<lparr>io_tasks := (io_tasks w1)(s := None), taskCount := taskCount w1 - 1\<rparr>)))"

text \<open>A write to the eventfd; nobody reads it, so it stays readable and each write is an edge.\<close>

definition wakeup :: "io_world \<Rightarrow> io_fail + io_world" where
  "wakeup w = (if socks w (myEventFd w) = None then Inl Assert_failed else Inr (upd_sock (myEventFd w) (signal True False) w))"

definition io_stop :: "io_world \<Rightarrow> io_fail + io_world" where
  "io_stop w = wakeup (w\<lparr>myIsStopped := True\<rparr>)"

definition subscribe :: "addr \<Rightarrow> int \<Rightarrow> io_world \<Rightarrow> io_fail + io_world" where
  "subscribe s fd w =
     io_bind (assert_all (\<lambda>_ t. myFd t \<noteq> fd) (myTasks w) w) (\<lambda>_.
     io_bind (assert_all (\<lambda>_ t. myFd t \<noteq> fd) (myQueue w) w) (\<lambda>_.
     wakeup ((IOTask_new s fd w)\<lparr>myQueue := myQueue w @ [s], mySize := mySize w + 1\<rparr>)))"

definition unsubscribe :: "addr \<Rightarrow> io_world \<Rightarrow> io_fail + io_world" where
  "unsubscribe s w =
     (if s \<in> set (myQueue w) then Inl Assert_failed
      else with_iotask s w (\<lambda>t.
        if myIdx t < 0 \<or> length (myTasks w) \<le> nat (myIdx t) then Inl Out_of_range
        else if myTasks w ! nat (myIdx t) \<noteq> s \<or> myState t \<noteq> IO_TASK_STATE_WORKING then Inl Assert_failed
        else wakeup ((set_iotask s (t\<lparr>myState := IO_TASK_STATE_DELETING\<rparr>) w)
               \<lparr>myQueue := myQueue w @ [s], mySize := mySize w + 1\<rparr>)))"

text \<open>\<open>processQueues\<close> up to its loop.\<close>

definition processQueues :: "caller \<Rightarrow> io_world \<Rightarrow> io_world" where
  "processQueues who w = w\<lparr>lpc := L_queue who (if mySize w = 0 then [] else myQueue w)\<rparr>"

text \<open>One round of its loop, for a new task.\<close>

definition queue_add :: "caller \<Rightarrow> addr \<Rightarrow> addr list \<Rightarrow> IOTask \<Rightarrow> io_world \<Rightarrow> io_fail + io_world" where
  "queue_add who s rest t w =
     (let w1 = set_iotask s (t\<lparr>myState := IO_TASK_STATE_WORKING, myEventsReady := IO_EVENT_READ OR IO_EVENT_WRITE,
                              myIdx := int (length (myTasks w))\<rparr>) w
      in io_bind (epoll_add (myFd t) s w1) (\<lambda>w2. Inr (w2\<lparr>myTasks := myTasks w2 @ [s], lpc := L_queue who rest\<rparr>)))"

text \<open>The end of the round for a task that is deleted.\<close>

definition queue_drop :: "caller \<Rightarrow> addr \<Rightarrow> addr list \<Rightarrow> io_world \<Rightarrow> io_fail + io_world" where
  "queue_drop who s rest w =
     io_bind (IOTask_delete s w) (\<lambda>w1. Inr (w1\<lparr>myTasks := butlast (myTasks w1), lpc := L_queue who rest\<rparr>))"

text \<open>
  The round for a task that is deleted: the last task takes its place. If an operation is
  suspended, its coroutine is resumed; the rest of the round follows when it stops.
\<close>

definition queue_delete :: "caller \<Rightarrow> addr \<Rightarrow> addr list \<Rightarrow> IOTask \<Rightarrow> io_world \<Rightarrow> io_fail + io_world" where
  "queue_delete who s rest t w =
     (if myIdx t < 0 \<or> length (myTasks w) \<le> nat (myIdx t) then Inl Assert_failed
      else if myTasks w ! nat (myIdx t) \<noteq> s \<or> myFd t < 0 then Inl Assert_failed
      else with_iotask (last (myTasks w)) w (\<lambda>b.
        let w1 = (set_iotask (last (myTasks w)) (b\<lparr>myIdx := myIdx t\<rparr>) w)\<lparr>myTasks := (myTasks w)[nat (myIdx t) := last (myTasks w)]\<rparr>
        in io_bind (epoll_del (myFd t) w1) (\<lambda>w2.
          case myAsyncOp t of
            None \<Rightarrow> queue_drop who s rest w2
          | Some op \<Rightarrow> with_iotask s w2 (\<lambda>t2.
              io_bind (onIOEvent op s Would_block (set_iotask s (t2\<lparr>myEventsReady := 0\<rparr>) w2)) (\<lambda>(ended, w3).
                Inr (w3\<lparr>lpc := L_cancel who s rest\<rparr>))))))"

definition queue_cancelled :: "caller \<Rightarrow> addr \<Rightarrow> addr list \<Rightarrow> io_world \<Rightarrow> io_fail + io_world" where
  "queue_cancelled who s rest w = with_iotask s w (\<lambda>t. queue_drop who s rest (set_iotask s (t\<lparr>myAsyncOp := None\<rparr>) w))"

definition queue_next :: "caller \<Rightarrow> addr \<Rightarrow> addr list \<Rightarrow> io_world \<Rightarrow> io_fail + io_world" where
  "queue_next who s rest w = with_iotask s w (\<lambda>t.
     case myState t of
       IO_TASK_STATE_NEW \<Rightarrow> queue_add who s rest t w
     | IO_TASK_STATE_DELETING \<Rightarrow> queue_delete who s rest t w
     | IO_TASK_STATE_WORKING \<Rightarrow> Inl Assert_failed)"

text \<open>After the loop; in the destructor, what it asserts and does after \<open>processQueues\<close>.\<close>

definition queue_done :: "caller \<Rightarrow> io_world \<Rightarrow> io_fail + io_world" where
  "queue_done who w =
     (let w1 = (if mySize w = 0 \<or> myQueue w = [] then w else w\<lparr>myQueue := [], mySize := length (myTasks w)\<rparr>)
      in case who of
           From_roll \<Rightarrow> Inr (w1\<lparr>lpc := L_wait\<rparr>)
         | From_destructor \<Rightarrow>
             if myTasks w1 \<noteq> [] \<or> myQueue w1 \<noteq> [] then Inl Assert_failed else Inr (w1\<lparr>lpc := L_destroyed\<rparr>))"

text \<open>\<open>epoll_wait\<close> reports the events of some descriptors; they are no longer unreported.\<close>

fun take_events :: "int list \<Rightarrow> io_world \<Rightarrow> (addr \<times> 32 word) list \<times> io_world" where
  "take_events [] w = ([], w)"
| "take_events (fd # fds) w =
     (let (evs, w1) = take_events fds (upd_sock fd (\<lambda>k. k\<lparr>pending := 0\<rparr>) w)
      in (case socks w fd of
            None \<Rightarrow> (evs, w1)
          | Some k \<Rightarrow> (case registered k of None \<Rightarrow> (evs, w1) | Some s \<Rightarrow> ((s, pending k) # evs, w1))))"

definition roll_wait :: "int list \<Rightarrow> io_world \<Rightarrow> io_world" where
  "roll_wait fds w = (let (evs, w1) = take_events fds w in w1\<lparr>lpc := L_events evs\<rparr>)"

text \<open>The body of the loop of \<open>roll\<close>.\<close>

definition event_mask :: "32 word \<Rightarrow> 32 word" where
  "event_mask ev = (if ev AND EPOLLIN \<noteq> 0 then IO_EVENT_READ else 0) OR (if ev AND EPOLLOUT \<noteq> 0 then IO_EVENT_WRITE else 0)"

definition roll_event :: "addr \<Rightarrow> 32 word \<Rightarrow> sys_res \<Rightarrow> io_world \<Rightarrow> io_fail + io_world" where
  "roll_event s ev r w =
     (if ev AND NOT (EPOLLIN OR EPOLLOUT) \<noteq> 0 \<or> event_mask ev = 0 then Inl Assert_failed
      else with_iotask s w (\<lambda>t.
        let t1 = t\<lparr>myEventsReady := myEventsReady t OR event_mask ev\<rparr>
        in case myAsyncOp t of
             None \<Rightarrow> Inr (set_iotask s t1 w)
           | Some op \<Rightarrow>
               io_bind (onIOEvent op s r (set_iotask s (t1\<lparr>myAsyncOp := None\<rparr>) w)) (\<lambda>(ended, w1).
                 if ended then Inr w1 else with_iotask s w1 (\<lambda>t2. Inr (set_iotask s (t2\<lparr>myAsyncOp := Some op\<rparr>) w1)))))"

text \<open>The destructor up to \<open>processQueues\<close>.\<close>

definition IOCore_delete :: "io_world \<Rightarrow> io_fail + io_world" where
  "IOCore_delete w = io_bind (unsubscribe (myEventSub w) w) (\<lambda>w1. Inr (processQueues From_destructor (w1\<lparr>myEventFd := -1\<rparr>)))"

text \<open>The constructor, with the descriptor and the address that \<open>eventfd\<close> and \<open>new\<close> return.\<close>

definition IOCore_new :: "int \<Rightarrow> addr \<Rightarrow> io_fail + io_world" where
  "IOCore_new fd s = subscribe s fd
     \<lparr>myEventFd = fd, myEventSub = s, myIsStopped = False, myTasks = [], myQueue = [], mySize = 0,
      io_tasks = Map.empty, socks = [fd \<mapsto> new_sock\<lparr>can_write := True\<rparr>], lpc = L_idle, stack = [], co_res = 0,
      promiseCount = 0, taskCount = 0\<rparr>"

section \<open>Interleaving\<close>

text \<open>What code outside of the core does; the first three are calls of the core.\<close>

datatype io_call =
    Subscribe addr int
  | Unsubscribe addr
  | Stop
  | Start nat
  | Await op_kind addr sys_res
  | Finish
  | Delete_core

text \<open>
  A label is: code on the thread of the loop acts; a call from another thread; the loop of \<open>ioCoreRunF\<close>
  begins a round; the loop goes on, with the outcome of a system call; \<open>epoll_wait\<close> returns with events
  of some descriptors, or is interrupted; the operating system opens a descriptor or signals one.
\<close>

datatype io_label =
    Code io_call
  | Other io_call
  | Run
  | Go sys_res
  | Wait "int list"
  | Interrupted
  | Open_fd int
  | Net int bool bool
  | Hang_up int

fun mutex_locked :: "loop_pc \<Rightarrow> bool" where
  "mutex_locked (L_queue who rest) = True"
| "mutex_locked (L_cancel who s rest) = True"
| "mutex_locked pc = False"

text \<open>\<open>Start\<close> and \<open>Finish\<close> are the creation of a coroutine, which runs at once, and its end, which destroys it.\<close>

fun io_call_step :: "io_call \<Rightarrow> io_world \<Rightarrow> io_fail + io_world" where
  "io_call_step (Subscribe s fd) w = (if mutex_locked (lpc w) then Inl Deadlock else subscribe s fd w)"
| "io_call_step (Unsubscribe s) w = (if mutex_locked (lpc w) then Inl Deadlock else unsubscribe s w)"
| "io_call_step Stop w = io_stop w"
| "io_call_step (Start c) w = Inr (w\<lparr>stack := c # stack w, promiseCount := promiseCount w + 1\<rparr>)"
| "io_call_step (Await kind s r) w = co_await kind s r w"
| "io_call_step Finish w = Inr (w\<lparr>stack := tl (stack w), promiseCount := promiseCount w - 1\<rparr>)"
| "io_call_step Delete_core w = IOCore_delete w"

definition loop_step :: "sys_res \<Rightarrow> io_world \<Rightarrow> io_fail + io_world" where
  "loop_step r w =
     (case lpc w of
        L_events [] \<Rightarrow> Inr (w\<lparr>lpc := L_idle\<rparr>)
      | L_events ((s, ev) # rest) \<Rightarrow> roll_event s ev r (w\<lparr>lpc := L_events rest\<rparr>)
      | L_queue who [] \<Rightarrow> queue_done who w
      | L_queue who (s # rest) \<Rightarrow> queue_next who s rest w
      | L_cancel who s rest \<Rightarrow> queue_cancelled who s rest w
      | _ \<Rightarrow> Inr w)"

fun io_step :: "io_label \<Rightarrow> io_world \<Rightarrow> io_fail + io_world" where
  "io_step (Code c) w = io_call_step c w"
| "io_step (Other c) w = io_call_step c w"
| "io_step Run w = Inr (if myIsStopped w then w else processQueues From_roll w)"
| "io_step (Go r) w = loop_step r w"
| "io_step (Wait fds) w = Inr (roll_wait fds w)"
| "io_step Interrupted w = Inr (w\<lparr>lpc := L_idle\<rparr>)"
| "io_step (Open_fd fd) w = Inr (w\<lparr>socks := (socks w)(fd \<mapsto> new_sock)\<rparr>)"
| "io_step (Net fd rd wr) w = Inr (upd_sock fd (signal rd wr) w)"
| "io_step (Hang_up fd) w = Inr (upd_sock fd hang_up w)"

section \<open>The rules of the users and of the operating system\<close>

text \<open>Which outcome a system call can have: it blocks exactly if the descriptor is not ready, and does not fail.\<close>

fun op_ready :: "op_kind \<Rightarrow> io_sock \<Rightarrow> bool" where
  "op_ready AsyncRecv k = can_read k"
| "op_ready AsyncSend k = can_write k"
| "op_ready AsyncAccept k = can_read k"
| "op_ready AsyncConnect k = can_write k"

fun outcome_ok :: "op_kind \<Rightarrow> sys_res \<Rightarrow> io_sock \<Rightarrow> io_world \<Rightarrow> bool" where
  "outcome_ok kind (Done n left) k w =
     ((kind = AsyncConnect \<or> op_ready kind k) \<and> (kind = AsyncAccept \<longrightarrow> socks w (int n) = None))"
| "outcome_ok kind Would_block k w = (\<not> op_ready kind k)"
| "outcome_ok kind Sys_error k w = False"

definition sys_ok :: "op_kind \<Rightarrow> addr \<Rightarrow> sys_res \<Rightarrow> io_world \<Rightarrow> bool" where
  "sys_ok kind s r w =
     (case io_tasks w s of
        None \<Rightarrow> False
      | Some t \<Rightarrow> (case socks w (myFd t) of None \<Rightarrow> False | Some k \<Rightarrow> outcome_ok kind r k w))"

definition task_is :: "(IOTask \<Rightarrow> bool) \<Rightarrow> addr \<Rightarrow> io_world \<Rightarrow> bool" where
  "task_is P s w = (case io_tasks w s of None \<Rightarrow> False | Some t \<Rightarrow> P t)"

definition all_tasks :: "(addr \<Rightarrow> IOTask \<Rightarrow> bool) \<Rightarrow> io_world \<Rightarrow> bool" where
  "all_tasks P w = list_all (\<lambda>s. task_is (P s) s w) (myTasks w @ myQueue w)"

fun holds_coro :: "nat \<Rightarrow> AsyncOperation option \<Rightarrow> bool" where
  "holds_coro c None = False"
| "holds_coro c (Some (AsyncOperation kind d)) = (c = d)"

fun in_destructor :: "loop_pc \<Rightarrow> bool" where
  "in_destructor (L_queue who rest) = (who = From_destructor)"
| "in_destructor (L_cancel who s rest) = (who = From_destructor)"
| "in_destructor L_destroyed = True"
| "in_destructor pc = False"

text \<open>
  A descriptor is subscribed while it is open and no task has it; a task is unsubscribed once, after
  the loop has taken it up; an operation is started on a task that exists and has none, by a
  coroutine; the core is deleted when all tasks have been unsubscribed and it has rolled. Nothing of
  this may happen with \<open>myMutex\<close> locked, apart from operations and the start and end of coroutines.
\<close>

fun call_ok :: "io_call \<Rightarrow> io_world \<Rightarrow> bool" where
  "call_ok (Subscribe s fd) w =
     (\<not> mutex_locked (lpc w) \<and> lpc w \<noteq> L_destroyed \<and> io_tasks w s = None \<and> 0 \<le> fd
      \<and> map_option registered (socks w fd) = Some None \<and> all_tasks (\<lambda>_ t. myFd t \<noteq> fd) w)"
| "call_ok (Unsubscribe s) w =
     (\<not> mutex_locked (lpc w) \<and> lpc w \<noteq> L_destroyed \<and> s \<noteq> myEventSub w \<and> task_is (\<lambda>t. myState t = IO_TASK_STATE_WORKING) s w)"
| "call_ok Stop w = (\<not> in_destructor (lpc w))"
| "call_ok (Start c) w = (c \<notin> set (stack w) \<and> all_tasks (\<lambda>_ t. \<not> holds_coro c (myAsyncOp t)) w)"
| "call_ok (Await kind s r) w = (stack w \<noteq> [] \<and> s \<noteq> myEventSub w \<and> task_is (\<lambda>t. myAsyncOp t = None) s w \<and> sys_ok kind s r w)"
| "call_ok Finish w = (stack w \<noteq> [])"
| "call_ok Delete_core w =
     (lpc w = L_idle \<and> stack w = [] \<and> task_is (\<lambda>t. myState t = IO_TASK_STATE_WORKING) (myEventSub w) w
      \<and> all_tasks (\<lambda>s t. s = myEventSub w \<or> myState t = IO_TASK_STATE_DELETING) w)"

fun other_thread :: "io_call \<Rightarrow> bool" where
  "other_thread (Subscribe s fd) = True"
| "other_thread (Unsubscribe s) = True"
| "other_thread Stop = True"
| "other_thread c = False"

definition go_ok :: "sys_res \<Rightarrow> io_world \<Rightarrow> bool" where
  "go_ok r w =
     (stack w = [] \<and>
      (case lpc w of
         L_events ((s, ev) # rest) \<Rightarrow>
           (case io_tasks w s of
              None \<Rightarrow> True
            | Some t \<Rightarrow> (case myAsyncOp t of None \<Rightarrow> True | Some (AsyncOperation kind c) \<Rightarrow> sys_ok kind s r w))
       | L_events [] \<Rightarrow> True
       | L_queue who rest \<Rightarrow> True
       | L_cancel who s rest \<Rightarrow> True
       | _ \<Rightarrow> False))"

definition reportable :: "io_world \<Rightarrow> int \<Rightarrow> bool" where
  "reportable w fd = (case socks w fd of None \<Rightarrow> False | Some k \<Rightarrow> registered k \<noteq> None \<and> pending k \<noteq> 0)"

fun io_enabled :: "io_label \<Rightarrow> io_world \<Rightarrow> bool" where
  "io_enabled (Code c) w = ((lpc w = L_idle \<or> stack w \<noteq> []) \<and> call_ok c w)"
| "io_enabled (Other c) w = (other_thread c \<and> call_ok c w)"
| "io_enabled Run w = (lpc w = L_idle \<and> stack w = [])"
| "io_enabled (Go r) w = go_ok r w"
| "io_enabled (Wait fds) w =
     (lpc w = L_wait \<and> fds \<noteq> [] \<and> length fds \<le> theEpollBatchSize \<and> distinct fds \<and> list_all (reportable w) fds)"
| "io_enabled Interrupted w = (lpc w = L_wait)"
| "io_enabled (Open_fd fd) w = (0 \<le> fd \<and> socks w fd = None)"
| "io_enabled (Net fd rd wr) w = (socks w fd \<noteq> None)"
| "io_enabled (Hang_up fd) w = False"

end
