(* ===== verification/IO_Core_Inv.thy ===== *)
theory IO_Core_Inv
  imports IO_Core
begin

unbundle bit_operations_syntax

text \<open>
  The invariant of the event loop: where every task is, which descriptors epoll watches for it, what
  the counters count, and that no event and no wake-up is lost. Every step keeps it and violates no assertion.
\<close>

section \<open>The invariant\<close>

text \<open>The part of the queue that is still to be handled, the tasks in work, the task that is being deleted, the events still to be handled.\<close>

definition todo :: "io_world \<Rightarrow> addr list" where
  "todo w = (case lpc w of L_queue who rest \<Rightarrow> rest | L_cancel who s rest \<Rightarrow> rest | _ \<Rightarrow> myQueue w)"

definition current :: "io_world \<Rightarrow> addr list" where
  "current w = (case lpc w of L_cancel who s rest \<Rightarrow> butlast (myTasks w) | _ \<Rightarrow> myTasks w)"

definition dropping :: "io_world \<Rightarrow> addr option" where
  "dropping w = (case lpc w of L_cancel who s rest \<Rightarrow> Some s | _ \<Rightarrow> None)"

definition batch :: "io_world \<Rightarrow> (addr \<times> 32 word) list" where
  "batch w = (case lpc w of L_events evs \<Rightarrow> evs | _ \<Rightarrow> [])"

text \<open>Each task is at its index, and in the queue exactly if it is new or to be deleted.\<close>

definition place_ok :: "io_world \<Rightarrow> addr \<Rightarrow> IOTask \<Rightarrow> bool" where
  "place_ok w s t \<longleftrightarrow>
     (s \<in> set (todo w) \<longleftrightarrow> myState t \<noteq> IO_TASK_STATE_WORKING \<and> dropping w \<noteq> Some s)
     \<and> (myState t \<noteq> IO_TASK_STATE_NEW \<longrightarrow> dropping w \<noteq> Some s \<longrightarrow>
          0 \<le> myIdx t \<and> nat (myIdx t) < length (current w) \<and> current w ! nat (myIdx t) = s)"

definition places_ok :: "io_world \<Rightarrow> bool" where
  "places_ok w \<longleftrightarrow> (\<forall>s t. io_tasks w s = Some t \<longrightarrow> place_ok w s t)
     \<and> (\<forall>i<length (current w). \<exists>t. io_tasks w (current w ! i) = Some t \<and> myIdx t = int i
          \<and> myState t \<noteq> IO_TASK_STATE_NEW \<and> dropping w \<noteq> Some (current w ! i))
     \<and> distinct (todo w) \<and> (\<forall>s\<in>set (todo w). io_tasks w s \<noteq> None)
     \<and> set (todo w) \<subseteq> set (myQueue w) \<and> (dropping w \<noteq> None \<longrightarrow> myTasks w \<noteq> [])
     \<and> (\<forall>s. dropping w = Some s \<longrightarrow> task_is (\<lambda>t. myState t = IO_TASK_STATE_DELETING) s w)"

text \<open>Each task has an open descriptor of its own; epoll has it with the task, from the first \<open>processQueues\<close> to the last.\<close>

definition sock_reg :: "io_world \<Rightarrow> int \<Rightarrow> addr option option" where
  "sock_reg w fd = map_option registered (socks w fd)"

definition task_socks_ok :: "io_world \<Rightarrow> bool" where
  "task_socks_ok w \<longleftrightarrow>
     (\<forall>s t. io_tasks w s = Some t \<longrightarrow> 0 \<le> myFd t \<and>
        sock_reg w (myFd t) = Some (if myState t = IO_TASK_STATE_NEW \<or> dropping w = Some s then None else Some s))
     \<and> (\<forall>s u t t'. io_tasks w s = Some t \<longrightarrow> io_tasks w u = Some t' \<longrightarrow> myFd t = myFd t' \<longrightarrow> s = u)"

text \<open>epoll holds no pointer to a task that does not exist, and no other events than the two.\<close>

definition legal_mask :: "32 word \<Rightarrow> bool" where
  "legal_mask ev \<longleftrightarrow> ev AND NOT (EPOLLIN OR EPOLLOUT) = 0"

definition sock_ok :: "io_world \<Rightarrow> int \<Rightarrow> io_sock \<Rightarrow> bool" where
  "sock_ok w fd k \<longleftrightarrow> legal_mask (pending k) \<and>
     (case registered k of None \<Rightarrow> pending k = 0 | Some s \<Rightarrow> task_is (\<lambda>t. myFd t = fd) s w)"

definition socks_ok :: "io_world \<Rightarrow> bool" where
  "socks_ok w \<longleftrightarrow> (\<forall>fd k. socks w fd = Some k \<longrightarrow> sock_ok w fd k)
     \<and> (\<forall>(s, m)\<in>set (batch w). io_tasks w s \<noteq> None \<and> m \<noteq> 0 \<and> legal_mask m)"

definition event_ok :: "io_world \<Rightarrow> bool" where
  "event_ok w \<longleftrightarrow>
     (if in_destructor (lpc w) then myEventFd w < 0 \<and> (\<forall>s t. io_tasks w s = Some t \<longrightarrow> myState t = IO_TASK_STATE_DELETING)
      else task_is (\<lambda>t. myFd t = myEventFd w \<and> myAsyncOp t = None \<and> myState t \<noteq> IO_TASK_STATE_DELETING) (myEventSub w) w
         \<and> (\<exists>k. socks w (myEventFd w) = Some k \<and> can_read k))"

definition size_ok :: "io_world \<Rightarrow> bool" where
  "size_ok w \<longleftrightarrow>
     (case lpc w of
        L_queue who rest \<Rightarrow> if myQueue w = [] then rest = [] \<and> mySize w = length (myTasks w) else mySize w \<noteq> 0
      | L_cancel who s rest \<Rightarrow> myQueue w \<noteq> [] \<and> mySize w \<noteq> 0
      | L_destroyed \<Rightarrow> myTasks w = [] \<and> myQueue w = []
      | _ \<Rightarrow> mySize w = length (myTasks w) + length (myQueue w))"

text \<open>A coroutine is running, or suspended in one task.\<close>

definition suspended :: "io_world \<Rightarrow> addr set" where
  "suspended w = {s. task_is (\<lambda>t. myAsyncOp t \<noteq> None) s w \<and> dropping w \<noteq> Some s}"

definition coros_ok :: "io_world \<Rightarrow> bool" where
  "coros_ok w \<longleftrightarrow> finite (dom (io_tasks w)) \<and> taskCount w = int (card (dom (io_tasks w)))
     \<and> promiseCount w = int (length (stack w)) + int (card (suspended w)) \<and> distinct (stack w)
     \<and> (\<forall>s\<in>suspended w. \<forall>c. task_is (\<lambda>t. holds_coro c (myAsyncOp t)) s w \<longrightarrow> c \<notin> set (stack w))
     \<and> (\<forall>s\<in>suspended w. \<forall>u\<in>suspended w. \<forall>c. task_is (\<lambda>t. holds_coro c (myAsyncOp t)) s w \<longrightarrow>
          task_is (\<lambda>t. holds_coro c (myAsyncOp t)) u w \<longrightarrow> s = u)"

definition stack_ok :: "io_world \<Rightarrow> bool" where
  "stack_ok w \<longleftrightarrow> (case lpc w of L_wait \<Rightarrow> stack w = [] | L_queue who rest \<Rightarrow> stack w = [] | L_destroyed \<Rightarrow> stack w = []
     | L_cancel who s rest \<Rightarrow> task_is (\<lambda>t. myAsyncOp t \<noteq> None) s w | _ \<Rightarrow> True)"

text \<open>
  No event is lost: when a task does not know that its descriptor is ready, or has an operation that
  waits for it, the event is still to be reported or handled.
\<close>

fun waits_read :: "IOTask \<Rightarrow> bool" where
  "waits_read t \<longleftrightarrow> myEventsReady t AND IO_EVENT_READ = 0 \<or>
     (case myAsyncOp t of Some (AsyncOperation AsyncRecv c) \<Rightarrow> True | Some (AsyncOperation AsyncAccept c) \<Rightarrow> True | _ \<Rightarrow> False)"

fun waits_write :: "IOTask \<Rightarrow> bool" where
  "waits_write t \<longleftrightarrow> myEventsReady t AND IO_EVENT_WRITE = 0 \<or>
     (case myAsyncOp t of Some (AsyncOperation AsyncSend c) \<Rightarrow> True | Some (AsyncOperation AsyncConnect c) \<Rightarrow> True | _ \<Rightarrow> False)"

definition reported :: "32 word \<Rightarrow> addr \<Rightarrow> io_sock \<Rightarrow> io_world \<Rightarrow> bool" where
  "reported ev s k w \<longleftrightarrow> pending k AND ev \<noteq> 0 \<or> (\<exists>m. (s, m) \<in> set (batch w) \<and> m AND ev \<noteq> 0)"

definition ready_ok :: "io_world \<Rightarrow> bool" where
  "ready_ok w \<longleftrightarrow> (\<forall>s t k. io_tasks w s = Some t \<longrightarrow> myState t \<noteq> IO_TASK_STATE_NEW \<longrightarrow> dropping w \<noteq> Some s \<longrightarrow>
     socks w (myFd t) = Some k \<longrightarrow>
       (waits_read t \<longrightarrow> can_read k \<longrightarrow> reported EPOLLIN s k w) \<and> (waits_write t \<longrightarrow> can_write k \<longrightarrow> reported EPOLLOUT s k w))"

text \<open>No wake-up is lost: while there is a reason not to sleep, \<open>epoll_wait\<close> has an event to report.\<close>

definition woken :: "io_world \<Rightarrow> bool" where
  "woken w \<longleftrightarrow> (case socks w (myEventFd w) of None \<Rightarrow> False | Some k \<Rightarrow> registered k \<noteq> None \<and> pending k AND EPOLLIN \<noteq> 0)"

definition wake_ok :: "io_world \<Rightarrow> bool" where
  "wake_ok w \<longleftrightarrow> (lpc w = L_wait \<longrightarrow> myQueue w \<noteq> [] \<or> myIsStopped w \<longrightarrow> woken w)
     \<and> (mutex_locked (lpc w) \<longrightarrow> \<not> in_destructor (lpc w) \<longrightarrow> myIsStopped w \<longrightarrow>
          woken w \<or> task_is (\<lambda>t. myState t = IO_TASK_STATE_NEW) (myEventSub w) w)"

definition io_inv :: "io_world \<Rightarrow> bool" where
  "io_inv w \<longleftrightarrow> places_ok w \<and> task_socks_ok w \<and> socks_ok w \<and> event_ok w \<and> size_ok w \<and> coros_ok w \<and> stack_ok w \<and> ready_ok w \<and> wake_ok w"

section \<open>Masks\<close>

lemmas io_masks = IO_EVENT_READ_def IO_EVENT_WRITE_def EPOLLIN_def EPOLLOUT_def

lemma and_mask_bits:
  fixes x :: "32 word"
  shows "x AND IO_EVENT_READ = 0 \<longleftrightarrow> \<not> bit x 0" "x AND IO_EVENT_WRITE = 0 \<longleftrightarrow> \<not> bit x 1"
    "x AND EPOLLIN = 0 \<longleftrightarrow> \<not> bit x 0" "x AND EPOLLOUT = 0 \<longleftrightarrow> \<not> bit x 2"
  using and_exp_eq_0_iff_not_bit [of x 0] and_exp_eq_0_iff_not_bit [of x 1] and_exp_eq_0_iff_not_bit [of x 2]
  by (simp_all add: io_masks)

lemma bit_masks:
  "bit IO_EVENT_READ n \<longleftrightarrow> n = 0" "bit IO_EVENT_WRITE n \<longleftrightarrow> n = 1" "bit EPOLLIN n \<longleftrightarrow> n = 0" "bit EPOLLOUT n \<longleftrightarrow> n = 2"
proof -
  have "bit (2 ^ m :: 32 word) n \<longleftrightarrow> n = m" if "m < 32" for m using that by (auto simp: bit_exp_iff)
  from this [of 0] this [of 1] this [of 2] show "bit IO_EVENT_READ n \<longleftrightarrow> n = 0" "bit IO_EVENT_WRITE n \<longleftrightarrow> n = 1"
    "bit EPOLLIN n \<longleftrightarrow> n = 0" "bit EPOLLOUT n \<longleftrightarrow> n = 2" by (simp_all add: io_masks)
qed

lemma nonzero_bit:
  fixes x :: "32 word"
  shows "x \<noteq> 0 \<longleftrightarrow> (\<exists>n. bit x n)"
proof -
  have "bit x n \<Longrightarrow> n < 32" for n using bit_imp_le_length [of x n] by simp
  then show ?thesis by (auto simp: bit_eq_iff)
qed

lemma no_other_bits:
  fixes x :: "32 word"
  shows "x AND NOT (EPOLLIN OR EPOLLOUT) = 0 \<longleftrightarrow> (\<forall>n. bit x n \<longrightarrow> n = 0 \<or> n = 2)"
proof -
  have "bit x n \<Longrightarrow> n < 32" for n using bit_imp_le_length [of x n] by simp
  then show ?thesis by (auto simp: bit_eq_iff bit_and_iff bit_or_iff bit_not_iff bit_masks possible_bit_def)
qed

lemma mask_bits:
  "bit (epoll_mask rd wr) n \<longleftrightarrow> n = 0 \<and> rd \<or> n = 2 \<and> wr"
  "bit (event_mask ev) n \<longleftrightarrow> n = 0 \<and> bit ev 0 \<or> n = 1 \<and> bit ev 2"
  by (auto simp: epoll_mask_def event_mask_def bit_or_iff bit_masks and_mask_bits)

lemma legal_mask_bits: "legal_mask ev \<longleftrightarrow> (\<forall>n. bit ev n \<longrightarrow> n = 0 \<or> n = 2)"
  by (simp only: legal_mask_def no_other_bits)

lemma event_mask_0: "ev \<noteq> 0 \<Longrightarrow> legal_mask ev \<Longrightarrow> event_mask ev \<noteq> 0"
  by (auto simp: nonzero_bit mask_bits legal_mask_bits)

lemma legal_mask_0 [simp]: "legal_mask 0"
  by (simp add: legal_mask_def)

lemmas io_bits = legal_mask_bits and_mask_bits bit_masks no_other_bits nonzero_bit mask_bits bit_and_iff bit_or_iff bit_not_iff

section \<open>Projections\<close>

lemma io_fields [simp]:
  "myEventFd (set_iotask s t w) = myEventFd w" "myEventSub (set_iotask s t w) = myEventSub w" "myIsStopped (set_iotask s t w) = myIsStopped w"
  "myTasks (set_iotask s t w) = myTasks w" "myQueue (set_iotask s t w) = myQueue w" "mySize (set_iotask s t w) = mySize w"
  "io_tasks (set_iotask s t w) = (io_tasks w)(s \<mapsto> t)" "socks (set_iotask s t w) = socks w" "lpc (set_iotask s t w) = lpc w"
  "stack (set_iotask s t w) = stack w" "promiseCount (set_iotask s t w) = promiseCount w" "taskCount (set_iotask s t w) = taskCount w"
  "myEventFd (upd_sock fd f w) = myEventFd w" "myEventSub (upd_sock fd f w) = myEventSub w" "myIsStopped (upd_sock fd f w) = myIsStopped w"
  "myTasks (upd_sock fd f w) = myTasks w" "myQueue (upd_sock fd f w) = myQueue w" "mySize (upd_sock fd f w) = mySize w"
  "io_tasks (upd_sock fd f w) = io_tasks w" "socks (upd_sock fd f w) = (socks w)(fd := map_option f (socks w fd))" "lpc (upd_sock fd f w) = lpc w"
  "stack (upd_sock fd f w) = stack w" "promiseCount (upd_sock fd f w) = promiseCount w" "taskCount (upd_sock fd f w) = taskCount w"
  by (simp_all add: set_iotask_def upd_sock_def)

text \<open>The parts of the invariant depend on some fields only.\<close>

lemma task_is_simp: "io_tasks w s = Some t \<Longrightarrow> task_is P s w = P t"
  by (simp add: task_is_def)

lemma task_is_iff: "task_is P s w \<longleftrightarrow> (\<exists>t. io_tasks w s = Some t \<and> P t)"
  by (simp add: task_is_def split: option.splits)

lemma task_is_cong: "io_tasks w' = io_tasks w \<Longrightarrow> task_is P s w' = task_is P s w"
  by (simp add: task_is_def)

lemma io_invE:
  assumes "io_inv w"
  shows "places_ok w" "task_socks_ok w" "socks_ok w" "event_ok w" "size_ok w" "coros_ok w" "stack_ok w" "ready_ok w" "wake_ok w"
  using assms by (simp_all add: io_inv_def)

lemma io_invI:
  "places_ok w \<Longrightarrow> task_socks_ok w \<Longrightarrow> socks_ok w \<Longrightarrow> event_ok w \<Longrightarrow> size_ok w \<Longrightarrow> coros_ok w \<Longrightarrow> stack_ok w \<Longrightarrow> ready_ok w \<Longrightarrow> wake_ok w
     \<Longrightarrow> io_inv w"
  by (simp add: io_inv_def)

section \<open>The operating system moves\<close>

text \<open>One descriptor changes. It becomes ready only with an event, and loses no event as long as it is ready.\<close>

definition set_sock :: "int \<Rightarrow> io_sock \<Rightarrow> io_world \<Rightarrow> io_world" where
  "set_sock fd k w = w\<lparr>socks := (socks w)(fd \<mapsto> k)\<rparr>"

lemma set_sock_fields [simp]:
  "myEventFd (set_sock fd k w) = myEventFd w" "myEventSub (set_sock fd k w) = myEventSub w" "myIsStopped (set_sock fd k w) = myIsStopped w"
  "myTasks (set_sock fd k w) = myTasks w" "myQueue (set_sock fd k w) = myQueue w" "mySize (set_sock fd k w) = mySize w"
  "io_tasks (set_sock fd k w) = io_tasks w" "socks (set_sock fd k w) = (socks w)(fd \<mapsto> k)" "lpc (set_sock fd k w) = lpc w"
  "stack (set_sock fd k w) = stack w" "promiseCount (set_sock fd k w) = promiseCount w" "taskCount (set_sock fd k w) = taskCount w"
  by (simp_all add: set_sock_def)

lemma upd_sock_is_set: "socks w fd = Some k \<Longrightarrow> upd_sock fd f w = set_sock fd (f k) w"
  by (simp add: upd_sock_def set_sock_def)

lemma upd_sock_none: "socks w fd = None \<Longrightarrow> upd_sock fd f w = w"
  by (simp add: upd_sock_def fun_upd_idem)

lemma set_sock_views [simp]:
  "todo (set_sock fd k w) = todo w" "current (set_sock fd k w) = current w" "dropping (set_sock fd k w) = dropping w" "batch (set_sock fd k w) = batch w"
  "task_is P s (set_sock fd k w) = task_is P s w" "reported ev s k' (set_sock fd k w) = reported ev s k' w" "suspended (set_sock fd k w) = suspended w"
  by (simp_all add: todo_def current_def dropping_def batch_def reported_def task_is_def suspended_def cong: loop_pc.case_cong)

lemma sock_reg_set [simp]: "sock_reg (set_sock fd k w) = (sock_reg w)(fd \<mapsto> registered k)"
  by (auto simp: sock_reg_def)

lemma sock_reg_some: "socks w fd = Some k \<Longrightarrow> sock_reg w fd = Some (registered k)"
  by (simp add: sock_reg_def)

lemma task_reg:
  assumes "io_inv w" and "io_tasks w s = Some t" and "myState t \<noteq> IO_TASK_STATE_NEW" and "dropping w \<noteq> Some s"
  shows "sock_reg w (myFd t) = Some (Some s)"
  using io_invE(2) [OF assms(1)] assms(2-4) by (simp add: task_socks_ok_def)

lemma sock_reg_none: "socks w fd = None \<Longrightarrow> sock_reg w fd = None"
  by (simp add: sock_reg_def)

lemma sock_ok_set [simp]: "sock_ok (set_sock fd k w) = sock_ok w"
  by (simp add: fun_eq_iff sock_ok_def cong: option.case_cong)

lemma set_sock_sched: "places_ok (set_sock fd k w) = places_ok w" "size_ok (set_sock fd k w) = size_ok w"
  by (simp_all add: places_ok_def place_ok_def size_ok_def cong: loop_pc.case_cong)

lemma set_sock_inv:
  assumes i: "io_inv w" and k: "socks w fd = Some k" and r: "registered k' = registered k" and m: "legal_mask (pending k')"
    and n: "registered k = None \<Longrightarrow> pending k' = 0"
    and rd: "registered k \<noteq> None \<Longrightarrow> can_read k' \<Longrightarrow> bit (pending k') 0 \<or> can_read k \<and> (bit (pending k) 0 \<longrightarrow> bit (pending k') 0)"
    and wr: "registered k \<noteq> None \<Longrightarrow> can_write k' \<Longrightarrow> bit (pending k') 2 \<or> can_write k \<and> (bit (pending k) 2 \<longrightarrow> bit (pending k') 2)"
    and e: "fd = myEventFd w \<Longrightarrow> (can_read k \<longrightarrow> can_read k') \<and> (bit (pending k) 0 \<longrightarrow> bit (pending k') 0)"
  shows "io_inv (set_sock fd k' w)" (is "io_inv ?w")
proof (rule io_invI)
  show "places_ok ?w" "size_ok ?w" using io_invE [OF i] by (simp_all add: set_sock_sched)
  show "task_socks_ok ?w" using io_invE(2) [OF i] sock_reg_some [OF k]
    by (simp add: task_socks_ok_def r fun_upd_idem)
  show "socks_ok ?w" 
  proof -
    have "sock_ok w fd k" using io_invE(3) [OF i] k by (auto simp: socks_ok_def)
    then have "sock_ok w fd k'" using r m n by (auto simp: sock_ok_def split: option.splits)
    then show ?thesis using io_invE(3) [OF i] by (auto simp: socks_ok_def)
  qed
  show "event_ok ?w" using io_invE(4) [OF i] k e by (auto simp: event_ok_def)
  show "coros_ok ?w" using io_invE(6) [OF i] by (simp add: coros_ok_def)
  show "stack_ok ?w" using io_invE(7) [OF i] by (simp add: stack_ok_def cong: loop_pc.case_cong)
  show "wake_ok ?w" using io_invE(9) [OF i] k r e by (auto simp: wake_ok_def woken_def and_mask_bits)
  show "ready_ok ?w" unfolding ready_ok_def
  proof (intro allI impI)
    fix s t k1
    assume s: "io_tasks ?w s = Some t" "myState t \<noteq> IO_TASK_STATE_NEW" "dropping ?w \<noteq> Some s" "socks ?w (myFd t) = Some k1"
    show "(waits_read t \<longrightarrow> can_read k1 \<longrightarrow> reported EPOLLIN s k1 ?w) \<and> (waits_write t \<longrightarrow> can_write k1 \<longrightarrow> reported EPOLLOUT s k1 ?w)"
    proof (cases "myFd t = fd")
      case True
      have "registered k \<noteq> None" using task_reg [OF i, of s t] s sock_reg_some [OF k] True by simp
      then show ?thesis using io_invE(8) [OF i, unfolded ready_ok_def, rule_format, of s t k] s k True rd wr
        by (auto simp: reported_def and_mask_bits)
    next
      case False
      then show ?thesis using io_invE(8) [OF i, unfolded ready_ok_def, rule_format, of s t k1] s by simp
    qed
  qed
qed

lemma signal_fields:
  "can_read (signal rd wr k) \<longleftrightarrow> can_read k \<or> rd" "can_write (signal rd wr k) \<longleftrightarrow> can_write k \<or> wr" "registered (signal rd wr k) = registered k"
  "pending (signal rd wr k) = (if registered k = None then pending k else pending k OR epoll_mask rd wr)"
  by (simp_all add: signal_def)

lemma socks_okD: "io_inv w \<Longrightarrow> socks w fd = Some k \<Longrightarrow> sock_ok w fd k"
  using io_invE(3) by (auto simp: socks_ok_def)

lemma signal_inv:
  assumes i: "io_inv w" shows "io_inv (upd_sock fd (signal rd wr) w)"
proof (cases "socks w fd")
  case (Some k)
  show ?thesis unfolding upd_sock_is_set [OF Some]
    using socks_okD [OF i Some] by (intro set_sock_inv [OF i Some]) (auto simp: signal_fields sock_ok_def io_bits)
qed (simp add: upd_sock_none i)

lemma consume_inv:
  assumes i: "io_inv w" and k: "socks w fd = Some k" and e: "fd \<noteq> myEventFd w"
  shows "(left \<Longrightarrow> can_read k) \<Longrightarrow> io_inv (set_sock fd (k\<lparr>can_read := left\<rparr>) w)"
    and "(left \<Longrightarrow> can_write k) \<Longrightarrow> io_inv (set_sock fd (k\<lparr>can_write := left\<rparr>) w)"
  using socks_okD [OF i k] e by (auto intro!: set_sock_inv [OF i k] simp: sock_ok_def)

lemma open_fd_inv:
  assumes i: "io_inv w" and n: "socks w fd = None"
  shows "io_inv (set_sock fd new_sock w)" (is "io_inv ?w")
proof (rule io_invI)
  show "places_ok ?w" "size_ok ?w" using io_invE [OF i] by (simp_all add: set_sock_sched)
  show "task_socks_ok ?w" using io_invE(2) [OF i] n sock_reg_none [OF n] by (auto simp: task_socks_ok_def)
  show "socks_ok ?w" 
  proof -
    have "sock_ok w fd new_sock" by (simp add: sock_ok_def new_sock_def)
    then show ?thesis using io_invE(3) [OF i] by (auto simp: socks_ok_def)
  qed
  show "event_ok ?w" using io_invE(4) [OF i] n by (auto simp: event_ok_def)
  show "coros_ok ?w" using io_invE(6) [OF i] by (simp add: coros_ok_def)
  show "stack_ok ?w" using io_invE(7) [OF i] by (simp add: stack_ok_def cong: loop_pc.case_cong)
  show "wake_ok ?w" using io_invE(9) [OF i] n by (auto simp: wake_ok_def woken_def split: option.splits)
  show "ready_ok ?w" using io_invE(8) [OF i] io_invE(2) [OF i] n by (fastforce simp: ready_ok_def new_sock_def)
qed

section \<open>Operations are started and end\<close>

text \<open>The mask and the operation of one task change, and the coroutines that run.\<close>

definition set_op :: "addr \<Rightarrow> IOTask \<Rightarrow> 32 word \<Rightarrow> AsyncOperation option \<Rightarrow> nat list \<Rightarrow> int \<Rightarrow> io_world \<Rightarrow> io_world" where
  "set_op s t ev op cs res w = (set_iotask s (t\<lparr>myEventsReady := ev, myAsyncOp := op\<rparr>) w)\<lparr>stack := cs, co_res := res\<rparr>"

lemma set_op_fields [simp]:
  "myEventFd (set_op s t ev op cs res w) = myEventFd w" "myEventSub (set_op s t ev op cs res w) = myEventSub w" "myIsStopped (set_op s t ev op cs res w) = myIsStopped w"
  "myTasks (set_op s t ev op cs res w) = myTasks w" "myQueue (set_op s t ev op cs res w) = myQueue w" "mySize (set_op s t ev op cs res w) = mySize w"
  "io_tasks (set_op s t ev op cs res w) = (io_tasks w)(s \<mapsto> t\<lparr>myEventsReady := ev, myAsyncOp := op\<rparr>)" "socks (set_op s t ev op cs res w) = socks w"
  "lpc (set_op s t ev op cs res w) = lpc w"
  "stack (set_op s t ev op cs res w) = cs" "promiseCount (set_op s t ev op cs res w) = promiseCount w" "taskCount (set_op s t ev op cs res w) = taskCount w"
  by (simp_all add: set_op_def)

lemma set_op_views [simp]:
  "todo (set_op s t ev op cs res w) = todo w" "current (set_op s t ev op cs res w) = current w" "dropping (set_op s t ev op cs res w) = dropping w"
  "batch (set_op s t ev op cs res w) = batch w" "sock_reg (set_op s t ev op cs res w) = sock_reg w"
  "reported e u k (set_op s t ev op cs res w) = reported e u k w" "woken (set_op s t ev op cs res w) = woken w"
  by (simp_all add: todo_def current_def dropping_def batch_def reported_def sock_reg_def fun_eq_iff woken_def cong: loop_pc.case_cong option.case_cong)

lemma set_op_inv:
  assumes i: "io_inv w" and t: "io_tasks w s = Some t"
    and e: "s = myEventSub w \<Longrightarrow> op = None" and c: "coros_ok (set_op s t ev op cs res w)" and k: "stack_ok (set_op s t ev op cs res w)"
    and r: "\<And>k. myState t \<noteq> IO_TASK_STATE_NEW \<Longrightarrow> dropping w \<noteq> Some s \<Longrightarrow> socks w (myFd t) = Some k \<Longrightarrow>
      (waits_read (t\<lparr>myEventsReady := ev, myAsyncOp := op\<rparr>) \<longrightarrow> can_read k \<longrightarrow> reported EPOLLIN s k w)
      \<and> (waits_write (t\<lparr>myEventsReady := ev, myAsyncOp := op\<rparr>) \<longrightarrow> can_write k \<longrightarrow> reported EPOLLOUT s k w)"
  shows "io_inv (set_op s t ev op cs res w)" (is "io_inv ?w")
proof (rule io_invI)
  have st: "task_is P u ?w = task_is P u w" if "\<And>v e op. P (v\<lparr>myEventsReady := e, myAsyncOp := op\<rparr>) = P v" for P u
    using t that by (simp add: task_is_def)
  have pl: "place_ok w u (t\<lparr>myEventsReady := e, myAsyncOp := op\<rparr>) = place_ok w u t" for u t e op by (simp add: place_ok_def)
  have pl2: "place_ok ?w u t = place_ok w u t" for u t by (simp add: place_ok_def)
  show "places_ok ?w" using io_invE(1) [OF i] t
    by (auto simp: places_ok_def st pl pl2 all_conj_distrib)
  show "task_socks_ok ?w" using io_invE(2) [OF i] t by (auto simp: task_socks_ok_def)
  have so: "sock_ok ?w = sock_ok w" by (simp add: fun_eq_iff sock_ok_def st cong: option.case_cong)
  show "socks_ok ?w" using io_invE(3) [OF i] t by (auto simp: socks_ok_def so)
  show "event_ok ?w" using io_invE(4) [OF i] t e by (auto simp: event_ok_def task_is_def)
  show "size_ok ?w" using io_invE(5) [OF i] by (auto simp: size_ok_def split: loop_pc.splits)
  show "wake_ok ?w" using io_invE(9) [OF i] by (simp add: wake_ok_def st)
  show "ready_ok ?w" using io_invE(8) [OF i] t r by (simp add: ready_ok_def)
qed (use c k in simp_all)

text \<open>What the invariant of the coroutines says, with the coroutine of a task as a function.\<close>

lemma coros_suspend:
  assumes c: "coros_ok w" and t: "io_tasks w s = Some t" "myAsyncOp t = None" and d: "dropping w \<noteq> Some s" and k: "stack w = c # cs"
  shows "coros_ok (set_op s t ev (Some (AsyncOperation kind c)) cs res w)" (is "coros_ok ?w")
proof -
  have n: "s \<notin> suspended w" using t by (simp add: suspended_def task_is_def)
  have s: "suspended ?w = insert s (suspended w)" using t d by (auto simp: suspended_def task_is_def)
  have f: "finite (suspended w)" by (rule finite_subset [of _ "dom (io_tasks w)"])
    (use c in \<open>auto simp: coros_ok_def suspended_def task_is_def split: option.splits\<close>)
  have h: "task_is (\<lambda>t. holds_coro x (myAsyncOp t)) u ?w \<longleftrightarrow> (if u = s then x = c else task_is (\<lambda>t. holds_coro x (myAsyncOp t)) u w)" for x u
    by (simp add: task_is_def)
  show ?thesis using c n f t unfolding coros_ok_def s by (auto simp: h k insert_absorb domI)
qed

lemma coros_resume:
  assumes c: "coros_ok w" and t: "io_tasks w s = Some t" "myAsyncOp t = Some (AsyncOperation kind c)" and d: "dropping w \<noteq> Some s"
  shows "coros_ok (set_op s t ev None (c # stack w) res w)" (is "coros_ok ?w")
proof -
  have n: "s \<in> suspended w" using t d by (simp add: suspended_def task_is_def)
  have s: "suspended ?w = suspended w - {s}" using t d by (auto simp: suspended_def task_is_def)
  have f: "finite (suspended w)" by (rule finite_subset [of _ "dom (io_tasks w)"])
    (use c in \<open>auto simp: coros_ok_def suspended_def task_is_def split: option.splits\<close>)
  have h: "task_is (\<lambda>t. holds_coro x (myAsyncOp t)) u ?w \<longleftrightarrow> u \<noteq> s \<and> task_is (\<lambda>t. holds_coro x (myAsyncOp t)) u w" for x u
    by (simp add: task_is_def)
  have cs: "task_is (\<lambda>t. holds_coro c (myAsyncOp t)) s w" using t by (simp add: task_is_def)
  have "card (suspended w) = Suc (card (suspended w - {s}))" by (rule card.remove [OF f n])
  then have p: "promiseCount w = int (length (c # stack w)) + int (card (suspended w - {s}))" using c by (simp add: coros_ok_def)
  have a: "c \<notin> set (stack w)" using c n cs by (auto simp: coros_ok_def)
  have b: "u = s" if "u \<in> suspended w" "task_is (\<lambda>t. holds_coro c (myAsyncOp t)) u w" for u
    using c n cs that unfolding coros_ok_def by blast
  have d: "dom (io_tasks ?w) = dom (io_tasks w)" using t by (simp add: insert_absorb domI)
  show ?thesis unfolding coros_ok_def s d
  proof (intro conjI ballI allI impI)
    show "promiseCount ?w = int (length (stack ?w)) + int (card (suspended w - {s}))" using p by simp
    show "x \<notin> set (stack ?w)" if "u \<in> suspended w - {s}" "task_is (\<lambda>t. holds_coro x (myAsyncOp t)) u ?w" for u x
      using c b [of u] that by (auto simp: h coros_ok_def)
    show "u = v" if "u \<in> suspended w - {s}" "v \<in> suspended w - {s}" "task_is (\<lambda>t. holds_coro x (myAsyncOp t)) u ?w"
        "task_is (\<lambda>t. holds_coro x (myAsyncOp t)) v ?w" for u v x
      using c that unfolding h coros_ok_def by blast
  qed (use c a in \<open>auto simp: coros_ok_def\<close>)
qed

lemma coros_same:
  assumes c: "coros_ok w" and t: "io_tasks w s = Some t"
  shows "coros_ok (set_op s t ev (myAsyncOp t) (stack w) res w)" (is "coros_ok ?w")
proof -
  have h: "task_is P u ?w = task_is P u w" if "\<And>v e. P (v\<lparr>myEventsReady := e\<rparr>) = P v" for P u using t that [of ev t] by (simp add: task_is_def)
  have s: "suspended ?w = suspended w" by (simp add: suspended_def h)
  show ?thesis using c t by (auto simp: coros_ok_def s h insert_absorb domI)
qed

lemma io_inv_res [simp]: "io_inv (w\<lparr>co_res := x\<rparr>) = io_inv w"
  by (simp add: io_inv_def places_ok_def place_ok_def task_socks_ok_def socks_ok_def sock_ok_def event_ok_def size_ok_def coros_ok_def stack_ok_def
    ready_ok_def wake_ok_def woken_def reported_def suspended_def task_is_def todo_def current_def dropping_def batch_def sock_reg_def
    cong: loop_pc.case_cong option.case_cong if_cong)

fun need :: "op_kind \<Rightarrow> 32 word" where
  "need AsyncRecv = IO_EVENT_READ"
| "need AsyncSend = IO_EVENT_WRITE"
| "need AsyncAccept = IO_EVENT_READ"
| "need AsyncConnect = IO_EVENT_WRITE"

fun sys_effect :: "op_kind \<Rightarrow> int \<Rightarrow> nat \<Rightarrow> bool \<Rightarrow> io_world \<Rightarrow> io_world" where
  "sys_effect AsyncRecv = sys_recv"
| "sys_effect AsyncSend = sys_send"
| "sys_effect AsyncAccept = sys_accept"
| "sys_effect AsyncConnect = (\<lambda>fd n left w. w)"

text \<open>The outcome of the system call of an operation keeps the invariant.\<close>

lemma sys_effect_inv:
  assumes i: "io_inv w" and k: "socks w fd = Some k" and o: "outcome_ok kind (Done n left) k w" and e: "fd \<noteq> myEventFd w"
  shows "io_inv (sys_effect kind fd n left w)"
proof (cases kind)
  case AsyncAccept
  have j: "io_inv (set_sock fd (k\<lparr>can_read := left\<rparr>) w)" using o AsyncAccept by (intro consume_inv(1) [OF i k e]) simp
  have "socks (set_sock fd (k\<lparr>can_read := left\<rparr>) w) (int n) = None" using o k AsyncAccept by auto
  from open_fd_inv [OF j this] show ?thesis
    using AsyncAccept k by (simp add: sys_accept_def Let_def upd_sock_is_set set_sock_def)
qed (use o k i in \<open>auto simp: sys_recv_def sys_send_def upd_sock_is_set intro!: consume_inv [OF i k e]\<close>)

lemma sys_effect_fields [simp]:
  "io_tasks (sys_effect kind fd n left w) = io_tasks w" "stack (sys_effect kind fd n left w) = stack w" "lpc (sys_effect kind fd n left w) = lpc w"
  "sys_effect kind fd n left (set_op s t ev op cs res w) = set_op s t ev op cs res (sys_effect kind fd n left w)"
  by (cases kind; simp add: sys_recv_def sys_send_def sys_accept_def Let_def set_op_def set_iotask_def upd_sock_def)+

lemma not_event_fd:
  assumes "io_inv w" and "io_tasks w s = Some t" and "s \<noteq> myEventSub w"
  shows "myFd t \<noteq> myEventFd w"
proof (cases "in_destructor (lpc w)")
  case True
  then show ?thesis using io_invE(2,4) [OF assms(1)] assms(2) by (fastforce simp: task_socks_ok_def event_ok_def)
next
  case False
  then obtain b where "io_tasks w (myEventSub w) = Some b" "myFd b = myEventFd w"
    using io_invE(4) [OF assms(1)] by (auto simp: event_ok_def task_is_iff)
  then show ?thesis using io_invE(2) [OF assms(1)] assms(2,3) unfolding task_socks_ok_def by metis
qed

lemma task_sock:
  assumes "io_inv w" and "io_tasks w s = Some t"
  obtains k where "socks w (myFd t) = Some k" "0 \<le> myFd t"
proof -
  have "0 \<le> myFd t" "sock_reg w (myFd t) \<noteq> None" using io_invE(2) [OF assms(1)] assms(2) by (auto simp: task_socks_ok_def)
  then show ?thesis using that by (auto simp: sock_reg_def)
qed

section \<open>Starting an operation\<close>

lemma try_io_cases:
  assumes t: "io_tasks w s = Some t" and o: "r \<noteq> Sys_error"
  shows "(\<exists>n left. r = Done n left \<and> try_io e sys s r w = Inr (int n, sys (myFd t) n left w))
    \<or> (\<exists>ev. try_io e sys s r w = Inr (-1, set_iotask s (t\<lparr>myEventsReady := ev\<rparr>) w)
        \<and> (ev = myEventsReady t \<and> myEventsReady t AND e = 0 \<or> ev = myEventsReady t AND NOT e \<and> r = Would_block))"
proof (cases "myEventsReady t AND e = 0")
  case True
  have "set_iotask s (t\<lparr>myEventsReady := myEventsReady t\<rparr>) w = w" using t by (simp add: set_iotask_def fun_upd_idem)
  then show ?thesis using True t by (intro disjI2 exI [of _ "myEventsReady t"]) (simp add: try_io_def with_iotask_def)
next
  case False
  then show ?thesis using t o by (cases r) (simp_all add: try_io_def with_iotask_def)
qed

lemma async_new_cases:
  assumes t: "io_tasks w s = Some t" and o: "outcome_ok kind r k w"
  shows "(\<exists>n left m. r = Done n left \<and> async_new kind s r w = Inr (int m, sys_effect kind (myFd t) n left w))
    \<or> (\<exists>ev. async_new kind s r w = Inr (-1, set_iotask s (t\<lparr>myEventsReady := ev\<rparr>) w)
        \<and> (ev = myEventsReady t \<and> myEventsReady t AND need kind = 0 \<or> ev = myEventsReady t AND NOT (need kind) \<and> \<not> op_ready kind k))"
proof (cases "kind = AsyncConnect")
  case True
  then show ?thesis using t o
    by (cases r) (auto simp: AsyncConnect_new_def with_iotask_def intro!: exI [of _ "0::nat"])
next
  case False
  then have a: "async_new kind s r w = try_io (need kind) (sys_effect kind) s r w"
    by (cases kind) (simp_all add: AsyncRecv_execute_def AsyncSend_execute_def AsyncAccept_execute_def)
  have "r \<noteq> Sys_error" and b: "r = Would_block \<Longrightarrow> \<not> op_ready kind k" using o by auto
  from try_io_cases [OF t this(1), of "need kind" "sys_effect kind"] show ?thesis
    unfolding a using b by blast
qed

lemma co_await_inv:
  assumes i: "io_inv w" and c: "call_ok (Await kind s r) w"
  shows "\<exists>w'. co_await kind s r w = Inr w' \<and> io_inv w'"
proof -
  obtain t where t: "io_tasks w s = Some t" "myAsyncOp t = None" using c by (auto simp: task_is_iff)
  obtain k where k: "socks w (myFd t) = Some k" by (rule task_sock [OF i t(1)])
  have o: "outcome_ok kind r k w" using c t k by (simp add: sys_ok_def)
  have e: "s \<noteq> myEventSub w" using c by simp
  obtain x cs where st: "stack w = x # cs" using c by (cases "stack w") auto
  consider (ended) n left m where "r = Done n left" "async_new kind s r w = Inr (int m, sys_effect kind (myFd t) n left w)"
    | (wait) ev where "async_new kind s r w = Inr (-1, set_iotask s (t\<lparr>myEventsReady := ev\<rparr>) w)"
        "ev = myEventsReady t \<and> myEventsReady t AND need kind = 0 \<or> ev = myEventsReady t AND NOT (need kind) \<and> \<not> op_ready kind k"
    using async_new_cases [OF t(1) o] by blast
  then show ?thesis
  proof cases
    case (ended n left m)
    note r = ended(1) and a = ended(2)
    have "io_inv (sys_effect kind (myFd t) n left w)" using o r by (intro sys_effect_inv [OF i k _ not_event_fd [OF i t(1) e]]) simp
    then show ?thesis using a by (simp add: co_await_def io_bind_def)
  next
    case (wait ev)
    note a = wait(1) and b = wait(2)
    let ?w = "set_op s t ev (Some (AsyncOperation kind x)) cs (co_res w) w"
    have e1: "co_await kind s r w = Inr ?w"
      using a t st by (simp add: co_await_def io_bind_def await_suspend_def with_iotask_def set_op_def set_iotask_def)
    have d: "dropping w \<noteq> Some s"
    proof
      assume "dropping w = Some s"
      then show False using io_invE(7) [OF i] t by (auto simp: stack_ok_def dropping_def task_is_def split: loop_pc.splits)
    qed
    have j: "io_inv ?w"
    proof (rule set_op_inv [OF i t(1)])
      show "coros_ok ?w" by (rule coros_suspend [OF io_invE(6) [OF i] t d st])
      show "stack_ok ?w" using io_invE(7) [OF i] st t by (auto simp: stack_ok_def task_is_def split: loop_pc.splits)
      fix k1 assume n: "myState t \<noteq> IO_TASK_STATE_NEW" and "socks w (myFd t) = Some k1"
      then have k1: "k1 = k" using k by simp
      have "(waits_read t \<longrightarrow> can_read k \<longrightarrow> reported EPOLLIN s k w) \<and> (waits_write t \<longrightarrow> can_write k \<longrightarrow> reported EPOLLOUT s k w)"
        using io_invE(8) [OF i] t(1) n d k unfolding ready_ok_def by blast
      then show "(waits_read (t\<lparr>myEventsReady := ev, myAsyncOp := Some (AsyncOperation kind x)\<rparr>) \<longrightarrow> can_read k1 \<longrightarrow> reported EPOLLIN s k1 w)
          \<and> (waits_write (t\<lparr>myEventsReady := ev, myAsyncOp := Some (AsyncOperation kind x)\<rparr>) \<longrightarrow> can_write k1 \<longrightarrow> reported EPOLLOUT s k1 w)"
        using b t(2) by (cases kind) (auto simp: k1 and_mask_bits bit_and_iff bit_or_iff bit_not_iff bit_masks)
    qed (use e in simp)
    with e1 show ?thesis by blast
  qed
qed

section \<open>Events\<close>

lemma onIOEvent_cases:
  assumes t: "io_tasks w s = Some t" and o: "kind = AsyncConnect \<or> outcome_ok kind r k w"
  shows "(\<exists>ev. onIOEvent (AsyncOperation kind c) s r w = Inr (False, set_iotask s (t\<lparr>myEventsReady := ev\<rparr>) w)
        \<and> (ev = myEventsReady t \<and> myEventsReady t AND need kind = 0 \<or> ev = myEventsReady t AND NOT (need kind) \<and> \<not> op_ready kind k))
    \<or> (\<exists>m w1. onIOEvent (AsyncOperation kind c) s r w = Inr (True, resume c m w1)
        \<and> (w1 = w \<or> (\<exists>n left. r = Done n left \<and> kind \<noteq> AsyncConnect \<and> w1 = sys_effect kind (myFd t) n left w)))"
proof (cases "kind = AsyncConnect")
  case True
  have "set_iotask s (t\<lparr>myEventsReady := myEventsReady t\<rparr>) w = w" using t by (simp add: set_iotask_def fun_upd_idem)
  then show ?thesis using True t
    by (cases "myEventsReady t AND IO_EVENT_WRITE = 0 \<and> myState t \<noteq> IO_TASK_STATE_DELETING")
      (auto simp: AsyncConnect_onIOEvent_def with_iotask_def intro!: exI [of _ "myEventsReady t"])
next
  case False
  have w: "set_iotask s (t\<lparr>myEventsReady := myEventsReady t\<rparr>) w = w" using t by (simp add: set_iotask_def fun_upd_idem)
  have a: "onIOEvent (AsyncOperation kind c) s r w = io_event (need kind) (try_io (need kind) (sys_effect kind)) c s r w"
    using False by (cases kind) (simp_all add: AsyncRecv_onIOEvent_def AsyncSend_onIOEvent_def AsyncAccept_onIOEvent_def
      AsyncRecv_execute_def AsyncSend_execute_def AsyncAccept_execute_def)
  show ?thesis
  proof (cases "myEventsReady t AND need kind = 0")
    case True
    then show ?thesis using t w
      by (cases "myState t = IO_TASK_STATE_DELETING")
        (auto simp: a io_event_def with_iotask_def intro!: exI [of _ "myEventsReady t"])
  next
    case n: False
    have "r \<noteq> Sys_error" and b: "r = Would_block \<Longrightarrow> \<not> op_ready kind k" using o False by auto
    from try_io_cases [OF t this(1), of "need kind" "sys_effect kind"] n b False show ?thesis
      by (auto simp: a io_event_def with_iotask_def io_bind_def t; blast)
  qed
qed

text \<open>The first event of the batch has been handled: the task has learnt of it.\<close>

lemma pop_inv:
  assumes i: "io_inv w" and l: "lpc w = L_events ((s, ev) # rest)"
    and r: "\<And>t k. io_tasks w s = Some t \<Longrightarrow> myState t \<noteq> IO_TASK_STATE_NEW \<Longrightarrow> socks w (myFd t) = Some k \<Longrightarrow>
      (waits_read t \<longrightarrow> can_read k \<longrightarrow> ev AND EPOLLIN = 0) \<and> (waits_write t \<longrightarrow> can_write k \<longrightarrow> ev AND EPOLLOUT = 0)"
  shows "io_inv (w\<lparr>lpc := L_events rest\<rparr>)" (is "io_inv ?w")
proof (rule io_invI)
  have v: "todo ?w = todo w" "current ?w = current w" "dropping ?w = dropping w" "suspended ?w = suspended w"
    using l by (simp_all add: todo_def current_def dropping_def suspended_def task_is_def cong: option.case_cong)
  have ti: "task_is P u ?w = task_is P u w" for P u by (simp add: task_is_def)
  show "places_ok ?w" using io_invE(1) [OF i] by (simp add: places_ok_def place_ok_def v ti)
  show "task_socks_ok ?w" using io_invE(2) [OF i] by (simp add: task_socks_ok_def v sock_reg_def)
  show "socks_ok ?w" using io_invE(3) [OF i] l by (auto simp: socks_ok_def sock_ok_def batch_def ti cong: option.case_cong)
  show "event_ok ?w" using io_invE(4) [OF i] l by (simp add: event_ok_def ti)
  show "size_ok ?w" using io_invE(5) [OF i] l by (simp add: size_ok_def)
  show "coros_ok ?w" using io_invE(6) [OF i] by (simp add: coros_ok_def v ti)
  show "stack_ok ?w" using io_invE(7) [OF i] l by (simp add: stack_ok_def)
  show "wake_ok ?w" by (simp add: wake_ok_def)
  have rp: "reported e u k ?w" if "reported e u k w" "u \<noteq> s \<or> ev AND e = 0" for e u k
    using that l by (auto simp: reported_def batch_def)
  show "ready_ok ?w" unfolding ready_ok_def
  proof (intro allI impI)
    fix u t k assume u: "io_tasks ?w u = Some t" "myState t \<noteq> IO_TASK_STATE_NEW" "dropping ?w \<noteq> Some u" "socks ?w (myFd t) = Some k"
    then have "(waits_read t \<longrightarrow> can_read k \<longrightarrow> reported EPOLLIN u k w) \<and> (waits_write t \<longrightarrow> can_write k \<longrightarrow> reported EPOLLOUT u k w)"
      using io_invE(8) [OF i] v unfolding ready_ok_def by simp
    then show "(waits_read t \<longrightarrow> can_read k \<longrightarrow> reported EPOLLIN u k ?w) \<and> (waits_write t \<longrightarrow> can_write k \<longrightarrow> reported EPOLLOUT u k ?w)"
      using r [of t k] rp u by auto
  qed
qed

text \<open>The task is updated and the event is taken off the batch, in one move.\<close>

lemma event_inv:
  assumes i: "io_inv w" and l: "lpc w = L_events ((s, ev) # rest)" and t: "io_tasks w s = Some t"
    and c: "coros_ok (set_op s t ev' op cs res w)" and e: "s = myEventSub w \<Longrightarrow> op = None" and k: "socks w (myFd t) = Some k"
    and rd: "waits_read (t\<lparr>myEventsReady := ev', myAsyncOp := op\<rparr>) \<Longrightarrow> can_read k \<Longrightarrow> waits_read t \<and> ev AND EPOLLIN = 0"
    and wr: "waits_write (t\<lparr>myEventsReady := ev', myAsyncOp := op\<rparr>) \<Longrightarrow> can_write k \<Longrightarrow> waits_write t \<and> ev AND EPOLLOUT = 0"
  shows "io_inv (set_op s t ev' op cs res (w\<lparr>lpc := L_events rest\<rparr>))"
proof -
  have "io_inv (set_op s t ev' op cs res w)"
  proof (rule set_op_inv [OF i t e c])
    show "stack_ok (set_op s t ev' op cs res w)" using l by (simp add: stack_ok_def)
    fix k1 assume n: "myState t \<noteq> IO_TASK_STATE_NEW" "dropping w \<noteq> Some s" "socks w (myFd t) = Some k1"
    then have "(waits_read t \<longrightarrow> can_read k \<longrightarrow> reported EPOLLIN s k w) \<and> (waits_write t \<longrightarrow> can_write k \<longrightarrow> reported EPOLLOUT s k w)"
      using io_invE(8) [OF i] t k unfolding ready_ok_def by blast
    then show "(waits_read (t\<lparr>myEventsReady := ev', myAsyncOp := op\<rparr>) \<longrightarrow> can_read k1 \<longrightarrow> reported EPOLLIN s k1 w)
        \<and> (waits_write (t\<lparr>myEventsReady := ev', myAsyncOp := op\<rparr>) \<longrightarrow> can_write k1 \<longrightarrow> reported EPOLLOUT s k1 w)"
      using n k rd wr by auto
  qed
  then have "io_inv ((set_op s t ev' op cs res w)\<lparr>lpc := L_events rest\<rparr>)"
    by (rule pop_inv [where s = s and ev = ev]) (use l k rd wr in auto)
  moreover have "(set_op s t ev' op cs res w)\<lparr>lpc := L_events rest\<rparr> = set_op s t ev' op cs res (w\<lparr>lpc := L_events rest\<rparr>)"
    by (simp add: set_op_def set_iotask_def)
  ultimately show ?thesis by simp
qed

lemma outcome_ok_cong: "socks w' = socks w \<Longrightarrow> outcome_ok kind r k w' = outcome_ok kind r k w"
  by (cases r) simp_all

lemma sys_effect_resume:
  "resume c m (sys_effect kind fd n left (set_iotask s t w)) = sys_effect kind fd n left (resume c m (set_iotask s t w))"
  by (cases kind; simp add: sys_recv_def sys_send_def sys_accept_def Let_def set_iotask_def upd_sock_def resume_def)

lemma roll_event_inv:
  assumes i: "io_inv w" and l: "lpc w = L_events ((s, ev) # rest)" and g: "go_ok r w"
  shows "\<exists>w'. roll_event s ev r (w\<lparr>lpc := L_events rest\<rparr>) = Inr w' \<and> io_inv w'"
proof -
  let ?w = "w\<lparr>lpc := L_events rest\<rparr>"
  have b: "io_tasks w s \<noteq> None" "ev \<noteq> 0" "legal_mask ev" using io_invE(3) [OF i] l by (auto simp: socks_ok_def batch_def)
  then have no: "\<not> (ev AND NOT (EPOLLIN OR EPOLLOUT) \<noteq> 0 \<or> event_mask ev = 0)" using event_mask_0 by (simp add: legal_mask_def)
  obtain t where t: "io_tasks w s = Some t" using b by auto
  obtain k where k: "socks w (myFd t) = Some k" by (rule task_sock [OF i t])
  let ?e = "myEventsReady t OR event_mask ev"
  have d: "dropping w \<noteq> Some s" using l by (simp add: dropping_def)
  have wk: "waits_read (t\<lparr>myEventsReady := ?e, myAsyncOp := None\<rparr>) \<Longrightarrow> waits_read t \<and> ev AND EPOLLIN = 0"
    "waits_write (t\<lparr>myEventsReady := ?e, myAsyncOp := None\<rparr>) \<Longrightarrow> waits_write t \<and> ev AND EPOLLOUT = 0"
    by (auto simp: and_mask_bits bit_or_iff mask_bits)
  show ?thesis
  proof (cases "myAsyncOp t")
    case None
    have j: "io_inv (set_op s t ?e None (stack w) (co_res w) ?w)"
      by (rule event_inv [OF i l t _ _ k]) (use coros_same [OF io_invE(6) [OF i] t, of ?e "co_res w"] None wk in simp_all)
    have u: "t\<lparr>myEventsReady := ?e, myAsyncOp := None\<rparr> = t\<lparr>myEventsReady := ?e\<rparr>" using None by (cases t) simp
    have "set_op s t ?e None (stack w) (co_res w) ?w = set_iotask s (t\<lparr>myEventsReady := ?e\<rparr>) ?w"
      unfolding set_op_def u by (simp add: set_iotask_def)
    then have "roll_event s ev r ?w = Inr (set_op s t ?e None (stack w) (co_res w) ?w)"
      using no t None by (simp add: roll_event_def with_iotask_def)
    with j show ?thesis by blast
  next
    case (Some op)
    obtain kind c where op: "op = AsyncOperation kind c" by (cases op)
    let ?t = "t\<lparr>myEventsReady := ?e, myAsyncOp := None\<rparr>" and ?x = "set_iotask s (t\<lparr>myEventsReady := ?e, myAsyncOp := None\<rparr>) ?w"
    have ns: "s \<noteq> myEventSub w" using io_invE(4) [OF i] l t Some by (auto simp: event_ok_def task_is_def)
    have o: "outcome_ok kind r k w" using g l t Some op k by (simp add: go_ok_def sys_ok_def)
    then have o': "kind = AsyncConnect \<or> outcome_ok kind r k ?x" using outcome_ok_cong [of ?x w] by simp
    have x: "io_tasks ?x s = Some ?t" by simp
    have re: "roll_event s ev r ?w = io_bind (onIOEvent op s r ?x) (\<lambda>(ended, w1).
        if ended then Inr w1 else with_iotask s w1 (\<lambda>t2. Inr (set_iotask s (t2\<lparr>myAsyncOp := Some op\<rparr>) w1)))"
      using no t Some by (simp add: roll_event_def with_iotask_def)
    consider (kept) ev' where "onIOEvent op s r ?x = Inr (False, set_iotask s (?t\<lparr>myEventsReady := ev'\<rparr>) ?x)"
        "ev' = ?e \<and> ?e AND need kind = 0 \<or> ev' = ?e AND NOT (need kind) \<and> \<not> op_ready kind k"
      | (resumed) m w1 where "onIOEvent op s r ?x = Inr (True, resume c m w1)"
        "w1 = ?x \<or> (\<exists>n left. r = Done n left \<and> kind \<noteq> AsyncConnect \<and> w1 = sys_effect kind (myFd t) n left ?x)"
      using onIOEvent_cases [OF x o', of c] op by auto
    then show ?thesis
    proof cases
      case kept
      have "io_inv (set_op s t ev' (Some op) (stack w) (co_res w) ?w)"
      proof (rule event_inv [OF i l t _ _ k])
        show "coros_ok (set_op s t ev' (Some op) (stack w) (co_res w) w)" using coros_same [OF io_invE(6) [OF i] t] Some by metis
        show "waits_read t \<and> ev AND EPOLLIN = 0" if "waits_read (t\<lparr>myEventsReady := ev', myAsyncOp := Some op\<rparr>)" "can_read k"
          using that kept(2) Some by (cases kind) (auto simp: op and_mask_bits bit_and_iff bit_or_iff bit_not_iff bit_masks mask_bits)
        show "waits_write t \<and> ev AND EPOLLOUT = 0" if "waits_write (t\<lparr>myEventsReady := ev', myAsyncOp := Some op\<rparr>)" "can_write k"
          using that kept(2) Some by (cases kind) (auto simp: op and_mask_bits bit_and_iff bit_or_iff bit_not_iff bit_masks mask_bits)
      qed (use ns in simp)
      moreover have "roll_event s ev r ?w = Inr (set_op s t ev' (Some op) (stack w) (co_res w) ?w)"
        using kept(1) by (simp add: re io_bind_def with_iotask_def set_op_def set_iotask_def)
      ultimately show ?thesis by blast
    next
      case (resumed m w1)
      let ?y = "set_op s t ?e None (c # stack w) m ?w"
      have y: "io_inv ?y"
        by (rule event_inv [OF i l t coros_resume [OF io_invE(6) [OF i] t _ d] _ k]) (use Some op wk in simp_all)
      have yx: "?y = resume c m ?x" by (simp add: set_op_def set_iotask_def resume_def)
      have "io_inv (resume c m w1)"
        using resumed(2)
      proof
        assume "\<exists>n left. r = Done n left \<and> kind \<noteq> AsyncConnect \<and> w1 = sys_effect kind (myFd t) n left ?x"
        then obtain n left where n: "r = Done n left" "w1 = sys_effect kind (myFd t) n left ?x" by blast
        have oy: "outcome_ok kind (Done n left) k ?y" using o n outcome_ok_cong [of ?y w] by simp
        have "io_inv (sys_effect kind (myFd t) n left ?y)"
          by (rule sys_effect_inv [OF y _ oy]) (use k not_event_fd [OF i t ns] in auto)
        then show ?thesis using n yx sys_effect_resume by simp
      qed (use y yx in simp)
      then show ?thesis using resumed(1) by (simp add: re io_bind_def)
    qed
  qed
qed

section \<open>Tasks come and are marked\<close>

lemma live_in:
  assumes i: "io_inv w" and t: "io_tasks w s = Some t" and d: "dropping w \<noteq> Some s"
  shows "s \<in> set (myTasks w @ myQueue w)"
proof (cases "s \<in> set (todo w)")
  case True
  then show ?thesis using io_invE(1) [OF i] by (auto simp: places_ok_def)
next
  case False
  have "place_ok w s t" using io_invE(1) [OF i] t by (simp add: places_ok_def)
  then have "s \<in> set (current w)" using False d by (auto simp: place_ok_def intro: nth_mem)
  then show ?thesis by (auto simp: current_def split: loop_pc.splits dest: in_set_butlastD)
qed

lemma all_tasksD:
  assumes "io_inv w" and "all_tasks P w" and "io_tasks w s = Some t" and "dropping w \<noteq> Some s"
  shows "P s t"
proof -
  have "task_is (P s) s w" using live_in [OF assms(1,3,4)] assms(2) by (simp add: all_tasks_def list_all_iff)
  then show ?thesis using assms(3) by (simp add: task_is_def)
qed

lemma assert_all_ok: "list_all (\<lambda>s. task_is (P s) s w) ss \<Longrightarrow> assert_all P ss w = Inr ()"
  by (induction ss) (auto simp: with_iotask_def task_is_def split: option.splits)

lemma event_registered:
  assumes i: "io_inv w" and d: "\<not> in_destructor (lpc w)" and n: "\<not> task_is (\<lambda>t. myState t = IO_TASK_STATE_NEW) (myEventSub w) w"
  shows "sock_reg w (myEventFd w) = Some (Some (myEventSub w))"
proof -
  obtain t where t: "io_tasks w (myEventSub w) = Some t" "myFd t = myEventFd w" "myState t \<noteq> IO_TASK_STATE_DELETING"
    using io_invE(4) [OF i] d by (auto simp: event_ok_def task_is_iff)
  have "dropping w \<noteq> Some (myEventSub w)" using io_invE(1) [OF i] t by (auto simp: places_ok_def task_is_def)
  with task_reg [OF i t(1)] n t show ?thesis by (simp add: task_is_def)
qed

lemma event_open:
  assumes "io_inv w" and "\<not> in_destructor (lpc w)"
  obtains k where "socks w (myEventFd w) = Some k" "can_read k"
  using io_invE(4) [OF assms(1)] assms(2) by (auto simp: event_ok_def)

lemma woken_signal:
  assumes i: "io_inv w" and d: "\<not> in_destructor (lpc w)" and n: "\<not> task_is (\<lambda>t. myState t = IO_TASK_STATE_NEW) (myEventSub w) w"
  shows "woken (upd_sock (myEventFd w) (signal True False) w)"
  using event_registered [OF assms] by (auto simp: woken_def sock_reg_def signal_fields and_mask_bits bit_or_iff mask_bits)

lemma event_not_new: 
  assumes i: "io_inv w" and q: "todo w = []"
  shows "\<not> task_is (\<lambda>t. myState t = IO_TASK_STATE_NEW) (myEventSub w) w"
proof
  assume "task_is (\<lambda>t. myState t = IO_TASK_STATE_NEW) (myEventSub w) w"
  then obtain t where t: "io_tasks w (myEventSub w) = Some t" "myState t = IO_TASK_STATE_NEW" by (auto simp: task_is_iff)
  then have "place_ok w (myEventSub w) t" using io_invE(1) [OF i] by (simp add: places_ok_def)
  then have "dropping w = Some (myEventSub w)" using q t by (simp add: place_ok_def)
  then show False using io_invE(1) [OF i] t by (auto simp: places_ok_def task_is_def)
qed

lemma wait_woken:
  assumes i: "io_inv w" and l: "lpc w = L_wait"
  shows "woken (upd_sock (myEventFd w) (signal True False) w)"
proof (cases "myQueue w = []")
  case True
  then show ?thesis using woken_signal [OF i] event_not_new [OF i] l by (simp add: todo_def)
next
  case False
  then show ?thesis using io_invE(9) [OF i] l
    by (auto simp: wake_ok_def woken_def signal_fields and_mask_bits bit_or_iff mask_bits split: option.splits)
qed

lemma not_in_destructor: "\<not> mutex_locked pc \<Longrightarrow> pc \<noteq> L_destroyed \<Longrightarrow> \<not> in_destructor pc"
  by (cases pc) auto

definition enqueue :: "addr \<Rightarrow> IOTask \<Rightarrow> int \<Rightarrow> io_world \<Rightarrow> io_world" where
  "enqueue s t n w = (set_iotask s t w)\<lparr>myQueue := myQueue w @ [s], mySize := mySize w + 1, taskCount := taskCount w + n\<rparr>"

lemma enqueue_fields [simp]:
  "myEventFd (enqueue s t n w) = myEventFd w" "myEventSub (enqueue s t n w) = myEventSub w" "myIsStopped (enqueue s t n w) = myIsStopped w"
  "myTasks (enqueue s t n w) = myTasks w" "myQueue (enqueue s t n w) = myQueue w @ [s]" "mySize (enqueue s t n w) = mySize w + 1"
  "io_tasks (enqueue s t n w) = (io_tasks w)(s \<mapsto> t)" "socks (enqueue s t n w) = socks w" "lpc (enqueue s t n w) = lpc w"
  "stack (enqueue s t n w) = stack w" "promiseCount (enqueue s t n w) = promiseCount w" "taskCount (enqueue s t n w) = taskCount w + n"
  by (simp_all add: enqueue_def)

lemma enqueue_views:
  "\<not> mutex_locked (lpc w) \<Longrightarrow> todo (enqueue s t n w) = myQueue w @ [s]" "\<not> mutex_locked (lpc w) \<Longrightarrow> todo w = myQueue w"
  "current (enqueue s t n w) = current w" "dropping (enqueue s t n w) = dropping w" "\<not> mutex_locked (lpc w) \<Longrightarrow> dropping w = None"
  "batch (enqueue s t n w) = batch w" "sock_reg (enqueue s t n w) = sock_reg w" "reported e u k (enqueue s t n w) = reported e u k w"
  "woken (enqueue s t n w) = woken w"
  by (auto simp: todo_def current_def dropping_def batch_def sock_reg_def reported_def woken_def fun_eq_iff split: loop_pc.splits)

text \<open>\<open>subscribe\<close> adds a new task.\<close>

lemma enqueue_new_inv:
  assumes i: "io_inv w" and m: "\<not> mutex_locked (lpc w)" "lpc w \<noteq> L_destroyed" and s: "io_tasks w s = None" and f: "0 \<le> fd" "sock_reg w fd = Some None"
    and a: "\<And>u t. io_tasks w u = Some t \<Longrightarrow> myFd t \<noteq> fd" and k: "lpc w = L_wait \<Longrightarrow> woken w"
  shows "io_inv (enqueue s \<lparr>myState = IO_TASK_STATE_NEW, myFd = fd, myIdx = -1, myEventsReady = 0, myAsyncOp = None\<rparr> 1 w)" (is "io_inv (enqueue s ?t 1 w)")
proof (rule io_invI)
  let ?w = "enqueue s ?t 1 w"
  note v = enqueue_views(1-2,5) [OF m(1)] enqueue_views(3,4,6-9)
  have ti: "task_is P u ?w \<longleftrightarrow> (if u = s then P ?t else task_is P u w)" for P u by (simp add: task_is_def)
  have sq: "s \<notin> set (myQueue w)" "\<And>i. i < length (current w) \<Longrightarrow> current w ! i \<noteq> s" using io_invE(1) [OF i] s v by (auto simp: places_ok_def)
  show "places_ok ?w" using io_invE(1) [OF i] s sq
    by (auto simp: places_ok_def place_ok_def v ti)
  show "task_socks_ok ?w" using io_invE(2) [OF i] a f unfolding task_socks_ok_def v by (auto simp: task_socks_ok_def v)
  show "socks_ok ?w" using io_invE(3) [OF i] s
    by (fastforce simp: socks_ok_def sock_ok_def v ti task_is_def split: option.splits)
  show "event_ok ?w" using io_invE(4) [OF i] s not_in_destructor [OF m] by (auto simp: event_ok_def ti task_is_def)
  show "size_ok ?w" using io_invE(5) [OF i] m by (auto simp: size_ok_def split: loop_pc.splits)
  show "stack_ok ?w" using io_invE(7) [OF i] m by (auto simp: stack_ok_def split: loop_pc.splits)
  show "wake_ok ?w" using io_invE(9) [OF i] m k by (auto simp: wake_ok_def v)
  show "ready_ok ?w" using io_invE(8) [OF i] by (auto simp: ready_ok_def v)
  have "suspended ?w = suspended w" using s by (auto simp: suspended_def v ti task_is_def)
  moreover have "s \<notin> suspended w" using s by (simp add: suspended_def task_is_def)
  moreover have "card (insert s (dom (io_tasks w))) = Suc (card (dom (io_tasks w)))" using io_invE(6) [OF i] s by (simp add: coros_ok_def domIff)
  ultimately show "coros_ok ?w" using io_invE(6) [OF i] by (auto simp: coros_ok_def ti)
qed

lemma subscribe_inv:
  assumes i: "io_inv w" and c: "call_ok (Subscribe s fd) w"
  shows "\<exists>w'. subscribe s fd w = Inr w' \<and> io_inv w'"
proof -
  let ?t = "\<lparr>myState = IO_TASK_STATE_NEW, myFd = fd, myIdx = -1, myEventsReady = 0, myAsyncOp = None\<rparr>"
  let ?x = "upd_sock (myEventFd w) (signal True False) w"
  have m: "\<not> mutex_locked (lpc w)" "lpc w \<noteq> L_destroyed" and n: "io_tasks w s = None" and f: "0 \<le> fd" and a: "all_tasks (\<lambda>_ t. myFd t \<noteq> fd) w"
    and r: "sock_reg w fd = Some None" using c by (auto simp: sock_reg_def)
  obtain k where k: "socks w (myEventFd w) = Some k" by (rule event_open [OF i not_in_destructor [OF m]])
  have x: "io_inv ?x" by (rule signal_inv [OF i])
  have "sock_reg ?x fd = Some None" using r k by (auto simp: sock_reg_def signal_fields)
  then have "io_inv (enqueue s ?t 1 ?x)"
    using m n f all_tasksD [OF i a] wait_woken [OF i] enqueue_views(5) [OF m(1)] by (intro enqueue_new_inv [OF x]) auto
  moreover have "assert_all (\<lambda>_ t. myFd t \<noteq> fd) (myTasks w) w = Inr ()" "assert_all (\<lambda>_ t. myFd t \<noteq> fd) (myQueue w) w = Inr ()"
    using a by (auto simp: all_tasks_def intro!: assert_all_ok)
  then have "subscribe s fd w = Inr (enqueue s ?t 1 ?x)"
    using k by (simp add: subscribe_def io_bind_def wakeup_def IOTask_new_def enqueue_def set_iotask_def upd_sock_def)
  ultimately show ?thesis by blast
qed

text \<open>\<open>unsubscribe\<close> marks a task.\<close>

lemma enqueue_marked:
  assumes i: "io_inv w" and m: "\<not> mutex_locked (lpc w)" "lpc w \<noteq> L_destroyed" and t: "io_tasks w s = Some t" "myState t = IO_TASK_STATE_WORKING"
    and k: "lpc w = L_wait \<Longrightarrow> woken w"
  defines "w' \<equiv> enqueue s (t\<lparr>myState := IO_TASK_STATE_DELETING\<rparr>) 0 w"
  shows "places_ok w'" "task_socks_ok w'" "socks_ok w'" "size_ok w'" "coros_ok w'" "stack_ok w'" "ready_ok w'" "wake_ok w'"
    "s \<noteq> myEventSub w \<Longrightarrow> event_ok w'"
proof -
  let ?t = "t\<lparr>myState := IO_TASK_STATE_DELETING\<rparr>"
  note v = enqueue_views(1-2,5) [OF m(1)] enqueue_views(3,4,6-9)
  have ti: "task_is P u w' \<longleftrightarrow> (if u = s then P ?t else task_is P u w)" for P u by (simp add: task_is_def w'_def)
  have tj: "task_is P u w' = task_is P u w" if "\<And>v. P (v\<lparr>myState := IO_TASK_STATE_DELETING\<rparr>) = P v" for P u
    using t that [of t] by (simp add: task_is_def w'_def)
  have sq: "s \<notin> set (myQueue w)" using io_invE(1) [OF i] t v by (auto simp: places_ok_def place_ok_def)
  show "places_ok w'" using io_invE(1) [OF i] t sq unfolding places_ok_def place_ok_def ti unfolding w'_def v by (auto simp: v)
  show "task_socks_ok w'" using io_invE(2) [OF i] t unfolding task_socks_ok_def unfolding w'_def v by (auto simp: v)
  have so: "sock_ok w' = sock_ok w" by (simp add: fun_eq_iff sock_ok_def tj cong: option.case_cong)
  show "socks_ok w'" using io_invE(3) [OF i] t unfolding socks_ok_def so unfolding w'_def v by auto
  show "event_ok w'" if "s \<noteq> myEventSub w"
    using io_invE(4) [OF i] t that not_in_destructor [OF m] unfolding event_ok_def ti unfolding w'_def by auto
  show "size_ok w'" using io_invE(5) [OF i] m unfolding size_ok_def w'_def by (auto split: loop_pc.splits)
  show "stack_ok w'" using io_invE(7) [OF i] m unfolding stack_ok_def w'_def by (auto split: loop_pc.splits)
  show "wake_ok w'" using io_invE(9) [OF i] m k unfolding wake_ok_def ti unfolding w'_def v by auto
  show "ready_ok w'" using io_invE(8) [OF i] t unfolding ready_ok_def unfolding w'_def v by auto
  have "suspended w' = suspended w" unfolding suspended_def using tj by (auto simp: w'_def v)
  moreover have "task_is (\<lambda>t. holds_coro c (myAsyncOp t)) u w' = task_is (\<lambda>t. holds_coro c (myAsyncOp t)) u w" for c u by (rule tj) simp
  moreover have "taskCount w' = taskCount w" "promiseCount w' = promiseCount w" "stack w' = stack w" "dom (io_tasks w') = dom (io_tasks w)"
    using t by (auto simp: w'_def)
  ultimately show "coros_ok w'" using io_invE(6) [OF i] by (simp add: coros_ok_def)
qed

lemma unsubscribe_eq:
  assumes i: "io_inv w" and m: "\<not> mutex_locked (lpc w)" "lpc w \<noteq> L_destroyed" and t: "io_tasks w s = Some t" "myState t = IO_TASK_STATE_WORKING"
  shows "unsubscribe s w = Inr (enqueue s (t\<lparr>myState := IO_TASK_STATE_DELETING\<rparr>) 0 (upd_sock (myEventFd w) (signal True False) w))"
proof -
  obtain k where k: "socks w (myEventFd w) = Some k" by (rule event_open [OF i not_in_destructor [OF m]])
  have v: "todo w = myQueue w" "dropping w = None" "current w = myTasks w"
    using m by (auto simp: todo_def dropping_def current_def split: loop_pc.splits)
  have "place_ok w s t" using io_invE(1) [OF i] t by (simp add: places_ok_def)
  then have "s \<notin> set (myQueue w)" "0 \<le> myIdx t" "nat (myIdx t) < length (myTasks w)" "myTasks w ! nat (myIdx t) = s"
    using t by (auto simp: place_ok_def v)
  then show ?thesis using t k
    by (simp add: unsubscribe_def with_iotask_def wakeup_def enqueue_def set_iotask_def upd_sock_def)
qed

lemma unsubscribe_inv:
  assumes i: "io_inv w" and c: "call_ok (Unsubscribe s) w"
  shows "\<exists>w'. unsubscribe s w = Inr w' \<and> io_inv w'"
proof -
  let ?x = "upd_sock (myEventFd w) (signal True False) w"
  have m: "\<not> mutex_locked (lpc w)" "lpc w \<noteq> L_destroyed" and n: "s \<noteq> myEventSub w" using c by auto
  obtain t where t: "io_tasks w s = Some t" "myState t = IO_TASK_STATE_WORKING" using c by (auto simp: task_is_iff)
  have "io_inv (enqueue s (t\<lparr>myState := IO_TASK_STATE_DELETING\<rparr>) 0 ?x)"
    using enqueue_marked [OF signal_inv [OF i], of "myEventFd w" True False s t] m n t wait_woken [OF i] by (intro io_invI) auto
  then show ?thesis using unsubscribe_eq [OF i m t] by blast
qed

section \<open>The queue is processed\<close>

lemma queue_add_inv:
  assumes i: "io_inv w" and l: "lpc w = L_queue who (s # rest)" and t: "io_tasks w s = Some t" "myState t = IO_TASK_STATE_NEW"
  shows "\<exists>w'. queue_add who s rest t w = Inr w' \<and> io_inv w'"
proof -
  obtain k where k: "socks w (myFd t) = Some k" by (rule task_sock [OF i t(1)])
  have kr: "registered k = None" using io_invE(2) [OF i] t sock_reg_some [OF k] by (auto simp: task_socks_ok_def)
  let ?t = "t\<lparr>myState := IO_TASK_STATE_WORKING, myEventsReady := IO_EVENT_READ OR IO_EVENT_WRITE, myIdx := int (length (myTasks w))\<rparr>"
  let ?k = "k\<lparr>registered := Some s, pending := epoll_mask (can_read k) (can_write k)\<rparr>"
  let ?w = "(set_sock (myFd t) ?k (set_iotask s ?t w))\<lparr>myTasks := myTasks w @ [s], lpc := L_queue who rest\<rparr>"
  have e: "queue_add who s rest t w = Inr ?w"
    using k kr by (simp add: queue_add_def epoll_add_def io_bind_def upd_sock_def set_sock_def set_iotask_def Let_def)
  have v: "todo w = s # rest" "todo ?w = rest" "current w = myTasks w" "current ?w = myTasks w @ [s]" "dropping w = None" "dropping ?w = None"
    "batch w = []" "batch ?w = []" using l by (simp_all add: todo_def current_def dropping_def batch_def)
  have ti: "task_is P u ?w \<longleftrightarrow> (if u = s then P ?t else task_is P u w)" for P u by (simp add: task_is_def)
  have tj: "task_is P u ?w = task_is P u w" if "\<And>v a b c. P (v\<lparr>myState := a, myEventsReady := b, myIdx := c\<rparr>) = P v" for P u
    using t that [where v = t] by (simp add: task_is_def)
  have rg: "sock_reg ?w = (sock_reg w)(myFd t \<mapsto> Some s)" by (auto simp: sock_reg_def)
  have sf: "s \<notin> set (myTasks w)" 
    using io_invE(1) [OF i] t unfolding places_ok_def v by (auto simp: in_set_conv_nth)
  have places: "places_ok ?w"
    unfolding places_ok_def place_ok_def v ti
  proof (intro conjI allI impI)
    fix u x assume u: "io_tasks ?w u = Some x"
    have d: "distinct (s # rest)" using io_invE(1) [OF i] by (simp add: places_ok_def v)
    show "u \<in> set rest \<longleftrightarrow> myState x \<noteq> IO_TASK_STATE_WORKING \<and> None \<noteq> Some u"
      using u io_invE(1) [OF i] d unfolding places_ok_def place_ok_def v by (auto split: if_splits)
    assume n: "myState x \<noteq> IO_TASK_STATE_NEW"
    have "u \<noteq> s \<Longrightarrow> place_ok w u x" using u io_invE(1) [OF i] by (simp add: places_ok_def)
    then show "0 \<le> myIdx x" "nat (myIdx x) < length (myTasks w @ [s])" "(myTasks w @ [s]) ! nat (myIdx x) = u"
      using u n by (auto simp: place_ok_def v nth_append split: if_splits)
  next
    fix j assume "j < length (myTasks w @ [s])"
    then show "\<exists>t. io_tasks ?w ((myTasks w @ [s]) ! j) = Some t \<and> myIdx t = int j \<and> myState t \<noteq> IO_TASK_STATE_NEW \<and> None \<noteq> Some ((myTasks w @ [s]) ! j)"
      using io_invE(1) [OF i] sf by (cases "j < length (myTasks w)") (auto simp: places_ok_def v nth_append in_set_conv_nth less_Suc_eq)
  qed (use io_invE(1) [OF i] in \<open>auto simp: places_ok_def v\<close>)
  have "socks_ok ?w"
    unfolding socks_ok_def v
  proof (intro conjI allI impI)
    fix fd k' assume k': "socks ?w fd = Some k'"
    have "sock_ok w fd k'" if "fd \<noteq> myFd t" using socks_okD [OF i, of fd k'] k' that by simp
    moreover have "legal_mask (epoll_mask (can_read k) (can_write k))" by (simp add: legal_mask_bits mask_bits)
    ultimately show "sock_ok ?w fd k'" using k' by (cases "fd = myFd t") (auto simp: sock_ok_def tj ti task_is_simp [OF t(1)] split: option.splits)
  qed simp
  moreover have "task_socks_ok ?w"
    using io_invE(2) [OF i] t unfolding task_socks_ok_def v rg by (auto simp: v split: if_splits; metis)
  moreover have "event_ok ?w"
    using io_invE(4) [OF i] l t k unfolding event_ok_def ti by (cases "s = myEventSub w") (auto simp: task_is_iff split: if_splits)
  moreover have "size_ok ?w" using io_invE(5) [OF i] l by (auto simp: size_ok_def split: if_splits)
  moreover have "stack_ok ?w" using io_invE(7) [OF i] l by (simp add: stack_ok_def)
  moreover have "coros_ok ?w"
  proof -
    have "suspended ?w = suspended w" unfolding suspended_def v using tj by auto
    moreover have "task_is (\<lambda>t. holds_coro c (myAsyncOp t)) u ?w = task_is (\<lambda>t. holds_coro c (myAsyncOp t)) u w" for c u by (rule tj) simp
    ultimately show ?thesis using io_invE(6) [OF i] t by (simp add: coros_ok_def insert_absorb domI)
  qed
  moreover have "ready_ok ?w"
    unfolding ready_ok_def
  proof (intro allI impI)
    fix u x k' assume u: "io_tasks ?w u = Some x" "myState x \<noteq> IO_TASK_STATE_NEW" "dropping ?w \<noteq> Some u" "socks ?w (myFd x) = Some k'"
    show "(waits_read x \<longrightarrow> can_read k' \<longrightarrow> reported EPOLLIN u k' ?w) \<and> (waits_write x \<longrightarrow> can_write k' \<longrightarrow> reported EPOLLOUT u k' ?w)"
    proof (cases "u = s")
      case True
      then show ?thesis using u by (auto simp: reported_def and_mask_bits mask_bits)
    next
      case False
      then have "myFd x \<noteq> myFd t" using io_invE(2) [OF i] u t by (auto simp: task_socks_ok_def)
      then have "(waits_read x \<longrightarrow> can_read k' \<longrightarrow> reported EPOLLIN u k' w) \<and> (waits_write x \<longrightarrow> can_write k' \<longrightarrow> reported EPOLLOUT u k' w)"
        using io_invE(8) [OF i] u False unfolding ready_ok_def v by auto
      then show ?thesis by (simp add: reported_def v)
    qed
  qed
  moreover have "wake_ok ?w"
  proof (cases "s = myEventSub w \<and> \<not> in_destructor (lpc w)")
    case True
    then have "myFd t = myEventFd w" "can_read k" using io_invE(4) [OF i] t k by (auto simp: event_ok_def task_is_def)
    then have "woken ?w" by (simp add: woken_def and_mask_bits mask_bits)
    then show ?thesis by (simp add: wake_ok_def)
  next
    case False
    then show ?thesis using io_invE(9) [OF i] l k not_event_fd [OF i t(1)] unfolding wake_ok_def ti by (auto simp: woken_def)
  qed
  ultimately show ?thesis using e places io_invI by blast
qed

text \<open>The invariant in the middle of the deletion of a task, when no coroutine runs.\<close>

definition deleting_ok :: "caller \<Rightarrow> addr \<Rightarrow> addr list \<Rightarrow> io_world \<Rightarrow> bool" where
  "deleting_ok who s rest w \<longleftrightarrow> lpc w = L_cancel who s rest \<and> stack w = []
     \<and> places_ok w \<and> task_socks_ok w \<and> socks_ok w \<and> event_ok w \<and> size_ok w \<and> coros_ok w \<and> ready_ok w \<and> wake_ok w"

definition dropped :: "caller \<Rightarrow> addr \<Rightarrow> addr list \<Rightarrow> int \<Rightarrow> io_world \<Rightarrow> io_world" where
  "dropped who s rest fd w = w\<lparr>socks := (socks w)(fd := None), io_tasks := (io_tasks w)(s := None), taskCount := taskCount w - 1,
     myTasks := butlast (myTasks w), lpc := L_queue who rest\<rparr>"

lemma dropped_fields [simp]:
  "myEventFd (dropped who s rest fd w) = myEventFd w" "myEventSub (dropped who s rest fd w) = myEventSub w" "myIsStopped (dropped who s rest fd w) = myIsStopped w"
  "myTasks (dropped who s rest fd w) = butlast (myTasks w)" "myQueue (dropped who s rest fd w) = myQueue w" "mySize (dropped who s rest fd w) = mySize w"
  "io_tasks (dropped who s rest fd w) = (io_tasks w)(s := None)" "socks (dropped who s rest fd w) = (socks w)(fd := None)"
  "lpc (dropped who s rest fd w) = L_queue who rest"
  "stack (dropped who s rest fd w) = stack w" "promiseCount (dropped who s rest fd w) = promiseCount w" "taskCount (dropped who s rest fd w) = taskCount w - 1"
  by (simp_all add: dropped_def)

lemma dropped_inv:
  assumes d: "deleting_ok who s rest w" and t: "io_tasks w s = Some t"
  shows "io_inv (dropped who s rest (myFd t) w)" (is "io_inv ?w")
proof -
  have l: "lpc w = L_cancel who s rest" and st: "stack w = []" and I: "places_ok w" "task_socks_ok w" "socks_ok w" "event_ok w" "size_ok w" "coros_ok w" "ready_ok w" "wake_ok w"
    using d by (simp_all add: deleting_ok_def)
  have v: "todo w = rest" "todo ?w = rest" "current w = butlast (myTasks w)" "current ?w = butlast (myTasks w)" "dropping w = Some s" "dropping ?w = None"
    "batch w = []" "batch ?w = []" using l by (simp_all add: todo_def current_def dropping_def batch_def)
  have ti: "task_is P u ?w \<longleftrightarrow> u \<noteq> s \<and> task_is P u w" for P u by (simp add: task_is_def)
  have fd: "u = s" if "io_tasks w u = Some x" "myFd x = myFd t" for u x using I(2) t that by (auto simp: task_socks_ok_def)
  have rg: "sock_reg w (myFd t) = Some None" using I(2) t by (simp add: task_socks_ok_def v)
  have del: "myState t = IO_TASK_STATE_DELETING" using I(1) t by (simp add: places_ok_def v task_is_def)
  have sr: "s \<notin> set rest" using I(1) t unfolding places_ok_def place_ok_def v by auto
  have places: "places_ok ?w"
    unfolding places_ok_def v
  proof (intro conjI allI impI ballI)
    fix u x assume u: "io_tasks ?w u = Some x"
    then have "place_ok w u x" "u \<noteq> s" using I(1) by (auto simp: places_ok_def split: if_splits)
    then show "place_ok ?w u x" unfolding place_ok_def v by simp
  next
    fix j assume j: "j < length (butlast (myTasks w))"
    then obtain x where x: "io_tasks w (butlast (myTasks w) ! j) = Some x" "myIdx x = int j" "myState x \<noteq> IO_TASK_STATE_NEW"
        "butlast (myTasks w) ! j \<noteq> s"
      using I(1) unfolding places_ok_def v by blast
    then show "\<exists>x. io_tasks ?w (butlast (myTasks w) ! j) = Some x \<and> myIdx x = int j \<and> myState x \<noteq> IO_TASK_STATE_NEW
        \<and> None \<noteq> Some (butlast (myTasks w) ! j)" by simp
  qed (use I(1) sr in \<open>auto simp: places_ok_def v\<close>)
  have rg2: "sock_reg ?w = (sock_reg w)(myFd t := None)" by (auto simp: sock_reg_def)
  have "task_socks_ok ?w"
    using I(2) fd unfolding task_socks_ok_def v rg2 by (auto simp: v split: if_splits)
  moreover have "socks_ok ?w"
    unfolding socks_ok_def v
  proof (intro conjI allI impI)
    fix f k assume k: "socks ?w f = Some k"
    then have "f \<noteq> myFd t" "sock_ok w f k" using I(3) by (auto simp: socks_ok_def split: if_splits)
    then show "sock_ok ?w f k" using t by (auto simp: sock_ok_def ti task_is_iff split: option.splits)
  qed simp
  moreover have "event_ok ?w"
  proof (cases "who = From_destructor")
    case True
    then show ?thesis using I(4) l by (simp add: event_ok_def)
  next
    case False
    then have e: "task_is (\<lambda>t. myFd t = myEventFd w \<and> myAsyncOp t = None \<and> myState t \<noteq> IO_TASK_STATE_DELETING) (myEventSub w) w"
      "\<exists>k. socks w (myEventFd w) = Some k \<and> can_read k" using I(4) l by (auto simp: event_ok_def)
    then have "myEventSub w \<noteq> s" using del t by (auto simp: task_is_def)
    moreover from this e(1) fd have "myEventFd w \<noteq> myFd t" by (auto simp: task_is_iff)
    ultimately show ?thesis using e False by (simp add: event_ok_def ti)
  qed
  moreover have "size_ok ?w" using I(5) l by (auto simp: size_ok_def)
  moreover have "stack_ok ?w" using st by (simp add: stack_ok_def)
  moreover have "coros_ok ?w"
  proof -
    have "suspended ?w = suspended w" unfolding suspended_def v ti by auto
    moreover have "int (card (dom (io_tasks w) - {s})) = int (card (dom (io_tasks w))) - 1"
      using I(6) t card.remove [of "dom (io_tasks w)" s] by (simp add: coros_ok_def domI)
    ultimately show ?thesis using I(6) by (auto simp: coros_ok_def ti)
  qed
  moreover have "ready_ok ?w"
    using I(7) fd unfolding ready_ok_def v reported_def by (auto split: if_splits)
  moreover have "wake_ok ?w"
  proof (cases "who = From_destructor")
    case False
    then obtain b where b: "io_tasks w (myEventSub w) = Some b" "myFd b = myEventFd w" "myState b \<noteq> IO_TASK_STATE_DELETING"
      using I(4) l by (auto simp: event_ok_def task_is_iff)
    then have "myEventSub w \<noteq> s" using del t by auto
    moreover from this b fd [of "myEventSub w" b] have "myEventFd w \<noteq> myFd t" by auto
    ultimately show ?thesis using I(8) l by (auto simp: wake_ok_def ti woken_def)
  qed (simp add: wake_ok_def)
  ultimately show ?thesis using places io_invI by blast
qed

lemma queue_drop_eq:
  assumes d: "deleting_ok who s rest w" and t: "io_tasks w s = Some t"
  shows "queue_drop who s rest (set_iotask s (t\<lparr>myAsyncOp := None\<rparr>) w) = Inr (dropped who s rest (myFd t) w)"
proof -
  have p: "places_ok w" "task_socks_ok w" "lpc w = L_cancel who s rest" using d by (simp_all add: deleting_ok_def)
  then have "myState t = IO_TASK_STATE_DELETING" using t by (simp add: places_ok_def dropping_def task_is_def)
  moreover have "0 \<le> myFd t" "sock_reg w (myFd t) \<noteq> None" using p(2) t by (auto simp: task_socks_ok_def)
  moreover from this(2) have "socks w (myFd t) \<noteq> None" by (simp add: sock_reg_def)
  ultimately show ?thesis
    by (simp add: queue_drop_def IOTask_delete_def with_iotask_def io_bind_def close_fd_def dropped_def set_iotask_def)
qed

lemma queue_cancelled_inv:
  assumes i: "io_inv w" and l: "lpc w = L_cancel who s rest" and st: "stack w = []"
  shows "\<exists>w'. queue_cancelled who s rest w = Inr w' \<and> io_inv w'"
proof -
  have d: "deleting_ok who s rest w" using io_invE [OF i] l st by (simp add: deleting_ok_def)
  obtain t where t: "io_tasks w s = Some t" using io_invE(1) [OF i] l by (auto simp: places_ok_def dropping_def task_is_iff)
  show ?thesis using dropped_inv [OF d t] queue_drop_eq [OF d t] t by (simp add: queue_cancelled_def with_iotask_def)
qed

lemma coros_cong:
  assumes "suspended w' = suspended w" and "dom (io_tasks w') = dom (io_tasks w)" and "stack w' = stack w"
    and "promiseCount w' = promiseCount w" and "taskCount w' = taskCount w"
    and "\<And>u c. u \<in> suspended w \<Longrightarrow> task_is (\<lambda>t. holds_coro c (myAsyncOp t)) u w' = task_is (\<lambda>t. holds_coro c (myAsyncOp t)) u w"
  shows "coros_ok w' = coros_ok w"
  using assms by (simp add: coros_ok_def)

text \<open>The last task takes the place of one that is deleted.\<close>

definition taken :: "caller \<Rightarrow> addr \<Rightarrow> addr list \<Rightarrow> IOTask \<Rightarrow> io_sock \<Rightarrow> IOTask \<Rightarrow> 32 word \<Rightarrow> nat list \<Rightarrow> int \<Rightarrow> io_world \<Rightarrow> io_world" where
  "taken who s rest t k b ev st res w =
     w\<lparr>io_tasks := (io_tasks w)(last (myTasks w) \<mapsto> b\<lparr>myIdx := myIdx t\<rparr>, s \<mapsto> t\<lparr>myEventsReady := ev\<rparr>),
       socks := (socks w)(myFd t \<mapsto> k\<lparr>registered := None, pending := 0\<rparr>),
       myTasks := (myTasks w)[nat (myIdx t) := last (myTasks w)], lpc := L_cancel who s rest, stack := st, co_res := res\<rparr>"

lemma taken_fields [simp]:
  "myEventFd (taken who s rest t k b ev st res w) = myEventFd w" "myEventSub (taken who s rest t k b ev st res w) = myEventSub w"
  "myIsStopped (taken who s rest t k b ev st res w) = myIsStopped w"
  "myTasks (taken who s rest t k b ev st res w) = (myTasks w)[nat (myIdx t) := last (myTasks w)]" "myQueue (taken who s rest t k b ev st res w) = myQueue w"
  "mySize (taken who s rest t k b ev st res w) = mySize w"
  "io_tasks (taken who s rest t k b ev st res w) = (io_tasks w)(last (myTasks w) \<mapsto> b\<lparr>myIdx := myIdx t\<rparr>, s \<mapsto> t\<lparr>myEventsReady := ev\<rparr>)"
  "socks (taken who s rest t k b ev st res w) = (socks w)(myFd t \<mapsto> k\<lparr>registered := None, pending := 0\<rparr>)"
  "lpc (taken who s rest t k b ev st res w) = L_cancel who s rest" "stack (taken who s rest t k b ev st res w) = st"
  "promiseCount (taken who s rest t k b ev st res w) = promiseCount w" "taskCount (taken who s rest t k b ev st res w) = taskCount w"
  by (simp_all add: taken_def)

lemma task_at_index:
  assumes i: "io_inv w" and l: "lpc w = L_queue who q" and t: "io_tasks w s = Some t" "myState t \<noteq> IO_TASK_STATE_NEW"
  shows "0 \<le> myIdx t" "nat (myIdx t) < length (myTasks w)" "myTasks w ! nat (myIdx t) = s"
  using io_invE(1) [OF i] t l by (auto simp: places_ok_def place_ok_def current_def dropping_def)

lemma last_task:
  assumes i: "io_inv w" and l: "lpc w = L_queue who q" and n: "myTasks w \<noteq> []"
  obtains b where "io_tasks w (last (myTasks w)) = Some b" "myIdx b = int (length (myTasks w) - 1)" "myState b \<noteq> IO_TASK_STATE_NEW"
proof -
  have "length (myTasks w) - 1 < length (current w)" using n l by (simp add: current_def)
  with io_invE(1) [OF i] obtain b where "io_tasks w (current w ! (length (myTasks w) - 1)) = Some b" "myIdx b = int (length (myTasks w) - 1)"
      "myState b \<noteq> IO_TASK_STATE_NEW" unfolding places_ok_def by blast
  moreover have "current w ! (length (myTasks w) - 1) = last (myTasks w)" using n l by (simp add: current_def last_conv_nth)
  ultimately show ?thesis using that by simp
qed

lemma one_fd: "io_inv w \<Longrightarrow> io_tasks w s = Some t \<Longrightarrow> io_tasks w u = Some x \<Longrightarrow> myFd x = myFd t \<Longrightarrow> u = s"
  using io_invE(2) by (auto simp: task_socks_ok_def)

text \<open>What stays of each task.\<close>

lemma taken_tasks:
  fixes ev :: "32 word" and st :: "nat list" and res :: int
  assumes i: "io_inv w" and l: "lpc w = L_queue who (s # rest)" and t: "io_tasks w s = Some t" "myState t = IO_TASK_STATE_DELETING"
    and b: "io_tasks w (last (myTasks w)) = Some b" and k: "socks w (myFd t) = Some k"
  defines "w' \<equiv> taken who s rest t k b ev st res w"
  shows "\<And>u. io_tasks w' u = (if u = s then Some (t\<lparr>myEventsReady := ev\<rparr>) else if u = last (myTasks w) then Some (b\<lparr>myIdx := myIdx t\<rparr>) else io_tasks w u)"
    and "\<And>u x. io_tasks w' u = Some x \<Longrightarrow> \<exists>y. io_tasks w u = Some y \<and> myState x = myState y \<and> myFd x = myFd y \<and> myAsyncOp x = myAsyncOp y
      \<and> (u \<noteq> s \<longrightarrow> myEventsReady x = myEventsReady y)"
    and "\<And>P u. (\<And>v e. P (v\<lparr>myEventsReady := e\<rparr>) = P v) \<Longrightarrow> (\<And>v d. P (v\<lparr>myIdx := d\<rparr>) = P v) \<Longrightarrow> task_is P u w' = task_is P u w"
proof -
  show new: "io_tasks w' u = (if u = s then Some (t\<lparr>myEventsReady := ev\<rparr>) else if u = last (myTasks w) then Some (b\<lparr>myIdx := myIdx t\<rparr>) else io_tasks w u)" for u
    by (simp add: w'_def)
  show "\<exists>y. io_tasks w u = Some y \<and> myState x = myState y \<and> myFd x = myFd y \<and> myAsyncOp x = myAsyncOp y
      \<and> (u \<noteq> s \<longrightarrow> myEventsReady x = myEventsReady y)" if "io_tasks w' u = Some x" for u x
    using that t b by (auto simp: new split: if_splits)
  show "task_is P u w' = task_is P u w" if "\<And>v e. P (v\<lparr>myEventsReady := e\<rparr>) = P v" "\<And>v d. P (v\<lparr>myIdx := d\<rparr>) = P v" for P u
    using t b that(1) [where v = t] that(2) [where v = b] by (simp add: task_is_def new)
qed

lemma taken_places:
  fixes ev :: "32 word" and st :: "nat list" and res :: int
  assumes i: "io_inv w" and l: "lpc w = L_queue who (s # rest)" and t: "io_tasks w s = Some t" "myState t = IO_TASK_STATE_DELETING"
    and b: "io_tasks w (last (myTasks w)) = Some b" and k: "socks w (myFd t) = Some k"
  defines "w' \<equiv> taken who s rest t k b ev st res w"
  shows "places_ok w'"
proof -
  have v: "todo w = s # rest" "todo w' = rest" "current w = myTasks w" "current w' = butlast ((myTasks w)[nat (myIdx t) := last (myTasks w)])"
    "dropping w = None" "dropping w' = Some s" "batch w = []" "batch w' = []"
    using l by (simp_all add: todo_def current_def dropping_def batch_def w'_def)
  note T = taken_tasks [where ev = ev and st = st and res = res, OF i l t b k, folded w'_def]
  note new = T(1) and newE = T(2) and tj = T(3) and fd = one_fd [OF i t(1)]
  let ?T = "myTasks w" let ?j = "nat (myIdx t)" let ?n = "length (myTasks w) - 1" let ?C = "butlast ((myTasks w)[nat (myIdx t) := last (myTasks w)])"
  note at = task_at_index [OF i l t(1)]
  have j: "0 \<le> myIdx t" "?j < length ?T" "?T ! ?j = s" using at t(2) by simp_all
  then have ne: "?T \<noteq> []" by auto
  have bl: "last ?T = ?T ! ?n" using ne by (simp add: last_conv_nth)
  have old: "\<exists>x. io_tasks w (?T ! m) = Some x \<and> myIdx x = int m \<and> myState x \<noteq> IO_TASK_STATE_NEW" if "m < length ?T" for m
    using io_invE(1) [OF i] that unfolding places_ok_def v by blast
  have bi: "myIdx b = int ?n" using old [of ?n] b bl ne by auto
  have bn: "myState b \<noteq> IO_TASK_STATE_NEW" using old [of ?n] b bl ne by auto
  have uniq: "m = m'" if "m < length ?T" "m' < length ?T" "?T ! m = ?T ! m'" for m m' using old [OF that(1)] old [OF that(2)] that(3) by auto
  have C: "length ?C = ?n" "\<And>m. m < ?n \<Longrightarrow> ?C ! m = (if m = ?j then last ?T else ?T ! m)"
    using j by (simp_all add: nth_butlast nth_list_update)
  have sr: "s \<notin> set rest" using io_invE(1) [OF i] by (simp add: places_ok_def v)
  show "places_ok w'"
    unfolding places_ok_def
  proof (intro conjI allI impI ballI)
    fix u x assume x: "io_tasks w' u = Some x"
    then obtain y where y: "io_tasks w u = Some y" "myState x = myState y" using newE by blast
    have p: "place_ok w u y" using io_invE(1) [OF i] y by (simp add: places_ok_def)
    show "place_ok w' u x"
      unfolding place_ok_def v
    proof (intro conjI impI)
      show "u \<in> set rest \<longleftrightarrow> myState x \<noteq> IO_TASK_STATE_WORKING \<and> Some s \<noteq> Some u" using p sr y unfolding place_ok_def v by auto
      assume n: "myState x \<noteq> IO_TASK_STATE_NEW" and us: "Some s \<noteq> Some u"
      have q: "0 \<le> myIdx y" "nat (myIdx y) < length ?T" "?T ! nat (myIdx y) = u" using p n y unfolding place_ok_def v by auto
      have jn: "?j \<noteq> nat (myIdx y)" using j q us by auto
      have "0 \<le> myIdx x \<and> nat (myIdx x) < ?n \<and> ?C ! nat (myIdx x) = u"
      proof (cases "u = last ?T")
        case True
        then have "myIdx x = myIdx t" using x us by (auto simp: new)
        moreover have "nat (myIdx y) = ?n" using True y b bi by simp
        then have "?j < ?n" using jn j by auto
        ultimately show ?thesis using True C(2) [of ?j] j by simp
      next
        case False
        then have "x = y" using x y us by (simp add: new)
        moreover have "nat (myIdx y) \<noteq> ?n" using False q bl by auto
        ultimately show ?thesis using q C(2) [of "nat (myIdx y)"] jn by auto
      qed
      then show "0 \<le> myIdx x" "nat (myIdx x) < length ?C" "?C ! nat (myIdx x) = u" using C(1) by simp_all
    qed
  next
    fix m assume "m < length (current w')"
    then have m: "m < ?n" using C(1) by (simp add: v)
    show "\<exists>x. io_tasks w' (current w' ! m) = Some x \<and> myIdx x = int m \<and> myState x \<noteq> IO_TASK_STATE_NEW \<and> dropping w' \<noteq> Some (current w' ! m)"
    proof (cases "m = ?j")
      case True
      then have "last ?T \<noteq> s" using uniq [of ?j ?n] j m bl ne by auto
      then show ?thesis using True m C(2) [OF m] j bn unfolding v by (simp add: new)
    next
      case False
      then have "?T ! m \<noteq> s" "?T ! m \<noteq> last ?T" using uniq [of m ?j] uniq [of m ?n] j m bl ne False by (auto simp: less_diff_conv)
      then show ?thesis using old [of m] m C(2) [OF m] False unfolding v by (simp add: new)
    qed
  next
    show "distinct (todo w')" using io_invE(1) [OF i] by (simp add: places_ok_def v)
    show "io_tasks w' u \<noteq> None" if "u \<in> set (todo w')" for u using io_invE(1) [OF i] that by (auto simp: places_ok_def v new)
    show "set (todo w') \<subseteq> set (myQueue w')" using io_invE(1) [OF i] by (simp add: places_ok_def v) (simp add: w'_def)
    show "myTasks w' \<noteq> []" using ne by (simp add: w'_def)
    show "task_is (\<lambda>t. myState t = IO_TASK_STATE_DELETING) u w'" if "dropping w' = Some u" for u using that t by (simp add: v task_is_def new)
  qed
qed

lemma taken_socks:
  fixes ev :: "32 word" and st :: "nat list" and res :: int
  assumes i: "io_inv w" and l: "lpc w = L_queue who (s # rest)" and t: "io_tasks w s = Some t" "myState t = IO_TASK_STATE_DELETING"
    and b: "io_tasks w (last (myTasks w)) = Some b" and k: "socks w (myFd t) = Some k"
  defines "w' \<equiv> taken who s rest t k b ev st res w"
  shows "task_socks_ok w'" "socks_ok w'"
proof -
  have v: "todo w = s # rest" "todo w' = rest" "current w = myTasks w" "current w' = butlast ((myTasks w)[nat (myIdx t) := last (myTasks w)])"
    "dropping w = None" "dropping w' = Some s" "batch w = []" "batch w' = []"
    using l by (simp_all add: todo_def current_def dropping_def batch_def w'_def)
  note T = taken_tasks [where ev = ev and st = st and res = res, OF i l t b k, folded w'_def]
  note new = T(1) and newE = T(2) and tj = T(3) and fd = one_fd [OF i t(1)]
  have rg: "sock_reg w' = (sock_reg w)(myFd t \<mapsto> None)" by (auto simp: sock_reg_def w'_def)
  show "task_socks_ok w'"
    unfolding task_socks_ok_def v rg
  proof (intro conjI allI impI)
    fix u x assume x: "io_tasks w' u = Some x"
    obtain y where y: "io_tasks w u = Some y" "myState x = myState y" "myFd x = myFd y" using newE [OF x] by blast
    then have z: "0 \<le> myFd y" "sock_reg w (myFd y) = Some (if myState y = IO_TASK_STATE_NEW then None else Some u)"
      using io_invE(2) [OF i] by (auto simp: task_socks_ok_def v)
    show "0 \<le> myFd x" using z y by simp
    show "((sock_reg w)(myFd t \<mapsto> None)) (myFd x) = Some (if myState x = IO_TASK_STATE_NEW \<or> Some s = Some u then None else Some u)"
      using z y fd [of u y] t by (cases "u = s") auto
  next
    fix u u' x x' assume x: "io_tasks w' u = Some x" "io_tasks w' u' = Some x'" "myFd x = myFd x'"
    then show "u = u'" using newE [OF x(1)] newE [OF x(2)] io_invE(2) [OF i] unfolding task_socks_ok_def by metis
  qed
  show "socks_ok w'"
    unfolding socks_ok_def v
  proof (intro conjI allI impI)
    fix f k' assume k': "socks w' f = Some k'"
    show "sock_ok w' f k'"
    proof (cases "f = myFd t")
      case True
      then show ?thesis using k' by (auto simp: w'_def sock_ok_def)
    next
      case False
      then have "sock_ok w f k'" using k' socks_okD [OF i, of f k'] by (simp add: w'_def)
      moreover have "task_is (\<lambda>t. myFd t = f) u w' = task_is (\<lambda>t. myFd t = f) u w" for u by (rule tj) simp_all
      ultimately show ?thesis by (simp add: sock_ok_def cong: option.case_cong)
    qed
  qed simp
qed

lemma taken_rest:
  fixes ev :: "32 word" and st :: "nat list" and res :: int
  assumes i: "io_inv w" and l: "lpc w = L_queue who (s # rest)" and t: "io_tasks w s = Some t" "myState t = IO_TASK_STATE_DELETING"
    and b: "io_tasks w (last (myTasks w)) = Some b" and k: "socks w (myFd t) = Some k"
  defines "w' \<equiv> taken who s rest t k b ev st res w"
  shows "event_ok w'" "size_ok w'" "ready_ok w'" "wake_ok w'"
    "suspended w' = suspended w - {s}" "dom (io_tasks w') = dom (io_tasks w)"
    "\<And>u c. u \<noteq> s \<Longrightarrow> task_is (\<lambda>t. holds_coro c (myAsyncOp t)) u w' = task_is (\<lambda>t. holds_coro c (myAsyncOp t)) u w"
proof -
  have v: "todo w = s # rest" "todo w' = rest" "current w = myTasks w" "current w' = butlast ((myTasks w)[nat (myIdx t) := last (myTasks w)])"
    "dropping w = None" "dropping w' = Some s" "batch w = []" "batch w' = []"
    using l by (simp_all add: todo_def current_def dropping_def batch_def w'_def)
  note T = taken_tasks [where ev = ev and st = st and res = res, OF i l t b k, folded w'_def]
  note new = T(1) and newE = T(2) and tj = T(3) and fd = one_fd [OF i t(1)]
  show "size_ok w'" using io_invE(5) [OF i] l by (auto simp: size_ok_def w'_def split: if_splits)
  show sus: "suspended w' = suspended w - {s}"
  proof -
    have "task_is (\<lambda>t. myAsyncOp t \<noteq> None) u w' = task_is (\<lambda>t. myAsyncOp t \<noteq> None) u w" for u by (rule tj) simp_all
    then show ?thesis by (auto simp: suspended_def v)
  qed
  show "dom (io_tasks w') = dom (io_tasks w)" using t b by (auto simp: w'_def)
  show "task_is (\<lambda>t. holds_coro c (myAsyncOp t)) u w' = task_is (\<lambda>t. holds_coro c (myAsyncOp t)) u w" for u c by (rule tj) simp_all
  have ev: "task_is (\<lambda>t. myFd t = f \<and> myAsyncOp t = None \<and> myState t \<noteq> IO_TASK_STATE_DELETING) u w'
      = task_is (\<lambda>t. myFd t = f \<and> myAsyncOp t = None \<and> myState t \<noteq> IO_TASK_STATE_DELETING) u w" for u f by (rule tj) simp_all
  have evn: "task_is (\<lambda>t. myState t = IO_TASK_STATE_NEW) u w' = task_is (\<lambda>t. myState t = IO_TASK_STATE_NEW) u w" for u by (rule tj) simp_all
  have nf: "myEventFd w \<noteq> myFd t" if "who \<noteq> From_destructor"
  proof -
    obtain x where x: "io_tasks w (myEventSub w) = Some x" "myFd x = myEventFd w" "myState x \<noteq> IO_TASK_STATE_DELETING"
      using io_invE(4) [OF i] l \<open>who \<noteq> From_destructor\<close> by (auto simp: event_ok_def task_is_iff)
    then have "myEventSub w \<noteq> s" using t by auto
    then show ?thesis using fd [OF x(1)] x(2) by auto
  qed
  show "event_ok w'"
  proof (cases "who = From_destructor")
    case True
    then have "myEventFd w < 0" "\<forall>s t. io_tasks w s = Some t \<longrightarrow> myState t = IO_TASK_STATE_DELETING"
      using io_invE(4) [OF i] l by (auto simp: event_ok_def)
    then have "myState x = IO_TASK_STATE_DELETING" if "io_tasks w' u = Some x" for u x using newE [OF that] by auto
    with True \<open>myEventFd w < 0\<close> show ?thesis by (auto simp: event_ok_def w'_def)
  next
    case False
    then show ?thesis using io_invE(4) [OF i] l nf unfolding event_ok_def ev by (simp add: w'_def ev)
  qed
  show "wake_ok w'"
    using io_invE(9) [OF i] l nf unfolding wake_ok_def evn by (auto simp: w'_def woken_def)
  show "ready_ok w'"
    unfolding ready_ok_def
  proof (intro allI impI)
    fix u x k' assume u: "io_tasks w' u = Some x" "myState x \<noteq> IO_TASK_STATE_NEW" "dropping w' \<noteq> Some u" "socks w' (myFd x) = Some k'"
    obtain y where y: "io_tasks w u = Some y" "myState x = myState y" "myFd x = myFd y" "myAsyncOp x = myAsyncOp y" "myEventsReady x = myEventsReady y"
      using newE [OF u(1)] u(3) v by auto
    then have "myFd x \<noteq> myFd t" using fd [of u y] u(3) v by auto
    then have "(waits_read y \<longrightarrow> can_read k' \<longrightarrow> reported EPOLLIN u k' w) \<and> (waits_write y \<longrightarrow> can_write k' \<longrightarrow> reported EPOLLOUT u k' w)"
      using io_invE(8) [OF i] y u unfolding ready_ok_def v by (simp add: w'_def)
    then show "(waits_read x \<longrightarrow> can_read k' \<longrightarrow> reported EPOLLIN u k' w') \<and> (waits_write x \<longrightarrow> can_write k' \<longrightarrow> reported EPOLLOUT u k' w')"
      using y by (simp add: reported_def v)
  qed
qed

lemma onIOEvent_cancel:
  assumes "io_tasks w s = Some t" and "myEventsReady t = 0" and "myState t = IO_TASK_STATE_DELETING"
  shows "onIOEvent (AsyncOperation kind c) s r w = Inr (True, resume c (-1) w)"
  using assms by (cases kind) (simp_all add: AsyncRecv_onIOEvent_def AsyncSend_onIOEvent_def AsyncAccept_onIOEvent_def AsyncConnect_onIOEvent_def
    io_event_def with_iotask_def)

lemma queue_drop_lpc: "queue_drop who s rest (w\<lparr>lpc := pc\<rparr>) = queue_drop who s rest w"
  by (simp add: queue_drop_def IOTask_delete_def with_iotask_def io_bind_def close_fd_def split: option.split)

lemma queue_delete_eq:
  assumes i: "io_inv w" and l: "lpc w = L_queue who (s # rest)" and t: "io_tasks w s = Some t" "myState t = IO_TASK_STATE_DELETING"
    and b: "io_tasks w (last (myTasks w)) = Some b" and k: "socks w (myFd t) = Some k"
  shows "queue_delete who s rest t w =
    (case myAsyncOp t of
       None \<Rightarrow> queue_drop who s rest (taken who s rest t k b (myEventsReady t) (stack w) (co_res w) w)
     | Some (AsyncOperation kind c) \<Rightarrow> Inr (taken who s rest t k b 0 (c # stack w) (-1) w))"
proof -
  let ?T = "myTasks w" let ?b = "b\<lparr>myIdx := myIdx t\<rparr>"
  let ?x = "w\<lparr>io_tasks := (io_tasks w)(last ?T \<mapsto> ?b), myTasks := ?T[nat (myIdx t) := last ?T],
    socks := (socks w)(myFd t \<mapsto> k\<lparr>registered := None, pending := 0\<rparr>)\<rparr>"
  have j: "0 \<le> myIdx t" "nat (myIdx t) < length ?T" "?T ! nat (myIdx t) = s" using task_at_index [OF i l t(1)] t(2) by simp_all
  have f: "0 \<le> myFd t" using io_invE(2) [OF i] t by (simp add: task_socks_ok_def)
  have r: "registered k = Some s" using task_reg [OF i t(1)] t(2) l sock_reg_some [OF k] by (simp add: dropping_def)
  have xs: "io_tasks ?x s = Some t" using t b by auto
  then have xe: "(io_tasks w)(last ?T \<mapsto> ?b, s \<mapsto> t) = (io_tasks w)(last ?T \<mapsto> ?b)" by (simp add: fun_upd_idem)
  have e: "queue_delete who s rest t w =
    (case myAsyncOp t of None \<Rightarrow> queue_drop who s rest ?x
     | Some op \<Rightarrow> io_bind (onIOEvent op s Would_block (set_iotask s (t\<lparr>myEventsReady := 0\<rparr>) ?x)) (\<lambda>(ended, w3). Inr (w3\<lparr>lpc := L_cancel who s rest\<rparr>)))"
    using j f b k r xs by (auto simp: queue_delete_def with_iotask_def epoll_del_def io_bind_def set_iotask_def upd_sock_def split: option.split)
  show ?thesis
  proof (cases "myAsyncOp t")
    case None
    have "taken who s rest t k b (myEventsReady t) (stack w) (co_res w) w = ?x\<lparr>lpc := L_cancel who s rest\<rparr>"
      using xe by (intro io_world.equality) (simp_all add: taken_def)
    then show ?thesis using e None queue_drop_lpc by simp
  next
    case (Some op)
    then obtain kind c where op: "op = AsyncOperation kind c" by (cases op)
    have "onIOEvent op s Would_block (set_iotask s (t\<lparr>myEventsReady := 0\<rparr>) ?x) = Inr (True, resume c (-1) (set_iotask s (t\<lparr>myEventsReady := 0\<rparr>) ?x))"
      unfolding op by (rule onIOEvent_cancel [where t = "t\<lparr>myEventsReady := 0\<rparr>"]) (use t in simp_all)
    moreover have "(resume c (-1) (set_iotask s (t\<lparr>myEventsReady := 0\<rparr>) ?x))\<lparr>lpc := L_cancel who s rest\<rparr> = taken who s rest t k b 0 (c # stack w) (-1) w"
      by (intro io_world.equality) (simp_all add: taken_def resume_def set_iotask_def)
    ultimately show ?thesis using e Some op by (simp add: io_bind_def)
  qed
qed

lemma queue_delete_inv:
  assumes i: "io_inv w" and l: "lpc w = L_queue who (s # rest)" and t: "io_tasks w s = Some t" "myState t = IO_TASK_STATE_DELETING"
  shows "\<exists>w'. queue_delete who s rest t w = Inr w' \<and> io_inv w'"
proof -
  obtain k where k: "socks w (myFd t) = Some k" by (rule task_sock [OF i t(1)])
  have "myTasks w \<noteq> []" using task_at_index [OF i l t(1)] t(2) by auto
  then obtain b where b: "io_tasks w (last (myTasks w)) = Some b" using last_task [OF i l] by blast
  have st: "stack w = []" using io_invE(7) [OF i] l by (simp add: stack_ok_def)
  note P = taken_places [OF i l t b k] taken_socks [OF i l t b k] taken_rest [OF i l t b k]
  show ?thesis
  proof (cases "myAsyncOp t")
    case None
    let ?w = "taken who s rest t k b (myEventsReady t) (stack w) (co_res w) w"
    have ns: "s \<notin> suspended w" using None t by (simp add: suspended_def task_is_def)
    have sw: "suspended ?w = suspended w" using P(8) ns by blast
    have "coros_ok ?w \<longleftrightarrow> coros_ok w"
    proof (rule coros_cong [OF sw P(9)])
      show "task_is (\<lambda>t. holds_coro c (myAsyncOp t)) u ?w = task_is (\<lambda>t. holds_coro c (myAsyncOp t)) u w" if "u \<in> suspended w" for u c
        using P(10) [of u] ns that by auto
    qed simp_all
    then have d: "deleting_ok who s rest ?w" using P io_invE(6) [OF i] st by (simp add: deleting_ok_def)
    have x: "io_tasks ?w s = Some t" by simp
    have "t\<lparr>myAsyncOp := None\<rparr> = t" using None by (cases t) simp
    then have "set_iotask s (t\<lparr>myAsyncOp := None\<rparr>) ?w = ?w" using x by (simp only: set_iotask_def) (simp add: fun_upd_idem)
    then have "queue_delete who s rest t w = Inr (dropped who s rest (myFd t) ?w)"
      using queue_drop_eq [OF d x] queue_delete_eq [OF i l t b k] None by simp
    then show ?thesis using dropped_inv [OF d x] by blast
  next
    case (Some op)
    then obtain kind c where op: "myAsyncOp t = Some (AsyncOperation kind c)" by (cases op) simp
    let ?w = "taken who s rest t k b 0 (c # stack w) (-1) w" and ?y = "set_op s t 0 None (c # stack w) (-1) w"
    have dn: "dropping w \<noteq> Some s" using l by (simp add: dropping_def)
    have y: "coros_ok ?y" by (rule coros_resume [OF io_invE(6) [OF i] t(1) op dn])
    have sy: "suspended ?y = suspended w - {s}" using t dn by (auto simp: suspended_def task_is_def)
    have "coros_ok ?w \<longleftrightarrow> coros_ok ?y"
    proof (rule coros_cong)
      show "suspended ?w = suspended ?y" using P(8) sy by simp
      show "dom (io_tasks ?w) = dom (io_tasks ?y)" using P(9) t by auto
      show "task_is (\<lambda>t. holds_coro d (myAsyncOp t)) u ?w = task_is (\<lambda>t. holds_coro d (myAsyncOp t)) u ?y" if "u \<in> suspended ?y" for u d
      proof -
        have "u \<noteq> s" using that sy by simp
        then show ?thesis using P(10) [of u] by (simp add: task_is_def)
      qed
    qed simp_all
    moreover have "stack_ok ?w" using op by (simp add: stack_ok_def task_is_def)
    ultimately have "io_inv ?w" using P y by (intro io_invI) simp_all
    moreover have "queue_delete who s rest t w = Inr ?w" using queue_delete_eq [OF i l t b k] op by simp
    ultimately show ?thesis by blast
  qed
qed

lemma queue_next_inv:
  assumes i: "io_inv w" and l: "lpc w = L_queue who (s # rest)"
  shows "\<exists>w'. queue_next who s rest w = Inr w' \<and> io_inv w'"
proof -
  have v: "todo w = s # rest" "dropping w = None" using l by (simp_all add: todo_def dropping_def)
  then obtain t where t: "io_tasks w s = Some t" using io_invE(1) [OF i] by (auto simp: places_ok_def)
  then have "place_ok w s t" using io_invE(1) [OF i] by (simp add: places_ok_def)
  then have "myState t \<noteq> IO_TASK_STATE_WORKING" by (simp add: place_ok_def v)
  then show ?thesis using queue_add_inv [OF i l t] queue_delete_inv [OF i l t] t
    by (cases "myState t") (simp_all add: queue_next_def with_iotask_def)
qed

section \<open>The loop goes on\<close>

text \<open>The thread of the loop changes its place, and tasks and descriptors stay.\<close>

lemma loop_move:
  assumes P: "places_ok w" "task_socks_ok w" "socks_ok w" "coros_ok w" "ready_ok w"
    and f: "io_tasks w' = io_tasks w" "socks w' = socks w" "myTasks w' = myTasks w" "stack w' = stack w" "promiseCount w' = promiseCount w"
      "taskCount w' = taskCount w"
    and v: "todo w' = todo w" "current w' = current w" "dropping w' = dropping w" "batch w = []" "batch w' = []" "set (todo w') \<subseteq> set (myQueue w')"
    and Q: "event_ok w'" "size_ok w'" "stack_ok w'" "wake_ok w'"
  shows "io_inv w'"
proof (rule io_invI)
  have ti: "task_is P u w' = task_is P u w" for P u by (simp add: task_is_def f)
  show "places_ok w'" using P(1) v(6) by (simp add: places_ok_def place_ok_def v f ti)
  show "task_socks_ok w'" using P(2) by (simp add: task_socks_ok_def sock_reg_def v f)
  have so: "sock_ok w' = sock_ok w" by (simp add: fun_eq_iff sock_ok_def ti cong: option.case_cong)
  show "socks_ok w'" using P(3) by (simp add: socks_ok_def so v f)
  have "suspended w' = suspended w" by (simp add: suspended_def v ti)
  then show "coros_ok w'" using P(4) by (simp add: coros_ok_def f ti)
  show "ready_ok w'" using P(5) by (simp add: ready_ok_def reported_def v f)
qed (use Q in simp_all)

lemma io_inv_moves:
  assumes "io_inv w"
  shows "places_ok w" "task_socks_ok w" "socks_ok w" "coros_ok w" "ready_ok w"
  using io_invE [OF assms] by simp_all

lemma places_todo: "places_ok w \<Longrightarrow> set (todo w) \<subseteq> set (myQueue w)"
  by (simp add: places_ok_def)

lemma queue_done_inv:
  assumes i: "io_inv w" and l: "lpc w = L_queue who []"
  shows "\<exists>w'. queue_done who w = Inr w' \<and> io_inv w'"
proof -
  let ?x = "if mySize w = 0 \<or> myQueue w = [] then w else w\<lparr>myQueue := [], mySize := length (myTasks w)\<rparr>"
  have st: "stack w = []" using io_invE(7) [OF i] l by (simp add: stack_ok_def)
  have sz: "myQueue w = [] \<and> mySize w = length (myTasks w) \<or> myQueue w \<noteq> [] \<and> mySize w \<noteq> 0"
    using io_invE(5) [OF i] l by (auto simp: size_ok_def split: if_splits)
  then have x: "myQueue ?x = []" "mySize ?x = length (myTasks w)" by auto
  have v: "todo w = []" "current w = myTasks w" "dropping w = None" "batch w = []" using l by (simp_all add: todo_def current_def dropping_def batch_def)
  have nn: "\<not> task_is (\<lambda>t. myState t = IO_TASK_STATE_NEW) (myEventSub w) w" using event_not_new [OF i] v by simp
  show ?thesis
  proof (cases who)
    case From_roll
    have "io_inv (?x\<lparr>lpc := L_wait\<rparr>)"
    proof (rule loop_move [OF io_inv_moves [OF i]])
      show "event_ok (?x\<lparr>lpc := L_wait\<rparr>)" using io_invE(4) [OF i] l From_roll by (simp add: event_ok_def task_is_def cong: option.case_cong)
      have "woken w" if "myIsStopped w" using io_invE(9) [OF i] l From_roll nn that by (simp add: wake_ok_def)
      then show "wake_ok (?x\<lparr>lpc := L_wait\<rparr>)" using x by (simp add: wake_ok_def woken_def)
    qed (use x v st in \<open>simp_all add: todo_def current_def dropping_def batch_def size_ok_def stack_ok_def\<close>)
    then show ?thesis using From_roll by (simp add: queue_done_def Let_def)
  next
    case From_destructor
    have e: "myTasks w = []"
    proof (rule ccontr)
      assume "myTasks w \<noteq> []"
      then obtain t where t: "io_tasks w (myTasks w ! 0) = Some t" using io_invE(1) [OF i] unfolding places_ok_def v by blast
      then have "place_ok w (myTasks w ! 0) t" "myState t = IO_TASK_STATE_DELETING"
        using io_invE(1,4) [OF i] l From_destructor by (auto simp: places_ok_def event_ok_def)
      then show False by (simp add: place_ok_def v)
    qed
    have "io_inv (?x\<lparr>lpc := L_destroyed\<rparr>)"
    proof (rule loop_move [OF io_inv_moves [OF i]])
      show "event_ok (?x\<lparr>lpc := L_destroyed\<rparr>)" using io_invE(4) [OF i] l From_destructor by (simp add: event_ok_def task_is_def)
      show "wake_ok (?x\<lparr>lpc := L_destroyed\<rparr>)" by (simp add: wake_ok_def)
    qed (use x v st e in \<open>simp_all add: todo_def current_def dropping_def batch_def size_ok_def stack_ok_def\<close>)
    then show ?thesis using From_destructor x e by (simp add: queue_done_def Let_def)
  qed
qed

lemma loop_end_inv:
  assumes i: "io_inv w" and l: "lpc w = L_events [] \<or> lpc w = L_wait"
  shows "io_inv (w\<lparr>lpc := L_idle\<rparr>)"
proof (rule loop_move [OF io_inv_moves [OF i]])
  show "event_ok (w\<lparr>lpc := L_idle\<rparr>)" using io_invE(4) [OF i] l by (auto simp: event_ok_def task_is_def)
  show "size_ok (w\<lparr>lpc := L_idle\<rparr>)" using io_invE(5) [OF i] l by (auto simp: size_ok_def)
  show "set (todo (w\<lparr>lpc := L_idle\<rparr>)) \<subseteq> set (myQueue (w\<lparr>lpc := L_idle\<rparr>))" by (simp add: todo_def)
qed (use l in \<open>auto simp: todo_def current_def dropping_def batch_def stack_ok_def wake_ok_def\<close>)

lemma processQueues_inv:
  assumes i: "io_inv w" and l: "lpc w = L_idle" and st: "stack w = []" and n: "\<not> myIsStopped w"
  shows "io_inv (processQueues From_roll w)"
proof -
  have q: "(if mySize w = 0 then [] else myQueue w) = myQueue w" using io_invE(5) [OF i] l by (simp add: size_ok_def)
  show ?thesis
    unfolding processQueues_def q
  proof (rule loop_move [OF io_inv_moves [OF i]])
    let ?w = "w\<lparr>lpc := L_queue From_roll (myQueue w)\<rparr>"
    show "event_ok ?w" using io_invE(4) [OF i] l by (auto simp: event_ok_def task_is_def)
    show "size_ok ?w" using io_invE(5) [OF i] l by (auto simp: size_ok_def)
  qed (use l st n in \<open>auto simp: todo_def current_def dropping_def batch_def stack_ok_def wake_ok_def\<close>)
qed

lemma IOCore_delete_inv:
  assumes i: "io_inv w" and c: "call_ok Delete_core w"
  shows "\<exists>w'. IOCore_delete w = Inr w' \<and> io_inv w'"
proof -
  have l: "lpc w = L_idle" and st: "stack w = []" and a: "all_tasks (\<lambda>s t. s = myEventSub w \<or> myState t = IO_TASK_STATE_DELETING) w"
    using c by simp_all
  obtain t where t: "io_tasks w (myEventSub w) = Some t" "myState t = IO_TASK_STATE_WORKING" using c by (auto simp: task_is_iff)
  let ?x = "upd_sock (myEventFd w) (signal True False) w" let ?y = "enqueue (myEventSub w) (t\<lparr>myState := IO_TASK_STATE_DELETING\<rparr>) 0 ?x"
  have m: "\<not> mutex_locked (lpc w)" "lpc w \<noteq> L_destroyed" using l by simp_all
  have x: "\<not> mutex_locked (lpc ?x)" "lpc ?x \<noteq> L_destroyed" "io_tasks ?x (myEventSub w) = Some t" "lpc ?x = L_wait \<Longrightarrow> woken ?x"
    using l t by simp_all
  note P = enqueue_marked [OF signal_inv [OF i] x(1-3) t(2) x(4)]
  let ?z = "?y\<lparr>myEventFd := -1, lpc := L_queue From_destructor (myQueue w @ [myEventSub w])\<rparr>"
  have "IOCore_delete w = Inr ?z"
    using unsubscribe_eq [OF i m t] by (simp add: IOCore_delete_def io_bind_def processQueues_def)
  moreover have "io_inv ?z"
  proof (rule loop_move [of ?y])
    have "myState x = IO_TASK_STATE_DELETING" if "io_tasks ?y u = Some x" for u x
      using all_tasksD [OF i a] that l by (auto simp: dropping_def split: if_splits)
    then show "event_ok ?z" by (auto simp: event_ok_def)
  qed (use P l st in \<open>auto simp: todo_def current_def dropping_def batch_def stack_ok_def wake_ok_def size_ok_def\<close>)
  ultimately show ?thesis by blast
qed

text \<open>What \<open>epoll_wait\<close> reports, and what is left.\<close>

definition clear_pending :: "int list \<Rightarrow> io_world \<Rightarrow> io_world" where
  "clear_pending fds w = w\<lparr>socks := \<lambda>fd. if fd \<in> set fds then map_option (\<lambda>k. k\<lparr>pending := 0\<rparr>) (socks w fd) else socks w fd\<rparr>"

definition reports :: "io_world \<Rightarrow> int \<Rightarrow> (addr \<times> 32 word) set" where
  "reports w fd = {(s, pending k) |k s. socks w fd = Some k \<and> registered k = Some s}"

lemma take_events_spec:
  "distinct fds \<Longrightarrow> snd (take_events fds w) = clear_pending fds w \<and> set (fst (take_events fds w)) = (\<Union>fd\<in>set fds. reports w fd)"
proof (induction fds arbitrary: w)
  case (Cons fd fds)
  let ?w = "upd_sock fd (\<lambda>k. k\<lparr>pending := 0\<rparr>) w"
  obtain evs w1 where te: "take_events fds ?w = (evs, w1)" by (cases "take_events fds ?w")
  have "reports ?w f = reports w f" if "f \<in> set fds" for f using that Cons.prems by (auto simp: reports_def)
  then have i1: "w1 = clear_pending fds ?w" "set evs = (\<Union>fd\<in>set fds. reports w fd)"
    using Cons.IH [of ?w] Cons.prems te by simp_all
  have c: "clear_pending fds ?w = clear_pending (fd # fds) w"
    using Cons.prems by (simp add: clear_pending_def upd_sock_def fun_eq_iff)
  have "reports w fd = (case socks w fd of None \<Rightarrow> {} | Some k \<Rightarrow> (case registered k of None \<Rightarrow> {} | Some s \<Rightarrow> {(s, pending k)}))"
    by (auto simp: reports_def split: option.splits)
  then show ?case using i1 c te by (auto split: option.splits)
qed (simp add: clear_pending_def)

lemma roll_wait_inv:
  assumes i: "io_inv w" and n: "io_enabled (Wait fds) w"
  shows "io_inv (roll_wait fds w)"
proof -
  have l: "lpc w = L_wait" and d: "distinct fds" and r: "\<And>fd. fd \<in> set fds \<Longrightarrow> reportable w fd" using n by (auto simp: list_all_iff)
  obtain evs where e: "take_events fds w = (evs, clear_pending fds w)"
    and se: "set evs = (\<Union>fd\<in>set fds. reports w fd)"
    using take_events_spec [OF d, of w] by (cases "take_events fds w") auto
  let ?w = "(clear_pending fds w)\<lparr>lpc := L_events evs\<rparr>"
  have w: "roll_wait fds w = ?w" by (simp add: roll_wait_def e)
  have f: "io_tasks ?w = io_tasks w" "myTasks ?w = myTasks w" "myQueue ?w = myQueue w" "mySize ?w = mySize w" "stack ?w = stack w"
    "promiseCount ?w = promiseCount w" "taskCount ?w = taskCount w" "myEventFd ?w = myEventFd w" "myEventSub ?w = myEventSub w"
    "socks ?w fd = (if fd \<in> set fds then map_option (\<lambda>k. k\<lparr>pending := 0\<rparr>) (socks w fd) else socks w fd)" for fd
    by (simp_all add: clear_pending_def)
  have v: "todo ?w = todo w" "current ?w = current w" "dropping ?w = None" "dropping w = None" "batch ?w = evs" "batch w = []"
    using l f by (simp_all add: todo_def current_def dropping_def batch_def)
  have ti: "task_is P u ?w = task_is P u w" for P u by (simp add: task_is_def f)
  have rg: "sock_reg ?w = sock_reg w" by (rule ext) (simp add: sock_reg_def clear_pending_def option.map_comp comp_def)
  show ?thesis unfolding w
  proof (rule io_invI)
    show "places_ok ?w" using io_invE(1) [OF i] by (simp add: places_ok_def place_ok_def v f ti)
    show "task_socks_ok ?w" using io_invE(2) [OF i] by (simp add: task_socks_ok_def v f rg)
    have so: "sock_ok ?w fd k" if "sock_ok w fd k" for fd k using that by (simp add: sock_ok_def ti cong: option.case_cong)
    have so0: "sock_ok ?w fd (k\<lparr>pending := 0\<rparr>)" if "sock_ok w fd k" for fd k using that by (auto simp: sock_ok_def ti split: option.splits)
    show "socks_ok ?w"
      unfolding socks_ok_def v
    proof (intro conjI allI impI ballI)
      fix fd k assume "socks ?w fd = Some k"
      then show "sock_ok ?w fd k" using so so0 socks_okD [OF i] unfolding f by (auto split: if_splits)
    next
      fix x assume "x \<in> set evs"
      then obtain fd k s where k: "x = (s, pending k)" "fd \<in> set fds" "socks w fd = Some k" "registered k = Some s" using se unfolding reports_def by blast
      then show "case x of (s, m) \<Rightarrow> io_tasks ?w s \<noteq> None \<and> m \<noteq> 0 \<and> legal_mask m"
        using r [of fd] socks_okD [OF i k(3)] by (auto simp: reportable_def sock_ok_def task_is_iff f)
    qed
    show "event_ok ?w" using io_invE(4) [OF i] l by (auto simp: event_ok_def ti clear_pending_def task_is_def)
    show "size_ok ?w" using io_invE(5) [OF i] l by (simp add: size_ok_def f)
    have "suspended ?w = suspended w" by (simp add: suspended_def v ti)
    then show "coros_ok ?w" using io_invE(6) [OF i] by (simp add: coros_ok_def f ti)
    show "stack_ok ?w" by (simp add: stack_ok_def)
    show "wake_ok ?w" by (simp add: wake_ok_def)
    show "ready_ok ?w"
      unfolding ready_ok_def
    proof (intro allI impI)
      fix s t k' assume t: "io_tasks ?w s = Some t" "myState t \<noteq> IO_TASK_STATE_NEW" "dropping ?w \<noteq> Some s" "socks ?w (myFd t) = Some k'"
      then obtain k where k: "socks w (myFd t) = Some k" "can_read k = can_read k'" "can_write k = can_write k'"
          "k' = k \<or> myFd t \<in> set fds" unfolding f by (auto split: if_splits)
      have "registered k = Some s" using task_reg [OF i _ t(2), of s] t(1) sock_reg_some [OF k(1)] by (simp add: v f)
      then have rp: "reported e s k' ?w" if "reported e s k w" for e
        using that k se by (auto simp: reported_def v reports_def)
      have "(waits_read t \<longrightarrow> can_read k \<longrightarrow> reported EPOLLIN s k w) \<and> (waits_write t \<longrightarrow> can_write k \<longrightarrow> reported EPOLLOUT s k w)"
        using io_invE(8) [OF i] t k unfolding ready_ok_def v f by blast
      then show "(waits_read t \<longrightarrow> can_read k' \<longrightarrow> reported EPOLLIN s k' ?w) \<and> (waits_write t \<longrightarrow> can_write k' \<longrightarrow> reported EPOLLOUT s k' ?w)"
        using rp k by auto
    qed
  qed
qed

section \<open>Coroutines and the flag\<close>

lemma stack_inv:
  assumes i: "io_inv w" and c: "coros_ok (w\<lparr>stack := cs, promiseCount := n\<rparr>)" and s: "stack_ok (w\<lparr>stack := cs, promiseCount := n\<rparr>)"
  shows "io_inv (w\<lparr>stack := cs, promiseCount := n\<rparr>)" (is "io_inv ?w")
proof (rule io_invI)
  have v: "todo ?w = todo w" "current ?w = current w" "dropping ?w = dropping w" "batch ?w = batch w"
    by (simp_all add: todo_def current_def dropping_def batch_def cong: loop_pc.case_cong)
  have ti: "task_is P u ?w = task_is P u w" for P u by (simp add: task_is_def)
  show "places_ok ?w" using io_invE(1) [OF i] by (simp add: places_ok_def place_ok_def v ti)
  show "task_socks_ok ?w" using io_invE(2) [OF i] by (simp add: task_socks_ok_def v sock_reg_def)
  show "socks_ok ?w" using io_invE(3) [OF i] by (simp add: socks_ok_def sock_ok_def v ti cong: option.case_cong)
  show "event_ok ?w" using io_invE(4) [OF i] by (simp add: event_ok_def ti)
  show "size_ok ?w" using io_invE(5) [OF i] by (auto simp: size_ok_def split: loop_pc.splits)
  show "ready_ok ?w" using io_invE(8) [OF i] by (simp add: ready_ok_def reported_def v)
  show "wake_ok ?w" using io_invE(9) [OF i] by (simp add: wake_ok_def woken_def ti)
qed (use c s in simp_all)

lemma stack_views [simp]:
  "task_is P u (w\<lparr>stack := cs, promiseCount := n\<rparr>) = task_is P u w" "suspended (w\<lparr>stack := cs, promiseCount := n\<rparr>) = suspended w"
  by (simp_all add: task_is_def suspended_def dropping_def cong: loop_pc.case_cong)

lemma start_inv:
  assumes i: "io_inv w" and c: "call_ok (Start c) w" and a: "lpc w = L_idle \<or> stack w \<noteq> []"
  shows "io_inv (w\<lparr>stack := c # stack w, promiseCount := promiseCount w + 1\<rparr>)" (is "io_inv ?w")
proof (rule stack_inv [OF i])
  have n: "\<not> task_is (\<lambda>t. holds_coro c (myAsyncOp t)) u w" if u: "u \<in> suspended w" for u
  proof -
    obtain t where "io_tasks w u = Some t" "dropping w \<noteq> Some u" using u by (auto simp: suspended_def task_is_iff)
    then show ?thesis using all_tasksD [OF i, of "\<lambda>_ t. \<not> holds_coro c (myAsyncOp t)" u t] c by (simp add: task_is_def)
  qed
  show "coros_ok ?w" using io_invE(6) [OF i] c n by (auto simp: coros_ok_def)
  show "stack_ok ?w" using io_invE(7) [OF i] a by (auto simp: stack_ok_def split: loop_pc.splits)
qed

lemma finish_inv:
  assumes i: "io_inv w" and c: "call_ok Finish w"
  shows "io_inv (w\<lparr>stack := tl (stack w), promiseCount := promiseCount w - 1\<rparr>)" (is "io_inv ?w")
proof (rule stack_inv [OF i])
  obtain x cs where st: "stack w = x # cs" using c by (cases "stack w") auto
  show "coros_ok ?w" using io_invE(6) [OF i] st by (auto simp: coros_ok_def)
  show "stack_ok ?w" using io_invE(7) [OF i] st by (auto simp: stack_ok_def split: loop_pc.splits)
qed

lemma stop_inv:
  assumes i: "io_inv w" and c: "call_ok Stop w"
  shows "\<exists>w'. io_stop w = Inr w' \<and> io_inv w'"
proof -
  let ?x = "upd_sock (myEventFd w) (signal True False) w" let ?w = "?x\<lparr>myIsStopped := True\<rparr>"
  have d: "\<not> in_destructor (lpc w)" using c by simp
  obtain k where k: "socks w (myEventFd w) = Some k" by (rule event_open [OF i d])
  have x: "io_inv ?x" by (rule signal_inv [OF i])
  have "io_stop w = Inr ?w" using k by (simp add: io_stop_def wakeup_def upd_sock_def)
  moreover have "io_inv ?w"
  proof (rule io_invI)
    have v: "todo ?w = todo ?x" "current ?w = current ?x" "dropping ?w = dropping ?x" "batch ?w = batch ?x"
      by (simp_all add: todo_def current_def dropping_def batch_def cong: loop_pc.case_cong)
    have ti: "task_is P u ?w = task_is P u ?x" for P u by (simp add: task_is_def)
    show "places_ok ?w" using io_invE(1) [OF x] by (simp add: places_ok_def place_ok_def v ti)
    show "task_socks_ok ?w" using io_invE(2) [OF x] by (simp add: task_socks_ok_def v sock_reg_def)
    show "socks_ok ?w" using io_invE(3) [OF x] by (simp add: socks_ok_def sock_ok_def v ti cong: option.case_cong)
    show "event_ok ?w" using d k io_invE(4) [OF i] by (auto simp: event_ok_def task_is_def signal_fields)
    show "size_ok ?w" using io_invE(5) [OF x] by (auto simp: size_ok_def split: loop_pc.splits)
    have "suspended ?w = suspended ?x" by (simp add: suspended_def ti v)
    then show "coros_ok ?w" using io_invE(6) [OF x] by (simp add: coros_ok_def ti)
    show "stack_ok ?w" using io_invE(7) [OF x] by (auto simp: stack_ok_def ti split: loop_pc.splits)
    show "ready_ok ?w" using io_invE(8) [OF x] by (simp add: ready_ok_def reported_def v)
    have "woken ?x" if "\<not> task_is (\<lambda>t. myState t = IO_TASK_STATE_NEW) (myEventSub w) w" by (rule woken_signal [OF i d that])
    then show "wake_ok ?w" using wait_woken [OF i] by (auto simp: wake_ok_def woken_def task_is_def)
  qed
  ultimately show ?thesis by blast
qed

section \<open>Every step\<close>

lemma io_call_inv:
  assumes i: "io_inv w" and c: "call_ok c w" and a: "lpc w = L_idle \<or> stack w \<noteq> [] \<or> other_thread c"
  shows "\<exists>w'. io_call_step c w = Inr w' \<and> io_inv w'"
proof (cases c)
  case (Subscribe s fd)
  then show ?thesis using subscribe_inv [OF i] c by simp
next
  case (Unsubscribe s)
  then show ?thesis using unsubscribe_inv [OF i] c by simp
next
  case Stop
  then show ?thesis using stop_inv [OF i] c by simp
next
  case (Start d)
  then show ?thesis using start_inv [OF i] c a by simp
next
  case (Await kind s r)
  then show ?thesis using co_await_inv [OF i] c by simp
next
  case Finish
  then show ?thesis using finish_inv [OF i] c by simp
next
  case Delete_core
  then show ?thesis using IOCore_delete_inv [OF i] c by simp
qed

lemma loop_step_inv:
  assumes i: "io_inv w" and g: "go_ok r w"
  shows "\<exists>w'. loop_step r w = Inr w' \<and> io_inv w'"
proof -
  have st: "stack w = []" using g by (simp add: go_ok_def)
  show ?thesis
  proof (cases "lpc w")
    case (L_events evs)
    then show ?thesis using loop_end_inv [OF i] roll_event_inv [OF i _ g] by (cases evs) (auto simp: loop_step_def)
  next
    case (L_queue who q)
    then show ?thesis using queue_done_inv [OF i] queue_next_inv [OF i] by (cases q) (auto simp: loop_step_def)
  next
    case (L_cancel who s rest)
    then show ?thesis using queue_cancelled_inv [OF i L_cancel st] by (simp add: loop_step_def)
  qed (use i in \<open>simp_all add: loop_step_def\<close>)
qed

interpretation iocore: safe_system io_step io_enabled io_inv
proof
  fix w :: io_world and l :: io_label
  assume i: "io_inv w" and e: "io_enabled l w"
  show "\<exists>w'. io_step l w = Inr w' \<and> io_inv w'"
  proof (cases l)
    case (Open_fd fd)
    then show ?thesis using open_fd_inv [OF i, of fd] e by (simp add: set_sock_def)
  qed (use i e io_call_inv [OF i] loop_step_inv [OF i] signal_inv [OF i] processQueues_inv [OF i] roll_wait_inv [OF i] loop_end_inv [OF i] in auto)
qed

lemma IOCore_new_inv:
  assumes "0 \<le> fd" and "IOCore_new fd s = Inr w"
  shows "io_inv w"
proof -
  let ?t = "\<lparr>myState = IO_TASK_STATE_NEW, myFd = fd, myIdx = -1, myEventsReady = 0, myAsyncOp = None\<rparr>"
  have w: "w = \<lparr>myEventFd = fd, myEventSub = s, myIsStopped = False, myTasks = [], myQueue = [s], mySize = 1, io_tasks = [s \<mapsto> ?t],
      socks = [fd \<mapsto> \<lparr>can_read = True, can_write = True, registered = None, pending = 0\<rparr>], lpc = L_idle, stack = [], co_res = 0,
      promiseCount = 0, taskCount = 1\<rparr>"
    using assms(2) by (simp add: IOCore_new_def subscribe_def io_bind_def wakeup_def IOTask_new_def set_iotask_def upd_sock_def signal_def new_sock_def fun_upd_idem)
  have v: "todo w = [s]" "current w = []" "dropping w = None" "batch w = []" "suspended w = {}"
    by (simp_all add: w todo_def current_def dropping_def batch_def suspended_def task_is_def)
  show ?thesis
  proof (rule io_invI)
    show "places_ok w" unfolding places_ok_def place_ok_def v by (simp add: w)
    show "task_socks_ok w" unfolding task_socks_ok_def v sock_reg_def using assms(1) by (simp add: w)
    show "socks_ok w" unfolding socks_ok_def v sock_ok_def by (simp add: w)
    show "coros_ok w" unfolding coros_ok_def v by (simp add: w)
    show "ready_ok w" unfolding ready_ok_def v by (simp add: w)
  qed (simp_all add: w event_ok_def task_is_def size_ok_def stack_ok_def wake_ok_def)
qed

text \<open>When the destructor has ended there is no task.\<close>

lemma destroyed_empty:
  assumes i: "io_inv w" and l: "lpc w = L_destroyed"
  shows "io_tasks w = Map.empty"
proof
  fix u show "io_tasks w u = None"
  proof (cases "io_tasks w u")
    case (Some t)
    have "myQueue w = []" using io_invE(5) [OF i] l by (simp add: size_ok_def)
    then have "u \<notin> set (todo w)" using l by (simp add: todo_def)
    moreover have "place_ok w u t" using io_invE(1) [OF i] Some by (simp add: places_ok_def)
    moreover have "myState t = IO_TASK_STATE_DELETING" using io_invE(4) [OF i] l Some by (auto simp: event_ok_def)
    ultimately show ?thesis using l by (simp add: place_ok_def dropping_def)
  qed
qed

end
