(* ===== verification/IO_Load.thy ===== *)
theory IO_Load
  imports IO_Core_Inv
begin

text \<open>
  The program of \<open>examples/cpp20_coroutines/main.cpp\<close> on one core: the coroutines of clients and of the server, which
  call the event loop, as a transition system around that of the loop. The sockets are set up before
  a descriptor is subscribed; what the bytes are is left out.
\<close>

section \<open>Data\<close>

definition theRequestTargetCount :: nat where
  "theRequestTargetCount = 50"

text \<open>
  Where a coroutine is. Of \<open>coroConnectAndRun\<close>: before and after its \<open>co_await\<close>. Of \<open>Client::coroRun\<close>, with the number of finished
  rounds: at the head of the loop, after \<open>asyncSend\<close>, after \<open>asyncRecv\<close>. Of \<open>Server::coroRun\<close>: before and after \<open>asyncAccept\<close>, and in
  \<open>wrapAndRun\<close> of a new client after its task has been made. At the \<open>co_return\<close> of any of them. The address is that of the task.
\<close>

datatype coro_pc =
    Connect addr
  | Connected addr
  | Send_next addr nat
  | Sent addr nat
  | Received addr nat
  | Accept addr
  | Accepted addr
  | Wrapped addr addr
  | Ended

text \<open>
  The core, the coroutines, \<open>Server::myTask\<close>, whether the server was made, \<open>Context::myFinishClientCount\<close>, \<open>Context::myIsServerFinished\<close> and
  \<open>Client::theCount\<close>.
\<close>

record load_world =
  io :: io_world
  progs :: "nat \<Rightarrow> coro_pc option"
  server_task :: "addr option"
  server_made :: bool
  finish_count :: nat
  server_finished :: bool
  client_count :: int

definition on_core :: "io_call \<Rightarrow> load_world \<Rightarrow> io_fail + load_world" where
  "on_core c w = io_bind (io_call_step c (io w)) (\<lambda>x. Inr (w\<lparr>io := x\<rparr>))"

definition set_pc :: "nat \<Rightarrow> coro_pc \<Rightarrow> load_world \<Rightarrow> load_world" where
  "set_pc c pc w = w\<lparr>progs := (progs w)(c \<mapsto> pc)\<rparr>"

section \<open>Coroutines\<close>

text \<open>A call of the loop, after which the coroutine is at \<open>pc\<close>, suspended or not.\<close>

definition call_then :: "io_call \<Rightarrow> nat \<Rightarrow> coro_pc \<Rightarrow> load_world \<Rightarrow> io_fail + load_world" where
  "call_then x c pc w = io_bind (on_core x w) (\<lambda>w1. Inr (set_pc c pc w1))"

definition coroConnectAndRun :: "nat \<Rightarrow> nat \<Rightarrow> addr \<Rightarrow> load_world \<Rightarrow> io_fail + load_world" where
  "coroConnectAndRun c d s w =
     (if co_res (io w) \<noteq> 0 then Inl Assert_failed
      else io_bind (call_then (Start d) c Ended w) (\<lambda>w1. Inr (set_pc d (Send_next s 0) w1)))"

text \<open>\<open>Client::coroRun\<close> at the head of its loop and after each \<open>co_await\<close>; the end includes \<open>onClientFinish\<close> and \<open>~Client\<close>.\<close>

definition coroRun_head :: "nat \<Rightarrow> addr \<Rightarrow> nat \<Rightarrow> sys_res \<Rightarrow> load_world \<Rightarrow> io_fail + load_world" where
  "coroRun_head c s i r w =
     (if i < theRequestTargetCount then call_then (Await AsyncSend s r) c (Sent s i) w
      else call_then (Unsubscribe s) c Ended (w\<lparr>finish_count := finish_count w + 1, client_count := client_count w - 1\<rparr>))"

definition coroRun_sent :: "nat \<Rightarrow> addr \<Rightarrow> nat \<Rightarrow> sys_res \<Rightarrow> load_world \<Rightarrow> io_fail + load_world" where
  "coroRun_sent c s i r w =
     (if co_res (io w) \<noteq> 1 then Inl Assert_failed else call_then (Await AsyncRecv s r) c (Received s i) w)"

definition coroRun_received :: "nat \<Rightarrow> addr \<Rightarrow> nat \<Rightarrow> load_world \<Rightarrow> io_fail + load_world" where
  "coroRun_received c s i w = (if co_res (io w) \<noteq> 1 then Inl Assert_failed else Inr (set_pc c (Send_next s (Suc i)) w))"

text \<open>\<open>Server::coroRun\<close> after \<open>asyncAccept\<close>: cancelled, with \<open>onServerFinish\<close>; or a new client with the accepted socket.\<close>

definition server_accepted :: "nat \<Rightarrow> addr \<Rightarrow> addr \<Rightarrow> load_world \<Rightarrow> io_fail + load_world" where
  "server_accepted c s a w =
     (if co_res (io w) < 0 then
        if server_finished w then Inl Assert_failed else Inr (set_pc c Ended (w\<lparr>server_finished := True\<rparr>))
      else call_then (Subscribe a (co_res (io w))) c (Wrapped s a) (w\<lparr>client_count := client_count w + 1\<rparr>))"

definition wrapAndRun :: "nat \<Rightarrow> nat \<Rightarrow> addr \<Rightarrow> addr \<Rightarrow> load_world \<Rightarrow> io_fail + load_world" where
  "wrapAndRun c d s a w = io_bind (call_then (Start d) c (Accept s) w) (\<lambda>w1. Inr (set_pc d (Send_next a 0) w1))"

text \<open>
  The coroutine that runs goes on: \<open>r\<close> is what the system call of an operation returns, \<open>a\<close> the address of a new task, \<open>d\<close> the name
  of a new coroutine.
\<close>

definition coro_next :: "sys_res \<Rightarrow> addr \<Rightarrow> nat \<Rightarrow> load_world \<Rightarrow> io_fail + load_world" where
  "coro_next r a d w =
     (let c = hd (stack (io w)) in
      case progs w c of
        None \<Rightarrow> Inr w
      | Some (Connect s) \<Rightarrow> call_then (Await AsyncConnect s r) c (Connected s) w
      | Some (Connected s) \<Rightarrow> coroConnectAndRun c d s w
      | Some (Send_next s i) \<Rightarrow> coroRun_head c s i r w
      | Some (Sent s i) \<Rightarrow> coroRun_sent c s i r w
      | Some (Received s i) \<Rightarrow> coroRun_received c s i w
      | Some (Accept s) \<Rightarrow> call_then (Await AsyncAccept s r) c (Accepted s) w
      | Some (Accepted s) \<Rightarrow> server_accepted c s a w
      | Some (Wrapped s b) \<Rightarrow> wrapAndRun c d s b w
      | Some Ended \<Rightarrow> io_bind (on_core Finish w) (\<lambda>w1. Inr (w1\<lparr>progs := (progs w1)(c := None)\<rparr>)))"

section \<open>The program\<close>

text \<open>\<open>connectAndRun\<close> and \<open>bindAndListenAndRun\<close>, after the socket has been made; \<open>Server::stop\<close>.\<close>

definition connectAndRun :: "addr \<Rightarrow> int \<Rightarrow> nat \<Rightarrow> load_world \<Rightarrow> io_fail + load_world" where
  "connectAndRun s fd d w = io_bind (on_core (Subscribe s fd) w) (\<lambda>w1.
     io_bind (on_core (Start d) w1) (\<lambda>w2. Inr (set_pc d (Connect s) (w2\<lparr>client_count := client_count w2 + 1\<rparr>))))"

definition bindAndListenAndRun :: "addr \<Rightarrow> int \<Rightarrow> nat \<Rightarrow> load_world \<Rightarrow> io_fail + load_world" where
  "bindAndListenAndRun s fd d w = io_bind (on_core (Subscribe s fd) w) (\<lambda>w1.
     io_bind (on_core (Start d) w1) (\<lambda>w2. Inr (set_pc d (Accept s) (w2\<lparr>server_task := Some s, server_made := True\<rparr>))))"

definition server_stop :: "load_world \<Rightarrow> io_fail + load_world" where
  "server_stop w =
     (case server_task w of
        None \<Rightarrow> Inl Assert_failed
      | Some s \<Rightarrow> io_bind (on_core (Unsubscribe s) w) (\<lambda>w1. Inr (w1\<lparr>server_task := None\<rparr>)))"

datatype load_label =
    Coro sys_res addr nat
  | New_client addr int nat
  | New_server addr int nat
  | Stop_server
  | Loop io_label

fun load_step :: "load_label \<Rightarrow> load_world \<Rightarrow> io_fail + load_world" where
  "load_step (Coro r a d) w = coro_next r a d w"
| "load_step (New_client s fd d) w = connectAndRun s fd d w"
| "load_step (New_server s fd d) w = bindAndListenAndRun s fd d w"
| "load_step Stop_server w = server_stop w"
| "load_step (Loop l) w = io_bind (io_step l (io w)) (\<lambda>x. Inr (w\<lparr>io := x\<rparr>))"

definition load_start :: "io_world \<Rightarrow> load_world" where
  "load_start x = \<lparr>io = x, progs = Map.empty, server_task = None, server_made = False, finish_count = 0, server_finished = False, client_count = 0\<rparr>"

section \<open>Rules\<close>

text \<open>The peers keep the protocol: a send or a receive of one byte that ends has passed one byte.\<close>

fun one_byte :: "op_kind \<Rightarrow> sys_res \<Rightarrow> bool" where
  "one_byte AsyncSend (Done n left) = (n = 1)"
| "one_byte AsyncRecv (Done n left) = (n = 1)"
| "one_byte kind r = True"

definition result_ok :: "op_kind \<Rightarrow> addr \<Rightarrow> sys_res \<Rightarrow> load_world \<Rightarrow> bool" where
  "result_ok kind s r w \<longleftrightarrow> sys_ok kind s r (io w) \<and> one_byte kind r"

fun pc_enabled :: "coro_pc \<Rightarrow> sys_res \<Rightarrow> addr \<Rightarrow> nat \<Rightarrow> load_world \<Rightarrow> bool" where
  "pc_enabled (Connect s) r a d w = result_ok AsyncConnect s r w"
| "pc_enabled (Send_next s i) r a d w = (i < theRequestTargetCount \<longrightarrow> result_ok AsyncSend s r w)"
| "pc_enabled (Sent s i) r a d w = result_ok AsyncRecv s r w"
| "pc_enabled (Accept s) r a d w = result_ok AsyncAccept s r w"
| "pc_enabled (Accepted s) r a d w = (io_tasks (io w) a = None)"
| "pc_enabled (Connected s) r a d w = (progs w d = None)"
| "pc_enabled (Wrapped s b) r a d w = (progs w d = None)"
| "pc_enabled pc r a d w = True"

text \<open>
  What the environment of the coroutines may do: the rules of the operating system as before, new addresses and names are fresh,
  sockets are set up before the loop runs or between its rounds, the server is stopped once the loop has taken it up. Which
  calls the coroutines make, and when, is not restricted.
\<close>

fun load_enabled :: "load_label \<Rightarrow> load_world \<Rightarrow> bool" where
  "load_enabled (Coro r a d) w =
     (stack (io w) \<noteq> [] \<and> (case progs w (hd (stack (io w))) of None \<Rightarrow> True | Some pc \<Rightarrow> pc_enabled pc r a d w))"
| "load_enabled (New_client s fd d) w =
     (lpc (io w) = L_idle \<and> stack (io w) = [] \<and> call_ok (Subscribe s fd) (io w) \<and> progs w d = None)"
| "load_enabled (New_server s fd d) w =
     (\<not> server_made w \<and> lpc (io w) = L_idle \<and> stack (io w) = [] \<and> call_ok (Subscribe s fd) (io w) \<and> progs w d = None)"
| "load_enabled Stop_server w =
     (case server_task w of
        None \<Rightarrow> False
      | Some s \<Rightarrow> \<not> mutex_locked (lpc (io w)) \<and> lpc (io w) \<noteq> L_destroyed \<and> task_is (\<lambda>t. myState t = IO_TASK_STATE_WORKING) s (io w))"
| "load_enabled (Loop l) w =
     (io_enabled l (io w) \<and>
      (case l of
         Code c \<Rightarrow> c = Delete_core
       | Other c \<Rightarrow> c = Stop
       | Go r \<Rightarrow>
           (case lpc (io w) of
              L_events ((s, ev) # rest) \<Rightarrow>
                task_is (\<lambda>t. case myAsyncOp t of None \<Rightarrow> True | Some (AsyncOperation kind c) \<Rightarrow> one_byte kind r) s (io w)
            | _ \<Rightarrow> True)
       | _ \<Rightarrow> True))"

end
