(* ===== verification/IO_Core_Steps.thy ===== *)
theory IO_Core_Steps
  imports IO_Core_Inv
begin

unbundle bit_operations_syntax

text \<open>
  What each step of the event loop does to the tasks and coroutines, seen from the code of the coroutines: which
  operation is suspended on a task, which state a task is in, which coroutine runs and with which result.
\<close>

section \<open>Views\<close>

definition io_wait :: "io_world \<Rightarrow> addr \<Rightarrow> (op_kind \<times> nat) option" where
  "io_wait w s =
     (if dropping w = Some s then None
      else case io_tasks w s of None \<Rightarrow> None | Some t \<Rightarrow> map_option (\<lambda>op. case op of AsyncOperation kind c \<Rightarrow> (kind, c)) (myAsyncOp t))"

definition io_state :: "io_world \<Rightarrow> addr \<Rightarrow> IOTaskState option" where
  "io_state w s = map_option myState (io_tasks w s)"

definition io_fd :: "io_world \<Rightarrow> addr \<Rightarrow> int option" where
  "io_fd w s = map_option myFd (io_tasks w s)"

lemmas io_view_defs = io_wait_def io_state_def io_fd_def

lemma op_pair: "(case op of AsyncOperation kind c \<Rightarrow> (kind, c)) = (k, d) \<longleftrightarrow> op = AsyncOperation k d"
  by (cases op) simp

lemma io_wait_iff:
  "io_wait w s = Some (kind, c) \<longleftrightarrow> dropping w \<noteq> Some s \<and> (\<exists>t. io_tasks w s = Some t \<and> myAsyncOp t = Some (AsyncOperation kind c))"
  by (auto simp: io_wait_def op_pair split: option.split)

lemma wait_not_running:
  assumes "io_inv w" and "io_wait w s = Some (kind, c)"
  shows "c \<notin> set (stack w)"
proof -
  obtain t where "dropping w \<noteq> Some s" "io_tasks w s = Some t" "myAsyncOp t = Some (AsyncOperation kind c)"
    using assms(2) by (auto simp: io_wait_iff)
  then have "s \<in> suspended w" "task_is (\<lambda>t. holds_coro c (myAsyncOp t)) s w" by (simp_all add: suspended_def task_is_def)
  then show ?thesis using io_invE(6) [OF assms(1)] by (auto simp: coros_ok_def)
qed

lemma exists_task:
  assumes "io_inv w" and "\<not> mutex_locked (lpc w)" and "s \<in> set (myTasks w @ myQueue w)"
  shows "io_tasks w s \<noteq> None"
proof -
  have v: "todo w = myQueue w" "current w = myTasks w" using assms(2) by (auto simp: todo_def current_def split: loop_pc.splits)
  then show ?thesis using io_invE(1) [OF assms(1)] assms(3) unfolding places_ok_def by (force simp: in_set_conv_nth)
qed

lemma all_tasksI:
  assumes "io_inv w" and "\<not> mutex_locked (lpc w)" and "\<And>s t. io_tasks w s = Some t \<Longrightarrow> P s t"
  shows "all_tasks P w"
  unfolding all_tasks_def list_all_iff task_is_def using exists_task [OF assms(1,2)] assms(3) by (fastforce split: option.split)

section \<open>Moves without a coroutine\<close>

text \<open>
  No coroutine is started, resumed or stopped; the tasks in \<open>D\<close> may be marked for deletion, a task is freed only if no operation
  is suspended on it. What a coroutine that runs looks at stays the same.
\<close>

definition quiet_tasks :: "addr set \<Rightarrow> io_world \<Rightarrow> io_world \<Rightarrow> bool" where
  "quiet_tasks D w w' \<longleftrightarrow> stack w' = stack w \<and> myEventSub w' = myEventSub w \<and> io_wait w' = io_wait w
     \<and> (\<forall>s x. io_state w s = Some x \<longrightarrow> x \<noteq> IO_TASK_STATE_DELETING \<longrightarrow> s \<notin> D \<longrightarrow>
          (\<exists>y. io_state w' s = Some y \<and> y \<noteq> IO_TASK_STATE_DELETING \<and> (y = IO_TASK_STATE_NEW \<longrightarrow> x = IO_TASK_STATE_NEW)))
     \<and> (\<forall>s. io_state w s \<noteq> None \<longrightarrow> io_state w' s = None \<longrightarrow> stack w = [] \<and> io_wait w s = None)"

definition quiet_step :: "addr set \<Rightarrow> io_world \<Rightarrow> io_world \<Rightarrow> bool" where
  "quiet_step D w w' \<longleftrightarrow> quiet_tasks D w w'
     \<and> (stack w \<noteq> [] \<longrightarrow> lpc w' = lpc w \<and> co_res w' = co_res w \<and> io_fd w' = io_fd w
          \<and> (\<forall>fd. sock_reg w fd = Some None \<longrightarrow> sock_reg w' fd = Some None))"

text \<open>What the tasks that are not taken up yet know: no event is reported for them.\<close>

definition new_ok :: "io_world \<Rightarrow> bool" where
  "new_ok w \<longleftrightarrow> (\<forall>s t. io_tasks w s = Some t \<longrightarrow> myState t = IO_TASK_STATE_NEW \<longrightarrow> myEventsReady t = 0)
     \<and> (\<forall>s m. (s, m) \<in> set (batch w) \<longrightarrow> io_state w s \<noteq> Some IO_TASK_STATE_NEW)"

lemma quiet_same:
  assumes "stack w' = stack w" "myEventSub w' = myEventSub w" "io_tasks w' = io_tasks w" "dropping w' = dropping w"
    and "stack w \<noteq> [] \<Longrightarrow> lpc w' = lpc w \<and> co_res w' = co_res w \<and> (\<forall>fd. sock_reg w fd = Some None \<longrightarrow> sock_reg w' fd = Some None)"
  shows "quiet_step D w w'"
  using assms by (auto simp: quiet_step_def quiet_tasks_def io_view_defs fun_eq_iff)

lemma new_ok_same:
  assumes n: "new_ok w" and t: "io_tasks w' = io_tasks w" and b: "set (batch w') \<subseteq> set (batch w)"
  shows "new_ok w'"
proof -
  have "io_state w' s \<noteq> Some IO_TASK_STATE_NEW" if "(s, m) \<in> set (batch w')" for s m
    using n subsetD [OF b that] unfolding new_ok_def io_state_def t by blast
  then show ?thesis using n by (simp add: new_ok_def t)
qed

text \<open>The operating system, \<open>stop\<close>, and the places of the loop that leave the tasks alone.\<close>

lemma signal_reg [simp]: "sock_reg (upd_sock fd (signal rd wr) w) = sock_reg w"
  by (auto simp: sock_reg_def fun_eq_iff signal_fields option.map_comp comp_def)

lemma lpc_views: "lpc w' = lpc w \<Longrightarrow> batch w' = batch w" "lpc w' = lpc w \<Longrightarrow> dropping w' = dropping w"
  by (simp_all add: batch_def dropping_def)

lemma upd_sock_views [simp]: "batch (upd_sock fd f w) = batch w" "dropping (upd_sock fd f w) = dropping w"
  by (rule lpc_views; simp)+

lemma quiet_net: "quiet_step D w (upd_sock fd (signal rd wr) w)"
  by (rule quiet_same) (simp_all, simp add: upd_sock_def)

lemma new_ok_net: "new_ok w \<Longrightarrow> new_ok (upd_sock fd f w)"
  by (rule new_ok_same [of w]) simp_all

lemma quiet_open:
  assumes "socks w fd = None"
  shows "quiet_step D w (w\<lparr>socks := (socks w)(fd \<mapsto> k)\<rparr>)"
  proof (rule quiet_same)
  show "dropping (w\<lparr>socks := (socks w)(fd \<mapsto> k)\<rparr>) = dropping w" by (rule lpc_views) simp
qed (use assms in \<open>auto simp: sock_reg_def\<close>)

lemma quiet_lpc:
  assumes "stack w = []" and "dropping w = None" and "lpc w' = pc" and "dropping w' = None"
    and "io_tasks w' = io_tasks w" "stack w' = stack w" "myEventSub w' = myEventSub w"
  shows "quiet_step D w w'"
  by (rule quiet_same) (use assms in auto)

lemma quiet_marked:
  assumes i: "io_inv w" and m: "\<not> mutex_locked (lpc w)" "lpc w \<noteq> L_destroyed" and t: "io_tasks w s = Some t" "myState t = IO_TASK_STATE_WORKING"
    and u: "unsubscribe s w = Inr w'" and n: "new_ok w"
  shows "quiet_step {s} w w'" "new_ok w'" "lpc w' = lpc w" "io_state w' s = Some IO_TASK_STATE_DELETING"
proof -
  let ?x = "upd_sock (myEventFd w) (signal True False) w" and ?t = "t\<lparr>myState := IO_TASK_STATE_DELETING\<rparr>"
  have w': "w' = enqueue s ?t 0 ?x" using unsubscribe_eq [OF i m t] u by simp
  have d: "dropping w = None" by (rule enqueue_views(5) [OF m(1)])
  have d': "dropping w' = None" using d by (simp add: w' enqueue_views(4))
  have r: "sock_reg w' = sock_reg w" by (simp add: w' enqueue_views(7))
  have c: "co_res w' = co_res w" by (simp add: w' enqueue_def set_iotask_def upd_sock_def)
  show l: "lpc w' = lpc w" by (simp add: w')
  show "io_state w' s = Some IO_TASK_STATE_DELETING" by (simp add: w' io_state_def)
  have f: "stack w' = stack w" "myEventSub w' = myEventSub w" "io_tasks w' = (io_tasks w)(s \<mapsto> ?t)" by (simp_all add: w')
  have "io_wait w' = io_wait w" using t by (simp add: fun_eq_iff io_wait_def d d' f)
  then show "quiet_step {s} w w'" using t by (auto simp: quiet_step_def quiet_tasks_def r c l f io_state_def io_fd_def fun_eq_iff)
  show "new_ok w'" using n t by (auto simp: new_ok_def lpc_views(1) [OF l] io_state_def) (auto simp: w' split: if_splits)
qed

section \<open>Operations\<close>

text \<open>What a \<open>co_await\<close> returns that was not cancelled.\<close>

fun returned :: "op_kind \<Rightarrow> sys_res \<Rightarrow> io_world \<Rightarrow> bool" where
  "returned AsyncConnect r w = (co_res w = 0)"
| "returned kind (Done n left) w =
     (co_res w = int n \<and> (kind = AsyncAccept \<longrightarrow> sock_reg w (int n) = Some None \<and> (\<forall>s. io_fd w s \<noteq> Some (int n))))"
| "returned kind r w = False"

lemma async_new_result:
  assumes t: "io_tasks w s = Some t" and o: "outcome_ok kind r k w"
  shows "(\<exists>n left. r = Done n left \<and> async_new kind s r w = Inr (if kind = AsyncConnect then 0 else int n, sys_effect kind (myFd t) n left w)
        \<and> (kind \<noteq> AsyncConnect \<longrightarrow> myEventsReady t \<noteq> 0))
    \<or> (\<exists>ev. async_new kind s r w = Inr (-1, set_iotask s (t\<lparr>myEventsReady := ev\<rparr>) w) \<and> (myEventsReady t = 0 \<longrightarrow> ev = 0))"
proof (cases "kind = AsyncConnect")
  case True
  then show ?thesis using t o by (cases r) (auto simp: AsyncConnect_new_def with_iotask_def)
next
  case False
  then have a: "async_new kind s r w = try_io (need kind) (sys_effect kind) s r w"
    by (cases kind) (simp_all add: AsyncRecv_execute_def AsyncSend_execute_def AsyncAccept_execute_def)
  have r: "r \<noteq> Sys_error" using o by auto
  show ?thesis
  proof (cases "myEventsReady t AND need kind = 0")
    case True
    have "set_iotask s (t\<lparr>myEventsReady := myEventsReady t\<rparr>) w = w" using t by (simp add: set_iotask_def fun_upd_idem)
    then have "async_new kind s r w = Inr (-1, set_iotask s (t\<lparr>myEventsReady := myEventsReady t\<rparr>) w)"
      using True t unfolding a try_io_def with_iotask_def by simp
    then show ?thesis by blast
  next
    case n: False
    then have "myEventsReady t \<noteq> 0" by auto
    then show ?thesis using n r False t unfolding a try_io_def with_iotask_def by (cases r) (simp_all, blast)
  qed
qed

text \<open>A new descriptor belongs to no task.\<close>

lemma fd_closed:
  assumes "io_inv w" and "socks w fd = None"
  shows "io_fd w s \<noteq> Some fd"
  using assms by (auto simp: io_fd_def sock_reg_def elim!: task_sock)

lemma sys_effect_returned:
  assumes i: "io_inv w" and o: "outcome_ok kind (Done n left) k w" and k: "socks w fd = Some k"
  shows "returned kind (Done n left) ((sys_effect kind fd n left w)\<lparr>co_res := if kind = AsyncConnect then 0 else int n\<rparr>)"
proof (cases kind)
  case AsyncAccept
  have "socks w (int n) = None" using o AsyncAccept by simp
  then show ?thesis using AsyncAccept fd_closed [OF i] by (simp add: sys_accept_def Let_def sock_reg_def new_sock_def io_fd_def)
qed simp_all

text \<open>
  A \<open>co_await\<close> returns at once, which only a \<open>connect\<close> does on a task that is not taken up yet, or the coroutine is suspended.
\<close>

definition await_effect :: "op_kind \<Rightarrow> addr \<Rightarrow> sys_res \<Rightarrow> io_world \<Rightarrow> io_world \<Rightarrow> bool" where
  "await_effect kind s r w w' \<longleftrightarrow> lpc w' = lpc w \<and> myEventSub w' = myEventSub w \<and> io_state w' = io_state w
     \<and> (stack w' = stack w \<and> io_wait w' = io_wait w \<and> returned kind r w'
          \<and> (kind = AsyncConnect \<or> io_state w s \<noteq> Some IO_TASK_STATE_NEW)
        \<or> stack w' = tl (stack w) \<and> io_wait w' = (io_wait w)(s \<mapsto> (kind, hd (stack w))))"

lemma sys_effect_views [simp]:
  "myEventSub (sys_effect kind fd n left w) = myEventSub w" "batch (sys_effect kind fd n left w) = batch w"
  "dropping (sys_effect kind fd n left w) = dropping w"
proof -
  show "myEventSub (sys_effect kind fd n left w) = myEventSub w"
    by (cases kind) (simp_all add: sys_recv_def sys_send_def sys_accept_def Let_def)
qed (rule lpc_views; simp)+

lemma co_await_effect:
  assumes i: "io_inv w" and c: "call_ok (Await kind s r) w" and a: "co_await kind s r w = Inr w'" and n: "new_ok w"
  shows "await_effect kind s r w w' \<and> new_ok w'"
proof -
  obtain t where t: "io_tasks w s = Some t" "myAsyncOp t = None" using c by (auto simp: task_is_iff)
  obtain k where k: "socks w (myFd t) = Some k" by (rule task_sock [OF i t(1)])
  have o: "outcome_ok kind r k w" using c t k by (simp add: sys_ok_def)
  obtain x cs where st: "stack w = x # cs" using c by (cases "stack w") auto
  consider (ended) m left where "r = Done m left"
      "async_new kind s r w = Inr (if kind = AsyncConnect then 0 else int m, sys_effect kind (myFd t) m left w)"
      "kind \<noteq> AsyncConnect \<longrightarrow> myEventsReady t \<noteq> 0"
    | (wait) ev where "async_new kind s r w = Inr (-1, set_iotask s (t\<lparr>myEventsReady := ev\<rparr>) w)" "myEventsReady t = 0 \<longrightarrow> ev = 0"
    using async_new_result [OF t(1) o] by blast
  then show ?thesis
  proof cases
    case ended
    let ?w = "(sys_effect kind (myFd t) m left w)\<lparr>co_res := if kind = AsyncConnect then 0 else int m\<rparr>"
    have w': "w' = ?w" using a ended(2) by (auto simp: co_await_def io_bind_def split: if_splits)
    have f: "lpc w' = lpc w" "stack w' = stack w" "myEventSub w' = myEventSub w" "io_tasks w' = io_tasks w" by (simp_all add: w')
    have "kind = AsyncConnect \<or> io_state w s \<noteq> Some IO_TASK_STATE_NEW" using ended(3) n t by (auto simp: new_ok_def io_state_def)
    moreover have "returned kind r w'" using sys_effect_returned [OF i _ k, of kind m left] o ended(1) w' by simp
    moreover have "io_wait w' = io_wait w" "io_state w' = io_state w" using lpc_views(2) [OF f(1)] by (simp_all add: io_view_defs f fun_eq_iff)
    moreover have "new_ok w'" by (rule new_ok_same [OF n f(4)]) (simp add: lpc_views(1) [OF f(1)])
    ultimately show ?thesis by (simp add: await_effect_def f)
  next
    case wait
    let ?w = "set_op s t ev (Some (AsyncOperation kind x)) cs (co_res w) w"
    have "co_await kind s r w = Inr ?w"
      using wait(1) st t by (simp add: co_await_def io_bind_def await_suspend_def with_iotask_def set_op_def set_iotask_def)
    then have w': "w' = ?w" using a by simp
    have d: "dropping w \<noteq> Some s"
    proof
      assume "dropping w = Some s"
      then show False using io_invE(7) [OF i] t by (auto simp: stack_ok_def dropping_def task_is_def split: loop_pc.splits)
    qed
    have "io_wait w' = (io_wait w)(s \<mapsto> (kind, x))" using d by (auto simp: w' io_wait_def fun_eq_iff)
    moreover have s: "io_state w' = io_state w" using t by (simp add: w' io_state_def fun_eq_iff)
    moreover have "new_ok w'" using n t wait(2) by (simp add: new_ok_def w' io_state_def)
    ultimately show ?thesis using st by (simp add: await_effect_def w')
  qed
qed

section \<open>Events\<close>

lemma onIOEvent_result:
  assumes t: "io_tasks w s = Some t" and o: "kind = AsyncConnect \<or> outcome_ok kind r k w"
  shows "(\<exists>ev. onIOEvent (AsyncOperation kind c) s r w = Inr (False, set_iotask s (t\<lparr>myEventsReady := ev\<rparr>) w))
    \<or> (myState t = IO_TASK_STATE_DELETING \<and> onIOEvent (AsyncOperation kind c) s r w = Inr (True, resume c (-1) w))
    \<or> (kind = AsyncConnect \<and> onIOEvent (AsyncOperation kind c) s r w = Inr (True, resume c 0 w))
    \<or> (\<exists>n left. kind \<noteq> AsyncConnect \<and> r = Done n left
         \<and> onIOEvent (AsyncOperation kind c) s r w = Inr (True, resume c (int n) (sys_effect kind (myFd t) n left w)))"
proof (cases "kind = AsyncConnect")
  case True
  have "set_iotask s (t\<lparr>myEventsReady := myEventsReady t\<rparr>) w = w" using t by (simp add: set_iotask_def fun_upd_idem)
  then show ?thesis using True t
    by (cases "myEventsReady t AND IO_EVENT_WRITE = 0 \<and> myState t \<noteq> IO_TASK_STATE_DELETING")
      (auto simp: AsyncConnect_onIOEvent_def with_iotask_def intro!: exI [of _ "myEventsReady t"])
next
  case False
  have w: "set_iotask s (t\<lparr>myEventsReady := myEventsReady t\<rparr>) w = w" using t by (simp add: set_iotask_def fun_upd_idem)
  have a: "onIOEvent (AsyncOperation kind c) s r w = io_event (need kind) (try_io (need kind) (sys_effect kind)) c s r w"
    using False by (cases kind) (simp_all add: AsyncRecv_onIOEvent_def AsyncSend_onIOEvent_def AsyncAccept_onIOEvent_def
      AsyncRecv_execute_def AsyncSend_execute_def AsyncAccept_execute_def)
  show ?thesis
  proof (cases "myEventsReady t AND need kind = 0")
    case True
    then show ?thesis using t w
      by (cases "myState t = IO_TASK_STATE_DELETING")
        (auto simp: a io_event_def with_iotask_def intro!: exI [of _ "myEventsReady t"])
  next
    case n: False
    have "r \<noteq> Sys_error" using o False by auto
    from try_io_cases [OF t this, of "need kind" "sys_effect kind"] n False show ?thesis
      by (auto simp: a io_event_def with_iotask_def io_bind_def t)
  qed
qed

text \<open>A suspended coroutine is resumed: with the result of its operation, or cancelled because its task is deleted.\<close>

definition resumed_step :: "nat \<Rightarrow> op_kind \<Rightarrow> addr \<Rightarrow> sys_res \<Rightarrow> io_world \<Rightarrow> io_world \<Rightarrow> bool" where
  "resumed_step c kind s r w w' \<longleftrightarrow> stack w = [] \<and> stack w' = [c] \<and> io_wait w s = Some (kind, c) \<and> io_wait w' = (io_wait w)(s := None)
     \<and> io_state w' = io_state w \<and> myEventSub w' = myEventSub w
     \<and> (io_state w s = Some IO_TASK_STATE_DELETING \<and> co_res w' = -1
        \<or> \<not> mutex_locked (lpc w') \<and> lpc w' \<noteq> L_destroyed \<and> io_state w s \<noteq> Some IO_TASK_STATE_NEW \<and> returned kind r w')"

lemma resume_effect:
  assumes y: "io_tasks y = (io_tasks w)(s \<mapsto> t\<lparr>myEventsReady := ev, myAsyncOp := None\<rparr>)" "stack y = []" "lpc y = lpc w'" "myEventSub y = myEventSub w"
    and w': "w' = resume c m y" and t: "io_tasks w s = Some t" "myAsyncOp t = Some (AsyncOperation kind c)"
    and st: "stack w = []" and d: "dropping w = None" "dropping w' = None"
    and e: "myState t = IO_TASK_STATE_DELETING \<and> m = -1
      \<or> \<not> mutex_locked (lpc w') \<and> lpc w' \<noteq> L_destroyed \<and> myState t \<noteq> IO_TASK_STATE_NEW \<and> returned kind r w'"
  shows "resumed_step c kind s r w w'"
proof -
  have f: "io_tasks w' = io_tasks y" "co_res w' = m" "stack w' = [c]" "myEventSub w' = myEventSub w" using y w' by (simp_all add: resume_def)
  have "io_wait w' = (io_wait w)(s := None)" using t by (auto simp: io_wait_def fun_eq_iff d f y)
  moreover have "io_state w' = io_state w" using t by (auto simp: io_state_def fun_eq_iff f y)
  moreover have "io_wait w s = Some (kind, c)" using t d by (simp add: io_wait_iff)
  moreover have "io_state w s = Some (myState t)" using t by (simp add: io_state_def)
  ultimately show ?thesis using e st f by (auto simp: resumed_step_def)
qed

lemma ready_effect:
  assumes w': "io_tasks w' = (io_tasks w)(s \<mapsto> t\<lparr>myEventsReady := ev, myAsyncOp := myAsyncOp t\<rparr>)" "stack w' = []" "myEventSub w' = myEventSub w"
    and t: "io_tasks w s = Some t" and st: "stack w = []" and d: "dropping w = None" "dropping w' = None"
  shows "quiet_step D w w'"
proof -
  have "io_wait w' = io_wait w" using t by (auto simp: io_wait_def fun_eq_iff d w')
  moreover have "io_state w' = io_state w" using t by (auto simp: io_state_def fun_eq_iff w')
  ultimately show ?thesis using st w' by (auto simp: quiet_step_def quiet_tasks_def)
qed

lemma ready_new_ok:
  assumes n: "new_ok w" and t: "io_tasks w s = Some t" "myState t \<noteq> IO_TASK_STATE_NEW"
    and w': "io_tasks w' = (io_tasks w)(s \<mapsto> t\<lparr>myEventsReady := ev, myAsyncOp := op\<rparr>)" "set (batch w') \<subseteq> set (batch w)"
  shows "new_ok w'"
proof -
  have s: "io_state w' = io_state w" using t by (auto simp: io_state_def fun_eq_iff w')
  have "io_state w u \<noteq> Some IO_TASK_STATE_NEW" if "(u, m) \<in> set (batch w')" for u m
    using n subsetD [OF w'(2) that] unfolding new_ok_def by blast
  then show ?thesis using n t by (simp add: new_ok_def s w'(1))
qed

lemma roll_event_effect:
  assumes i: "io_inv w" and n: "new_ok w" and l: "lpc w = L_events ((s, ev) # rest)" and g: "go_ok r w"
    and w': "roll_event s ev r (w\<lparr>lpc := L_events rest\<rparr>) = Inr w'"
  shows "new_ok w' \<and> (quiet_step {} w w' \<or> (\<exists>kind c. task_is (\<lambda>t. myAsyncOp t = Some (AsyncOperation kind c)) s w \<and> resumed_step c kind s r w w'))"
proof -
  let ?w = "w\<lparr>lpc := L_events rest\<rparr>"
  have st: "stack w = []" using g by (simp add: go_ok_def)
  have b: "batch w = (s, ev) # rest" "dropping w = None" using l by (simp_all add: batch_def dropping_def)
  obtain t where t: "io_tasks w s = Some t" using io_invE(3) [OF i] b by (auto simp: socks_ok_def)
  obtain k where k: "socks w (myFd t) = Some k" by (rule task_sock [OF i t])
  have nw: "myState t \<noteq> IO_TASK_STATE_NEW" using n b t by (auto simp: new_ok_def io_state_def)
  have no: "\<not> (ev AND NOT (EPOLLIN OR EPOLLOUT) \<noteq> 0 \<or> event_mask ev = 0)" using w' by (auto simp: roll_event_def split: if_splits)
  let ?e = "myEventsReady t OR event_mask ev"
  show ?thesis
  proof (cases "myAsyncOp t")
    case None
    have f: "w' = set_iotask s (t\<lparr>myEventsReady := ?e\<rparr>) ?w" using w' no t None by (simp add: roll_event_def with_iotask_def)
    have "t\<lparr>myEventsReady := ?e, myAsyncOp := myAsyncOp t\<rparr> = t\<lparr>myEventsReady := ?e\<rparr>" by (cases t) simp
    then have f1: "io_tasks w' = (io_tasks w)(s \<mapsto> t\<lparr>myEventsReady := ?e, myAsyncOp := myAsyncOp t\<rparr>)" by (simp add: f)
    have "quiet_step {} w w'" by (rule ready_effect [OF f1 _ _ t]) (use st b in \<open>simp_all add: f dropping_def\<close>)
    moreover have "new_ok w'" by (rule ready_new_ok [OF n t nw f1]) (use b in \<open>auto simp: f batch_def\<close>)
    ultimately show ?thesis by blast
  next
    case (Some op)
    obtain kind c where op: "op = AsyncOperation kind c" by (cases op)
    let ?t = "t\<lparr>myEventsReady := ?e, myAsyncOp := None\<rparr>" and ?x = "set_iotask s (t\<lparr>myEventsReady := ?e, myAsyncOp := None\<rparr>) ?w"
    have ns: "s \<noteq> myEventSub w" using io_invE(4) [OF i] l t Some by (auto simp: event_ok_def task_is_def)
    have o: "outcome_ok kind r k w" using g l t Some op k by (simp add: go_ok_def sys_ok_def)
    then have o': "kind = AsyncConnect \<or> outcome_ok kind r k ?x" using outcome_ok_cong [of ?x w] by simp
    have x: "io_tasks ?x s = Some ?t" by simp
    have re: "roll_event s ev r ?w = io_bind (onIOEvent op s r ?x) (\<lambda>(ended, w1).
        if ended then Inr w1 else with_iotask s w1 (\<lambda>t2. Inr (set_iotask s (t2\<lparr>myAsyncOp := Some op\<rparr>) w1)))"
      using no t Some by (simp add: roll_event_def with_iotask_def)
    have ti: "task_is (\<lambda>t. myAsyncOp t = Some (AsyncOperation kind c)) s w" using t Some op by (simp add: task_is_def)
    have rs: "resumed_step c kind s r w w' \<and> new_ok w'"
      if "w' = resume c m y" "io_tasks y = (io_tasks w)(s \<mapsto> ?t)" "stack y = []" "lpc y = L_events rest" "myEventSub y = myEventSub w"
        "myState t = IO_TASK_STATE_DELETING \<and> m = -1 \<or> returned kind r w'" for m y
    proof
      have f: "io_tasks w' = (io_tasks w)(s \<mapsto> ?t)" "lpc w' = L_events rest" using that by (simp_all add: resume_def)
      show "resumed_step c kind s r w w'"
        by (rule resume_effect [OF that(2,3) _ that(5,1) t _ st]) (use f that b op Some nw in \<open>auto simp: dropping_def\<close>)
      show "new_ok w'" by (rule ready_new_ok [OF n t nw f(1)]) (use b f in \<open>auto simp: batch_def\<close>)
    qed
    consider (kept) ev' where "onIOEvent op s r ?x = Inr (False, set_iotask s (?t\<lparr>myEventsReady := ev'\<rparr>) ?x)"
      | (cancelled) "myState t = IO_TASK_STATE_DELETING" "onIOEvent op s r ?x = Inr (True, resume c (-1) ?x)"
      | (connected) "kind = AsyncConnect" "onIOEvent op s r ?x = Inr (True, resume c 0 ?x)"
      | (ended) m left where "kind \<noteq> AsyncConnect" "r = Done m left" "onIOEvent op s r ?x = Inr (True, resume c (int m) (sys_effect kind (myFd t) m left ?x))"
      using onIOEvent_result [OF x o', of c] unfolding op by auto
    then show ?thesis
    proof cases
      case kept
      have f: "w' = set_iotask s (t\<lparr>myEventsReady := ev', myAsyncOp := Some op\<rparr>) ?w"
        using w' kept by (simp add: re io_bind_def with_iotask_def set_iotask_def)
      then have f1: "io_tasks w' = (io_tasks w)(s \<mapsto> t\<lparr>myEventsReady := ev', myAsyncOp := myAsyncOp t\<rparr>)" using Some by simp
      have "quiet_step {} w w'" by (rule ready_effect [OF f1 _ _ t]) (use st b in \<open>simp_all add: f dropping_def\<close>)
      moreover have "new_ok w'" by (rule ready_new_ok [OF n t nw f1]) (use b in \<open>auto simp: f batch_def\<close>)
      ultimately show ?thesis by blast
    next
      case cancelled
      have "w' = resume c (-1) ?x" using w' cancelled by (simp add: re io_bind_def)
      from rs [OF this] st cancelled(1) ti show ?thesis by auto
    next
      case connected
      have "w' = resume c 0 ?x" using w' connected by (simp add: re io_bind_def)
      from rs [OF this] st connected(1) this ti show ?thesis by (auto simp: resume_def)
    next
      case ended
      let ?y = "sys_effect kind (myFd t) m left ?x"
      have e: "w' = resume c (int m) ?y" using w' ended(3) by (simp add: re io_bind_def)
      have "returned kind r w'"
      proof (cases "kind = AsyncAccept")
        case True
        have "socks w (int m) = None" using o True ended(2) by simp
        then have "io_fd w u \<noteq> Some (int m)" for u by (rule fd_closed [OF i])
        moreover have "io_fd w' u = io_fd w u" for u using t by (simp add: e io_fd_def resume_def)
        ultimately show ?thesis using True ended(2) by (simp add: e resume_def sys_accept_def Let_def sock_reg_def new_sock_def)
      next
        case False
        then show ?thesis using ended(1,2) by (cases kind) (simp_all add: e resume_def)
      qed
      from rs [OF e] st this ti show ?thesis by auto
    qed
  qed
qed

section \<open>The queue\<close>

lemma queue_add_effect:
  assumes i: "io_inv w" and n: "new_ok w" and l: "lpc w = L_queue who (s # rest)" and t: "io_tasks w s = Some t" "myState t = IO_TASK_STATE_NEW"
    and w': "queue_add who s rest t w = Inr w'"
  shows "new_ok w' \<and> quiet_step {} w w'"
proof -
  let ?t = "t\<lparr>myState := IO_TASK_STATE_WORKING, myEventsReady := IO_EVENT_READ OR IO_EVENT_WRITE, myIdx := int (length (myTasks w))\<rparr>"
  have f: "io_tasks w' = (io_tasks w)(s \<mapsto> ?t)" "stack w' = stack w" "myEventSub w' = myEventSub w" "lpc w' = L_queue who rest"
    using w' by (auto simp: queue_add_def epoll_add_def io_bind_def Let_def split: option.splits if_splits)
  have st: "stack w = []" using io_invE(7) [OF i] l by (simp add: stack_ok_def)
  have v: "dropping w = None" "dropping w' = None" "batch w' = []" using l f by (simp_all add: dropping_def batch_def)
  have "io_wait w' = io_wait w" using t by (auto simp: io_wait_def fun_eq_iff v f)
  then have "quiet_step {} w w'" using t st by (auto simp: quiet_step_def quiet_tasks_def f io_state_def)
  moreover have "new_ok w'" using n by (auto simp: new_ok_def v f)
  ultimately show ?thesis by blast
qed

text \<open>A task is freed, after others may have changed their index.\<close>

definition same_tasks :: "io_world \<Rightarrow> io_world \<Rightarrow> bool" where
  "same_tasks w x \<longleftrightarrow> (\<forall>u. map_option (\<lambda>t. (myState t, myAsyncOp t)) (io_tasks x u) = map_option (\<lambda>t. (myState t, myAsyncOp t)) (io_tasks w u))
     \<and> (\<forall>u t. io_tasks x u = Some t \<longrightarrow> myState t = IO_TASK_STATE_NEW \<longrightarrow> io_tasks w u = Some t)"

lemma same_tasksD:
  assumes "same_tasks w x"
  shows "io_state x = io_state w" and "dropping x = dropping w \<Longrightarrow> io_wait x = io_wait w"
proof -
  have m: "map_option (\<lambda>t. (myState t, myAsyncOp t)) (io_tasks x u) = map_option (\<lambda>t. (myState t, myAsyncOp t)) (io_tasks w u)" for u
    using assms by (simp add: same_tasks_def)
  show "io_state x = io_state w"
  proof
    fix u show "io_state x u = io_state w u" using m [of u] by (cases "io_tasks x u"; cases "io_tasks w u") (simp_all add: io_state_def)
  qed
  show "io_wait x = io_wait w" if "dropping x = dropping w"
  proof
    fix u show "io_wait x u = io_wait w u"
      using m [of u] by (cases "io_tasks x u"; cases "io_tasks w u") (simp_all add: io_wait_def that)
  qed
qed

lemma queue_drop_fields:
  assumes "queue_drop who s rest x = Inr w'"
  shows "io_tasks w' = (io_tasks x)(s := None)" "stack w' = stack x" "myEventSub w' = myEventSub x" "lpc w' = L_queue who rest"
  using assms by (auto simp: queue_drop_def IOTask_delete_def with_iotask_def io_bind_def close_fd_def split: option.splits if_splits)

lemma freed_effect:
  assumes n: "new_ok w" and x: "same_tasks w x" and w': "io_tasks w' = (io_tasks x)(s := None)" "stack w' = []" "myEventSub w' = myEventSub w" "lpc w' = L_queue who rest"
    and st: "stack w = []" and s: "io_wait w s = None" "io_state w s = Some IO_TASK_STATE_DELETING" and d: "\<And>u. dropping w = Some u \<Longrightarrow> u = s"
  shows "new_ok w' \<and> quiet_step {} w w'"
proof -
  have v: "dropping w' = None" "batch w' = []" using w' by (simp_all add: dropping_def batch_def)
  have "io_wait w' u = io_wait w u" for u
  proof (cases "u = s")
    case False
    moreover have "map_option (\<lambda>t. (myState t, myAsyncOp t)) (io_tasks x u) = map_option (\<lambda>t. (myState t, myAsyncOp t)) (io_tasks w u)"
      using x by (simp add: same_tasks_def)
    moreover have "dropping w \<noteq> Some u" using d False by blast
    ultimately show ?thesis by (cases "io_tasks x u"; cases "io_tasks w u") (simp_all add: io_wait_def v w')
  qed (simp add: s, simp add: io_wait_def w')
  then have "io_wait w' = io_wait w" by blast
  moreover have "io_state w' u = (if u = s then None else io_state w u)" for u
    using fun_cong [OF same_tasksD(1) [OF x], of u] by (simp add: io_state_def w')
  ultimately have "quiet_step {} w w'" using st s by (auto simp: quiet_step_def quiet_tasks_def w')
  moreover have "myEventsReady t = 0" if "io_tasks w' u = Some t" "myState t = IO_TASK_STATE_NEW" for u t
  proof -
    have "io_tasks w u = Some t" using x that unfolding same_tasks_def w' by (auto split: if_splits)
    then show ?thesis using n that(2) by (simp add: new_ok_def)
  qed
  then have "new_ok w'" by (simp add: new_ok_def v)
  ultimately show ?thesis by blast
qed

lemma same_tasks_taken:
  assumes "io_tasks w s = Some t" and "io_tasks w (last (myTasks w)) = Some b" and "myState t \<noteq> IO_TASK_STATE_NEW" "myState b \<noteq> IO_TASK_STATE_NEW"
  shows "same_tasks w (taken who s rest t k b ev st res w)"
  using assms by (auto simp: same_tasks_def)

lemma queue_delete_effect:
  assumes i: "io_inv w" and n: "new_ok w" and l: "lpc w = L_queue who (s # rest)" and t: "io_tasks w s = Some t" "myState t = IO_TASK_STATE_DELETING"
    and w': "queue_delete who s rest t w = Inr w'"
  shows "new_ok w' \<and> (quiet_step {} w w' \<or> (\<exists>kind c. resumed_step c kind s r w w'))"
proof -
  obtain k where k: "socks w (myFd t) = Some k" by (rule task_sock [OF i t(1)])
  have "myTasks w \<noteq> []" using task_at_index [OF i l t(1)] t(2) by auto
  then obtain b where b: "io_tasks w (last (myTasks w)) = Some b" "myState b \<noteq> IO_TASK_STATE_NEW" using last_task [OF i l] by blast
  have st: "stack w = []" using io_invE(7) [OF i] l by (simp add: stack_ok_def)
  have d: "dropping w = None" using l by (simp add: dropping_def)
  show ?thesis
  proof (cases "myAsyncOp t")
    case None
    let ?x = "taken who s rest t k b (myEventsReady t) (stack w) (co_res w) w"
    have "queue_drop who s rest ?x = Inr w'" using queue_delete_eq [OF i l t b(1) k] None w' by simp
    note f = queue_drop_fields [OF this]
    have "io_wait w s = None" "io_state w s = Some IO_TASK_STATE_DELETING" using None t by (simp_all add: io_wait_def io_state_def)
    from freed_effect [OF n same_tasks_taken [OF t(1) b(1) _ b(2)] f(1) _ _ f(4) st this] show ?thesis using t f st d by simp
  next
    case (Some op)
    then obtain kind c where op: "myAsyncOp t = Some (AsyncOperation kind c)" by (cases op) simp
    let ?x = "taken who s rest t k b 0 (c # stack w) (-1) w"
    have w: "w' = ?x" using queue_delete_eq [OF i l t b(1) k] op w' by simp
    have sm: "same_tasks w ?x" by (rule same_tasks_taken) (use t b in auto)
    have d': "dropping ?x = Some s" by (simp add: dropping_def)
    have "io_wait ?x u = ((io_wait w)(s := None)) u" for u
    proof (cases "u = s")
      case False
      moreover have "map_option (\<lambda>t. (myState t, myAsyncOp t)) (io_tasks ?x u) = map_option (\<lambda>t. (myState t, myAsyncOp t)) (io_tasks w u)"
        using sm unfolding same_tasks_def by blast
      ultimately show ?thesis by (cases "io_tasks ?x u"; cases "io_tasks w u") (simp_all add: io_wait_def d d')
    qed (simp add: io_wait_def d')
    moreover have "io_wait w s = Some (kind, c)" using t op d by (simp add: io_wait_iff)
    moreover have "io_state ?x = io_state w" by (rule same_tasksD [OF sm])
    moreover have "io_state w s = Some IO_TASK_STATE_DELETING" using t by (simp add: io_state_def)
    moreover have "co_res ?x = -1" by (simp add: taken_def)
    ultimately have "resumed_step c kind s r w ?x" using st by (auto simp: resumed_step_def)
    moreover have "io_tasks w u = Some x" if "io_tasks ?x u = Some x" "myState x = IO_TASK_STATE_NEW" for u x
      using sm that unfolding same_tasks_def by blast
    moreover have "batch ?x = []" by (simp add: batch_def)
    ultimately have "resumed_step c kind s r w w' \<and> new_ok w'" using n unfolding w new_ok_def by (metis list.set(1) empty_iff)
    then show ?thesis by blast
  qed
qed

lemma queue_next_effect:
  assumes i: "io_inv w" and n: "new_ok w" and l: "lpc w = L_queue who (s # rest)" and w': "queue_next who s rest w = Inr w'"
  shows "new_ok w' \<and> (quiet_step {} w w' \<or> (\<exists>kind c. resumed_step c kind s r w w'))"
proof -
  obtain t where t: "io_tasks w s = Some t" using w' by (auto simp: queue_next_def with_iotask_def split: option.splits)
  show ?thesis using w' t queue_add_effect [OF i n l t] queue_delete_effect [OF i n l t]
    by (cases "myState t") (auto simp: queue_next_def with_iotask_def)
qed

lemma queue_cancelled_effect:
  assumes i: "io_inv w" and n: "new_ok w" and l: "lpc w = L_cancel who s rest" and st: "stack w = []" and w': "queue_cancelled who s rest w = Inr w'"
  shows "new_ok w' \<and> quiet_step {} w w'"
proof -
  obtain t where t: "io_tasks w s = Some t" "myState t = IO_TASK_STATE_DELETING"
    using io_invE(1) [OF i] l by (auto simp: places_ok_def dropping_def task_is_iff)
  then have "queue_drop who s rest (set_iotask s (t\<lparr>myAsyncOp := None\<rparr>) w) = Inr w'" using w' by (simp add: queue_cancelled_def with_iotask_def)
  note f = queue_drop_fields [OF this]
  have sw: "same_tasks w w" by (simp add: same_tasks_def)
  have d: "dropping w = Some s" using l by (simp add: dropping_def)
  have f1: "io_tasks w' = (io_tasks w)(s := None)" "stack w' = []" "myEventSub w' = myEventSub w" using f st by simp_all
  have s: "io_wait w s = None" "io_state w s = Some IO_TASK_STATE_DELETING" using t by (simp_all add: io_wait_def io_state_def d)
  show ?thesis by (rule freed_effect [OF n sw f1 f(4) st s]) (simp add: d)
qed

lemma lpc_move:
  assumes "new_ok w" and "stack w = []" and "dropping w = None" and "dropping w' = None" and "batch w' = []"
    and "io_tasks w' = io_tasks w" "stack w' = stack w" "myEventSub w' = myEventSub w"
  shows "new_ok w' \<and> quiet_step D w w'"
  using quiet_same [of w' w D] new_ok_same [of w w'] assms by simp

lemma loop_step_effect:
  assumes i: "io_inv w" and n: "new_ok w" and g: "go_ok r w" and w': "loop_step r w = Inr w'"
  shows "new_ok w' \<and> (quiet_step {} w w' \<or> (\<exists>s kind c. resumed_step c kind s Would_block w w')
    \<or> (\<exists>s ev rest kind c. lpc w = L_events ((s, ev) # rest) \<and> task_is (\<lambda>t. myAsyncOp t = Some (AsyncOperation kind c)) s w
         \<and> resumed_step c kind s r w w'))"
proof -
  have st: "stack w = []" using g by (simp add: go_ok_def)
  show ?thesis
  proof (cases "lpc w")
    case (L_events evs)
    show ?thesis
    proof (cases evs)
      case Nil
      then have "w' = w\<lparr>lpc := L_idle\<rparr>" using w' L_events by (simp add: loop_step_def)
      then have "new_ok w' \<and> quiet_step {} w w'" using L_events by (intro lpc_move [OF n st]) (simp_all add: dropping_def batch_def)
      then show ?thesis by blast
    next
      case (Cons e rest)
      obtain s ev where e: "e = (s, ev)" by (cases e)
      have l: "lpc w = L_events ((s, ev) # rest)" using L_events Cons e by simp
      show ?thesis using roll_event_effect [OF i n l g, of w'] w' l by (auto simp: loop_step_def)
    qed
  next
    case (L_queue who q)
    show ?thesis
    proof (cases q)
      case Nil
      have "queue_done who w = Inr w'" using w' L_queue Nil by (simp add: loop_step_def)
      then have f: "io_tasks w' = io_tasks w" "stack w' = stack w" "myEventSub w' = myEventSub w" "lpc w' = L_wait \<or> lpc w' = L_destroyed"
        by (auto simp: queue_done_def Let_def split: caller.splits if_splits)
      have "new_ok w' \<and> quiet_step {} w w'"
        by (rule lpc_move [OF n st _ _ _ f(1-3)]) (use f(4) L_queue in \<open>auto simp: dropping_def batch_def\<close>)
      then show ?thesis by blast
    next
      case (Cons s rest)
      then have "queue_next who s rest w = Inr w'" using w' L_queue by (simp add: loop_step_def)
      from queue_next_effect [OF i n _ this, where r = Would_block] show ?thesis using L_queue Cons by auto
    qed
  next
    case (L_cancel who s rest)
    then show ?thesis using queue_cancelled_effect [OF i n L_cancel st] w' by (simp add: loop_step_def)
  qed (use g in \<open>simp_all add: go_ok_def\<close>)
qed

section \<open>The other steps of the loop\<close>

lemma quiet_wait:
  assumes i: "io_inv w" and n: "new_ok w" and e: "io_enabled (Wait fds) w"
  shows "new_ok (roll_wait fds w) \<and> quiet_step D w (roll_wait fds w)"
proof -
  have l: "lpc w = L_wait" and d: "distinct fds" using e by auto
  have st: "stack w = []" using io_invE(7) [OF i] l by (simp add: stack_ok_def)
  obtain evs where te: "take_events fds w = (evs, clear_pending fds w)" and se: "set evs = (\<Union>fd\<in>set fds. reports w fd)"
    using take_events_spec [OF d, of w] by (cases "take_events fds w") auto
  let ?w = "(clear_pending fds w)\<lparr>lpc := L_events evs\<rparr>"
  have w: "roll_wait fds w = ?w" by (simp add: roll_wait_def te)
  have f: "io_tasks ?w = io_tasks w" "stack ?w = stack w" "myEventSub ?w = myEventSub w" by (simp_all add: clear_pending_def)
  have "io_state w s \<noteq> Some IO_TASK_STATE_NEW" if sm: "(s, m) \<in> set evs" for s m
  proof -
    obtain fd k where k: "socks w fd = Some k" "registered k = Some s" using sm se by (auto simp: reports_def)
    then obtain t where t: "io_tasks w s = Some t" "myFd t = fd" using socks_okD [OF i k(1)] by (auto simp: sock_ok_def task_is_iff)
    then have "sock_reg w (myFd t) = Some (Some s)" using k by (simp add: sock_reg_def)
    moreover have "myState t = IO_TASK_STATE_NEW \<Longrightarrow> sock_reg w (myFd t) = Some None" using io_invE(2) [OF i] t(1) by (simp add: task_socks_ok_def)
    ultimately show ?thesis using t(1) by (auto simp: io_state_def)
  qed
  then have "new_ok ?w" using n by (simp add: new_ok_def f io_state_def batch_def)
  moreover have "quiet_step D w ?w" by (rule quiet_same) (use f st l in \<open>simp_all add: dropping_def\<close>)
  ultimately show ?thesis by (simp add: w)
qed

lemma quiet_core_deleted:
  assumes i: "io_inv w" and n: "new_ok w" and c: "call_ok Delete_core w" and w': "IOCore_delete w = Inr w'"
  shows "new_ok w' \<and> quiet_step {myEventSub w} w w'"
proof -
  have m: "\<not> mutex_locked (lpc w)" "lpc w \<noteq> L_destroyed" and l: "lpc w = L_idle" and st: "stack w = []" using c by auto
  obtain t where t: "io_tasks w (myEventSub w) = Some t" "myState t = IO_TASK_STATE_WORKING" using c by (auto simp: task_is_iff)
  obtain x where x: "unsubscribe (myEventSub w) w = Inr x" using unsubscribe_eq [OF i m t] by blast
  note Q = quiet_marked [OF i m t x n]
  have w: "w' = processQueues From_destructor (x\<lparr>myEventFd := -1\<rparr>)" using w' x by (simp add: IOCore_delete_def io_bind_def)
  have f: "io_tasks w' = io_tasks x" "stack w' = stack x" "myEventSub w' = myEventSub x" by (simp_all add: w processQueues_def)
  have v: "dropping w' = None" "batch w' = []" "dropping x = None" by (simp_all add: w processQueues_def dropping_def batch_def Q(3) l)
  have "io_wait w' = io_wait x" by (simp add: io_wait_def fun_eq_iff f v)
  moreover have "io_state w' = io_state x" by (simp add: io_state_def fun_eq_iff f)
  ultimately have "quiet_step {myEventSub w} w w'" using Q(1) st by (simp add: quiet_step_def quiet_tasks_def f)
  moreover have "new_ok w'" by (rule new_ok_same [OF Q(2) f(1)]) (simp add: v)
  ultimately show ?thesis by blast
qed

text \<open>A new task is not taken up yet and has no operation.\<close>

lemma subscribe_effect:
  assumes i: "io_inv w" and n: "new_ok w" and c: "call_ok (Subscribe s fd) w" and w': "subscribe s fd w = Inr w'"
  shows "new_ok w'" "lpc w' = lpc w" "quiet_tasks {} w w'" "io_state w' = (io_state w)(s \<mapsto> IO_TASK_STATE_NEW)" "io_state w s = None"
proof -
  let ?t = "\<lparr>myState = IO_TASK_STATE_NEW, myFd = fd, myIdx = -1, myEventsReady = 0, myAsyncOp = None\<rparr>"
  have e: "io_tasks w s = None" using c by simp
  obtain k where "socks w (myEventFd w) = Some k" using event_open [OF i] not_in_destructor c by auto
  moreover have "assert_all (\<lambda>_ t. myFd t \<noteq> fd) (myTasks w) w = Inr ()" "assert_all (\<lambda>_ t. myFd t \<noteq> fd) (myQueue w) w = Inr ()"
    using c by (auto simp: all_tasks_def intro!: assert_all_ok)
  ultimately have f: "io_tasks w' = (io_tasks w)(s \<mapsto> ?t)" "lpc w' = lpc w" "stack w' = stack w" "myEventSub w' = myEventSub w" "co_res w' = co_res w"
    using w' by (auto simp: subscribe_def io_bind_def wakeup_def IOTask_new_def set_iotask_def upd_sock_def)
  then show "lpc w' = lpc w" by simp
  have "io_wait w' = io_wait w" using e by (auto simp: io_wait_def fun_eq_iff f lpc_views(2) [OF f(2)])
  moreover show s: "io_state w' = (io_state w)(s \<mapsto> IO_TASK_STATE_NEW)" by (auto simp: io_state_def f)
  moreover show "io_state w s = None" using e by (simp add: io_state_def)
  ultimately show "quiet_tasks {} w w'" by (auto simp: quiet_tasks_def f)
  have "io_tasks w u \<noteq> None" if "(u, m) \<in> set (batch w)" for u m using io_invE(3) [OF i] that by (auto simp: socks_ok_def)
  then have "u \<noteq> s" if "(u, m) \<in> set (batch w)" for u m using that e by blast
  then show "new_ok w'" using n e by (auto simp: new_ok_def f io_state_def lpc_views(1) [OF f(2)])
qed

end
