(* ===== verification/IO_Load_Inv.thy ===== *)
theory IO_Load_Inv
  imports IO_Load IO_Core_Steps
begin

text \<open>
  The invariant of the load test: which tasks each coroutine works on, in which states of the tasks it does so, and what its
  counters count. Every step of the coroutines keeps the rules of the event loop.
\<close>

section \<open>The invariant\<close>

text \<open>The operation a coroutine waits for or has just ended, the tasks it works on, the client and the server it runs.\<close>

fun awaits :: "coro_pc \<Rightarrow> (op_kind \<times> addr) option" where
  "awaits (Connected s) = Some (AsyncConnect, s)"
| "awaits (Sent s i) = Some (AsyncSend, s)"
| "awaits (Received s i) = Some (AsyncRecv, s)"
| "awaits (Accepted s) = Some (AsyncAccept, s)"
| "awaits pc = None"

fun client_of :: "coro_pc \<Rightarrow> addr option" where
  "client_of (Connect s) = Some s"
| "client_of (Connected s) = Some s"
| "client_of (Send_next s i) = Some s"
| "client_of (Sent s i) = Some s"
| "client_of (Received s i) = Some s"
| "client_of (Wrapped s a) = Some a"
| "client_of pc = None"

fun server_of :: "coro_pc \<Rightarrow> addr option" where
  "server_of (Accept s) = Some s"
| "server_of (Accepted s) = Some s"
| "server_of (Wrapped s a) = Some s"
| "server_of pc = None"

definition works_on :: "coro_pc \<Rightarrow> addr set" where
  "works_on pc = set_option (client_of pc) \<union> set_option (server_of pc)"

text \<open>A coroutine is alive exactly if it runs or is suspended, and then in the operation of its task that it waits for.\<close>

definition alive_ok :: "load_world \<Rightarrow> bool" where
  "alive_ok w \<longleftrightarrow> finite (dom (progs w))
     \<and> (\<forall>c. progs w c \<noteq> None \<longleftrightarrow> c \<in> set (stack (io w)) \<or> (\<exists>s kind. io_wait (io w) s = Some (kind, c)))
     \<and> (\<forall>s kind c. io_wait (io w) s = Some (kind, c) \<longrightarrow> (\<exists>pc. progs w c = Some pc \<and> awaits pc = Some (kind, s)))"

text \<open>Each works on tasks of its own that exist; that of a client is not marked for deletion before the end of the client.\<close>

definition owners_ok :: "load_world \<Rightarrow> bool" where
  "owners_ok w \<longleftrightarrow>
     (\<forall>c pc. progs w c = Some pc \<longrightarrow> (\<forall>s\<in>works_on pc. io_state (io w) s \<noteq> None \<and> s \<noteq> myEventSub (io w))
        \<and> (\<forall>s. client_of pc = Some s \<longrightarrow> io_state (io w) s \<noteq> Some IO_TASK_STATE_DELETING \<and> server_of pc \<noteq> Some s))
     \<and> (\<forall>c d pc pc'. progs w c = Some pc \<longrightarrow> progs w d = Some pc' \<longrightarrow> works_on pc \<inter> works_on pc' \<noteq> {} \<longrightarrow> c = d)"

text \<open>There is one server at most. Its task is marked when it is stopped.\<close>

definition server_ok :: "load_world \<Rightarrow> bool" where
  "server_ok w \<longleftrightarrow>
     (\<forall>c d pc pc'. progs w c = Some pc \<longrightarrow> progs w d = Some pc' \<longrightarrow> server_of pc \<noteq> None \<longrightarrow> server_of pc' \<noteq> None \<longrightarrow> c = d)
     \<and> (\<forall>c pc. progs w c = Some pc \<longrightarrow> server_of pc \<noteq> None \<longrightarrow> server_made w \<and> \<not> server_finished w)
     \<and> (server_finished w \<longrightarrow> server_made w)
     \<and> (\<forall>s. server_task w = Some s \<longrightarrow> server_made w \<and> s \<noteq> myEventSub (io w)
          \<and> io_state (io w) s \<noteq> None \<and> io_state (io w) s \<noteq> Some IO_TASK_STATE_DELETING
          \<and> (\<forall>c pc. progs w c = Some pc \<longrightarrow> client_of pc \<noteq> Some s))"

text \<open>What the coroutine that runs relies on; those below it on the stack have nothing to look at.\<close>

fun result_fits :: "op_kind \<Rightarrow> addr \<Rightarrow> io_world \<Rightarrow> bool" where
  "result_fits AsyncConnect s x = (co_res x = 0)"
| "result_fits AsyncAccept s x =
     (0 \<le> co_res x \<longrightarrow> lpc x \<noteq> L_destroyed \<and> sock_reg x (co_res x) = Some None \<and> (\<forall>u. io_fd x u \<noteq> Some (co_res x)))"
| "result_fits kind s x = (co_res x = 1 \<and> io_state x s \<noteq> Some IO_TASK_STATE_NEW)"

fun may_run :: "coro_pc \<Rightarrow> io_world \<Rightarrow> bool" where
  "may_run (Send_next s i) x = (i = 0 \<or> io_state x s \<noteq> Some IO_TASK_STATE_NEW)"
| "may_run pc x = (case awaits pc of None \<Rightarrow> True | Some (kind, s) \<Rightarrow> result_fits kind s x)"

fun at_rest :: "coro_pc \<Rightarrow> bool" where
  "at_rest Ended = True"
| "at_rest (Accept s) = True"
| "at_rest pc = False"

text \<open>With the mutex locked only the end of the server runs.\<close>

fun cancelled :: "coro_pc \<Rightarrow> io_world \<Rightarrow> bool" where
  "cancelled Ended x = True"
| "cancelled (Accepted s) x = (co_res x < 0)"
| "cancelled pc x = False"

definition running_ok :: "load_world \<Rightarrow> bool" where
  "running_ok w \<longleftrightarrow>
     (case stack (io w) of [] \<Rightarrow> True
      | c # cs \<Rightarrow> (\<forall>pc. progs w c = Some pc \<longrightarrow> may_run pc (io w) \<and> (mutex_locked (lpc (io w)) \<longrightarrow> cs = [] \<and> cancelled pc (io w)))
          \<and> (\<forall>d\<in>set cs. \<forall>pc. progs w d = Some pc \<longrightarrow> at_rest pc))"

definition count_ok :: "load_world \<Rightarrow> bool" where
  "count_ok w \<longleftrightarrow> client_count w = int (card {c. \<exists>pc s. progs w c = Some pc \<and> client_of pc = Some s})"

definition load_inv :: "load_world \<Rightarrow> bool" where
  "load_inv w \<longleftrightarrow> io_inv (io w) \<and> new_ok (io w) \<and> alive_ok w \<and> owners_ok w \<and> server_ok w \<and> running_ok w \<and> count_ok w"

lemma load_invE:
  assumes "load_inv w"
  shows "io_inv (io w)" "new_ok (io w)" "alive_ok w" "owners_ok w" "server_ok w" "running_ok w" "count_ok w"
  using assms by (simp_all add: load_inv_def)

lemma load_invI:
  "io_inv (io w) \<Longrightarrow> new_ok (io w) \<Longrightarrow> alive_ok w \<Longrightarrow> owners_ok w \<Longrightarrow> server_ok w \<Longrightarrow> running_ok w \<Longrightarrow> count_ok w \<Longrightarrow> load_inv w"
  by (simp add: load_inv_def)

lemma awaits_works: "awaits pc = Some (kind, s) \<Longrightarrow> works_on pc = {s}"
  by (cases pc) (auto simp: works_on_def)

lemma owners_okD:
  assumes "owners_ok w" and "progs w c = Some pc"
  shows "s \<in> works_on pc \<Longrightarrow> io_state (io w) s \<noteq> None" "s \<in> works_on pc \<Longrightarrow> s \<noteq> myEventSub (io w)"
    "client_of pc = Some s \<Longrightarrow> io_state (io w) s \<noteq> Some IO_TASK_STATE_DELETING" "client_of pc = Some s \<Longrightarrow> server_of pc \<noteq> Some s"
  using assms unfolding owners_ok_def by blast+

lemma owners_same:
  assumes "owners_ok w" and "progs w c = Some pc" and "progs w d = Some pc'" and "s \<in> works_on pc" and "s \<in> works_on pc'"
  shows "c = d"
proof -
  have "works_on pc \<inter> works_on pc' \<noteq> {}" using assms(4,5) by blast
  then show ?thesis using assms(1-3) unfolding owners_ok_def by metis
qed

text \<open>No operation is suspended on the task of a coroutine that runs.\<close>

lemma alive_wait: "load_inv w \<Longrightarrow> io_wait (io w) s = Some (kind, c) \<Longrightarrow> \<exists>pc. progs w c = Some pc \<and> awaits pc = Some (kind, s)"
  using load_invE(3) unfolding alive_ok_def by blast

lemma running_free:
  assumes i: "load_inv w" and c: "c \<in> set (stack (io w))" "progs w c = Some pc" "s \<in> works_on pc"
  shows "io_wait (io w) s = None"
proof (rule ccontr)
  assume "io_wait (io w) s \<noteq> None"
  then obtain kind d where d: "io_wait (io w) s = Some (kind, d)" by auto
  then obtain pc' where p: "progs w d = Some pc'" "awaits pc' = Some (kind, s)" using alive_wait [OF i] by blast
  have "s \<in> works_on pc'" using awaits_works [OF p(2)] by simp
  then have "c = d" by (rule owners_same [OF load_invE(4) [OF i] c(2) p(1) c(3)])
  then show False using wait_not_running [OF load_invE(1) [OF i] d] c by simp
qed

section \<open>Moves without a coroutine\<close>

lemma quiet_alive: "alive_ok w \<Longrightarrow> stack x = stack (io w) \<Longrightarrow> io_wait x = io_wait (io w) \<Longrightarrow> alive_ok (w\<lparr>io := x\<rparr>)"
  by (simp add: alive_ok_def)

text \<open>When no coroutine runs, each waits on its own task.\<close>

lemma idle_waits:
  assumes a: "alive_ok w" and st: "stack (io w) = []" and p: "progs w c = Some pc" and s: "s \<in> works_on pc"
  shows "io_wait (io w) s \<noteq> None"
proof -
  obtain kind u where u: "io_wait (io w) u = Some (kind, c)" using a st p unfolding alive_ok_def by force
  then have "awaits pc = Some (kind, u)" using a p unfolding alive_ok_def by force
  then have "s = u" using s awaits_works by auto
  then show ?thesis using u by simp
qed

lemma quiet_owners:
  assumes a: "alive_ok w" and o: "owners_ok w" and q: "quiet_tasks D (io w) x" and D: "\<And>c pc s. progs w c = Some pc \<Longrightarrow> client_of pc = Some s \<Longrightarrow> s \<notin> D"
  shows "owners_ok (w\<lparr>io := x\<rparr>)"
proof -
  have e: "io_state x s \<noteq> None" if p: "progs w c = Some pc" "s \<in> works_on pc" for c pc s
  proof
    assume "io_state x s = None"
    then have "stack (io w) = []" "io_wait (io w) s = None" using q owners_okD(1) [OF o p] unfolding quiet_tasks_def by blast+
    then show False using idle_waits [OF a _ p] by blast
  qed
  have d: "io_state x s \<noteq> Some IO_TASK_STATE_DELETING" if p: "progs w c = Some pc" "client_of pc = Some s" for c pc s
  proof -
    have "s \<in> works_on pc" using p(2) by (simp add: works_on_def)
    then obtain y where y: "io_state (io w) s = Some y" using owners_okD(1) [OF o p(1)] by blast
    then have "y \<noteq> IO_TASK_STATE_DELETING" using owners_okD(3) [OF o p] by blast
    then show ?thesis using q y D [OF p] unfolding quiet_tasks_def by fastforce
  qed
  have "myEventSub x = myEventSub (io w)" using q by (simp add: quiet_tasks_def)
  then show ?thesis using o e d owners_okD(2,4) [OF o] unfolding owners_ok_def by simp
qed

lemma quiet_server:
  assumes v: "server_ok w" and q: "quiet_tasks D (io w) x" and D: "\<And>s. n = Some s \<Longrightarrow> server_task w = Some s \<and> s \<notin> D"
  shows "server_ok (w\<lparr>io := x, server_task := n\<rparr>)"
proof -
  have "myEventSub x = myEventSub (io w)" using q by (simp add: quiet_tasks_def)
  moreover have "io_state x s \<noteq> None \<and> io_state x s \<noteq> Some IO_TASK_STATE_DELETING" if "n = Some s" for s
  proof -
    have s: "server_task w = Some s" "s \<notin> D" using D [OF that] by simp_all
    then obtain y where "io_state (io w) s = Some y" "y \<noteq> IO_TASK_STATE_DELETING" using v unfolding server_ok_def by blast
    then show ?thesis using q s(2) unfolding quiet_tasks_def by fastforce
  qed
  ultimately show ?thesis using v D unfolding server_ok_def by simp
qed

lemma quiet_running:
  assumes r: "running_ok w" and a: "alive_ok w" and o: "owners_ok w" and q: "quiet_step D (io w) x"
    and D: "\<And>c pc s. progs w c = Some pc \<Longrightarrow> client_of pc = Some s \<Longrightarrow> s \<notin> D"
  shows "running_ok (w\<lparr>io := x\<rparr>)"
proof (cases "stack (io w)")
  case Nil
  then show ?thesis using q by (simp add: running_ok_def quiet_step_def quiet_tasks_def)
next
  case (Cons c cs)
  have f: "stack x = c # cs" "lpc x = lpc (io w)" "co_res x = co_res (io w)" "io_fd x = io_fd (io w)"
    "\<And>fd. sock_reg (io w) fd = Some None \<Longrightarrow> sock_reg x fd = Some None" using q Cons by (simp_all add: quiet_step_def quiet_tasks_def)
  have n: "io_state x s \<noteq> Some IO_TASK_STATE_NEW" if p: "progs w c = Some pc" "client_of pc = Some s" "io_state (io w) s \<noteq> Some IO_TASK_STATE_NEW" for pc s
  proof -
    have "s \<in> works_on pc" using p(2) by (simp add: works_on_def)
    then obtain y where y: "io_state (io w) s = Some y" using owners_okD(1) [OF o p(1)] by blast
    then have "y \<noteq> IO_TASK_STATE_DELETING" using owners_okD(3) [OF o p(1,2)] by blast
    then show ?thesis using q y D [OF p(1,2)] p(3) unfolding quiet_step_def quiet_tasks_def by fastforce
  qed
  have m: "may_run pc x" if p: "progs w c = Some pc" "may_run pc (io w)" for pc
    using p n [OF p(1)] f(3-5) by (cases pc) (auto simp: f(2))
  have c: "cancelled pc x = cancelled pc (io w)" for pc by (cases pc) (simp_all add: f)
  show ?thesis using r m Cons f(1,2) unfolding running_ok_def by (auto simp: c)
qed

lemma quiet_load:
  assumes i: "load_inv w" and x: "io_inv x" "new_ok x" and q: "quiet_step D (io w) x"
    and D: "\<And>c pc s. progs w c = Some pc \<Longrightarrow> client_of pc = Some s \<Longrightarrow> s \<notin> D" and n: "\<And>s. n = Some s \<Longrightarrow> server_task w = Some s \<and> s \<notin> D"
  shows "load_inv (w\<lparr>io := x, server_task := n\<rparr>)"
proof -
  note I = load_invE [OF i]
  have t: "quiet_tasks D (io w) x" using q by (simp add: quiet_step_def)
  have "alive_ok (w\<lparr>io := x\<rparr>)" using quiet_alive [OF I(3)] q by (simp add: quiet_step_def quiet_tasks_def)
  then have "alive_ok (w\<lparr>io := x, server_task := n\<rparr>)" by (simp add: alive_ok_def)
  moreover have "owners_ok (w\<lparr>io := x\<rparr>)" by (rule quiet_owners [OF I(3,4) t]) (rule D)
  then have "owners_ok (w\<lparr>io := x, server_task := n\<rparr>)" by (simp add: owners_ok_def)
  moreover have "running_ok (w\<lparr>io := x\<rparr>)" by (rule quiet_running [OF I(6,3,4) q]) (rule D)
  then have "running_ok (w\<lparr>io := x, server_task := n\<rparr>)" by (simp add: running_ok_def cong: list.case_cong)
  moreover have "server_ok (w\<lparr>io := x, server_task := n\<rparr>)" by (rule quiet_server [OF I(5) t]) (rule n)
  moreover have "count_ok (w\<lparr>io := x, server_task := n\<rparr>)" using I(7) by (simp add: count_ok_def)
  ultimately show ?thesis using x by (intro load_invI) simp_all
qed

section \<open>A coroutine is resumed\<close>

lemma returned_fits:
  assumes "returned kind r x" and "one_byte kind r" and "kind = AsyncConnect \<or> io_state x s \<noteq> Some IO_TASK_STATE_NEW" and "lpc x \<noteq> L_destroyed"
  shows "result_fits kind s x"
  using assms by (cases kind; cases r) auto

lemma same_state_ok:
  assumes "io_state x = io_state (io w)" and "myEventSub x = myEventSub (io w)"
  shows "owners_ok (w\<lparr>io := x\<rparr>) = owners_ok w" "server_ok (w\<lparr>io := x\<rparr>) = server_ok w" "count_ok (w\<lparr>io := x\<rparr>) = count_ok w"
  using assms by (simp_all add: owners_ok_def server_ok_def count_ok_def)

lemma may_run_awaits: "awaits pc = Some (kind, s) \<Longrightarrow> may_run pc x = result_fits kind s x"
  by (cases pc) auto

lemma awaits_server: "awaits pc = Some (kind, s) \<Longrightarrow> client_of pc \<noteq> Some s \<Longrightarrow> pc = Accepted s"
  by (cases pc) auto

lemma resumed_load:
  assumes i: "load_inv w" and x: "io_inv x" "new_ok x" and q: "resumed_step c kind s r (io w) x" and b: "one_byte kind r"
  shows "load_inv (w\<lparr>io := x\<rparr>)"
proof -
  note I = load_invE [OF i]
  have f: "stack (io w) = []" "stack x = [c]" "io_wait (io w) s = Some (kind, c)" "io_wait x = (io_wait (io w))(s := None)"
    "io_state x = io_state (io w)" "myEventSub x = myEventSub (io w)" using q by (simp_all add: resumed_step_def)
  have "progs w d \<noteq> None \<longleftrightarrow> d \<in> set (stack x) \<or> (\<exists>u k. io_wait x u = Some (k, d))" for d
  proof -
    have "progs w d \<noteq> None \<longleftrightarrow> (\<exists>u k. io_wait (io w) u = Some (k, d))" using I(3) f(1) unfolding alive_ok_def by simp
    moreover have "io_wait x u = Some (k, d) \<longleftrightarrow> io_wait (io w) u = Some (k, d)" if "d \<noteq> c" for u k using f(3,4) that by auto
    ultimately show ?thesis using f(2,3) by (cases "d = c") auto
  qed
  moreover have "\<exists>pc. progs w d = Some pc \<and> awaits pc = Some (k, u)" if "io_wait x u = Some (k, d)" for u k d
    using alive_wait [OF i] that f(4) by (simp split: if_splits)
  ultimately have "alive_ok (w\<lparr>io := x\<rparr>)" using I(3) unfolding alive_ok_def by simp
  moreover obtain pc where pc: "progs w c = Some pc" "awaits pc = Some (kind, s)" using alive_wait [OF i f(3)] by blast
  have "may_run pc x \<and> (mutex_locked (lpc x) \<longrightarrow> cancelled pc x)"
  proof (cases "io_state (io w) s = Some IO_TASK_STATE_DELETING \<and> co_res x = -1")
    case True
    then have "client_of pc \<noteq> Some s" using owners_okD(3) [OF I(4) pc(1)] by blast
    then have "pc = Accepted s" by (rule awaits_server [OF pc(2)])
    then show ?thesis using True by simp
  next
    case False
    then have "\<not> mutex_locked (lpc x)" "lpc x \<noteq> L_destroyed" "io_state x s \<noteq> Some IO_TASK_STATE_NEW" "returned kind r x"
      using q by (auto simp: resumed_step_def)
    then show ?thesis using returned_fits [OF _ b, of x s] may_run_awaits [OF pc(2)] by simp
  qed
  then have "running_ok (w\<lparr>io := x\<rparr>)" using f(2) pc(1) by (simp add: running_ok_def)
  ultimately show ?thesis using I x same_state_ok [OF f(5,6)] by (intro load_invI) simp_all
qed

section \<open>Calls of a coroutine\<close>

text \<open>The coroutine gets to another place, with fewer tasks at most.\<close>

lemma set_pc_fields [simp]:
  "io (set_pc c pc w) = io w" "progs (set_pc c pc w) = (progs w)(c \<mapsto> pc)" "server_task (set_pc c pc w) = server_task w"
  "server_made (set_pc c pc w) = server_made w" "server_finished (set_pc c pc w) = server_finished w" "client_count (set_pc c pc w) = client_count w"
  by (simp_all add: set_pc_def)

lemma put_owners:
  assumes o: "owners_ok w" and e: "\<And>s. s \<in> works_on pc \<Longrightarrow> io_state (io w) s \<noteq> None \<and> s \<noteq> myEventSub (io w)"
    and k: "\<And>s. client_of pc = Some s \<Longrightarrow> io_state (io w) s \<noteq> Some IO_TASK_STATE_DELETING \<and> server_of pc \<noteq> Some s"
    and n: "\<And>d y s. d \<noteq> c \<Longrightarrow> progs w d = Some y \<Longrightarrow> s \<in> works_on pc \<Longrightarrow> s \<notin> works_on y"
  shows "owners_ok (set_pc c pc w)"
proof -
  have 1: "(\<forall>s\<in>works_on y. io_state (io w) s \<noteq> None \<and> s \<noteq> myEventSub (io w))
      \<and> (\<forall>s. client_of y = Some s \<longrightarrow> io_state (io w) s \<noteq> Some IO_TASK_STATE_DELETING \<and> server_of y \<noteq> Some s)"
    if "progs (set_pc c pc w) d = Some y" for d y
    using that e k owners_okD [OF o, of d y] by (cases "d = c") auto
  have 2: "d = u" if y: "progs (set_pc c pc w) d = Some y" "progs (set_pc c pc w) u = Some z" "works_on y \<inter> works_on z \<noteq> {}" for d u y z
  proof (rule ccontr)
    assume du: "d \<noteq> u"
    obtain s where s: "s \<in> works_on y" "s \<in> works_on z" using y(3) by blast
    consider (left) "d = c" "u \<noteq> c" | (right) "u = c" "d \<noteq> c" | (none) "d \<noteq> c" "u \<noteq> c" using du by blast
    then show False
    proof cases
      case left
      then show False using y s n [of u z s] by simp
    next
      case right
      then show False using y s n [of d y s] by simp
    next
      case none
      then show False using owners_same [OF o _ _ s, of d u] y du by simp
    qed
  qed
  show ?thesis
    unfolding owners_ok_def set_pc_fields(1)
    by (rule conjI; intro allI impI) (erule 1, erule (2) 2)
qed

lemma put_server:
  assumes v: "server_ok w" and p: "server_of pc \<noteq> None \<Longrightarrow> \<exists>y. progs w c = Some y \<and> server_of y \<noteq> None"
    and k: "\<And>s. client_of pc = Some s \<Longrightarrow> server_task w \<noteq> Some s"
  shows "server_ok (set_pc c pc w)"
proof -
  have b: "\<exists>y'. progs w d = Some y' \<and> server_of y' \<noteq> None" if "progs (set_pc c pc w) d = Some y" "server_of y \<noteq> None" for d y
    using that p by (cases "d = c") auto
  show ?thesis
    unfolding server_ok_def set_pc_fields(1,3-5)
  proof (intro conjI allI impI)
    fix d u y z assume a: "progs (set_pc c pc w) d = Some y" "progs (set_pc c pc w) u = Some z" "server_of y \<noteq> None" "server_of z \<noteq> None"
    obtain y' z' where "progs w d = Some y'" "server_of y' \<noteq> None" "progs w u = Some z'" "server_of z' \<noteq> None" using b [OF a(1,3)] b [OF a(2,4)] by blast
    then show "d = u" using v unfolding server_ok_def by metis
  next
    fix d y assume "progs (set_pc c pc w) d = Some y" "server_of y \<noteq> None"
    then obtain y' where "progs w d = Some y'" "server_of y' \<noteq> None" using b by blast
    then show "server_made w" "\<not> server_finished w" using v unfolding server_ok_def by metis+
  next
    fix s d y assume s: "server_task w = Some s" and y: "progs (set_pc c pc w) d = Some y"
    show "client_of y \<noteq> Some s"
    proof (cases "d = c")
      case True
      then show ?thesis using y k s by auto
    next
      case False
      then show ?thesis using v s y unfolding server_ok_def set_pc_fields(2) fun_upd_other [OF False] by metis
    qed
  qed (use v in \<open>auto simp: server_ok_def\<close>)
qed

definition fewer_tasks :: "coro_pc \<Rightarrow> coro_pc \<Rightarrow> bool" where
  "fewer_tasks pc pc' \<longleftrightarrow> (client_of pc' = None \<or> client_of pc' = client_of pc) \<and> (server_of pc' = None \<or> server_of pc' = server_of pc)"

lemma fewer_works: "fewer_tasks pc pc' \<Longrightarrow> s \<in> works_on pc' \<Longrightarrow> s \<in> works_on pc"
  by (auto simp: fewer_tasks_def works_on_def)

lemma set_pc_owners:
  assumes o: "owners_ok w" and p: "progs w c = Some pc" and e: "fewer_tasks pc pc'"
  shows "owners_ok (set_pc c pc' w)"
proof (rule put_owners [OF o])
  show "io_state (io w) s \<noteq> None \<and> s \<noteq> myEventSub (io w)" if "s \<in> works_on pc'" for s
    using owners_okD(1,2) [OF o p] fewer_works [OF e that] by blast
  show "io_state (io w) s \<noteq> Some IO_TASK_STATE_DELETING \<and> server_of pc' \<noteq> Some s" if "client_of pc' = Some s" for s
  proof -
    have "client_of pc = Some s" "server_of pc' = None \<or> server_of pc' = server_of pc" using that e by (auto simp: fewer_tasks_def)
    then show ?thesis using owners_okD(3,4) [OF o p, of s] by auto
  qed
  show "s \<notin> works_on y" if "d \<noteq> c" "progs w d = Some y" "s \<in> works_on pc'" for d y s
    using owners_same [OF o that(2) p, of s] fewer_works [OF e that(3)] that(1) by blast
qed

lemma set_pc_server:
  assumes v: "server_ok w" and p: "progs w c = Some pc" and e: "fewer_tasks pc pc'"
  shows "server_ok (set_pc c pc' w)"
proof (rule put_server [OF v])
  show "\<exists>y. progs w c = Some y \<and> server_of y \<noteq> None" if "server_of pc' \<noteq> None" using that e p by (auto simp: fewer_tasks_def)
  show "server_task w \<noteq> Some s" if "client_of pc' = Some s" for s
  proof -
    have "client_of pc = Some s" using that e by (auto simp: fewer_tasks_def)
    then show ?thesis using v p unfolding server_ok_def by blast
  qed
qed

lemma set_pc_count:
  assumes "count_ok w" and "progs w c = Some pc" and "client_of pc' = None \<longleftrightarrow> client_of pc = None"
  shows "count_ok (set_pc c pc' w)"
proof -
  have "{d. \<exists>y s. progs (set_pc c pc' w) d = Some y \<and> client_of y = Some s} = {d. \<exists>y s. progs w d = Some y \<and> client_of y = Some s}"
    using assms(2,3) by auto
  then show ?thesis using assms(1) by (simp add: count_ok_def)
qed

section \<open>Coroutines\<close>

lemma at_rest_runs: "at_rest pc \<Longrightarrow> may_run pc x"
  by (cases pc) auto

lemma running_top:
  assumes "stack (io w) = c # cs" and "\<And>pc. progs w c = Some pc \<Longrightarrow> may_run pc (io w) \<and> (mutex_locked (lpc (io w)) \<longrightarrow> cs = [] \<and> cancelled pc (io w))"
    and "\<And>d y. d \<in> set cs \<Longrightarrow> progs w d = Some y \<Longrightarrow> at_rest y"
  shows "running_ok w"
  using assms by (auto simp: running_ok_def)

lemma running_rest:
  assumes "\<And>d y. d \<in> set (stack (io w)) \<Longrightarrow> progs w d = Some y \<Longrightarrow> at_rest y" and "\<not> mutex_locked (lpc (io w)) \<or> stack (io w) = []"
  shows "running_ok w"
proof (cases "stack (io w)")
  case (Cons c cs)
  then show ?thesis using assms at_rest_runs by (intro running_top [OF Cons]) auto
qed (simp add: running_ok_def)

lemma running_head:
  assumes "running_ok w" and "stack (io w) = c # cs"
  shows "progs w c = Some pc \<Longrightarrow> may_run pc (io w)" "progs w c = Some pc \<Longrightarrow> mutex_locked (lpc (io w)) \<Longrightarrow> cs = [] \<and> cancelled pc (io w)"
    "d \<in> set cs \<Longrightarrow> progs w d = Some y \<Longrightarrow> at_rest y"
  using assms by (auto simp: running_ok_def)

lemma stack_head: "load_inv w \<Longrightarrow> stack (io w) = c # cs \<Longrightarrow> c \<notin> set cs"
  using io_invE(6) [OF load_invE(1)] by (fastforce simp: coros_ok_def)

lemma running_unlocked:
  assumes i: "load_inv w" and st: "stack (io w) = c # cs" and p: "progs w c = Some pc" and n: "\<not> cancelled pc (io w)"
  shows "\<not> mutex_locked (lpc (io w))" "lpc (io w) \<noteq> L_destroyed" "lpc (io w) = L_idle \<or> stack (io w) \<noteq> []"
proof -
  show "\<not> mutex_locked (lpc (io w))" using running_head(2) [OF load_invE(6) [OF i] st p] n by blast
  show "lpc (io w) \<noteq> L_destroyed" using io_invE(7) [OF load_invE(1) [OF i]] st by (auto simp: stack_ok_def)
qed (use st in simp)

lemma server_okD:
  assumes "server_ok w" and "progs w c = Some pc"
  shows "server_of pc \<noteq> None \<Longrightarrow> server_made w \<and> \<not> server_finished w" "client_of pc = Some s \<Longrightarrow> server_task w \<noteq> Some s"
    "progs w d = Some pc' \<Longrightarrow> server_of pc \<noteq> None \<Longrightarrow> server_of pc' \<noteq> None \<Longrightarrow> c = d"
  using assms unfolding server_ok_def by metis+

text \<open>The rules of the loop for an operation.\<close>

lemma await_ok:
  assumes i: "load_inv w" and st: "stack (io w) = c # cs" and p: "progs w c = Some pc" and n: "\<not> cancelled pc (io w)"
    and s: "s \<in> works_on pc" and r: "result_ok kind s r w"
  shows "call_ok (Await kind s r) (io w)"
proof -
  have m: "\<not> mutex_locked (lpc (io w))" by (rule running_unlocked [OF i st p n])
  have f: "io_wait (io w) s = None" by (rule running_free [OF i _ p s]) (simp add: st)
  obtain t where t: "io_tasks (io w) s = Some t" using owners_okD(1) [OF load_invE(4) [OF i] p s] by (auto simp: io_state_def)
  then have "myAsyncOp t = None" using f enqueue_views(5) [OF m] by (simp add: io_wait_def)
  then show ?thesis using st t r owners_okD(2) [OF load_invE(4) [OF i] p s] by (simp add: task_is_def result_ok_def)
qed

lemma alive_suspend:
  assumes i: "load_inv w" and st: "stack (io w) = c # cs" and p: "progs w c = Some pc" and s: "s \<in> works_on pc" and a: "awaits pc' = Some (kind, s)"
    and x: "stack x = cs" "io_wait x = (io_wait (io w))(s \<mapsto> (kind, c))"
  shows "alive_ok (set_pc c pc' (w\<lparr>io := x\<rparr>))"
proof -
  have A: "finite (dom (progs w))" "progs w d \<noteq> None \<longleftrightarrow> d \<in> set (c # cs) \<or> (\<exists>u k. io_wait (io w) u = Some (k, d))" for d
    using load_invE(3) [OF i] st by (simp_all add: alive_ok_def)
  have f: "io_wait (io w) s = None" by (rule running_free [OF i _ p s]) (simp add: st)
  have n: "io_wait (io w) u \<noteq> Some (k, c)" for u k using wait_not_running [OF load_invE(1) [OF i], of u k c] st by auto
  have "((progs w)(c \<mapsto> pc')) d \<noteq> None \<longleftrightarrow> d \<in> set cs \<or> (\<exists>u k. io_wait x u = Some (k, d))" for d
  proof (cases "d = c")
    case False
    then have "io_wait x u = Some (k, d) \<longleftrightarrow> io_wait (io w) u = Some (k, d)" for u k using f by (auto simp: x)
    then show ?thesis using A(2) [of d] False by simp
  qed (auto simp: x)
  moreover have "\<exists>y. ((progs w)(c \<mapsto> pc')) d = Some y \<and> awaits y = Some (k, u)" if "io_wait x u = Some (k, d)" for u k d
    using alive_wait [OF i, of u k d] n [of u k] that a by (cases "u = s") (auto simp: x)
  ultimately show ?thesis using A(1) by (simp add: alive_ok_def x)
qed

lemma alive_running:
  assumes a: "alive_ok w" and "io_inv (io w)" and st: "c \<in> set (stack (io w))" and x: "stack x = stack (io w)" "io_wait x = io_wait (io w)"
  shows "alive_ok (set_pc c pc' (w\<lparr>io := x\<rparr>))"
proof -
  have n: "io_wait (io w) u \<noteq> Some (k, c)" for u k using wait_not_running [OF assms(2), of u k c] st by auto
  show ?thesis using a n st by (auto simp: alive_ok_def x)
qed

text \<open>A \<open>co_await\<close>.\<close>

lemma await_load:
  assumes i: "load_inv w" and st: "stack (io w) = c # cs" and p: "progs w c = Some pc" and n: "\<not> cancelled pc (io w)"
    and r: "result_ok kind s r w" and a: "awaits pc' = Some (kind, s)" and e: "client_of pc' = client_of pc" "server_of pc' = server_of pc"
  shows "\<exists>w'. call_then (Await kind s r) c pc' w = Inr w' \<and> load_inv w'"
proof -
  note I = load_invE [OF i]
  have s: "s \<in> works_on pc" using awaits_works [OF a] e by (auto simp: works_on_def)
  have c: "call_ok (Await kind s r) (io w)" by (rule await_ok [OF i st p n s r])
  obtain x where x: "co_await kind s r (io w) = Inr x" "io_inv x" using co_await_inv [OF I(1) c] by blast
  have E: "await_effect kind s r (io w) x" "new_ok x" using co_await_effect [OF I(1) c x(1) I(2)] by simp_all
  have f: "lpc x = lpc (io w)" "myEventSub x = myEventSub (io w)" "io_state x = io_state (io w)" using E(1) by (simp_all add: await_effect_def)
  let ?w = "set_pc c pc' (w\<lparr>io := x\<rparr>)"
  have w: "call_then (Await kind s r) c pc' w = Inr ?w" using x by (simp add: call_then_def on_core_def io_bind_def)
  have fw: "fewer_tasks pc pc'" using e by (simp add: fewer_tasks_def)
  note S = same_state_ok [OF f(3,2)]
  have P: "owners_ok ?w" "server_ok ?w" "count_ok ?w"
    using set_pc_owners [of "w\<lparr>io := x\<rparr>" c pc, OF _ _ fw] set_pc_server [of "w\<lparr>io := x\<rparr>" c pc, OF _ _ fw] set_pc_count [of "w\<lparr>io := x\<rparr>" c pc pc'] S I(4,5,7) p e(1)
    by simp_all
  have m: "\<not> mutex_locked (lpc x)" "lpc x \<noteq> L_destroyed" using running_unlocked [OF i st p n] f(1) by simp_all
  have rest: "at_rest y" if "d \<in> set cs" "progs w d = Some y" for d y using running_head(3) [OF I(6) st that] .
  have d: "c \<notin> set cs" by (rule stack_head [OF i st])
  have "alive_ok ?w \<and> running_ok ?w"
  proof (cases "stack x = stack (io w)")
    case True
    then have "\<not> stack x = tl (stack (io w))" using st by simp
    then have q: "io_wait x = io_wait (io w)" "returned kind r x" "kind = AsyncConnect \<or> io_state (io w) s \<noteq> Some IO_TASK_STATE_NEW"
      using E(1) by (auto simp: await_effect_def)
    have "may_run pc' x" using returned_fits [OF q(2), of s] q(3) r m(2) may_run_awaits [OF a] f(3) by (simp add: result_ok_def)
    then have "running_ok ?w" using m rest d True st by (intro running_top [of _ c cs]) (auto split: if_splits)
    moreover have "alive_ok ?w" by (rule alive_running [OF I(3,1) _ True q(1)]) (simp add: st)
    ultimately show ?thesis by blast
  next
    case False
    then have q: "stack x = cs" "io_wait x = (io_wait (io w))(s \<mapsto> (kind, c))" using E(1) st by (auto simp: await_effect_def)
    have "alive_ok ?w" by (rule alive_suspend [OF i st p s a q])
    moreover have "running_ok ?w" using q(1) m d rest by (intro running_rest) (auto split: if_splits)
    ultimately show ?thesis by blast
  qed
  then show ?thesis using w P x(2) E(2) by (auto intro!: load_invI)
qed

text \<open>A coroutine starts another one, for the client it has made, and goes on when that one stops.\<close>

definition clients :: "load_world \<Rightarrow> nat set" where
  "clients w = {c. \<exists>pc s. progs w c = Some pc \<and> client_of pc = Some s}"

lemma count_clients: "count_ok w \<longleftrightarrow> client_count w = int (card (clients w))"
  by (simp add: count_ok_def clients_def)

lemma finite_clients: "alive_ok w \<Longrightarrow> finite (clients w)"
  by (rule finite_subset [of _ "dom (progs w)"]) (auto simp: clients_def alive_ok_def)

lemma clients_put:
  "clients (set_pc c pc w) = (if client_of pc = None then clients w - {c} else insert c (clients w))"
  by (auto simp: clients_def)

lemma start_ok:
  assumes i: "io_inv (io w)" and a: "alive_ok w" and m: "\<not> mutex_locked (lpc (io w))" and d: "progs w d = None"
  shows "call_ok (Start d) (io w)"
proof -
  have n: "d \<notin> set (stack (io w))" "io_wait (io w) u \<noteq> Some (k, d)" for u k using a d unfolding alive_ok_def by blast+
  have "\<not> holds_coro d (myAsyncOp t)" if "io_tasks (io w) u = Some t" for u t
  proof
    assume "holds_coro d (myAsyncOp t)"
    then obtain kind where "myAsyncOp t = Some (AsyncOperation kind d)" by (cases "(d, myAsyncOp t)" rule: holds_coro.cases) auto
    then show False using n(2) [of u kind] that enqueue_views(5) [OF m] by (simp add: io_wait_iff)
  qed
  then show ?thesis using n(1) all_tasksI [OF i m] by simp
qed

definition started :: "nat \<Rightarrow> io_world \<Rightarrow> io_world" where
  "started d x = x\<lparr>stack := d # stack x, promiseCount := promiseCount x + 1\<rparr>"

lemma started_views [simp]:
  "stack (started d x) = d # stack x" "lpc (started d x) = lpc x" "myEventSub (started d x) = myEventSub x" "io_tasks (started d x) = io_tasks x"
  "io_wait (started d x) = io_wait x" "io_state (started d x) = io_state x"
  by (simp_all add: started_def io_wait_def io_state_def dropping_def fun_eq_iff)

lemma started_inv:
  assumes "io_inv x" and "new_ok x" and "call_ok (Start d) x" and "lpc x = L_idle \<or> stack x \<noteq> []"
  shows "io_inv (started d x)" "new_ok (started d x)"
proof -
  show "io_inv (started d x)" unfolding started_def by (rule start_inv [OF assms(1,3,4)])
  show "new_ok (started d x)" by (rule new_ok_same [OF assms(2)]) (simp_all add: batch_def)
qed

lemma alive_started:
  assumes a: "alive_ok w" and d: "progs w d = None"
  shows "alive_ok (set_pc d pc (w\<lparr>io := started d (io w)\<rparr>))"
proof -
  have n: "io_wait (io w) u \<noteq> Some (k, d)" for u k using a d unfolding alive_ok_def by blast
  show ?thesis using a n by (auto simp: alive_ok_def)
qed

lemma alive_put: "alive_ok w \<Longrightarrow> io_inv (io w) \<Longrightarrow> c \<in> set (stack (io w)) \<Longrightarrow> alive_ok (set_pc c pc w)"
  using alive_running [of w c "io w" pc] by simp

lemma owners_handover:
  assumes o: "owners_ok w" and p: "progs w c = Some pc" and e: "fewer_tasks pc pc'" "client_of pc = Some s" "client_of pc' = None"
  shows "owners_ok (set_pc d (Send_next s 0) (set_pc c pc' w))"
proof (rule put_owners [OF set_pc_owners [OF o p e(1)]])
  have s: "s \<in> works_on pc" using e(2) by (simp add: works_on_def)
  show "io_state (io (set_pc c pc' w)) u \<noteq> None \<and> u \<noteq> myEventSub (io (set_pc c pc' w))" if "u \<in> works_on (Send_next s 0)" for u
    using that owners_okD(1,2) [OF o p s] by (simp add: works_on_def)
  show "io_state (io (set_pc c pc' w)) u \<noteq> Some IO_TASK_STATE_DELETING \<and> server_of (Send_next s 0) \<noteq> Some u" if "client_of (Send_next s 0) = Some u" for u
    using that owners_okD(3) [OF o p e(2)] by simp
  show "u \<notin> works_on y" if y: "x \<noteq> d" "progs (set_pc c pc' w) x = Some y" "u \<in> works_on (Send_next s 0)" for x y u
  proof (cases "x = c")
    case True
    then have "works_on y = set_option (server_of pc')" using y e(3) by (simp add: works_on_def)
    then show ?thesis using y(3) owners_okD(4) [OF o p e(2)] e(1) by (auto simp: works_on_def fewer_tasks_def)
  next
    case False
    then have "progs w x = Some y" using y(2) by simp
    then show ?thesis using owners_same [OF o _ p _ s, of x y] False y(3) by (auto simp: works_on_def)
  qed
qed

lemma start_load:
  assumes i: "load_inv w" and st: "stack (io w) = c # cs" and p: "progs w c = Some pc" and n: "\<not> cancelled pc (io w)"
    and e: "fewer_tasks pc pc'" "client_of pc = Some s" "client_of pc' = None" and r: "at_rest pc'" and d: "progs w d = None"
  shows "\<exists>w'. io_bind (call_then (Start d) c pc' w) (\<lambda>w1. Inr (set_pc d (Send_next s 0) w1)) = Inr w' \<and> load_inv w'"
proof -
  note I = load_invE [OF i] and m = running_unlocked [OF i st p n]
  note S = started_inv [OF I(1,2) start_ok [OF I(1,3) m(1) d] m(3)]
  let ?v = "w\<lparr>io := started d (io w)\<rparr>" let ?w = "set_pc d (Send_next s 0) (set_pc c pc' ?v)"
  have w: "io_bind (call_then (Start d) c pc' w) (\<lambda>w1. Inr (set_pc d (Send_next s 0) w1)) = Inr ?w"
    by (simp add: call_then_def on_core_def io_bind_def started_def)
  have cd: "c \<noteq> d" using p d by auto
  have sw: "?w = set_pc c pc' (set_pc d (Send_next s 0) ?v)" using cd by (simp add: set_pc_def fun_upd_twist)
  have so: "owners_ok ?v" "server_ok ?v" using same_state_ok [of "started d (io w)" w] I(4,5) by simp_all
  have "alive_ok ?w"
    unfolding sw by (rule alive_put [OF alive_started [OF I(3) d]]) (use S st in simp_all)
  moreover have "owners_ok ?w" by (rule owners_handover [OF so(1) _ e]) (simp add: p)
  moreover have "server_ok ?w"
  proof (rule put_server [OF set_pc_server [OF so(2) _ e(1)]])
    show "server_task (set_pc c pc' ?v) \<noteq> Some u" if "client_of (Send_next s 0) = Some u" for u
      using that server_okD(2) [OF I(5) p] e(2) by auto
  qed (use p in simp_all)
  moreover have "running_ok ?w"
  proof (rule running_top [of _ d "c # cs"])
    have "d \<notin> set (stack (io w))" using I(3) d unfolding alive_ok_def by blast
    then show "at_rest y" if "u \<in> set (c # cs)" "progs ?w u = Some y" for u y
      using that r st running_head(3) [OF I(6) st] by (auto split: if_splits)
  qed (use st m(1) in simp_all)
  moreover have "count_ok ?w"
  proof -
    have "c \<in> clients w" "d \<notin> clients w" using p d e(2) by (auto simp: clients_def)
    moreover have "clients ?v = clients w" by (simp add: clients_def)
    ultimately have "card (clients ?w) = card (clients w)"
      using finite_clients [OF I(3)] e(3) card_Suc_Diff1 [of "clients w" c] by (simp add: clients_put)
    then show ?thesis using I(7) by (simp add: count_clients)
  qed
  ultimately show ?thesis using w S by (auto intro!: load_invI)
qed

text \<open>A coroutine ends.\<close>

lemma finish_load:
  assumes i: "load_inv w" and st: "stack (io w) = c # cs" and p: "progs w c = Some Ended"
  shows "\<exists>w'. io_bind (on_core Finish w) (\<lambda>w1. Inr (w1\<lparr>progs := (progs w1)(c := None)\<rparr>)) = Inr w' \<and> load_inv w'"
proof -
  note I = load_invE [OF i]
  let ?x = "(io w)\<lparr>stack := cs, promiseCount := promiseCount (io w) - 1\<rparr>"
  let ?w = "w\<lparr>io := ?x, progs := (progs w)(c := None)\<rparr>"
  have w: "io_bind (on_core Finish w) (\<lambda>w1. Inr (w1\<lparr>progs := (progs w1)(c := None)\<rparr>)) = Inr ?w"
    by (simp add: on_core_def io_bind_def st)
  have x: "io_inv ?x" using finish_inv [OF I(1)] st by simp
  have nx: "new_ok ?x" by (rule new_ok_same [OF I(2)]) (simp_all add: batch_def)
  have v: "io_wait ?x = io_wait (io w)" "io_state ?x = io_state (io w)" by (simp_all add: io_wait_def io_state_def dropping_def fun_eq_iff)
  have d: "c \<notin> set cs" by (rule stack_head [OF i st])
  have n: "io_wait (io w) u \<noteq> Some (k, c)" for u k using wait_not_running [OF I(1), of u k c] st by auto
  have "alive_ok ?w" using I(3) n d st by (auto simp: alive_ok_def v)
  moreover have pr: "progs w u = Some y" if "progs ?w u = Some y" for u y using that by (auto split: if_splits)
  have "owners_ok ?w"
    unfolding owners_ok_def
  proof (rule conjI; intro allI impI)
    fix u y assume y: "progs ?w u = Some y"
    show "(\<forall>s\<in>works_on y. io_state (io ?w) s \<noteq> None \<and> s \<noteq> myEventSub (io ?w))
      \<and> (\<forall>s. client_of y = Some s \<longrightarrow> io_state (io ?w) s \<noteq> Some IO_TASK_STATE_DELETING \<and> server_of y \<noteq> Some s)"
      using owners_okD [OF I(4) pr [OF y]] by (simp add: v)
  next
    fix a b y z assume "progs ?w a = Some y" "progs ?w b = Some z" "works_on y \<inter> works_on z \<noteq> {}"
    then show "a = b" using owners_same [OF I(4) pr pr] by blast
  qed
  moreover have "server_ok ?w" using I(5) unfolding server_ok_def by (auto simp: v)
  moreover have "running_ok ?w"
  proof (rule running_rest)
    show "at_rest y" if "u \<in> set (stack (io ?w))" "progs ?w u = Some y" for u y
      using that running_head(3) [OF I(6) st] by (auto simp: st split: if_splits)
    show "\<not> mutex_locked (lpc (io ?w)) \<or> stack (io ?w) = []" using running_head(2) [OF I(6) st p] by (simp add: st)
  qed
  moreover have "clients ?w = clients w" using p by (auto simp: clients_def split: if_splits)
  then have "count_ok ?w" using I(7) by (simp add: count_clients)
  ultimately show ?thesis using w x nx by (auto intro!: load_invI)
qed

text \<open>The end of a client: its task has been taken up, and is marked.\<close>

lemma client_end_ok:
  assumes i: "load_inv w" and st: "stack (io w) = c # cs" and p: "progs w c = Some (Send_next s n)" and l: "n \<noteq> 0"
  shows "call_ok (Unsubscribe s) (io w)"
proof -
  note I = load_invE [OF i]
  have sw: "s \<in> works_on (Send_next s n)" "client_of (Send_next s n) = Some s" by (simp_all add: works_on_def)
  have "io_state (io w) s = Some IO_TASK_STATE_WORKING"
    using running_head(1) [OF I(6) st p] l owners_okD(1,3) [OF I(4) p, of s] sw by (cases "io_state (io w) s"; cases "the (io_state (io w) s)") auto
  then have "task_is (\<lambda>t. myState t = IO_TASK_STATE_WORKING) s (io w)" by (auto simp: io_state_def task_is_iff)
  then show ?thesis using running_unlocked [OF i st p] owners_okD(2) [OF I(4) p sw(1)] by simp
qed

lemma client_end_load:
  assumes i: "load_inv w" and st: "stack (io w) = c # cs" and p: "progs w c = Some (Send_next s n)" and l: "n \<noteq> 0"
  shows "\<exists>w'. call_then (Unsubscribe s) c Ended (w\<lparr>finish_count := k, client_count := client_count w - 1\<rparr>) = Inr w' \<and> load_inv w'"
proof -
  note I = load_invE [OF i]
  have sw: "s \<in> works_on (Send_next s n)" "client_of (Send_next s n) = Some s" by (simp_all add: works_on_def)
  have ok: "call_ok (Unsubscribe s) (io w)" by (rule client_end_ok [OF i st p l])
  then have m: "\<not> mutex_locked (lpc (io w))" "lpc (io w) \<noteq> L_destroyed" by simp_all
  obtain t where t: "io_tasks (io w) s = Some t" "myState t = IO_TASK_STATE_WORKING" using ok by (auto simp: task_is_iff)
  obtain x where x: "unsubscribe s (io w) = Inr x" "io_inv x" using unsubscribe_inv [OF I(1) ok] by blast
  note Q = quiet_marked [OF I(1) m t x(1) I(2)]
  let ?v = "set_pc c Ended (w\<lparr>finish_count := k, client_count := client_count w - 1\<rparr>)" let ?w = "?v\<lparr>io := x\<rparr>"
  have w: "call_then (Unsubscribe s) c Ended (w\<lparr>finish_count := k, client_count := client_count w - 1\<rparr>) = Inr ?w"
    using x(1) m(1) by (simp add: call_then_def on_core_def io_bind_def set_pc_def)
  have fw: "fewer_tasks (Send_next s n) Ended" by (simp add: fewer_tasks_def)
  have V0: "alive_ok (w\<lparr>finish_count := k, client_count := client_count w - 1\<rparr>)" "owners_ok (w\<lparr>finish_count := k, client_count := client_count w - 1\<rparr>)"
    "server_ok (w\<lparr>finish_count := k, client_count := client_count w - 1\<rparr>)" using I(3-5) by (simp_all add: alive_ok_def owners_ok_def server_ok_def)
  have V: "alive_ok ?v" "owners_ok ?v" "server_ok ?v"
    using alive_put [OF V0(1)] set_pc_owners [OF V0(2) _ fw] set_pc_server [OF V0(3) _ fw] p st I(1) by simp_all
  have R: "running_ok ?v"
    by (rule running_top [of _ c cs]) (use st m running_head(3) [OF I(6) st] in \<open>auto split: if_splits\<close>)
  have D: "u \<notin> {s}" if "progs ?v b = Some y" "client_of y = Some u" for b y u
  proof
    assume "u \<in> {s}"
    then have b: "b \<noteq> c" "progs w b = Some y" "s \<in> works_on y" using that by (auto simp: works_on_def split: if_splits)
    then show False using owners_same [OF I(4) b(2) p b(3) sw(1)] by simp
  qed
  have qs: "quiet_step {s} (io ?v) x" "quiet_tasks {s} (io ?v) x" using Q(1) by (simp_all add: quiet_step_def)
  have A: "alive_ok ?w" by (rule quiet_alive [OF V(1)]) (use qs(2) in \<open>simp_all add: quiet_tasks_def\<close>)
  have B: "owners_ok ?w" by (rule quiet_owners [OF V(1,2) qs(2)]) (rule D)
  have C: "running_ok ?w" by (rule quiet_running [OF R V(1,2) qs(1)]) (rule D)
  have "server_task w \<noteq> Some s" using server_okD(2) [OF I(5) p] sw(2) by blast
  then have "server_task w = Some u \<Longrightarrow> server_task ?v = Some u \<and> u \<notin> {s}" for u by auto
  then have "server_ok (?v\<lparr>io := x, server_task := server_task w\<rparr>)" by (rule quiet_server [OF V(3) qs(2)])
  moreover have "?v\<lparr>io := x, server_task := server_task w\<rparr> = ?w" by (rule load_world.equality) simp_all
  ultimately have "server_ok ?w" by (simp only:)
  moreover have "count_ok ?w"
  proof -
    have "c \<in> clients w" using p by (auto simp: clients_def)
    moreover have "clients ?w = clients w - {c}" by (auto simp: clients_def)
    ultimately have "Suc (card (clients ?w)) = card (clients w)" using finite_clients [OF I(3)] card_Suc_Diff1 [of "clients w" c] by simp
    then show ?thesis using I(7) by (simp add: count_clients set_pc_def)
  qed
  ultimately show ?thesis using w x(2) Q(2) A B C by (auto intro!: load_invI)
qed

text \<open>A client is made, for a connection the server has accepted.\<close>

lemma accepted_ok:
  assumes i: "load_inv w" and st: "stack (io w) = c # cs" and p: "progs w c = Some (Accepted s)" and r: "0 \<le> co_res (io w)"
    and a: "io_tasks (io w) a = None"
  shows "call_ok (Subscribe a (co_res (io w))) (io w)"
proof -
  note I = load_invE [OF i]
  have m: "\<not> mutex_locked (lpc (io w))" "lpc (io w) \<noteq> L_destroyed" using running_unlocked [OF i st p] r by simp_all
  have R: "sock_reg (io w) (co_res (io w)) = Some None" "io_fd (io w) u \<noteq> Some (co_res (io w))" for u
    using running_head(1) [OF I(6) st p] r by simp_all
  have "all_tasks (\<lambda>_ t. myFd t \<noteq> co_res (io w)) (io w)"
  proof (rule all_tasksI [OF I(1) m(1)])
    show "myFd t \<noteq> co_res (io w)" if "io_tasks (io w) u = Some t" for u t using R(2) [of u] that by (simp add: io_fd_def)
  qed
  then show ?thesis using m a r R(1) by (simp add: sock_reg_def)
qed

lemma accepted_load:
  assumes i: "load_inv w" and st: "stack (io w) = c # cs" and p: "progs w c = Some (Accepted s)" and r: "0 \<le> co_res (io w)"
    and a: "io_tasks (io w) a = None"
  shows "\<exists>w'. call_then (Subscribe a (co_res (io w))) c (Wrapped s a) (w\<lparr>client_count := client_count w + 1\<rparr>) = Inr w' \<and> load_inv w'"
proof -
  note I = load_invE [OF i]
  have c: "call_ok (Subscribe a (co_res (io w))) (io w)" by (rule accepted_ok [OF i st p r a])
  then have m: "\<not> mutex_locked (lpc (io w))" "lpc (io w) \<noteq> L_destroyed" by simp_all
  obtain x where x: "subscribe a (co_res (io w)) (io w) = Inr x" "io_inv x" using subscribe_inv [OF I(1) c] by blast
  note Q = subscribe_effect [OF I(1,2) c x(1)]
  let ?v = "w\<lparr>io := x, client_count := client_count w + 1\<rparr>" let ?w = "set_pc c (Wrapped s a) ?v"
  have w: "call_then (Subscribe a (co_res (io w))) c (Wrapped s a) (w\<lparr>client_count := client_count w + 1\<rparr>) = Inr ?w"
    using x(1) m(1) by (simp add: call_then_def on_core_def io_bind_def set_pc_def)
  have qt: "stack x = stack (io w)" "myEventSub x = myEventSub (io w)" "io_wait x = io_wait (io w)" using Q(3) by (simp_all add: quiet_tasks_def)
  have sw: "s \<in> works_on (Accepted s)" by (simp add: works_on_def)
  have es: "io_state (io w) s \<noteq> None" "s \<noteq> myEventSub (io w)" using owners_okD(1,2) [OF I(4) p sw] by simp_all
  have ev: "io_state (io w) (myEventSub (io w)) \<noteq> None"
    using io_invE(4) [OF I(1)] not_in_destructor [OF m] by (auto simp: event_ok_def task_is_def io_state_def split: option.splits)
  have na: "s \<noteq> a" "a \<noteq> myEventSub (io w)" using es(1) ev Q(5) by auto
  have "alive_ok (w\<lparr>io := x\<rparr>)" by (rule quiet_alive [OF I(3) qt(1,3)])
  then have "alive_ok ?v" by (simp add: alive_ok_def)
  then have "alive_ok ?w" by (rule alive_put) (use x(2) qt st in simp_all)
  moreover have "owners_ok (w\<lparr>io := x\<rparr>)" by (rule quiet_owners [OF I(3,4) Q(3)]) simp
  then have ov: "owners_ok ?v" by (simp add: owners_ok_def)
  have "owners_ok ?w"
  proof (rule put_owners [OF ov])
    show "io_state (io ?v) u \<noteq> None \<and> u \<noteq> myEventSub (io ?v)" if "u \<in> works_on (Wrapped s a)" for u
      using that es na by (auto simp: works_on_def Q(4) qt)
    show "io_state (io ?v) u \<noteq> Some IO_TASK_STATE_DELETING \<and> server_of (Wrapped s a) \<noteq> Some u" if "client_of (Wrapped s a) = Some u" for u
      using that na by (simp add: Q(4))
    show "u \<notin> works_on y" if y: "d \<noteq> c" "progs ?v d = Some y" "u \<in> works_on (Wrapped s a)" for d y u
    proof
      assume u: "u \<in> works_on y"
      have d: "progs w d = Some y" using y(2) by simp
      then have "u \<noteq> a" using owners_okD(1) [OF I(4) d u] Q(5) by auto
      then have "u = s" using y(3) by (simp add: works_on_def)
      then show False using owners_same [OF I(4) d p u] sw y(1) by simp
    qed
  qed
  moreover have "server_ok (w\<lparr>io := x, server_task := server_task w\<rparr>)" by (rule quiet_server [OF I(5) Q(3)]) simp
  then have sv: "server_ok ?v" by (simp add: server_ok_def)
  have "server_ok ?w"
  proof (rule put_server [OF sv])
    show "server_task ?v \<noteq> Some u" if "client_of (Wrapped s a) = Some u" for u
      using that I(5) Q(5) by (auto simp: server_ok_def)
  qed (use p in auto)
  moreover have "running_ok ?w"
    by (rule running_top [of _ c cs]) (use st m(1) qt Q(2) running_head(3) [OF I(6) st] stack_head [OF i st] in \<open>auto split: if_splits\<close>)
  moreover have "count_ok ?w"
  proof -
    have "c \<notin> clients w" "clients ?v = clients w" using p by (auto simp: clients_def)
    then show ?thesis using I(7) finite_clients [OF I(3)] by (simp add: count_clients clients_put)
  qed
  ultimately show ?thesis using w x(2) Q(1) by (auto intro!: load_invI)
qed

text \<open>The server has been cancelled.\<close>

lemma cancelled_load:
  assumes i: "load_inv w" and st: "stack (io w) = c # cs" and p: "progs w c = Some (Accepted s)"
  shows "\<not> server_finished w" "load_inv (set_pc c Ended (w\<lparr>server_finished := True\<rparr>))"
proof -
  note I = load_invE [OF i]
  have sp: "server_of (Accepted s) \<noteq> None" by simp
  show "\<not> server_finished w" using server_okD(1) [OF I(5) p sp] by simp
  let ?v = "w\<lparr>server_finished := True\<rparr>" let ?w = "set_pc c Ended ?v"
  have fw: "fewer_tasks (Accepted s) Ended" by (simp add: fewer_tasks_def)
  have "alive_ok ?v" "owners_ok ?v" using I(3,4) by (simp_all add: alive_ok_def owners_ok_def)
  then have "alive_ok ?w" "owners_ok ?w" using alive_put [of ?v c Ended] set_pc_owners [OF _ _ fw, of ?v c] st p I(1) by simp_all
  moreover have "server_ok ?w"
  proof -
    have "server_of y = None" if "d \<noteq> c" "progs w d = Some y" for d y using server_okD(3) [OF I(5) p that(2) sp] that(1) by blast
    moreover have mw: "server_made w" using server_okD(1) [OF I(5) p sp] by simp
    ultimately have n: "server_of y = None" if "progs ?w d = Some y" for d y using that by (auto split: if_splits)
    have S: "server_ok (set_pc c Ended w)" by (rule set_pc_server [OF I(5) p fw])
    show ?thesis
      unfolding server_ok_def
    proof (intro conjI allI impI)
      fix u d y assume u: "server_task ?w = Some u" and y: "progs ?w d = Some y"
      show "client_of y \<noteq> Some u" using server_okD(2) [OF S, of d y u] u y by auto
    qed (use n mw I(5) in \<open>auto simp: server_ok_def\<close>)
  qed
  moreover have "running_ok ?w"
    by (rule running_top [of _ c cs])
      (use st running_head(3) [OF I(6) st] running_head(2) [OF I(6) st p] in \<open>auto split: if_splits\<close>)
  moreover have "count_ok ?w"
  proof -
    have "c \<notin> clients w" "clients ?v = clients w" using p by (auto simp: clients_def)
    then show ?thesis using I(7) by (simp add: count_clients clients_put)
  qed
  ultimately show "load_inv ?w" using I(1,2) by (intro load_invI) simp_all
qed

section \<open>New clients and servers\<close>

text \<open>A socket is subscribed and the coroutine for it is started, outside of the loop.\<close>

lemma new_coro:
  assumes i: "load_inv w" and l: "lpc (io w) = L_idle" "stack (io w) = []" and c: "call_ok (Subscribe s fd) (io w)" and d: "progs w d = None"
    and pc: "works_on pc = {s}" "client_of pc = None \<or> server_of pc = None"
  obtains x where "subscribe s fd (io w) = Inr x" "io_inv (started d x)" "new_ok (started d x)" "stack x = []" "lpc x = L_idle"
    "alive_ok (set_pc d pc (w\<lparr>io := started d x\<rparr>))" "owners_ok (set_pc d pc (w\<lparr>io := started d x\<rparr>))" "server_ok (w\<lparr>io := started d x\<rparr>)"
    "server_task w \<noteq> Some s" "s \<noteq> myEventSub x" "io_state x s = Some IO_TASK_STATE_NEW" "\<And>u y. progs w u = Some y \<Longrightarrow> client_of y \<noteq> Some s"
    "call_ok (Start d) x"
proof -
  note I = load_invE [OF i]
  obtain x where x: "subscribe s fd (io w) = Inr x" "io_inv x" using subscribe_inv [OF I(1) c] by blast
  note Q = subscribe_effect [OF I(1,2) c x(1)]
  have qt: "stack x = []" "myEventSub x = myEventSub (io w)" "io_wait x = io_wait (io w)" using Q(3) l by (simp_all add: quiet_tasks_def)
  have lx: "lpc x = L_idle" using Q(2) l by simp
  have ev: "io_state (io w) (myEventSub (io w)) \<noteq> None"
    using io_invE(4) [OF I(1)] l by (auto simp: event_ok_def task_is_def io_state_def split: option.splits)
  have ns: "s \<noteq> myEventSub (io w)" "server_task w \<noteq> Some s" using ev Q(5) I(5) by (auto simp: server_ok_def)
  have ow: "s \<notin> works_on y" if "progs w u = Some y" for u y using owners_okD(1) [OF I(4) that, of s] Q(5) by blast
  then have cl: "client_of y \<noteq> Some s" if "progs w u = Some y" for u y using that by (auto simp: works_on_def)
  let ?w = "w\<lparr>io := x\<rparr>" let ?y = "started d x" let ?v = "w\<lparr>io := started d x\<rparr>"
  have a: "alive_ok ?w" by (rule quiet_alive [OF I(3)]) (simp_all add: qt l)
  have o: "owners_ok ?w" by (rule quiet_owners [OF I(3,4) Q(3)]) simp
  have "server_ok (w\<lparr>io := x, server_task := server_task w\<rparr>)" by (rule quiet_server [OF I(5) Q(3)]) simp
  then have v: "server_ok ?w" by (simp add: server_ok_def)
  have sd: "call_ok (Start d) x" using start_ok [of ?w d] x(2) a d lx by simp
  have S: "io_inv ?y" "new_ok ?y" using started_inv [OF x(2) Q(1) sd disjI1 [OF lx]] by simp_all
  have sv: "owners_ok ?v" "server_ok ?v" using same_state_ok [of ?y ?w] o v by simp_all
  have al: "alive_ok (set_pc d pc ?v)" using alive_started [OF a, of d pc] d by simp
  have "owners_ok (set_pc d pc ?v)"
  proof (rule put_owners [OF sv(1)])
    show "io_state (io ?v) u \<noteq> None \<and> u \<noteq> myEventSub (io ?v)" if "u \<in> works_on pc" for u using that pc(1) ns by (simp add: Q(4) qt)
    show "io_state (io ?v) u \<noteq> Some IO_TASK_STATE_DELETING \<and> server_of pc \<noteq> Some u" if "client_of pc = Some u" for u
    proof -
      have "u = s" using that pc(1) by (auto simp: works_on_def)
      then show ?thesis using that pc(2) by (auto simp: Q(4))
    qed
    show "u \<notin> works_on z" if "b \<noteq> d" "progs ?v b = Some z" "u \<in> works_on pc" for b z u using ow [of b z] that pc(1) by simp
  qed
  then show ?thesis using that x(1) S qt lx al sv(2) ns cl Q(4) sd by simp
qed

text \<open>The parts of the invariant look at some fields only.\<close>

lemma load_cong:
  assumes "progs w' = progs w" and "io w' = io w"
  shows "alive_ok w' = alive_ok w" "owners_ok w' = owners_ok w" "running_ok w' = running_ok w"
    "server_task w' = server_task w \<Longrightarrow> server_made w' = server_made w \<Longrightarrow> server_finished w' = server_finished w \<Longrightarrow> server_ok w' = server_ok w"
proof -
  show "alive_ok w' = alive_ok w" "owners_ok w' = owners_ok w" "running_ok w' = running_ok w"
    by (simp_all only: assms alive_ok_def owners_ok_def running_ok_def)
  show "server_ok w' = server_ok w" if "server_task w' = server_task w" "server_made w' = server_made w" "server_finished w' = server_finished w"
    by (simp only: assms that server_ok_def)
qed

lemma new_running:
  assumes "stack (io w) = []" and "lpc (io w) = L_idle" and "\<And>x. may_run pc x"
  shows "stack x = [] \<Longrightarrow> lpc x = L_idle \<Longrightarrow> running_ok (set_pc d pc (w\<lparr>io := started d x\<rparr>))"
  using assms(3) by (intro running_top [of _ d "[]"]) simp_all

lemma new_client_load:
  assumes i: "load_inv w" and l: "lpc (io w) = L_idle" "stack (io w) = []" and c: "call_ok (Subscribe s fd) (io w)" and d: "progs w d = None"
  shows "\<exists>w'. connectAndRun s fd d w = Inr w' \<and> load_inv w'"
proof -
  note I = load_invE [OF i]
  obtain x where X: "subscribe s fd (io w) = Inr x" "io_inv (started d x)" "new_ok (started d x)" "stack x = []" "lpc x = L_idle"
    "alive_ok (set_pc d (Connect s) (w\<lparr>io := started d x\<rparr>))" "owners_ok (set_pc d (Connect s) (w\<lparr>io := started d x\<rparr>))"
    "server_ok (w\<lparr>io := started d x\<rparr>)" "server_task w \<noteq> Some s"
    by (rule new_coro [OF i l c d, of "Connect s"]) (auto simp: works_on_def)
  let ?v = "set_pc d (Connect s) (w\<lparr>io := started d x\<rparr>)" let ?w = "?v\<lparr>client_count := client_count w + 1\<rparr>"
  have w: "connectAndRun s fd d w = Inr ?w"
    using X(1) l by (simp add: connectAndRun_def on_core_def io_bind_def set_pc_def started_def)
  have "server_ok ?v" by (rule put_server [OF X(8)]) (use X(9) in simp_all)
  moreover have "running_ok ?v" by (rule new_running [OF l(2,1) _ X(4,5)]) simp
  ultimately have "alive_ok ?w" "owners_ok ?w" "server_ok ?w" "running_ok ?w" using X(6,7) load_cong [of ?w ?v] by simp_all
  moreover have "count_ok ?w"
  proof -
    have "d \<notin> clients w" "clients ?w = insert d (clients w)" using d by (auto simp: clients_def)
    then show ?thesis using I(7) finite_clients [OF I(3)] by (simp add: count_clients)
  qed
  ultimately show ?thesis using w X(2,3) by (auto intro!: load_invI)
qed

lemma new_server_load:
  assumes i: "load_inv w" and l: "lpc (io w) = L_idle" "stack (io w) = []" and c: "call_ok (Subscribe s fd) (io w)" and d: "progs w d = None"
    and n: "\<not> server_made w"
  shows "\<exists>w'. bindAndListenAndRun s fd d w = Inr w' \<and> load_inv w'"
proof -
  note I = load_invE [OF i]
  obtain x where X: "subscribe s fd (io w) = Inr x" "io_inv (started d x)" "new_ok (started d x)" "stack x = []" "lpc x = L_idle"
    "alive_ok (set_pc d (Accept s) (w\<lparr>io := started d x\<rparr>))" "owners_ok (set_pc d (Accept s) (w\<lparr>io := started d x\<rparr>))"
    "s \<noteq> myEventSub x" "io_state x s = Some IO_TASK_STATE_NEW" "\<And>u y. progs w u = Some y \<Longrightarrow> client_of y \<noteq> Some s"
    by (rule new_coro [OF i l c d, of "Accept s"]) (auto simp: works_on_def)
  let ?v = "set_pc d (Accept s) (w\<lparr>io := started d x\<rparr>)" let ?w = "?v\<lparr>server_task := Some s, server_made := True\<rparr>"
  have w: "bindAndListenAndRun s fd d w = Inr ?w"
    using X(1) l by (simp add: bindAndListenAndRun_def on_core_def io_bind_def set_pc_def started_def)
  have "running_ok ?v" by (rule new_running [OF l(2,1) _ X(4,5)]) simp
  then have "alive_ok ?w" "owners_ok ?w" "running_ok ?w" using X(6,7) load_cong [of ?w ?v] by simp_all
  moreover have "server_ok ?w"
  proof -
    have o: "server_of y = None" if "progs w u = Some y" for u y using server_okD(1) [OF I(5) that] n by blast
    have f: "\<not> server_finished w" using I(5) n by (auto simp: server_ok_def)
    show ?thesis
      unfolding server_ok_def
    proof (intro conjI allI impI)
      have o': "u = d" if "progs ?w u = Some y" "server_of y \<noteq> None" for u y using that o [of u y] by (cases "u = d") simp_all
      fix a b y z assume "progs ?w a = Some y" "progs ?w b = Some z" "server_of y \<noteq> None" "server_of z \<noteq> None"
      then show "a = b" using o' by blast
    next
      fix u a y assume "server_task ?w = Some u" "progs ?w a = Some y"
      then show "client_of y \<noteq> Some u" using X(10) by (auto split: if_splits)
    qed (use f X(8,9) in auto)
  qed
  moreover have "count_ok ?w"
  proof -
    have "clients ?w = clients w" using d by (auto simp: clients_def)
    then show ?thesis using I(7) by (simp add: count_clients)
  qed
  ultimately show ?thesis using w X(2,3) by (auto intro!: load_invI)
qed

section \<open>Every step\<close>

lemma step_load:
  assumes i: "load_inv w" and st: "stack (io w) = c # cs" and p: "progs w c = Some pc" and n: "\<not> cancelled pc (io w)"
    and e: "fewer_tasks pc pc'" "client_of pc' = None \<longleftrightarrow> client_of pc = None" and m: "may_run pc' (io w)"
  shows "load_inv (set_pc c pc' w)"
proof -
  note I = load_invE [OF i]
  have "alive_ok (set_pc c pc' w)" by (rule alive_put [OF I(3,1)]) (simp add: st)
  moreover have "owners_ok (set_pc c pc' w)" "server_ok (set_pc c pc' w)" "count_ok (set_pc c pc' w)"
    using set_pc_owners [OF I(4) p e(1)] set_pc_server [OF I(5) p e(1)] set_pc_count [OF I(7) p e(2)] by simp_all
  moreover have "running_ok (set_pc c pc' w)"
    by (rule running_top [of _ c cs])
      (use st m running_unlocked [OF i st p n] running_head(3) [OF I(6) st] stack_head [OF i st] in \<open>auto split: if_splits\<close>)
  ultimately show ?thesis using I(1,2) by (intro load_invI) simp_all
qed

lemma coro_load:
  assumes i: "load_inv w" and e: "load_enabled (Coro r a d) w"
  shows "\<exists>w'. coro_next r a d w = Inr w' \<and> load_inv w'"
proof -
  note I = load_invE [OF i]
  obtain c cs where st: "stack (io w) = c # cs" using e by (cases "stack (io w)") auto
  have "progs w c \<noteq> None" using I(3) st unfolding alive_ok_def by auto
  then obtain pc where p: "progs w c = Some pc" by blast
  have en: "pc_enabled pc r a d w" using e st p by simp
  have m: "may_run pc (io w)" by (rule running_head(1) [OF I(6) st p])
  note A = await_load [OF i st p]
  show ?thesis
  proof (cases pc)
    case (Connect s)
    then show ?thesis using A [of AsyncConnect s r "Connected s"] en st p by (simp add: coro_next_def)
  next
    case (Connected s)
    have "fewer_tasks (Connected s) Ended" by (simp add: fewer_tasks_def)
    then show ?thesis using start_load [OF i st p, of Ended s d] Connected en st p m by (simp add: coro_next_def coroConnectAndRun_def)
  next
    case (Send_next s n)
    show ?thesis
    proof (cases "n < theRequestTargetCount")
      case True
      then show ?thesis using A [of AsyncSend s r "Sent s n"] Send_next en st p by (simp add: coro_next_def coroRun_head_def)
    next
      case False
      then have "n \<noteq> 0" by (auto simp: theRequestTargetCount_def)
      then show ?thesis using client_end_load [OF i st, of s n "finish_count w + 1"] False Send_next st p by (simp add: coro_next_def coroRun_head_def)
    qed
  next
    case (Sent s n)
    then show ?thesis using A [of AsyncRecv s r "Received s n"] en st p m by (simp add: coro_next_def coroRun_sent_def)
  next
    case (Received s n)
    have "fewer_tasks (Received s n) (Send_next s (Suc n))" by (simp add: fewer_tasks_def)
    then show ?thesis using step_load [OF i st p, of "Send_next s (Suc n)"] Received st p m by (simp add: coro_next_def coroRun_received_def)
  next
    case (Accept s)
    then show ?thesis using A [of AsyncAccept s r "Accepted s"] en st p by (simp add: coro_next_def)
  next
    case (Accepted s)
    then show ?thesis using accepted_load [OF i st, of s a] cancelled_load [OF i st, of s] en st p
      by (cases "co_res (io w) < 0") (simp_all add: coro_next_def server_accepted_def)
  next
    case (Wrapped s b)
    have "fewer_tasks (Wrapped s b) (Accept s)" by (simp add: fewer_tasks_def)
    then show ?thesis using start_load [OF i st p, of "Accept s" b d] Wrapped en st p by (simp add: coro_next_def wrapAndRun_def)
  next
    case Ended
    then show ?thesis using finish_load [OF i st] st p by (simp add: coro_next_def)
  qed
qed

text \<open>The server is stopped, from another thread.\<close>

lemma stop_server_load:
  assumes i: "load_inv w" and e: "load_enabled Stop_server w"
  shows "\<exists>w'. server_stop w = Inr w' \<and> load_inv w'"
proof -
  note I = load_invE [OF i]
  obtain s where s: "server_task w = Some s" using e by (cases "server_task w") auto
  have m: "\<not> mutex_locked (lpc (io w))" "lpc (io w) \<noteq> L_destroyed" using e s by simp_all
  obtain t where t: "io_tasks (io w) s = Some t" "myState t = IO_TASK_STATE_WORKING" using e s by (auto simp: task_is_iff)
  have ns: "s \<noteq> myEventSub (io w)" using I(5) s by (simp add: server_ok_def)
  then obtain x where x: "unsubscribe s (io w) = Inr x" "io_inv x" using unsubscribe_inv [OF I(1), of s] m t by (auto simp: task_is_def)
  note Q = quiet_marked [OF I(1) m t x(1) I(2)]
  have "load_inv (w\<lparr>io := x, server_task := None\<rparr>)"
  proof (rule quiet_load [OF i x(2) Q(2,1)])
    show "u \<notin> {s}" if "progs w c = Some pc" "client_of pc = Some u" for c pc u using server_okD(2) [OF I(5) that] s by auto
  qed simp
  moreover have "server_stop w = Inr (w\<lparr>io := x, server_task := None\<rparr>)" using x(1) s m by (simp add: server_stop_def on_core_def io_bind_def)
  ultimately show ?thesis by blast
qed

text \<open>The loop and the operating system.\<close>

lemma quiet_load_same:
  assumes i: "load_inv w" and x: "io_inv x" and q: "new_ok x \<and> quiet_step D (io w) x" and D: "D \<subseteq> {myEventSub (io w)}"
  shows "load_inv (w\<lparr>io := x\<rparr>)"
proof -
  have "w\<lparr>io := x, server_task := server_task w\<rparr> = w\<lparr>io := x\<rparr>" by (rule load_world.equality) simp_all
  moreover have "load_inv (w\<lparr>io := x, server_task := server_task w\<rparr>)"
  proof (rule quiet_load [OF i x])
    show "s \<notin> D" if "progs w c = Some pc" "client_of pc = Some s" for c pc s
      using owners_okD(2) [OF load_invE(4) [OF i] that(1), of s] that(2) D by (auto simp: works_on_def)
    show "server_task w = Some s \<and> s \<notin> D" if "server_task w = Some s" for s
      using load_invE(5) [OF i] that D by (auto simp: server_ok_def)
  qed (use q in simp_all)
  ultimately show ?thesis by simp
qed

lemma stop_effect:
  assumes n: "new_ok w" and x: "io_stop w = Inr x"
  shows "new_ok x \<and> quiet_step D w x"
proof -
  have f: "x = upd_sock (myEventFd w) (signal True False) (w\<lparr>myIsStopped := True\<rparr>)" using x by (auto simp: io_stop_def wakeup_def split: if_splits)
  let ?y = "w\<lparr>myIsStopped := True\<rparr>"
  have l: "lpc ?y = lpc w" by simp
  have "new_ok ?y" by (rule new_ok_same [OF n]) (simp_all add: lpc_views(1) [OF l])
  then have "new_ok x" unfolding f by (rule new_ok_net)
  moreover have "quiet_step D w x"
    by (rule quiet_same) (simp_all add: f lpc_views(2) [OF l] sock_reg_def, simp add: upd_sock_def)
  ultimately show ?thesis by blast
qed

lemma go_load:
  assumes i: "load_inv w" and e: "load_enabled (Loop (Go r)) w" and x: "loop_step r (io w) = Inr x" "io_inv x"
  shows "load_inv (w\<lparr>io := x\<rparr>)"
proof -
  note I = load_invE [OF i]
  have g: "go_ok r (io w)" using e by simp
  from loop_step_effect [OF I(1,2) g x(1)]
  consider (quiet) "new_ok x \<and> quiet_step {} (io w) x"
    | (cancelled) s kind c where "new_ok x" "resumed_step c kind s Would_block (io w) x"
    | (ended) s ev rest kind c where "new_ok x" "lpc (io w) = L_events ((s, ev) # rest)"
        "task_is (\<lambda>t. myAsyncOp t = Some (AsyncOperation kind c)) s (io w)" "resumed_step c kind s r (io w) x"
    by blast
  then show ?thesis
  proof cases
    case quiet
    then show ?thesis by (rule quiet_load_same [OF i x(2)]) simp
  next
    case cancelled
    have "one_byte kind Would_block" by (cases kind) simp_all
    then show ?thesis by (rule resumed_load [OF i x(2) cancelled])
  next
    case ended
    have "one_byte kind r" using e ended(2,3) by (auto simp: task_is_def split: option.splits)
    then show ?thesis by (rule resumed_load [OF i x(2) ended(1,4)])
  qed
qed

lemma loop_load:
  assumes i: "load_inv w" and e: "load_enabled (Loop l) w"
  shows "\<exists>w'. load_step (Loop l) w = Inr w' \<and> load_inv w'"
proof -
  note I = load_invE [OF i]
  have en: "io_enabled l (io w)" using e by simp
  obtain x where x: "io_step l (io w) = Inr x" "io_inv x" using iocore.step_safe [OF I(1) en] by blast
  have st: "stack (io w) = []" if "lpc (io w) = L_wait" using io_invE(7) [OF I(1)] that by (simp add: stack_ok_def)
  have q: "load_inv (w\<lparr>io := x\<rparr>)" if "new_ok x \<and> quiet_step {myEventSub (io w)} (io w) x" by (rule quiet_load_same [OF i x(2) that]) simp
  have "load_inv (w\<lparr>io := x\<rparr>)"
  proof (cases l)
    case (Code c)
    then have "c = Delete_core" using e by simp
    then show ?thesis using quiet_core_deleted [OF I(1,2)] en x(1) Code by (intro q) simp
  next
    case (Other c)
    then have "c = Stop" using e by simp
    then show ?thesis using stop_effect [OF I(2)] x(1) Other by (intro q) simp
  next
    case Run
    then have "x = io w \<or> x = processQueues From_roll (io w)" using x(1) by (auto split: if_splits)
    then show ?thesis using i en Run lpc_move [OF I(2), of x "{myEventSub (io w)}"]
      by (auto simp: processQueues_def dropping_def batch_def intro!: q)
  next
    case (Go r)
    then show ?thesis using go_load [OF i, of r x] e x by simp
  next
    case (Wait fds)
    then show ?thesis using quiet_wait [OF I(1,2), of fds] en x(1) by (intro q) simp
  next
    case Interrupted
    then show ?thesis using lpc_move [OF I(2) st, of x] en x(1) by (intro q) (auto simp: dropping_def batch_def)
  next
    case (Open_fd fd)
    then have "socks (io w) fd = None" "x = (io w)\<lparr>socks := (socks (io w))(fd \<mapsto> new_sock)\<rparr>" using en x(1) by simp_all
    then show ?thesis using quiet_open new_ok_same [OF I(2), of x] by (intro q) (simp add: batch_def)
  next
    case (Net fd rd wr)
    then show ?thesis using x(1) quiet_net new_ok_net [OF I(2)] by (intro q) auto
  qed (use en in simp)
  then show ?thesis using x(1) by (simp add: io_bind_def)
qed

interpretation load: safe_system load_step load_enabled load_inv
proof
  fix w l
  assume i: "load_inv w" and e: "load_enabled l w"
  show "\<exists>w'. load_step l w = Inr w' \<and> load_inv w'"
  proof (cases l)
    case (Coro r a d)
    then show ?thesis using coro_load [OF i] e by simp
  next
    case (New_client s fd d)
    then show ?thesis using new_client_load [OF i, of s fd d] e by simp
  next
    case (New_server s fd d)
    then show ?thesis using new_server_load [OF i, of s fd d] e by simp
  next
    case Stop_server
    then show ?thesis using stop_server_load [OF i] e by simp
  next
    case (Loop l)
    then show ?thesis using loop_load [OF i] e by blast
  qed
qed

lemma load_start_inv:
  assumes "0 \<le> fd" and "IOCore_new fd s = Inr x"
  shows "load_inv (load_start x)"
proof -
  have x: "x = \<lparr>myEventFd = fd, myEventSub = s, myIsStopped = False, myTasks = [], myQueue = [s], mySize = 1,
      io_tasks = [s \<mapsto> \<lparr>myState = IO_TASK_STATE_NEW, myFd = fd, myIdx = -1, myEventsReady = 0, myAsyncOp = None\<rparr>],
      socks = [fd \<mapsto> \<lparr>can_read = True, can_write = True, registered = None, pending = 0\<rparr>], lpc = L_idle, stack = [], co_res = 0,
      promiseCount = 0, taskCount = 1\<rparr>"
    using assms(2) by (simp add: IOCore_new_def subscribe_def io_bind_def wakeup_def IOTask_new_def set_iotask_def upd_sock_def signal_def new_sock_def fun_upd_idem)
  have v: "stack x = []" "batch x = []" "io_wait x u = None" for u by (simp_all add: x batch_def io_wait_def)
  have "new_ok x" unfolding new_ok_def v by (simp add: x)
  moreover have "alive_ok (load_start x)" by (simp add: alive_ok_def load_start_def v)
  moreover have "owners_ok (load_start x)" by (simp add: owners_ok_def load_start_def)
  moreover have "server_ok (load_start x)" by (simp add: server_ok_def load_start_def)
  moreover have "running_ok (load_start x)" by (simp add: running_ok_def load_start_def v)
  moreover have "count_ok (load_start x)" by (simp add: count_ok_def load_start_def)
  ultimately show ?thesis using IOCore_new_inv [OF assms] by (intro load_invI) (simp_all add: load_start_def)
qed

end
