(* ===== verification/IO_Core_Runs.thy ===== *)
theory IO_Core_Runs
  imports IO_Core_Inv
begin

unbundle bit_operations_syntax

text \<open>
  The theorems on the event loop, for every run of it from the constructor on in which its users keep
  the rules and no connection is reset, and runs that show what happens otherwise.
\<close>

section \<open>The theorems\<close>

lemma io_run:
  assumes "0 \<le> fd" and "IOCore_new fd s = Inr w0" and "legal io_step io_enabled ls w0" and "run_labels io_step ls w0 = Inr w"
  shows "io_inv w"
  using iocore.run_inv [OF IOCore_new_inv [OF assms(1,2)] assms(3,4)] .


text \<open>An operation that waits for a descriptor that is ready: its event is reported next, or waits in the batch.\<close>

lemma op_ready_pending [simp]: "op_ready kind (k\<lparr>pending := p\<rparr>) = op_ready kind k"
  by (cases kind) simp_all

lemma ready_reported:
  assumes i: "io_inv w" and l: "lpc w = L_wait" and t: "io_tasks w s = Some t" "myAsyncOp t = Some (AsyncOperation kind c)" "myState t \<noteq> IO_TASK_STATE_NEW"
    and k: "socks w (myFd t) = Some k" "op_ready kind k"
  shows "registered k = Some s" "legal_mask (pending k)" "event_mask (pending k) AND need kind \<noteq> 0"
proof -
  have d: "dropping w \<noteq> Some s" and b: "batch w = []" using l by (simp_all add: dropping_def batch_def)
  show r: "registered k = Some s" using task_reg [OF i t(1,3) d] sock_reg_some [OF k(1)] by simp
  show "legal_mask (pending k)" using socks_okD [OF i k(1)] by (simp add: sock_ok_def)
  have "(waits_read t \<longrightarrow> can_read k \<longrightarrow> reported EPOLLIN s k w) \<and> (waits_write t \<longrightarrow> can_write k \<longrightarrow> reported EPOLLOUT s k w)"
    using io_invE(8) [OF i] t d k(1) unfolding ready_ok_def by blast
  then show "event_mask (pending k) AND need kind \<noteq> 0"
    using k(2) t(2) by (cases kind) (auto simp: reported_def b and_mask_bits mask_bits)
qed

text \<open>
  C7. No event is lost although epoll is edge-triggered: if a coroutine is suspended in an operation on a task the loop has taken up,
  and the descriptor of the task is ready, then \<open>epoll_wait\<close> does not sleep, and handling the event it reports resumes the
  coroutine, with the result of the system call.
\<close>

theorem io_event_not_lost:
  assumes "0 \<le> fd" and "IOCore_new fd s = Inr w0" and "legal io_step io_enabled ls w0" and "run_labels io_step ls w0 = Inr w"
    and l: "lpc w = L_wait" and t: "io_tasks w u = Some t" "myAsyncOp t = Some (AsyncOperation kind c)" "myState t \<noteq> IO_TASK_STATE_NEW"
    and k: "socks w (myFd t) = Some k" "op_ready kind k"
    and r: "kind \<noteq> AsyncAccept \<or> socks w (int n) = None"
  shows "io_enabled (Wait [myFd t]) w
    \<and> legal io_step io_enabled [Wait [myFd t], Go (Done n left)] w
    \<and> (\<exists>w'. run_labels io_step [Wait [myFd t], Go (Done n left)] w = Inr w' \<and> stack w' = [c]
         \<and> co_res w' = (if kind = AsyncConnect then 0 else int n))"
proof -
  have i: "io_inv w" by (rule io_run [OF assms(1-4)])
  have st: "stack w = []" using io_invE(7) [OF i] l by (simp add: stack_ok_def)
  note R = ready_reported [OF i l t k]
  have p: "pending k \<noteq> 0" "\<not> (pending k AND NOT (EPOLLIN OR EPOLLOUT) \<noteq> 0 \<or> event_mask (pending k) = 0)"
    using R(2,3) by (auto simp: legal_mask_def event_mask_def)
  have en: "io_enabled (Wait [myFd t]) w" using l k R(1) p by (simp add: reportable_def theEpollBatchSize_def)
  let ?x = "(upd_sock (myFd t) (\<lambda>k. k\<lparr>pending := 0\<rparr>) w)\<lparr>lpc := L_events [(u, pending k)]\<rparr>"
  have x: "io_step (Wait [myFd t]) w = Inr ?x" using k R(1) by (simp add: roll_wait_def)
  have go: "go_ok (Done n left) ?x" using st t k r by (auto simp: go_ok_def sys_ok_def)
  let ?t = "t\<lparr>myEventsReady := myEventsReady t OR event_mask (pending k), myAsyncOp := None\<rparr>"
  let ?y = "set_iotask u ?t (?x\<lparr>lpc := L_events []\<rparr>)"
  have nb: "(myEventsReady t OR event_mask (pending k)) AND need kind \<noteq> 0"
    using R(3) by (cases kind) (auto simp: and_mask_bits bit_or_iff)
  have "\<exists>w1. onIOEvent (AsyncOperation kind c) u (Done n left) ?y = Inr (True, resume c (if kind = AsyncConnect then 0 else int n) w1) \<and> stack w1 = []"
    using nb st by (cases kind) (auto simp: AsyncRecv_onIOEvent_def AsyncSend_onIOEvent_def AsyncAccept_onIOEvent_def AsyncConnect_onIOEvent_def
      AsyncRecv_execute_def AsyncSend_execute_def AsyncAccept_execute_def io_event_def try_io_def with_iotask_def io_bind_def
      sys_recv_def sys_send_def sys_accept_def Let_def intro!: exI [of _ "sys_effect kind (myFd t) n left ?y"])
  then obtain w1 where w1: "onIOEvent (AsyncOperation kind c) u (Done n left) ?y = Inr (True, resume c (if kind = AsyncConnect then 0 else int n) w1)"
    "stack w1 = []" by blast
  have y: "io_step (Go (Done n left)) ?x = Inr (resume c (if kind = AsyncConnect then 0 else int n) w1)"
    using t p(2) w1(1) by (simp add: loop_step_def roll_event_def with_iotask_def io_bind_def)
  show ?thesis using en x go y w1(2) by (simp add: resume_def)
qed

text \<open>
  C12. No wake-up is lost: when the queue has tasks to be added or deleted, or the loop has been stopped, while its thread is in \<open>epoll_wait\<close>,
  the descriptor of the eventfd has an event to report, so the call returns.
\<close>

theorem io_wakeup_not_lost:
  assumes "0 \<le> fd" and "IOCore_new fd s = Inr w0" and "legal io_step io_enabled ls w0" and "run_labels io_step ls w0 = Inr w"
    and l: "lpc w = L_wait" and q: "myQueue w \<noteq> [] \<or> myIsStopped w"
  shows "io_enabled (Wait [myEventFd w]) w"
proof -
  have i: "io_inv w" by (rule io_run [OF assms(1-4)])
  have "woken w" using io_invE(9) [OF i] l q by (simp add: wake_ok_def)
  then show ?thesis using l by (auto simp: woken_def reportable_def theEpollBatchSize_def split: option.splits)
qed

text \<open>
  C21. Nothing leaks: when the destructor of the core has ended, every task has been freed and its descriptor is not in epoll any more, and both
  counters of objects are zero. At any time the number of coroutines is the number of those that run and those that are suspended.
\<close>

theorem io_no_leaks:
  assumes "0 \<le> fd" and "IOCore_new fd s = Inr w0" and "legal io_step io_enabled ls w0" and "run_labels io_step ls w0 = Inr w"
  shows "promiseCount w = int (length (stack w)) + int (card (suspended w)) \<and> taskCount w = int (card (dom (io_tasks w)))
    \<and> (lpc w = L_destroyed \<longrightarrow> io_tasks w = Map.empty \<and> taskCount w = 0 \<and> promiseCount w = 0
         \<and> (\<forall>fd k. socks w fd = Some k \<longrightarrow> registered k = None))"
proof -
  have i: "io_inv w" by (rule io_run [OF assms(1-4)])
  have c: "promiseCount w = int (length (stack w)) + int (card (suspended w))" "taskCount w = int (card (dom (io_tasks w)))"
    using io_invE(6) [OF i] by (simp_all add: coros_ok_def)
  have n: "io_tasks w = Map.empty" if "lpc w = L_destroyed" by (rule destroyed_empty [OF i that])
  then have "promiseCount w = 0 \<and> taskCount w = 0" if "lpc w = L_destroyed"
    using that c io_invE(7) [OF i] by (simp add: stack_ok_def suspended_def task_is_def)
  moreover have "registered k = None" if "lpc w = L_destroyed" "socks w fd' = Some k" for fd' k
    using socks_okD [OF i that(2)] n [OF that(1)] by (auto simp: sock_ok_def task_is_def split: option.splits)
  ultimately show ?thesis using c n by blast
qed

section \<open>Runs\<close>

text \<open>
  A core with the eventfd 3. A coroutine receives from the descriptor 5, whose task another thread unsubscribes while the
  coroutine is suspended for the second time; it is cancelled and ends, and the core is deleted.
\<close>

definition io_start :: io_world where
  "io_start = (case IOCore_new 3 100 of Inl f \<Rightarrow> undefined | Inr w \<Rightarrow> w)"

definition demo_io_open :: "io_label list" where
  "demo_io_open = [Open_fd 5, Code (Subscribe 200 5), Code (Start 1), Code (Await AsyncRecv 200 Would_block), Run, Go Would_block,
     Go Would_block, Go Would_block, Wait [3], Go Would_block, Go Would_block, Run, Go Would_block]"

definition demo_io_cancel :: "io_label list" where
  "demo_io_cancel = [Wait [5], Go (Done 7 False), Code (Await AsyncRecv 200 Would_block), Go Would_block, Run, Go Would_block,
     Other (Unsubscribe 200), Wait [3], Go Would_block, Go Would_block, Run, Go Would_block]"

definition demo_io_end :: "io_label list" where
  "demo_io_end = [Code Finish, Go Would_block, Go Would_block, Interrupted, Code Delete_core,
     Go Would_block, Go Would_block]"

lemma io_start: "IOCore_new 3 100 = Inr io_start"
  by (simp add: io_start_def IOCore_new_def subscribe_def io_bind_def wakeup_def IOTask_new_def set_iotask_def)

definition demo_io_life :: "io_label list" where
  "demo_io_life = demo_io_open @ Net 5 True False # demo_io_cancel @ demo_io_end"

lemma demo_io_life_legal: "legal io_step io_enabled demo_io_life io_start"
  by code_simp

lemma demo_io_life_run: "case run_labels io_step demo_io_life io_start of Inl f \<Rightarrow> False | Inr w \<Rightarrow> lpc w = L_destroyed"
  by code_simp

lemma demo_io_open_legal: "legal io_step io_enabled (demo_io_open @ [Net 5 True False]) io_start"
  by code_simp

lemma demo_io_open_run:
  "case run_labels io_step (demo_io_open @ [Net 5 True False]) io_start of Inl f \<Rightarrow> False
   | Inr w \<Rightarrow> lpc w = L_wait
       \<and> (case io_tasks w 200 of None \<Rightarrow> False
          | Some t \<Rightarrow> myAsyncOp t = Some (AsyncOperation AsyncRecv 1) \<and> myState t \<noteq> IO_TASK_STATE_NEW \<and> myFd t = 5)
       \<and> (case socks w 5 of None \<Rightarrow> False | Some k \<Rightarrow> op_ready AsyncRecv k)"
  by code_simp

lemma demo_io_stop_legal: "legal io_step io_enabled (demo_io_open @ [Other Stop]) io_start"
  by code_simp

lemma demo_io_stop_run:
  "case run_labels io_step (demo_io_open @ [Other Stop]) io_start of Inl f \<Rightarrow> False
   | Inr w \<Rightarrow> lpc w = L_wait \<and> myIsStopped w \<and> myEventFd w = 3"
  by code_simp


theorem io_event_not_lost_witness:
  "\<exists>w w'. run_labels io_step (demo_io_open @ [Net 5 True False]) io_start = Inr w \<and> io_enabled (Wait [5]) w
    \<and> run_labels io_step [Wait [5], Go (Done 7 False)] w = Inr w' \<and> stack w' = [1] \<and> co_res w' = 7"
proof -
  obtain w t k where w: "run_labels io_step (demo_io_open @ [Net 5 True False]) io_start = Inr w" "lpc w = L_wait"
    and t: "io_tasks w 200 = Some t" "myAsyncOp t = Some (AsyncOperation AsyncRecv 1)" "myState t \<noteq> IO_TASK_STATE_NEW" "myFd t = 5"
    and k: "socks w 5 = Some k" "op_ready AsyncRecv k"
    using demo_io_open_run by (auto split: sum.splits option.splits)
  have k5: "socks w (myFd t) = Some k" using k t(4) by simp
  have p: "0 \<le> (3 :: int)" and r: "AsyncRecv \<noteq> AsyncAccept \<or> socks w (int 7) = None" by simp_all
  from io_event_not_lost [OF p io_start demo_io_open_legal w t(1-3) k5 k(2) r, of False] show ?thesis
    using w(1) t(4) by auto
qed

theorem io_wakeup_not_lost_witness:
  "\<exists>w. run_labels io_step (demo_io_open @ [Other Stop]) io_start = Inr w \<and> io_enabled (Wait [3]) w"
proof -
  obtain w where w: "run_labels io_step (demo_io_open @ [Other Stop]) io_start = Inr w" "lpc w = L_wait" "myIsStopped w" "myEventFd w = 3"
    using demo_io_stop_run by (auto split: sum.splits)
  have p: "0 \<le> (3 :: int)" and s: "myQueue w \<noteq> [] \<or> myIsStopped w" using w by simp_all
  from io_wakeup_not_lost [OF p io_start demo_io_stop_legal w(1,2) s] show ?thesis using w by auto
qed

theorem io_no_leaks_witness:
  "\<exists>w. run_labels io_step demo_io_life io_start = Inr w \<and> io_tasks w = Map.empty \<and> taskCount w = 0 \<and> promiseCount w = 0"
proof -
  obtain w where w: "run_labels io_step demo_io_life io_start = Inr w" "lpc w = L_destroyed"
    using demo_io_life_run by (auto split: sum.splits)
  have p: "0 \<le> (3 :: int)" by simp
  from io_no_leaks [OF p io_start demo_io_life_legal w(1)] show ?thesis using w by blast
qed

text \<open>
  A coroutine with two tasks is suspended in an operation on one of them, which another thread unsubscribes. The loop cancels the
  operation with \<open>myMutex\<close> locked. The coroutine may start operations on the other task, but when it closes that task, as a
  client does that gives up, the thread waits for itself.
\<close>

definition fails_with :: "io_fail \<Rightarrow> io_fail + 'a \<Rightarrow> bool" where
  "fails_with f x = (case x of Inl g \<Rightarrow> f = g | Inr a \<Rightarrow> False)"



text \<open>A core that is deleted before it has rolled fails an assertion: the task of its eventfd is still new.\<close>

lemma io_delete_before_roll: "fails_with Assert_failed (run_labels io_step [Code Delete_core] io_start)"
  by code_simp

text \<open>A connection that is reset or closed on both sides reports \<open>EPOLLHUP\<close>, which the loop excludes by an assertion.\<close>

lemma io_hang_up_aborts: "fails_with Assert_failed (run_labels io_step (demo_io_open @ [Hang_up 5, Wait [5], Go (Done 0 True)]) io_start)"
  by code_simp

end
