(* ===== verification/IO_Load_Runs.thy ===== *)
theory IO_Load_Runs
  imports IO_Load_Inv IO_Core_Runs
begin

unbundle bit_operations_syntax

text \<open>
  The theorems on the load test: its coroutines keep the rules of the event loop, and nothing is left when it has ended.
\<close>

section \<open>The load test uses the event loop\<close>











section \<open>The theorems\<close>



text \<open>
  C22. The three counters that \<open>main\<close> asserts to be zero: when the destructor of the core has ended, there is no client, no coroutine and
  no task left. Before, \<open>Client::theCount\<close> is the number of coroutines that run a client or are about to.
\<close>

theorem load_counters_zero:
  assumes "0 \<le> fd" and "IOCore_new fd s = Inr x" and "legal load_step load_enabled ls (load_start x)"
    and "run_labels load_step ls (load_start x) = Inr w"
  shows "client_count w = int (card {c. \<exists>pc s. progs w c = Some pc \<and> client_of pc = Some s})
    \<and> (lpc (io w) = L_destroyed \<longrightarrow> progs w = Map.empty \<and> client_count w = 0 \<and> promiseCount (io w) = 0 \<and> taskCount (io w) = 0)"
proof -
  have i: "load_inv w" by (rule load.run_inv [OF load_start_inv [OF assms(1,2)] assms(3,4)])
  note I = load_invE [OF i]
  have c: "client_count w = int (card {c. \<exists>pc s. progs w c = Some pc \<and> client_of pc = Some s})" using I(7) by (simp add: count_ok_def)
  have "progs w = Map.empty \<and> client_count w = 0 \<and> promiseCount (io w) = 0 \<and> taskCount (io w) = 0" if l: "lpc (io w) = L_destroyed"
  proof -
    have st: "stack (io w) = []" using io_invE(7) [OF I(1)] l by (simp add: stack_ok_def)
    have t: "io_tasks (io w) = Map.empty" by (rule destroyed_empty [OF I(1) l])
    then have "io_wait (io w) u = None" for u by (simp add: io_wait_def)
    then have "progs w u = None" for u using I(3) st by (simp add: alive_ok_def)
    then have p: "progs w = Map.empty" by blast
    moreover have "promiseCount (io w) = 0" "taskCount (io w) = 0"
      using io_invE(6) [OF I(1)] st t by (simp_all add: coros_ok_def suspended_def task_is_def)
    ultimately show ?thesis using c by simp
  qed
  then show ?thesis using c by blast
qed

section \<open>A run\<close>

text \<open>
  The core of the server: a server on the descriptor 5 accepts the connection 7, serves it, is stopped, and the core is deleted.
\<close>

definition demo_go :: load_label where
  "demo_go = Loop (Go Would_block)"

definition demo_step :: load_label where
  "demo_step = Coro Would_block 300 2"


definition demo_load_serve :: "load_label list" where
  "demo_load_serve = [Loop (Open_fd 5), New_server 200 5 1, demo_step, Loop Run, demo_go, demo_go, demo_go, Loop (Wait [3]), demo_go, demo_go,
     Loop (Net 5 True False), Loop Run, demo_go, Loop (Wait [5]), Loop (Go (Done 7 False)), demo_step, demo_step, demo_step, demo_step, demo_go,
     Loop Run, demo_go, demo_go, Loop (Wait [3]), demo_go, demo_go, Loop (Net 7 True True), Loop Run, demo_go, Loop (Wait [7]),
     Loop (Go (Done 1 True)), Coro (Done 1 True) 0 0, demo_step]"

definition demo_load_end :: "load_label list" where
  "demo_load_end = [demo_step, demo_step, demo_go, Stop_server, Loop Run, demo_go, demo_go, demo_step, demo_step, demo_go, demo_go, Loop (Wait [3]), demo_go, demo_go, Loop (Code Delete_core), demo_go, demo_go]"

text \<open>A round of a client whose socket stays ready, and many of them.\<close>

definition demo_round :: "load_label list" where
  "demo_round = [Coro (Done 1 True) 0 0, Coro (Done 1 True) 0 0, Coro Would_block 0 0]"

definition in_round :: "nat \<Rightarrow> addr \<Rightarrow> nat \<Rightarrow> load_world \<Rightarrow> load_world" where
  "in_round c s i w = w\<lparr>io := (io w)\<lparr>co_res := 1\<rparr>, progs := (progs w)(c \<mapsto> Send_next s i)\<rparr>"

lemma co_await_ready:
  assumes "io_tasks x s = Some t" "socks x (myFd t) = Some k" "can_read k" "can_write k"
    "myEventsReady t AND IO_EVENT_READ \<noteq> 0" "myEventsReady t AND IO_EVENT_WRITE \<noteq> 0" and "kind = AsyncSend \<or> kind = AsyncRecv"
  shows "co_await kind s (Done 1 True) x = Inr (x\<lparr>co_res := 1\<rparr>)"
proof -
  have "upd_sock (myFd t) (\<lambda>k. k\<lparr>can_read := True\<rparr>) x = x" "upd_sock (myFd t) (\<lambda>k. k\<lparr>can_write := True\<rparr>) x = x"
    using assms(2-4) by (simp_all add: upd_sock_def fun_upd_idem)
  then show ?thesis using assms by (auto simp: co_await_def AsyncSend_execute_def AsyncRecv_execute_def try_io_def with_iotask_def
      sys_send_def sys_recv_def io_bind_def)
qed

lemma client_round:
  assumes st: "stack (io w) = c # cs" and i: "i < theRequestTargetCount"
    and t: "io_tasks (io w) s = Some t" "socks (io w) (myFd t) = Some k" "can_read k" "can_write k"
    "myEventsReady t AND IO_EVENT_READ \<noteq> 0" "myEventsReady t AND IO_EVENT_WRITE \<noteq> 0"
  shows "run_labels load_step demo_round (in_round c s i w) = Inr (in_round c s (Suc i) w)" "legal load_step load_enabled demo_round (in_round c s i w)"
proof -
  have a: "co_await kind s (Done (Suc 0) True) ((io w)\<lparr>co_res := 1\<rparr>) = Inr ((io w)\<lparr>co_res := 1\<rparr>)" if "kind = AsyncSend \<or> kind = AsyncRecv" for kind
    using co_await_ready [of "(io w)\<lparr>co_res := 1\<rparr>" s t k kind] t that by simp
  have r: "result_ok kind s (Done (Suc 0) True) v" if "kind = AsyncSend \<or> kind = AsyncRecv" "io v = (io w)\<lparr>co_res := 1\<rparr>" for kind v
    using t that by (auto simp: result_ok_def sys_ok_def)
  show "run_labels load_step demo_round (in_round c s i w) = Inr (in_round c s (Suc i) w)"
    using st i by (simp add: demo_round_def in_round_def coro_next_def coroRun_head_def coroRun_sent_def coroRun_received_def call_then_def on_core_def
      io_bind_def a set_pc_def)
  show "legal load_step load_enabled demo_round (in_round c s i w)"
    using st i r by (simp add: demo_round_def in_round_def coro_next_def coroRun_head_def coroRun_sent_def coroRun_received_def call_then_def on_core_def
      io_bind_def a set_pc_def)
qed

lemma client_rounds:
  assumes st: "stack (io w) = c # cs" and i: "i + n \<le> theRequestTargetCount"
    and t: "io_tasks (io w) s = Some t" "socks (io w) (myFd t) = Some k" "can_read k" "can_write k"
    "myEventsReady t AND IO_EVENT_READ \<noteq> 0" "myEventsReady t AND IO_EVENT_WRITE \<noteq> 0"
  shows "run_labels load_step (concat (replicate n demo_round)) (in_round c s i w) = Inr (in_round c s (i + n) w)
    \<and> legal load_step load_enabled (concat (replicate n demo_round)) (in_round c s i w)"
  using i
proof (induction n arbitrary: i)
  case (Suc n)
  have i: "i < theRequestTargetCount" and n: "Suc i + n \<le> theRequestTargetCount" using Suc.prems by simp_all
  note R = client_round [OF st i t]
  show ?case using Suc.IH [OF n] R legal_append [OF R(1)] by (simp add: run_labels_append)
qed simp

definition demo_served :: load_world where
  "demo_served = (case run_labels load_step demo_load_serve (load_start io_start) of Inl f \<Rightarrow> undefined | Inr w \<Rightarrow> w)"

definition demo_load :: "load_label list" where
  "demo_load = demo_load_serve @ concat (replicate 49 demo_round) @ demo_load_end"

lemma demo_load_serve_legal: "legal load_step load_enabled demo_load_serve (load_start io_start)"
  by code_simp

lemma demo_load_serve_run:
  "case run_labels load_step demo_load_serve (load_start io_start) of Inl f \<Rightarrow> False
   | Inr w \<Rightarrow> stack (io w) = [2] \<and> co_res (io w) = 1 \<and> progs w 2 = Some (Send_next 300 1)
       \<and> (case io_tasks (io w) 300 of None \<Rightarrow> False
          | Some t \<Rightarrow> myFd t = 7 \<and> myEventsReady t AND IO_EVENT_READ \<noteq> 0 \<and> myEventsReady t AND IO_EVENT_WRITE \<noteq> 0)
       \<and> (case socks (io w) 7 of None \<Rightarrow> False | Some k \<Rightarrow> can_read k \<and> can_write k)"
  by code_simp

lemma demo_load_end_legal: "legal load_step load_enabled demo_load_end (in_round 2 300 50 demo_served)"
  by code_simp

lemma demo_load_end_run:
  "case run_labels load_step demo_load_end (in_round 2 300 50 demo_served) of Inl f \<Rightarrow> False
   | Inr w \<Rightarrow> lpc (io w) = L_destroyed \<and> finish_count w = 1 \<and> server_finished w"
  by code_simp

lemma demo_served: "run_labels load_step demo_load_serve (load_start io_start) = Inr demo_served" "in_round 2 300 1 demo_served = demo_served"
proof -
  show r: "run_labels load_step demo_load_serve (load_start io_start) = Inr demo_served"
    using demo_load_serve_run unfolding demo_served_def by (simp split: sum.splits)
  show "in_round 2 300 1 demo_served = demo_served"
    using demo_load_serve_run unfolding r in_round_def by (intro load_world.equality io_world.equality) (simp_all add: fun_upd_idem)
qed

lemma demo_load_life:
  "legal load_step load_enabled demo_load (load_start io_start)"
  "\<exists>w. run_labels load_step demo_load (load_start io_start) = Inr w \<and> lpc (io w) = L_destroyed \<and> finish_count w = 1 \<and> server_finished w"
proof -
  obtain t k where t: "io_tasks (io demo_served) 300 = Some t" "socks (io demo_served) (myFd t) = Some k" "can_read k" "can_write k"
      "myEventsReady t AND IO_EVENT_READ \<noteq> 0" "myEventsReady t AND IO_EVENT_WRITE \<noteq> 0" and st: "stack (io demo_served) = [2]"
    using demo_load_serve_run unfolding demo_served(1) by (auto split: option.splits)
  have "run_labels load_step (concat (replicate 49 demo_round)) demo_served = Inr (in_round 2 300 50 demo_served)
    \<and> legal load_step load_enabled (concat (replicate 49 demo_round)) demo_served"
    using client_rounds [OF st _ t, of 1 49] demo_served(2) by (simp add: theRequestTargetCount_def)
  then show "legal load_step load_enabled demo_load (load_start io_start)"
    "\<exists>w. run_labels load_step demo_load (load_start io_start) = Inr w \<and> lpc (io w) = L_destroyed \<and> finish_count w = 1 \<and> server_finished w"
    unfolding demo_load_def using demo_load_serve_legal demo_load_end_legal demo_load_end_run
    by (simp_all add: legal_append [OF demo_served(1)] legal_append run_labels_append demo_served(1) split: sum.splits)
qed



theorem load_counters_zero_witness:
  "\<exists>w. run_labels load_step demo_load (load_start io_start) = Inr w \<and> finish_count w = 1 \<and> client_count w = 0
     \<and> promiseCount (io w) = 0 \<and> taskCount (io w) = 0"
proof -
  obtain w where w: "run_labels load_step demo_load (load_start io_start) = Inr w" "lpc (io w) = L_destroyed" "finish_count w = 1"
    using demo_load_life(2) by blast
  have p: "0 \<le> (3 :: int)" by simp
  from load_counters_zero [OF p io_start demo_load_life(1) w(1)] show ?thesis using w by blast
qed

end
