(* ===== verification/Spec2Isabelle.thy ===== *)
theory Spec2Isabelle
  imports Rlist Shell Userfs_Spec Libcoro_Links Corobus_Runs Chat_Server_Runs Thread_Pool_Runs Heap_Help IO_Load_Runs
begin

text \<open>
  Verification of the programs of a system programming course: a coroutine library and a message
  bus on it (\<open>1/\<close>), a shell (\<open>2/\<close>), a file system in memory (\<open>3/\<close>), a thread pool (\<open>4/\<close>), a chat (\<open>5/\<close>), and
  the intrusive list and the heap checker they share (\<open>utils/\<close>). The programs are independent of each other; they share
  the two utilities.

  \<^bold>\<open>Layout.\<close> Three theories are about no program: \<open>Prelude\<close> has the types of machine values and
  facts on lists, \<open>Streams\<close> the contract of a function that takes items off the front of a byte stream
  (locale \<open>stream_popper\<close>: the items do not depend on how the stream was cut into chunks), \<open>Machines\<close> the contracts of
  a sequential interface that refines an abstract machine (locale \<open>machine_refinement\<close>) and of interleaved threads
  with an invariant (locale \<open>safe_system\<close>, with runs, legality of labels and recorded events), and of such a system that uses
  another one by its rules (locale \<open>client_system\<close>).

  \<^bold>\<open>Intrusive list\<close> (\<open>utils/rlist.h\<close>, theory \<open>Rlist\<close>). A heap of nodes with two pointers each; every function and macro is a
  function on that heap. \<open>chain\<close> relates a heap to the sequences the lists stand for, the lemmas in \<open>rlist_laws\<close> say what each
  function does to the sequences, those in \<open>frame_laws\<close> what it leaves unchanged.

  \<^bold>\<open>Shell\<close> (\<open>2/parser.cpp\<close> in \<open>Parser\<close>, \<open>2/solution.cpp\<close> in \<open>Shell\<close>). The parser is a function on the buffered bytes with the
  states of the token automaton; it is a \<open>stream_popper\<close>. Shown: progress, well-formed lines, independence
  of chunks, and that a printer is undone by it. The shell runs lines in a world of processes and descriptors, with
  what commands do as a parameter; shown: pipes connect neighbours and only them, splitting into segments keeps
  the line, the whole shell does not depend on how its input was cut.

  \<^bold>\<open>File system\<close> (\<open>3/userfs.cpp\<close> in \<open>Userfs\<close>, the specification in \<open>Userfs_Spec\<close>). Blocks, files and descriptors are records in a
  heap, every \<open>ufs_\<close> function is a function on it that fails on undefined behaviour. The specification has
  files as byte lists. The model refines it for all sequences of calls without reads of zero bytes
  (a lemma shows that the exception is needed), allocates exactly the blocks that the contents need, and frees all of them.

  \<^bold>\<open>Coroutines\<close> (\<open>1/libcoro.cpp\<close> in \<open>Libcoro\<close>, \<open>Libcoro_Runs\<close>, \<open>Libcoro_View\<close>, \<open>Libcoro_Links\<close>). The engine is a transition system; a label says what the
  running coroutine does. The invariant interprets \<open>safe_system\<close>. Shown: assertions hold, rounds are first in first out,
  no joiner is lost, results reach the joiner, and the intrusive lists underneath represent the queues used in the model.
  \<open>Libcoro_View\<close> is what the bus needs of the engine.

  \<^bold>\<open>Bus\<close> (\<open>1/corobus.cpp\<close> in \<open>Corobus\<close>, \<open>Corobus_Inv\<close>, \<open>Corobus_Runs\<close>). Channels with queues of suspended senders and receivers. Shown for all
  interleavings: no access to a deleted channel, messages first in first out, limits kept, a channel outlives its waiters.

  \<^bold>\<open>Chat\<close> (\<open>5/chat.h\<close>, \<open>5/chat.cpp\<close>, \<open>5/chat_client.cpp\<close> in \<open>Chat\<close>; \<open>5/chat_server.cpp\<close> in \<open>Chat_Server\<close>). What the operating system answers is a
  script: results of \<open>recv\<close>, \<open>send\<close>, \<open>accept\<close>, the events of \<open>poll\<close> and \<open>epoll_wait\<close>; the state records the bytes on each
  socket and the open descriptors. \<open>Chat_Lines\<close> has the line protocol (again a \<open>stream_popper\<close>) and that the client's parser undoes the
  server's format; \<open>Chat_Client_Runs\<close> the stream a client sends; \<open>Chat_Server_Inv\<close> the invariant of the server and the
  effect of every function on the streams of the peers; \<open>Chat_Server_Runs\<close> the delivery of messages from end to
  end and the ledger of descriptors.

  \<^bold>\<open>Thread pool\<close> (\<open>4/thread_pool.cpp\<close> in \<open>Thread_Pool\<close>, \<open>Thread_Pool_Inv\<close>, \<open>Thread_Pool_Runs\<close>). A step is a critical section, or one access to the atomic counter or the
  heap outside of them; workers and any number of user threads interleave. \<open>tp_move\<close> sorts the steps by
  what they change, and the invariant (where each task is, what the counter counts, who sleeps) is kept by each.
  Shown: memory safety, each accepted push runs once, first in first out, deletion ends.

  \<^bold>\<open>Event loop\<close> (\<open>examples/cpp20_coroutines/iocoro.cpp\<close> and \<open>iocoro.h\<close> in \<open>IO_Core\<close>, \<open>IO_Core_Inv\<close>, \<open>IO_Core_Runs\<close>). The thread of the loop, the coroutines on it,
  other threads and the operating system interleave; a record has the core, the tasks on the heap, the descriptors with their unreported
  epoll events, and the coroutines that run. \<open>io_enabled\<close> states the rules of the users and what epoll and non-blocking calls do.
  The invariant (each task at its index, epoll points to live tasks, whoever waits is still to be told, counters) interprets \<open>safe_system\<close>.
  Shown: assertions hold, no event and no wake-up is lost, nothing leaks; what is left open by the rules (a reset connection, closing a task
  from a cancelled coroutine) fails in concrete runs.

  \<^bold>\<open>Load test\<close> (\<open>examples/cpp20_coroutines/main.cpp\<close> in \<open>IO_Load\<close>, \<open>IO_Load_Inv\<close>, \<open>IO_Load_Runs\<close>). The coroutines of the clients and of the server around the
  event loop, one core at a time: \<open>coro_pc\<close> has the places where they call it. \<open>IO_Core_Steps\<close> says what a step of the loop does to tasks and coroutines
  (\<open>quiet_step\<close>, \<open>await_effect\<close>, \<open>resumed_step\<close>). The invariant (who works on which task in which state, what the running coroutine relies on) interprets
  \<open>safe_system\<close> and \<open>client_system\<close>. Shown: the coroutines keep the rules of the loop, no assertion fails, the counters end at zero.

  \<^bold>\<open>Heap checker\<close> (\<open>utils/heap_help/heap_help.cpp\<close> in \<open>Heap_Help\<close>). Shown: it refines a table of live blocks, needs
  as many records as blocks were live at once, and reports what is live.

  \<^bold>\<open>Bounds and fuel.\<close> No function of the models has fuel that can run out: loops are structural, or recursive with a measure;
  \<open>drain_upto\<close> takes at most as many items as the buffer has bytes, which the locale shows to be enough. Counters have the width
  of the code where they can wrap around (\<open>to_u32\<close>, words), and are integers where an invariant bounds them.

  \<^bold>\<open>Not modelled.\<close> The tests and the \<open>main\<close> functions; the lecture examples; of the load test the two
  threads and the waiting of \<open>main\<close> for its counters; the chat on Boost in \<open>advanced/boost_chat\<close>; the switching of stacks below \<open>libcoro\<close> (\<open>sigaltstack\<close> and \<open>sigjmp\<close>), which
  the model replaces with the choice of the coroutine that runs; the time-outs of \<open>poll\<close> and of timed waits, of which only
  the outcome is modelled; null pointers passed as arguments where the code only rejects them.
\<close>

end
